(* ===== verification/Ndn_Prelude.thy ===== *)
theory Ndn_Prelude
  imports Main "HOL-Library.Word" "HOL-Library.Code_Target_Nat" "HOL-Library.Multiset"
begin

text \<open>
  What every component shares: the Go machine types as words and lists, the three ways a Go call
  can end (a value, an error value, a run-time panic) as one datatype with its sequencing, and the
  big-endian byte layout that the number codecs, the LpPacket sequence number and the Nonce use.
\<close>

unbundle bit_operations_syntax

named_theorems outcome_simps \<open>evaluation of the outcome combinators\<close>
named_theorems codec_simps \<open>encode and decode equations that compose\<close>

type_synonym byte = "8 word"
type_synonym bytes = "byte list"
type_synonym u8 = "8 word"
type_synonym u16 = "16 word"
type_synonym u32 = "32 word"
type_synonym u64 = "64 word"

text \<open>
  A Go byte slice never has more than \<open>2 ^ 63 - 1\<close> bytes, because its length is an \<open>int\<close>.
\<close>

definition slice_ok :: "'a list \<Rightarrow> bool" where
  "slice_ok xs \<longleftrightarrow> length xs < 2 ^ 63"

subsection \<open>Error values and outcomes\<close>

text \<open>
  The sentinel errors of \<open>ndn/tlv/errors.go\<close> and of \<open>ndn/errors.go\<close>, and the error values that a
  caller's signer, verifier or transport may return.
\<close>

datatype error =
    ErrIncomplete | ErrTail | ErrType | ErrCritical | ErrRange | ErrErrorField
  | ErrFragment | ErrL3Type | ErrComponentType | ErrNonceLen | ErrLifetime | ErrHopLimit
  | ErrParamsDigest | ErrContentType | ErrSigType | ErrKeyLocator | ErrSigNonce | ErrSigValue
  | ErrOther string

datatype 'a outcome = Ok 'a | Fail error | Panic

primrec andthen :: "'a outcome \<Rightarrow> ('a \<Rightarrow> 'b outcome) \<Rightarrow> 'b outcome" where
  "andthen (Ok x) f = f x"
| "andthen (Fail e) f = Fail e"
| "andthen Panic f = Panic"

definition ensure :: "bool \<Rightarrow> error \<Rightarrow> unit outcome" where
  "ensure b e = (if b then Ok () else Fail e)"

lemma andthen_Ok_iff [simp]:
  "andthen m f = Ok y \<longleftrightarrow> (\<exists>x. m = Ok x \<and> f x = Ok y)"
  by (cases m) auto

lemma andthen_Panic_iff:
  "andthen m f = Panic \<longleftrightarrow> m = Panic \<or> (\<exists>x. m = Ok x \<and> f x = Panic)"
  by (cases m) auto

lemma andthen_assoc:
  "andthen (andthen m f) g = andthen m (\<lambda>x. andthen (f x) g)"
  by (cases m) auto

lemma andthen_return [simp]: "andthen m Ok = m"
  by (cases m) auto

lemma ensure_Ok_iff [simp]: "ensure b e = Ok u \<longleftrightarrow> b"
  by (simp add: ensure_def)

lemma ensure_not_Panic [simp]: "ensure b e \<noteq> Panic"
  by (simp add: ensure_def)

lemma ensure_True [simp]: "ensure True e = Ok ()"
  by (simp add: ensure_def)

text \<open>A method that changes its receiver returns the receiver as it is when the method returns.\<close>

primrec onOk :: "'s \<Rightarrow> 'a outcome \<Rightarrow> ('a \<Rightarrow> 's \<times> 'b outcome) \<Rightarrow> 's \<times> 'b outcome" where
  "onOk s (Ok x) k = k x"
| "onOk s (Fail e) k = (s, Fail e)"
| "onOk s Panic k = (s, Panic)"

lemma onOk_Ok_iff: "onOk s m k = (s', Ok y) \<longleftrightarrow> (\<exists>x. m = Ok x \<and> k x = (s', Ok y))"
  by (cases m) auto

text \<open>A Go \<open>for range\<close> loop whose body may return early with an error.\<close>

primrec forRange :: "('s \<Rightarrow> 'x \<Rightarrow> 's outcome) \<Rightarrow> 's \<Rightarrow> 'x list \<Rightarrow> 's outcome" where
  "forRange f s [] = Ok s"
| "forRange f s (x # xs) = andthen (f s x) (\<lambda>s'. forRange f s' xs)"

lemma forRange_append [simp]:
  "forRange f s (xs @ ys) = andthen (forRange f s xs) (\<lambda>s'. forRange f s' ys)"
  by (induction xs arbitrary: s) (simp_all add: andthen_assoc)

lemma forRange_no_panic:
  "(\<And>s x. x \<in> set xs \<Longrightarrow> f s x \<noteq> Panic) \<Longrightarrow> forRange f s xs \<noteq> Panic"
  by (induction xs arbitrary: s) (auto simp: andthen_Panic_iff)

lemma forRange_invariant:
  assumes "forRange f s xs = Ok r" and "P s"
    and "\<And>s x s'. x \<in> set xs \<Longrightarrow> P s \<Longrightarrow> f s x = Ok s' \<Longrightarrow> P s'"
  shows "P r"
  using assms
proof (induction xs arbitrary: s)
  case (Cons x xs)
  from Cons.prems(1) obtain t where x: "f s x = Ok t" and t: "forRange f t xs = Ok r" by auto
  have "P t" by (rule Cons.prems(3) [OF _ Cons.prems(2) x]) simp
  with t show ?case by (rule Cons.IH) (rule Cons.prems(3), simp_all)
qed simp

lemma forRange_cong [fundef_cong]:
  assumes "xs = ys" and "s = t" and "\<And>r x. x \<in> set ys \<Longrightarrow> f r x = g r x"
  shows "forRange f s xs = forRange g t ys"
proof -
  have "(\<And>r x. x \<in> set ys \<Longrightarrow> f r x = g r x) \<Longrightarrow> forRange f t ys = forRange g t ys" for t
  proof (induction ys arbitrary: t)
    case (Cons y ys)
    then show ?case by (cases "g t y") simp_all
  qed simp
  with assms show ?thesis by simp
qed

lemma forRange_map: "forRange f s (map h xs) = forRange (\<lambda>s x. f s (h x)) s xs"
  by (induction xs arbitrary: s) simp_all

lemma forRange_filter: "forRange f s (filter P xs) = forRange (\<lambda>s x. if P x then f s x else Ok s) s xs"
  by (induction xs arbitrary: s) simp_all

text \<open>A loop that collects one result per element: the fold that appends.\<close>

lemma forRange_collect:
  "(\<And>x. x \<in> set xs \<Longrightarrow> g x = Ok (h x)) \<Longrightarrow>
   forRange (\<lambda>acc x. andthen (g x) (\<lambda>y. Ok (acc @ [y]))) acc xs = Ok (acc @ map h xs)"
  by (induction xs arbitrary: acc) auto

text \<open>A loop over a map visits every entry once, in some order.\<close>

definition visits_all :: "('a list \<Rightarrow> 'a list) \<Rightarrow> bool" where
  "visits_all visit \<longleftrightarrow> (\<forall>xs. mset (visit xs) = mset xs)"

lemma visits_all_set: "visits_all visit \<Longrightarrow> set (visit xs) = set xs"
  by (metis visits_all_def set_mset_mset)

subsection \<open>Big-endian integers\<close>

text \<open>Go's \<open>byte(n >> s)\<close>.\<close>

definition byte_at :: "u64 \<Rightarrow> nat \<Rightarrow> byte" where
  "byte_at n s = ucast (drop_bit s n)"

text \<open>
  The \<open>k\<close> low bytes of a number, most significant first (Go's \<open>binary.BigEndian.PutUint64\<close>
  for \<open>k = 8\<close>), and the number a byte string denotes (\<open>binary.BigEndian.Uint64\<close>).
\<close>

fun be_bytes :: "nat \<Rightarrow> u64 \<Rightarrow> bytes" where
  "be_bytes 0 n = []"
| "be_bytes (Suc k) n = byte_at n (8 * k) # be_bytes k n"

definition be_word :: "bytes \<Rightarrow> u64" where
  "be_word bs = foldl (\<lambda>a b. push_bit 8 a OR ucast b) 0 bs"

lemma length_be_bytes [simp]: "length (be_bytes k n) = k"
  by (induction k) auto

lemma be_bytes_fold:
  "foldl (\<lambda>a b. push_bit 8 a OR ucast b) a (be_bytes k n)
     = push_bit (8 * k) a OR take_bit (8 * k) (n :: u64)"
proof (induction k arbitrary: a)
  case 0
  then show ?case by simp
next
  case (Suc k)
  have "push_bit (8 * k) (push_bit 8 a OR ucast (byte_at n (8 * k))) OR take_bit (8 * k) n
        = push_bit (8 * Suc k) a OR take_bit (8 * Suc k) n"
    by (rule bit_eqI)
      (auto simp: byte_at_def bit_or_iff bit_push_bit_iff bit_take_bit_iff bit_ucast_iff
        bit_drop_bit_eq ac_simps)
  then show ?case by (simp add: Suc)
qed

lemma be_word_be_bytes [codec_simps]: "be_word (be_bytes k n) = take_bit (8 * k) n"
  by (simp add: be_word_def be_bytes_fold)

end
