(* ===== verification/Tlv_Num.thy ===== *)
theory Tlv_Num
  imports Ndn_Prelude
begin

text \<open>
  The two number encodings of NDN-TLV: \<open>VarNum\<close> (\<open>ndn/tlv/varnum.go\<close>), used for TLV-TYPE and
  TLV-LENGTH, and \<open>NNI\<close> (\<open>ndn/tlv/nni.go\<close>), the NonNegativeInteger used in TLV-VALUE. Both are
  Go \<open>uint64\<close> values. The lemmas show that each decoder inverts its encoder in front of any
  further input, that encoders emit as many bytes as \<open>Size\<close> announces, and that no accepted
  encoding is shorter.
\<close>

subsection \<open>VarNum\<close>

type_synonym VarNum = u64

definition VarNum_Size :: "VarNum \<Rightarrow> nat" where
  "VarNum_Size n =
     (if n < 0xFD then 1
      else if n \<le> 0xFFFF then 3
      else if n \<le> 0xFFFFFFFF then 5
      else 9)"

definition VarNum_Encode :: "VarNum \<Rightarrow> bytes \<Rightarrow> bytes" where
  "VarNum_Encode n buf =
     (if n < 0xFD then buf @ [byte_at n 0]
      else if n \<le> 0xFFFF then buf @ [0xFD, byte_at n 8, byte_at n 0]
      else if n \<le> 0xFFFFFFFF then
        buf @ [0xFE, byte_at n 24, byte_at n 16, byte_at n 8, byte_at n 0]
      else
        buf @ [0xFF, byte_at n 56, byte_at n 48, byte_at n 40, byte_at n 32,
               byte_at n 24, byte_at n 16, byte_at n 8, byte_at n 0])"

text \<open>Decode returns the number (written through the receiver in Go) and the rest of the input.\<close>

definition VarNum_Decode :: "bytes \<Rightarrow> (VarNum \<times> bytes) outcome" where
  "VarNum_Decode wire =
     (if length wire \<ge> 1 \<and> wire ! 0 < 0xFD then Ok (ucast (wire ! 0), drop 1 wire)
      else if length wire \<ge> 3 \<and> wire ! 0 = 0xFD then
        Ok (push_bit 8 (ucast (wire ! 1)) OR ucast (wire ! 2), drop 3 wire)
      else if length wire \<ge> 5 \<and> wire ! 0 = 0xFE then
        Ok (push_bit 24 (ucast (wire ! 1)) OR push_bit 16 (ucast (wire ! 2))
            OR push_bit 8 (ucast (wire ! 3)) OR ucast (wire ! 4), drop 5 wire)
      else if length wire \<ge> 9 \<and> wire ! 0 = 0xFF then
        Ok (push_bit 56 (ucast (wire ! 1)) OR push_bit 48 (ucast (wire ! 2))
            OR push_bit 40 (ucast (wire ! 3)) OR push_bit 32 (ucast (wire ! 4))
            OR push_bit 24 (ucast (wire ! 5)) OR push_bit 16 (ucast (wire ! 6))
            OR push_bit 8 (ucast (wire ! 7)) OR ucast (wire ! 8), drop 9 wire)
      else Fail ErrIncomplete)"

subsection \<open>NonNegativeInteger\<close>

type_synonym NNI = u64

definition NNI_Size :: "NNI \<Rightarrow> nat" where
  "NNI_Size n =
     (if n \<le> 0xFF then 1
      else if n \<le> 0xFFFF then 2
      else if n \<le> 0xFFFFFFFF then 4
      else 8)"

definition NNI_Encode :: "NNI \<Rightarrow> bytes \<Rightarrow> bytes" where
  "NNI_Encode n b =
     (if n \<le> 0xFF then b @ [byte_at n 0]
      else if n \<le> 0xFFFF then b @ [byte_at n 8, byte_at n 0]
      else if n \<le> 0xFFFFFFFF then b @ [byte_at n 24, byte_at n 16, byte_at n 8, byte_at n 0]
      else b @ [byte_at n 56, byte_at n 48, byte_at n 40, byte_at n 32,
                byte_at n 24, byte_at n 16, byte_at n 8, byte_at n 0])"

definition NNI_UnmarshalBinary :: "bytes \<Rightarrow> NNI outcome" where
  "NNI_UnmarshalBinary wire =
     (if length wire = 1 then Ok (ucast (wire ! 0))
      else if length wire = 2 then Ok (push_bit 8 (ucast (wire ! 0)) OR ucast (wire ! 1))
      else if length wire = 4 then
        Ok (push_bit 24 (ucast (wire ! 0)) OR push_bit 16 (ucast (wire ! 1))
            OR push_bit 8 (ucast (wire ! 2)) OR ucast (wire ! 3))
      else if length wire = 8 then
        Ok (push_bit 56 (ucast (wire ! 0)) OR push_bit 48 (ucast (wire ! 1))
            OR push_bit 40 (ucast (wire ! 2)) OR push_bit 32 (ucast (wire ! 3))
            OR push_bit 24 (ucast (wire ! 4)) OR push_bit 16 (ucast (wire ! 5))
            OR push_bit 8 (ucast (wire ! 6)) OR ucast (wire ! 7))
      else Fail ErrIncomplete)"

subsection \<open>Both codecs in terms of big-endian strings\<close>

lemma be_bytes_numeral [simp]:
  "be_bytes 1 n = [byte_at n 0]"
  "be_bytes 2 n = [byte_at n 8, byte_at n 0]"
  "be_bytes 4 n = [byte_at n 24, byte_at n 16, byte_at n 8, byte_at n 0]"
  "be_bytes 8 n = [byte_at n 56, byte_at n 48, byte_at n 40, byte_at n 32,
                   byte_at n 24, byte_at n 16, byte_at n 8, byte_at n 0]"
  by (simp_all add: numeral_eq_Suc)

lemma be_word_1: "be_word [a] = ucast a"
  by (simp add: be_word_def)

lemma be_word_2: "be_word [a, b] = push_bit 8 (ucast a) OR ucast b"
  by (simp add: be_word_def)

lemma be_word_4:
  "be_word [a, b, c, d] = push_bit 24 (ucast a) OR push_bit 16 (ucast b)
     OR push_bit 8 (ucast c) OR ucast d"
  by (simp add: be_word_def push_bit_or ac_simps)

lemma be_word_8:
  "be_word [a, b, c, d, e, f, g, h] = push_bit 56 (ucast a) OR push_bit 48 (ucast b)
     OR push_bit 40 (ucast c) OR push_bit 32 (ucast d) OR push_bit 24 (ucast e)
     OR push_bit 16 (ucast f) OR push_bit 8 (ucast g) OR ucast h"
  by (simp add: be_word_def push_bit_or ac_simps)

lemmas be_word_explicit = be_word_1 be_word_2 be_word_4 be_word_8

lemma take_bit_of_unat:
  "unat n < 2 ^ k \<Longrightarrow> take_bit k n = (n :: u64)"
  by (rule word_unat_eq_iff [THEN iffD2])
    (simp add: unsigned_take_bit_eq take_bit_nat_eq_self_iff)

lemma take_bit_of_le:
  "n \<le> 0xFF \<Longrightarrow> take_bit 8 n = (n :: u64)"
  "n \<le> 0xFFFF \<Longrightarrow> take_bit 16 n = (n :: u64)"
  "n \<le> 0xFFFFFFFF \<Longrightarrow> take_bit 32 n = (n :: u64)"
  "take_bit 64 n = (n :: u64)"
  by (simp_all add: take_bit_of_unat word_le_nat_alt take_bit_word_eq_self)

lemma be_word_of_bytes:
  "n \<le> 0xFF \<Longrightarrow> be_word [byte_at n 0] = n"
  "n \<le> 0xFFFF \<Longrightarrow> be_word [byte_at n 8, byte_at n 0] = n"
  "n \<le> 0xFFFFFFFF \<Longrightarrow> be_word [byte_at n 24, byte_at n 16, byte_at n 8, byte_at n 0] = n"
  "be_word [byte_at n 56, byte_at n 48, byte_at n 40, byte_at n 32,
            byte_at n 24, byte_at n 16, byte_at n 8, byte_at n 0] = n"
  using be_word_be_bytes [of 1 n] be_word_be_bytes [of 2 n] be_word_be_bytes [of 4 n]
    be_word_be_bytes [of 8 n]
  by (simp_all add: take_bit_of_le)

lemma unat_ucast_byte [simp]: "unat (ucast (b :: byte) :: u64) = unat b"
  using unsigned_less [of b, where ?'a = nat]
  by (simp add: unsigned_ucast_eq take_bit_nat_eq_self)

lemma unat_byte_at_0: "n \<le> 0xFF \<Longrightarrow> unat (byte_at n 0) = unat n"
  using arg_cong [OF be_word_of_bytes(1), of n unat] by (simp add: be_word_1)

lemma VarNum_Encode_append: "VarNum_Encode n buf = buf @ VarNum_Encode n []"
  by (simp add: VarNum_Encode_def)

lemma NNI_Encode_append: "NNI_Encode n b = b @ NNI_Encode n []"
  by (simp add: NNI_Encode_def)

lemma length_VarNum_Encode [simp]: "length (VarNum_Encode n buf) = length buf + VarNum_Size n"
  by (simp add: VarNum_Encode_def VarNum_Size_def)

lemma length_NNI_Encode [simp]: "length (NNI_Encode n b) = length b + NNI_Size n"
  by (simp add: NNI_Encode_def NNI_Size_def)

subsection \<open>Round trips\<close>

lemma VarNum_Decode_Encode [simp, codec_simps]:
  "VarNum_Decode (VarNum_Encode n [] @ rest) = Ok (n, rest)"
proof (cases "n < 0xFD")
  case True
  then have "byte_at n 0 < 0xFD" and "ucast (byte_at n 0) = n"
    using unat_byte_at_0 [of n] be_word_of_bytes(1) [of n]
    by (simp_all add: word_less_nat_alt word_le_nat_alt be_word_1)
  with True show ?thesis by (simp add: VarNum_Encode_def VarNum_Decode_def)
next
  case False
  then show ?thesis
    using be_word_of_bytes(2-4) [of n, unfolded be_word_explicit]
    by (simp add: VarNum_Encode_def VarNum_Decode_def)
qed

lemma VarNum_Decode_Encode_exact [simp, codec_simps]:
  "VarNum_Decode (VarNum_Encode n []) = Ok (n, [])"
  using VarNum_Decode_Encode [of n "[]"] by simp

lemma NNI_Unmarshal_Encode [simp, codec_simps]:
  "NNI_UnmarshalBinary (NNI_Encode n []) = Ok n"
  using be_word_of_bytes [of n, unfolded be_word_explicit]
  by (simp add: NNI_Encode_def NNI_UnmarshalBinary_def)

subsection \<open>What the decoders consume\<close>

lemma VarNum_Decode_suffix:
  "VarNum_Decode wire = Ok (n, rest) \<Longrightarrow> \<exists>p. wire = p @ rest \<and> p \<noteq> []"
  unfolding VarNum_Decode_def
  by (rule exI [of _ "take (length wire - length rest) wire"])
    (auto split: if_splits simp: append_eq_conv_conj)

lemma VarNum_Decode_shrinks:
  "VarNum_Decode wire = Ok (n, rest) \<Longrightarrow> length rest < length wire"
  using VarNum_Decode_suffix by fastforce

lemma VarNum_Decode_no_panic [simp]: "VarNum_Decode wire \<noteq> Panic"
  by (simp add: VarNum_Decode_def)

lemma NNI_Unmarshal_no_panic [simp]: "NNI_UnmarshalBinary wire \<noteq> Panic"
  by (simp add: NNI_UnmarshalBinary_def)

lemma be_word_bounded: "take_bit (8 * length bs) (be_word bs) = be_word bs"
proof (induction bs rule: rev_induct)
  case Nil
  then show ?case by (simp add: be_word_def)
next
  case (snoc b bs)
  let ?w = "be_word bs"
  have w: "bit ?w i \<Longrightarrow> i < 8 * length bs" for i
    using bit_take_bit_iff [of "8 * length bs" ?w i] by (simp add: snoc)
  have "bit (ucast b :: u64) i \<Longrightarrow> i < 8 + 8 * length bs" for i
    using bit_imp_le_length [of b i] by (auto simp: bit_ucast_iff)
  then have "take_bit (8 + 8 * length bs) (push_bit 8 ?w OR ucast b) = push_bit 8 ?w OR ucast b"
    by (intro bit_eqI)
      (auto simp: bit_take_bit_iff bit_or_iff bit_push_bit_iff ac_simps dest: w)
  then show ?case by (simp add: be_word_def)
qed

lemma unat_be_word_less: "length bs \<le> 8 \<Longrightarrow> unat (be_word bs) < 2 ^ (8 * length bs)"
  using unsigned_take_bit_eq [of "8 * length bs" "be_word bs", where ?'a = nat]
  by (simp add: be_word_bounded) (metis take_bit_nat_less_exp)

text \<open>The encoder always picks the shortest form the decoder would take.\<close>

lemma VarNum_Decode_minimal:
  assumes "VarNum_Decode wire = Ok (n, rest)"
  shows "VarNum_Size n + length rest \<le> length wire"
proof -
  have two: "push_bit 8 (ucast (x :: byte)) OR ucast (y :: byte) \<le> (0xFFFF :: u64)" for x y
    using unat_be_word_less [of "[x, y]"] by (simp add: be_word_2 word_le_nat_alt)
  have four: "push_bit 24 (ucast (x :: byte)) OR push_bit 16 (ucast (y :: byte))
      OR push_bit 8 (ucast (z :: byte)) OR ucast (v :: byte) \<le> (0xFFFFFFFF :: u64)" for x y z v
    using unat_be_word_less [of "[x, y, z, v]"] by (simp add: be_word_4 word_le_nat_alt)
  have one: "ucast (x :: byte) < (0xFD :: u64)" if "x < 0xFD" for x
    using that by (simp add: word_less_nat_alt)
  show ?thesis
    using assms one two four
    by (auto simp: VarNum_Decode_def VarNum_Size_def split: if_splits)
qed

subsection \<open>Properties\<close>

text \<open>
  VarNum_codec. Decoding what \<open>VarNum.Encode\<close> appended returns the number and leaves any
  following input untouched; the encoder emits exactly \<open>Size\<close> bytes; and no input that decodes to
  the same number is shorter than that, so the encoder always picks the shortest form.
\<close>

theorem VarNum_codec:
  "VarNum_Encode n buf = buf @ VarNum_Encode n []
   \<and> VarNum_Decode (VarNum_Encode n [] @ rest) = Ok (n, rest)
   \<and> length (VarNum_Encode n []) = VarNum_Size n
   \<and> (VarNum_Decode wire = Ok (n, rest') \<longrightarrow> VarNum_Size n + length rest' \<le> length wire)"
  using VarNum_Decode_minimal by (simp add: VarNum_Encode_append [of n buf])

theorem VarNum_codec_witness:
  "VarNum_Encode 0x1234 [] = [0xFD, 0x12, 0x34]
   \<and> VarNum_Decode [0xFE, 0, 0, 0x12, 0x34, 7] = Ok (0x1234, [7])
   \<and> VarNum_Size 0x1234 + length [7 :: byte] \<le> length [0xFE, 0, 0, 0x12, 0x34, 7 :: byte]"
proof -
  have "VarNum_Encode 0x1234 [] = [0xFD, 0x12, 0x34]"
    by (simp add: VarNum_Encode_def byte_at_def)
  moreover have dec: "VarNum_Decode [0xFE, 0, 0, 0x12, 0x34, 7] = Ok (0x1234, [7])"
    by (simp add: VarNum_Decode_def)
  ultimately show ?thesis
    using VarNum_codec [of "0x1234" "[]" "[]" "[0xFE, 0, 0, 0x12, 0x34, 7]" "[7]"] by simp
qed

text \<open>
  NNI_codec. A NonNegativeInteger survives the wire: \<open>UnmarshalBinary\<close> inverts \<open>Encode\<close>, the
  encoding has \<open>Size\<close> bytes, and exactly the lengths 1, 2, 4 and 8 are accepted, each giving the
  big-endian value of the bytes.
\<close>

theorem NNI_codec:
  "NNI_UnmarshalBinary (NNI_Encode n []) = Ok n
   \<and> length (NNI_Encode n []) = NNI_Size n
   \<and> NNI_UnmarshalBinary wire =
       (if length wire \<in> {1, 2, 4, 8} then Ok (be_word wire) else Fail ErrIncomplete)"
proof -
  have "length wire = 1 \<Longrightarrow> NNI_UnmarshalBinary wire = Ok (be_word wire)"
    by (auto simp: NNI_UnmarshalBinary_def length_Suc_conv be_word_explicit numeral_eq_Suc)
  moreover have "length wire = 2 \<Longrightarrow> NNI_UnmarshalBinary wire = Ok (be_word wire)"
    by (auto simp: NNI_UnmarshalBinary_def length_Suc_conv be_word_explicit numeral_2_eq_2)
  moreover have "length wire = 4 \<Longrightarrow> NNI_UnmarshalBinary wire = Ok (be_word wire)"
    by (auto simp: NNI_UnmarshalBinary_def length_Suc_conv be_word_explicit eval_nat_numeral)
  moreover have "length wire = 8 \<Longrightarrow> NNI_UnmarshalBinary wire = Ok (be_word wire)"
    by (auto simp: NNI_UnmarshalBinary_def length_Suc_conv be_word_explicit eval_nat_numeral)
  moreover have "length wire \<notin> {1, 2, 4, 8} \<Longrightarrow> NNI_UnmarshalBinary wire = Fail ErrIncomplete"
    by (simp add: NNI_UnmarshalBinary_def)
  ultimately show ?thesis by auto
qed

end
