(* ===== verification/Tlv_Element.thy ===== *)
theory Tlv_Element
  imports Tlv_Num
begin

text \<open>
  TLV elements and the decoding buffer (\<open>ndn/tlv/element.go\<close>, \<open>ndn/tlv/decode.go\<close>). A Go
  \<open>DecodingBuffer\<close> is the unconsumed input, a byte list here; a method on a pointer receiver
  returns the new buffer beside its result. \<open>DecodingElement\<close> embeds \<open>Element\<close>, which is record
  extension.
\<close>

subsection \<open>Element\<close>

record Element =
  Type :: u32
  Value :: bytes

definition minType :: "u64" where "minType = 1"
definition maxType :: "u64" where "maxType = 0xFFFFFFFF"

definition Element_Length :: "('e) Element_scheme \<Rightarrow> nat" where
  "Element_Length el = length (Value el)"

definition Element_Size :: "('e) Element_scheme \<Rightarrow> nat" where
  "Element_Size el =
     VarNum_Size (ucast (Type el)) + VarNum_Size (of_nat (Element_Length el)) + length (Value el)"

text \<open>
  The length check converts the TLV-LENGTH to \<open>int\<close>, which reads the 64 bits as two's complement
  (\<open>sint\<close>); the slice expression \<open>valueRest[:length]\<close> uses the unsigned number and panics where
  it exceeds the capacity of the buffer.
\<close>

definition Element_Decode :: "bytes \<Rightarrow> (Element \<times> bytes) outcome" where
  "Element_Decode wire =
     andthen (VarNum_Decode wire) (\<lambda>(typ, d).
       if typ < minType \<or> typ > maxType then Fail ErrType
       else andthen (VarNum_Decode d) (\<lambda>(len, valueRest).
         if int (length valueRest) < sint len then Fail ErrIncomplete
         else if length valueRest < unat len then Panic
         else Ok (\<lparr>Type = ucast typ, Value = take (unat len) valueRest\<rparr>,
                  drop (unat len) valueRest)))"

subsection \<open>DecodingBuffer\<close>

record DecodingElement = Element +
  Wire :: bytes
  After :: bytes

definition EOF :: "bytes \<Rightarrow> bool" where
  "EOF d \<longleftrightarrow> length d = 0"

definition ErrUnlessEOF :: "bytes \<Rightarrow> unit outcome" where
  "ErrUnlessEOF d = (if EOF d then Ok () else Fail ErrTail)"

definition DecodingBuffer_Element :: "bytes \<Rightarrow> (DecodingElement \<times> bytes) outcome" where
  "DecodingBuffer_Element wireAfter =
     andthen (Element_Decode wireAfter) (\<lambda>(el, d).
       Ok (\<lparr>Type = Type el, Value = Value el,
            Wire = take (length wireAfter - length d) wireAfter, After = d\<rparr>, d))"

definition IsCriticalType :: "('e) DecodingElement_scheme \<Rightarrow> bool" where
  "IsCriticalType de \<longleftrightarrow> Type de \<le> 31 \<or> Type de AND 1 \<noteq> 0"

definition WireAfter :: "('e) DecodingElement_scheme \<Rightarrow> bytes" where
  "WireAfter de = Wire de @ After de"

definition UnmarshalNNI ::
    "('e) DecodingElement_scheme \<Rightarrow> u64 \<Rightarrow> error \<Rightarrow> u64 outcome" where
  "UnmarshalNNI de mx rangeErr =
     andthen (NNI_UnmarshalBinary (Value de)) (\<lambda>v. if v > mx then Fail rangeErr else Ok v)"

lemma Element_Decode_OkE:
  assumes "Element_Decode wire = Ok (el, rest)"
  obtains ty d len vr where "VarNum_Decode wire = Ok (ty, d)" "VarNum_Decode d = Ok (len, vr)"
    "minType \<le> ty" "ty \<le> maxType" "unat len \<le> length vr"
    "el = \<lparr>Type = ucast ty, Value = take (unat len) vr\<rparr>" "rest = drop (unat len) vr"
  using assms unfolding Element_Decode_def
  by (auto simp: not_less split: if_splits)

lemma Element_Decode_suffix:
  assumes "Element_Decode wire = Ok (el, rest)"
  shows "\<exists>p. wire = p @ rest \<and> p \<noteq> []"
proof -
  from assms obtain ty d len vr where "VarNum_Decode wire = Ok (ty, d)"
    and "VarNum_Decode d = Ok (len, vr)" and rest: "rest = drop (unat len) vr"
    by (rule Element_Decode_OkE)
  then obtain p q where "wire = p @ d" "p \<noteq> []" "d = q @ vr"
    by (meson VarNum_Decode_suffix)
  then have "wire = (p @ q @ take (unat len) vr) @ rest \<and> p @ q @ take (unat len) vr \<noteq> []"
    by (simp add: rest)
  then show ?thesis by blast
qed

lemma Element_Decode_shrinks:
  "Element_Decode wire = Ok (el, rest) \<Longrightarrow> length rest < length wire"
  using Element_Decode_suffix by fastforce

lemma DecodingBuffer_Element_shrinks [termination_simp]:
  "DecodingBuffer_Element wire = Ok (de, rest) \<Longrightarrow> length rest < length wire"
  by (auto simp: DecodingBuffer_Element_def dest: Element_Decode_shrinks)

function Elements :: "bytes \<Rightarrow> (DecodingElement list \<times> bytes) outcome" where
  "Elements d =
     (case DecodingBuffer_Element d of
        Ok (de, d') \<Rightarrow> andthen (Elements d') (\<lambda>(list, rest). Ok (de # list, rest))
      | Fail e \<Rightarrow> Ok ([], d)
      | Panic \<Rightarrow> Panic)"
  by pat_completeness auto
termination
  by (relation "measure length") (auto dest: DecodingBuffer_Element_shrinks)

declare Elements.simps [simp del]

text \<open>\<open>Unmarshaler\<close> values are functions from TLV-TYPE and TLV-VALUE.\<close>

definition Decode :: "bytes \<Rightarrow> (u32 \<Rightarrow> bytes \<Rightarrow> 'a outcome) \<Rightarrow> 'a outcome" where
  "Decode wire u =
     andthen (DecodingBuffer_Element wire) (\<lambda>(de, d).
       andthen (u (Type de) (Value de)) (\<lambda>x.
         andthen (ErrUnlessEOF d) (\<lambda>_. Ok x)))"

subsection \<open>The wire form of an element\<close>

text \<open>The reference form the encoder is compared with: TYPE, LENGTH, VALUE.\<close>

definition tlv_bytes :: "u32 \<Rightarrow> bytes \<Rightarrow> bytes" where
  "tlv_bytes t v = VarNum_Encode (ucast t) [] @ VarNum_Encode (of_nat (length v)) [] @ v"

definition tlv_ok :: "u32 \<times> bytes \<Rightarrow> bool" where
  "tlv_ok = (\<lambda>(t, v). t \<noteq> 0 \<and> slice_ok v)"

definition tlvs :: "(u32 \<times> bytes) list \<Rightarrow> bytes" where
  "tlvs xs = concat (map (\<lambda>(t, v). tlv_bytes t v) xs)"

fun elems_of :: "(u32 \<times> bytes) list \<Rightarrow> bytes \<Rightarrow> DecodingElement list" where
  "elems_of [] tail = []"
| "elems_of ((t, v) # xs) tail =
     \<lparr>Type = t, Value = v, Wire = tlv_bytes t v, After = tlvs xs @ tail\<rparr> # elems_of xs tail"

lemma tlvs_simps [simp]:
  "tlvs [] = []"
  "tlvs ((t, v) # xs) = tlv_bytes t v @ tlvs xs"
  "tlvs (xs @ ys) = tlvs xs @ tlvs ys"
  by (simp_all add: tlvs_def)

lemma tlv_ok_simp [simp]: "tlv_ok (t, v) \<longleftrightarrow> t \<noteq> 0 \<and> slice_ok v"
  by (simp add: tlv_ok_def)

lemma elems_of_append [simp]:
  "elems_of (xs @ ys) tail = elems_of xs (tlvs ys @ tail) @ elems_of ys tail"
  by (induction xs) auto

lemma length_tlv_bytes:
  "length (tlv_bytes t v) = Element_Size \<lparr>Type = t, Value = v\<rparr>"
  by (simp add: tlv_bytes_def Element_Size_def Element_Length_def)

lemma of_nat_length_word:
  assumes "slice_ok v"
  shows "unat (of_nat (length v) :: u64) = length v"
    and "sint (of_nat (length v) :: u64) = int (length v)"
proof -
  have "length v < 2 ^ 63" using assms by (simp add: slice_ok_def)
  then show "unat (of_nat (length v) :: u64) = length v"
    by (simp add: unat_of_nat take_bit_nat_eq_self)
  from \<open>length v < 2 ^ 63\<close> show "sint (of_nat (length v) :: u64) = int (length v)"
    by (simp add: signed_take_bit_int_eq_self signed_of_nat)
qed

lemma ucast_type_range:
  fixes t :: u32
  assumes "t \<noteq> 0"
  shows "\<not> ucast t < minType" and "\<not> maxType < ucast t" and "ucast (ucast t :: u64) = t"
proof -
  have u: "unat (ucast t :: u64) = unat t"
    using unsigned_less [of t, where ?'a = nat]
    by (simp add: unsigned_ucast_eq take_bit_nat_eq_self)
  have "unat t \<noteq> 0" using assms by (simp add: unat_eq_0)
  with u show "\<not> ucast t < minType" by (simp add: minType_def word_less_nat_alt)
  show "\<not> maxType < ucast t"
    using u unsigned_less [of t, where ?'a = nat] by (simp add: maxType_def word_less_nat_alt)
  show "ucast (ucast t :: u64) = t"
    by (rule ucast_up_ucast_id) (simp add: is_up)
qed

lemma Element_Decode_tlv [simp, codec_simps]:
  assumes "t \<noteq> 0" and "slice_ok v"
  shows "Element_Decode (tlv_bytes t v @ rest) = Ok (\<lparr>Type = t, Value = v\<rparr>, rest)"
  using assms
  by (simp add: Element_Decode_def tlv_bytes_def ucast_type_range of_nat_length_word)

lemma DecodingBuffer_Element_tlv [simp, codec_simps]:
  assumes "t \<noteq> 0" and "slice_ok v"
  shows "DecodingBuffer_Element (tlv_bytes t v @ rest)
    = Ok (\<lparr>Type = t, Value = v, Wire = tlv_bytes t v, After = rest\<rparr>, rest)"
  using assms by (simp add: DecodingBuffer_Element_def)

lemma DecodingBuffer_Element_Nil [simp]: "DecodingBuffer_Element [] = Fail ErrIncomplete"
  by (simp add: DecodingBuffer_Element_def Element_Decode_def VarNum_Decode_def)

lemma Elements_Nil [simp]: "Elements [] = Ok ([], [])"
  by (simp add: Elements.simps [of "[]"])

lemma Elements_tlvs [codec_simps]:
  "list_all tlv_ok xs \<Longrightarrow> Elements (tlvs xs) = Ok (elems_of xs [], [])"
proof (induction xs)
  case (Cons x xs)
  then obtain t v where "x = (t, v)" by (cases x)
  with Cons show ?case by (simp add: Elements.simps [of "tlv_bytes t v @ tlvs xs"])
qed simp

lemma ErrUnlessEOF_Nil [simp]: "ErrUnlessEOF [] = Ok ()"
  by (simp add: ErrUnlessEOF_def EOF_def)

lemma ErrUnlessEOF_Ok_iff [simp]: "ErrUnlessEOF d = Ok u \<longleftrightarrow> d = []"
  by (simp add: ErrUnlessEOF_def EOF_def)

lemma ErrUnlessEOF_no_panic [simp]: "ErrUnlessEOF d \<noteq> Panic"
  by (simp add: ErrUnlessEOF_def)

lemma Decode_tlv [codec_simps]:
  assumes "t \<noteq> 0" and "slice_ok v"
  shows "Decode (tlv_bytes t v) u = u t v"
  using DecodingBuffer_Element_tlv [OF assms, of "[]"] by (simp add: Decode_def)

text \<open>Every part of a concatenation that fits a slice fits a slice.\<close>

lemma tlvs_ok:
  assumes "slice_ok (tlvs xs)" and "\<forall>x\<in>set xs. fst x \<noteq> 0"
  shows "list_all tlv_ok xs"
  using assms
  by (induction xs) (auto simp: slice_ok_def tlv_bytes_def)

subsection \<open>Loops over the elements of a buffer\<close>

text \<open>
  Most decoders run \<open>for _, de := range d.Elements()\<close> with a switch on the TLV-TYPE as the loop body.
\<close>

definition decodeElements ::
    "('s \<Rightarrow> DecodingElement \<Rightarrow> 's outcome) \<Rightarrow> 's \<Rightarrow> bytes \<Rightarrow> ('s \<times> bytes) outcome" where
  "decodeElements step s wire =
     andthen (Elements wire) (\<lambda>(des, d). andthen (forRange step s des) (\<lambda>s. Ok (s, d)))"

lemma decodeElements_tlvs:
  "list_all tlv_ok xs \<Longrightarrow>
   decodeElements step s (tlvs xs) = andthen (forRange step s (elems_of xs [])) (\<lambda>s. Ok (s, []))"
  by (simp add: decodeElements_def Elements_tlvs)

lemma decodeElements_OkE:
  assumes "decodeElements step s wire = Ok (r, d)"
  obtains des where "Elements wire = Ok (des, d)" "forRange step s des = Ok r"
  using assms by (auto simp: decodeElements_def)

text \<open>
  The evolvability rule of NDN: the body of such a loop switches on the TLV-TYPE, ignores an
  unrecognised element whose type is not critical and fails on a critical one. Bodies that look at
  the type and value of the element only cannot tell two wires apart that differ in ignored elements.
\<close>

definition is_critical :: "u32 \<Rightarrow> bool" where
  "is_critical t \<longleftrightarrow> t \<le> 31 \<or> t AND 1 \<noteq> 0"

lemma IsCriticalType_is_critical: "IsCriticalType de = is_critical (Type de)"
  by (simp add: IsCriticalType_def is_critical_def)

locale evolvable =
  fixes step :: "'s \<Rightarrow> DecodingElement \<Rightarrow> 's outcome"
    and known :: "u32 \<Rightarrow> bool"
    and critical :: "u32 \<Rightarrow> bool"
  assumes unknown: "\<not> known (Type de) \<Longrightarrow>
      step s de = (if critical (Type de) then Fail ErrCritical else Ok s)"
    and local_step: "Type de = Type de' \<Longrightarrow> Value de = Value de' \<Longrightarrow> step s de = step s de'"
begin

lemma forRange_known:
  assumes "\<forall>(t, v)\<in>set xs. known t \<or> \<not> critical t"
  shows "forRange step s (elems_of xs tail) = forRange step s (elems_of (filter (\<lambda>(t, v). known t) xs) tail')"
  using assms
proof (induction xs arbitrary: s)
  case (Cons x xs)
  obtain t v where x: "x = (t, v)" by (cases x)
  let ?e = "\<lambda>xs tail. \<lparr>Type = t, Value = v, Wire = tlv_bytes t v, After = tlvs xs @ tail\<rparr>"
  have same: "step s (?e xs tail) = step s (?e (filter (\<lambda>(t, v). known t) xs) tail')"
    by (rule local_step) simp_all
  have IH: "forRange step s' (elems_of xs tail)
      = forRange step s' (elems_of (filter (\<lambda>(t, v). known t) xs) tail')" for s'
    by (rule Cons.IH) (use Cons.prems in auto)
  show ?case
  proof (cases "known t")
    case True
    then show ?thesis using same IH by (simp add: x)
  next
    case False
    then show ?thesis using Cons.prems IH unknown [of "?e xs tail" s] by (simp add: x)
  qed
qed simp

lemma forRange_critical:
  assumes "forRange step s des = Ok r" and "de \<in> set des"
  shows "known (Type de) \<or> \<not> critical (Type de)"
  using assms
proof (induction des arbitrary: s)
  case (Cons d des)
  then show ?case by (cases "known (Type de)") (auto simp: unknown split: if_splits)
qed simp

end

subsection \<open>Soundness of the element loop\<close>

text \<open>
  Whatever the input, the elements returned are consecutive pieces of it: their wires, followed by
  the bytes left in the buffer, are the input, and nothing further can be taken from the rest.
\<close>

lemma DecodingBuffer_Element_split:
  assumes "DecodingBuffer_Element wire = Ok (de, rest)"
  shows "wire = Wire de @ rest" and "After de = rest" and "Wire de \<noteq> []"
proof -
  from assms obtain el where el: "Element_Decode wire = Ok (el, rest)"
    and de: "Wire de = take (length wire - length rest) wire" "After de = rest"
    by (auto simp: DecodingBuffer_Element_def)
  from Element_Decode_suffix [OF el] obtain p where "wire = p @ rest" "p \<noteq> []" by blast
  then show "wire = Wire de @ rest" "After de = rest" "Wire de \<noteq> []"
    using de by simp_all
qed

lemma Elements_sound:
  "Elements d = Ok (des, rest) \<Longrightarrow>
     d = concat (map Wire des) @ rest \<and> (\<exists>e. DecodingBuffer_Element rest = Fail e)"
proof (induction d arbitrary: des rule: Elements.induct)
  case (1 d)
  show ?case
  proof (cases "DecodingBuffer_Element d")
    case (Ok r)
    then obtain de d' where r: "DecodingBuffer_Element d = Ok (de, d')" by (cases r) auto
    with "1.prems" obtain list where "Elements d' = Ok (list, rest)" "des = de # list"
      by (auto simp: Elements.simps [of d])
    with "1.IH" [OF Ok, of de d'] Ok r DecodingBuffer_Element_split(1) [OF r]
    show ?thesis by simp
  next
    case (Fail e)
    with "1.prems" show ?thesis by (auto simp: Elements.simps [of d])
  next
    case Panic
    with "1.prems" show ?thesis by (simp add: Elements.simps [of d])
  qed
qed

subsection \<open>Panics of the element decoder\<close>

lemma sint_nonneg_unat:
  assumes "unat (n :: u64) < 2 ^ 63"
  shows "sint n = int (unat n)"
proof -
  have "int (unat n) < int (2 ^ 63)" using assms by (simp only: of_nat_less_iff)
  then have "uint n < 2 ^ 63" by simp
  then have "signed_take_bit 63 (uint n) = uint n"
    by (intro signed_take_bit_int_eq_self) (simp_all add: order_trans [OF _ uint_ge_0])
  then show ?thesis by (simp add: sint_uint)
qed

lemma sint_negative:
  assumes "2 ^ 63 \<le> unat (n :: u64)"
  shows "sint n < 0"
proof -
  have "int (2 ^ 63) \<le> int (unat n)" using assms by (simp only: of_nat_le_iff)
  then have "2 ^ 63 \<le> uint n" by simp
  moreover have "uint n < 2 ^ 64" using unsigned_less [of n, where ?'a = int] by simp
  ultimately have "uint n div 2 ^ 63 = 1" by simp
  then have "bit (uint n) 63" by (simp add: bit_iff_odd)
  then show ?thesis by (simp add: sint_uint signed_take_bit_negative_iff)
qed

lemma slice_bounds_checked:
  assumes "length vr < 2 ^ 63"
  shows "int (length vr) < sint len \<or> \<not> length vr < unat len \<longleftrightarrow> unat (len :: u64) < 2 ^ 63"
proof (cases "unat len < 2 ^ 63")
  case True
  from sint_nonneg_unat [OF True] True show ?thesis by linarith
next
  case False
  then have "sint len < 0" by (intro sint_negative) simp
  with False assms show ?thesis by linarith
qed

lemma Element_Decode_Panic_iff:
  assumes "slice_ok wire"
  shows "Element_Decode wire = Panic \<longleftrightarrow>
    (\<exists>ty d len valueRest. VarNum_Decode wire = Ok (ty, d) \<and> minType \<le> ty \<and> ty \<le> maxType
       \<and> VarNum_Decode d = Ok (len, valueRest) \<and> 2 ^ 63 \<le> unat len)"
proof -
  have "length vr < 2 ^ 63"
    if "VarNum_Decode wire = Ok (ty, d)" "VarNum_Decode d = Ok (len, vr)" for ty d len vr
    using that [THEN VarNum_Decode_shrinks] assms by (simp add: slice_ok_def)
  note bound = this [THEN slice_bounds_checked]
  show ?thesis
  proof (cases "VarNum_Decode wire")
    case (Ok r)
    then obtain ty d where w: "VarNum_Decode wire = Ok (ty, d)" by (cases r) auto
    show ?thesis
    proof (cases "VarNum_Decode d")
      case (Ok r)
      then obtain len vr where d: "VarNum_Decode d = Ok (len, vr)" by (cases r) auto
      have "Element_Decode wire = Panic \<longleftrightarrow>
          minType \<le> ty \<and> ty \<le> maxType \<and> \<not> (int (length vr) < sint len \<or> \<not> length vr < unat len)"
        by (auto simp: Element_Decode_def w d not_less not_le)
      then show ?thesis unfolding bound [OF w d] by (simp add: w d not_less)
    qed (simp_all add: Element_Decode_def w)
  qed (simp_all add: Element_Decode_def)
qed

subsection \<open>Properties\<close>

text \<open>
  Elements_splits_input. \<open>DecodingBuffer.Elements\<close> loses nothing and invents nothing: when it
  returns, the wires of the elements followed by the bytes left in the buffer are the input, no
  element can be decoded from the bytes left, and on a concatenation of encoded elements it returns
  exactly those elements with an empty rest.
\<close>

theorem Elements_splits_input:
  "(Elements d = Ok (des, rest) \<longrightarrow>
      d = concat (map Wire des) @ rest \<and> (\<exists>e. DecodingBuffer_Element rest = Fail e))
   \<and> (list_all tlv_ok xs \<longrightarrow> Elements (tlvs xs) = Ok (elems_of xs [], []))"
  using Elements_sound Elements_tlvs by blast

theorem Elements_splits_input_witness:
  "Elements [0xF2, 1, 0x20, 0x1F, 0, 1] = Ok
      ([\<lparr>Type = 0xF2, Value = [0x20], Wire = [0xF2, 1, 0x20], After = [0x1F, 0, 1]\<rparr>,
        \<lparr>Type = 0x1F, Value = [], Wire = [0x1F, 0], After = [1]\<rparr>], [1])
   \<and> [0xF2, 1, 0x20, 0x1F, 0, 1 :: byte] = concat [[0xF2, 1, 0x20], [0x1F, 0]] @ [1]
   \<and> Elements (tlvs [(8, [0x41])]) = Ok (elems_of [(8, [0x41])] [], [])"
proof -
  have e: "Elements [0xF2, 1, 0x20, 0x1F, 0, 1] = Ok
      ([\<lparr>Type = 0xF2, Value = [0x20], Wire = [0xF2, 1, 0x20], After = [0x1F, 0, 1]\<rparr>,
        \<lparr>Type = 0x1F, Value = [], Wire = [0x1F, 0], After = [1]\<rparr>], [1])"
    by code_simp
  have ok: "list_all tlv_ok [(8, [0x41])]" by (simp add: slice_ok_def)
  note split = Elements_splits_input [THEN conjunct1, THEN mp, OF e, THEN conjunct1]
  from Elements_splits_input [THEN conjunct2, THEN mp, OF ok]
  show ?thesis using split by (intro conjI e) simp_all
qed

text \<open>
  C21 (Element_Decode_panics_iff). The only run-time panic of the element decoder: on an input that
  fits a Go slice, \<open>Element.Decode\<close> panics exactly when the TLV-TYPE is in range and the TLV-LENGTH
  is \<open>2 ^ 63\<close> or more, because \<open>int(length)\<close> is then negative and passes the length check before
  the slice expression fails.
\<close>

theorem Element_Decode_panics_iff:
  assumes "slice_ok wire"
  shows "Element_Decode wire = Panic \<longleftrightarrow>
    (\<exists>ty d len valueRest. VarNum_Decode wire = Ok (ty, d) \<and> minType \<le> ty \<and> ty \<le> maxType
       \<and> VarNum_Decode d = Ok (len, valueRest) \<and> 2 ^ 63 \<le> unat len)"
  by (rule Element_Decode_Panic_iff [OF assms])

theorem Element_Decode_panics_iff_witness:
  "Element_Decode [0x01, 0xFF, 0x80, 0, 0, 0, 0, 0, 0, 0] = Panic"
proof -
  have "slice_ok [0x01, 0xFF, 0x80, 0, 0, 0, 0, 0, 0, 0 :: byte]" by (simp add: slice_ok_def)
  moreover have "VarNum_Decode [0x01, 0xFF, 0x80, 0, 0, 0, 0, 0, 0, 0]
      = Ok (1, [0xFF, 0x80, 0, 0, 0, 0, 0, 0, 0])"
    and "VarNum_Decode [0xFF, 0x80, 0, 0, 0, 0, 0, 0, 0] = Ok (2 ^ 63, [])"
    by (simp_all add: VarNum_Decode_def)
  ultimately show ?thesis
    by (simp add: Element_Decode_panics_iff minType_def maxType_def)
qed

end
