(* ===== verification/Tlv_Encode.thy ===== *)
theory Tlv_Encode
  imports Tlv_Element
begin

text \<open>
  Encodable fields and the encoding buffer (\<open>ndn/tlv/encode.go\<close>). A Go \<open>Field\<close> is a tagged
  union of a small integer and an object; the \<open>Fielder\<close>s kept in a \<open>fieldTypeTLVFielders\<close>
  field are represented by the fields their \<open>Field()\<close> method returns. The lemmas reduce every
  encoding to the reference form \<open>tlv_bytes\<close>; the locale \<open>tlv_codec\<close> is the contract between a
  packet component's \<open>Field\<close> method and its \<open>UnmarshalTLV\<close>/\<open>UnmarshalBinary\<close> method.
\<close>

datatype Field =
    FieldEmpty
  | FieldErr error
  | FieldBytes bytes
  | FieldNNI u64
  | FieldTLVFields u64 "Field list"
  | FieldTLVFielders u64 "Field list"

text \<open>
  \<open>parts\<close> holds the encodings of the sub-fields; the first two slots of the Go array receive the
  destination buffer and the TLV header. The largest integer suppresses the header, for
  \<open>EncodeValueOnly\<close>.
\<close>

definition encodeTLVFinish :: "u64 \<Rightarrow> bytes \<Rightarrow> bytes list \<Rightarrow> bytes outcome" where
  "encodeTLVFinish integer b parts =
     (let len = sum_list (map length parts);
          header = (if integer < 0xFFFFFFFFFFFFFFFF
                    then VarNum_Encode (of_nat len) (VarNum_Encode integer [])
                    else [])
      in Ok (b @ header @ concat parts))"

fun Field_Encode :: "Field \<Rightarrow> bytes \<Rightarrow> bytes outcome"
  and encode_subs :: "Field list \<Rightarrow> bytes list outcome"
where
  "Field_Encode FieldEmpty b = Ok b"
| "Field_Encode (FieldErr e) b = Fail e"
| "Field_Encode (FieldBytes v) b = Ok (b @ v)"
| "Field_Encode (FieldNNI n) b = Ok (NNI_Encode n b)"
| "Field_Encode (FieldTLVFields n subs) b =
     andthen (encode_subs subs) (encodeTLVFinish n b)"
| "Field_Encode (FieldTLVFielders n subs) b =
     andthen (encode_subs subs) (encodeTLVFinish n b)"
| "encode_subs [] = Ok []"
| "encode_subs (f # fs) =
     andthen (Field_Encode f []) (\<lambda>p. andthen (encode_subs fs) (\<lambda>ps. Ok (p # ps)))"

definition FieldError :: "error option \<Rightarrow> Field" where
  "FieldError e = FieldErr (case e of None \<Rightarrow> ErrErrorField | Some e' \<Rightarrow> e')"

definition Bytes :: "bytes \<Rightarrow> Field" where
  "Bytes b = FieldBytes b"

definition NNI_Field :: "NNI \<Rightarrow> Field" where
  "NNI_Field n = FieldNNI n"

definition TLV :: "u32 \<Rightarrow> Field list \<Rightarrow> Field" where
  "TLV ty values =
     (if ucast ty < minType \<or> ucast ty > maxType then FieldError (Some ErrType)
      else FieldTLVFields (ucast ty) values)"

definition TLVFrom :: "u32 \<Rightarrow> Field list \<Rightarrow> Field" where
  "TLVFrom ty values =
     (if ucast ty < minType \<or> ucast ty > maxType then FieldError (Some ErrType)
      else FieldTLVFielders (ucast ty) values)"

definition TLVBytes :: "u32 \<Rightarrow> bytes \<Rightarrow> Field" where
  "TLVBytes ty value = TLV ty [Bytes value]"

definition TLVNNI :: "u32 \<Rightarrow> u64 \<Rightarrow> Field" where
  "TLVNNI ty v = TLVFrom ty [NNI_Field v]"

definition Element_Field :: "('e) Element_scheme \<Rightarrow> Field" where
  "Element_Field el = TLVBytes (Type el) (Value el)"

subsection \<open>EncodingBuffer\<close>

record EncodingBuffer =
  eb_b :: bytes
  eb_err :: "error option"

definition EncodingBuffer_Append :: "EncodingBuffer \<Rightarrow> Field \<Rightarrow> EncodingBuffer" where
  "EncodingBuffer_Append eb f =
     (if eb_err eb \<noteq> None then eb
      else case Field_Encode f (eb_b eb) of
        Ok b \<Rightarrow> \<lparr>eb_b = b, eb_err = None\<rparr>
      | Fail e \<Rightarrow> \<lparr>eb_b = [], eb_err = Some e\<rparr>
      | Panic \<Rightarrow> eb)"

definition EncodingBuffer_Output :: "EncodingBuffer \<Rightarrow> bytes outcome" where
  "EncodingBuffer_Output eb = (case eb_err eb of None \<Rightarrow> Ok (eb_b eb) | Some e \<Rightarrow> Fail e)"

definition Encode :: "Field list \<Rightarrow> bytes outcome" where
  "Encode fs =
     EncodingBuffer_Output (foldl EncodingBuffer_Append \<lparr>eb_b = [], eb_err = None\<rparr> fs)"

text \<open>\<open>EncodeFrom\<close> takes \<open>Fielder\<close>s, that is, their fields.\<close>

definition EncodeFrom :: "Field list \<Rightarrow> bytes outcome" where
  "EncodeFrom fs =
     EncodingBuffer_Output (foldl EncodingBuffer_Append \<lparr>eb_b = [], eb_err = None\<rparr> fs)"

definition EncodeValueOnly :: "Field \<Rightarrow> bytes outcome" where
  "EncodeValueOnly field =
     (case field of
        FieldErr e \<Rightarrow> Fail e
      | FieldTLVFields n subs \<Rightarrow> Field_Encode (FieldTLVFields 0xFFFFFFFFFFFFFFFF subs) []
      | FieldTLVFielders n subs \<Rightarrow> Field_Encode (FieldTLVFielders 0xFFFFFFFFFFFFFFFF subs) []
      | _ \<Rightarrow> Fail ErrErrorField)"

subsection \<open>Encoding reduced to concatenation\<close>

lemma encodeTLVFinish_no_panic [simp]: "encodeTLVFinish n b parts \<noteq> Panic"
  by (simp add: encodeTLVFinish_def Let_def)

lemma Field_Encode_no_panic [simp]: "Field_Encode f b \<noteq> Panic"
  and encode_subs_no_panic [simp]: "encode_subs fs \<noteq> Panic"
  by (induction f b and fs rule: Field_Encode_encode_subs.induct) (auto simp: andthen_Panic_iff)

lemma Field_Encode_append:
  "Field_Encode f b = andthen (Field_Encode f []) (\<lambda>w. Ok (b @ w))"
  by (cases f)
    (simp_all add: andthen_assoc encodeTLVFinish_def [abs_def] Let_def NNI_Encode_append [of _ b])

lemma length_concat_sum: "length (concat ps) = sum_list (map length ps)"
  by (simp add: length_concat)

text \<open>The encoding of a field on its own, with the buffer empty.\<close>

definition enc :: "Field \<Rightarrow> bytes outcome" where
  "enc f = Field_Encode f []"

definition encs :: "Field list \<Rightarrow> bytes outcome" where
  "encs fs = andthen (encode_subs fs) (\<lambda>ps. Ok (concat ps))"

lemma encs_simps [simp]:
  "encs [] = Ok []"
  "encs (f # fs) = andthen (enc f) (\<lambda>a. andthen (encs fs) (\<lambda>b. Ok (a @ b)))"
  by (simp_all add: encs_def enc_def andthen_assoc)

lemma encs_append [simp]:
  "encs (fs @ gs) = andthen (encs fs) (\<lambda>a. andthen (encs gs) (\<lambda>b. Ok (a @ b)))"
  by (induction fs) (simp_all add: andthen_assoc)

lemma ucast_type_below_max: "ucast (t :: u32) < (0xFFFFFFFFFFFFFFFF :: u64)"
proof -
  have "unat (ucast t :: u64) = unat t" and "unat t < 2 ^ 32"
    using unsigned_less [of t, where ?'a = nat]
    by (simp_all add: unsigned_ucast_eq take_bit_nat_eq_self)
  then show ?thesis by (simp add: word_less_nat_alt)
qed

lemma encodeTLVFinish_tlv:
  "encodeTLVFinish (ucast (t :: u32)) [] = (\<lambda>ps. Ok (tlv_bytes t (concat ps)))"
  by (simp add: fun_eq_iff encodeTLVFinish_def tlv_bytes_def ucast_type_below_max length_concat_sum
      VarNum_Encode_append [of _ "VarNum_Encode (ucast t) []"])

lemma encodeTLVFinish_value: "encodeTLVFinish 0xFFFFFFFFFFFFFFFF [] = (\<lambda>ps. Ok (concat ps))"
  by (simp add: fun_eq_iff encodeTLVFinish_def)

lemma enc_leaf [simp]:
  "enc FieldEmpty = Ok []"
  "enc (FieldError (Some e)) = Fail e"
  "enc (Bytes v) = Ok v"
  "enc (NNI_Field n) = Ok (NNI_Encode n [])"
  by (simp_all add: enc_def FieldError_def Bytes_def NNI_Field_def)

lemma enc_TLV:
  "enc (TLV t fs) = (if t = 0 then Fail ErrType else andthen (encs fs) (\<lambda>v. Ok (tlv_bytes t v)))"
  "enc (TLVFrom t fs) = (if t = 0 then Fail ErrType else andthen (encs fs) (\<lambda>v. Ok (tlv_bytes t v)))"
  using ucast_type_range(1,2) [of t]
  by (simp_all add: enc_def encs_def TLV_def TLVFrom_def FieldError_def andthen_assoc
      encodeTLVFinish_tlv minType_def)

lemma enc_TLV_nonzero [simp]:
  assumes "t \<noteq> 0"
  shows "enc (TLV t fs) = andthen (encs fs) (\<lambda>v. Ok (tlv_bytes t v))"
    and "enc (TLVFrom t fs) = andthen (encs fs) (\<lambda>v. Ok (tlv_bytes t v))"
    and "enc (TLVBytes t v) = Ok (tlv_bytes t v)"
    and "enc (TLVNNI t n) = Ok (tlv_bytes t (NNI_Encode n []))"
  using assms by (simp_all add: enc_TLV TLVBytes_def TLVNNI_def)

lemma EncodeValueOnly_TLV [simp]:
  assumes "t \<noteq> 0"
  shows "EncodeValueOnly (TLV t fs) = encs fs" and "EncodeValueOnly (TLVFrom t fs) = encs fs"
  using assms ucast_type_range(1,2) [of t]
  by (simp_all add: EncodeValueOnly_def TLV_def TLVFrom_def encs_def encodeTLVFinish_value)

lemma EncodingBuffer_fold:
  "EncodingBuffer_Output (foldl EncodingBuffer_Append eb fs) =
     (case eb_err eb of
        None \<Rightarrow> andthen (encs fs) (\<lambda>w. Ok (eb_b eb @ w))
      | Some e \<Rightarrow> Fail e)"
proof (induction fs arbitrary: eb)
  case Nil
  then show ?case by (simp add: EncodingBuffer_Output_def split: option.split)
next
  case (Cons f fs)
  show ?case
  proof (cases "eb_err eb")
    case None
    show ?thesis
    proof (cases "enc f")
      case (Ok a)
      then have "Field_Encode f (eb_b eb) = Ok (eb_b eb @ a)"
        by (simp add: Field_Encode_append [of f "eb_b eb"] flip: enc_def)
      with Ok None show ?thesis
        by (simp add: Cons.IH EncodingBuffer_Append_def [of eb] andthen_assoc)
    next
      case (Fail e)
      then have "Field_Encode f (eb_b eb) = Fail e"
        by (simp add: Field_Encode_append [of f "eb_b eb"] flip: enc_def)
      with Fail None show ?thesis by (simp add: Cons.IH EncodingBuffer_Append_def [of eb])
    next
      case Panic
      then show ?thesis by (simp add: enc_def)
    qed
  next
    case (Some e)
    then show ?thesis by (simp add: Cons.IH EncodingBuffer_Append_def [of eb])
  qed
qed

lemma Encode_encs: "Encode fs = encs fs" and EncodeFrom_encs: "EncodeFrom fs = encs fs"
  by (simp_all add: Encode_def EncodeFrom_def EncodingBuffer_fold)

text \<open>A field that is appended under a condition.\<close>

lemma encs_opt:
  "(c \<Longrightarrow> enc f = Ok (tlv_bytes t v)) \<Longrightarrow>
   encs (if c then [f] else []) = Ok (tlvs (if c then [(t, v)] else []))"
  by simp

subsection \<open>The contract of a component that encodes and decodes itself\<close>

text \<open>
  A component has a \<open>Field\<close> method and an unmarshaling method. The contract: a well-formed value
  encodes to one TLV element of a nonzero TLV-TYPE, and unmarshaling that element's TLV-VALUE gives
  \<open>view x\<close>, the value up to what the wire form does not carry. Everything else follows: the round
  trip through the wire, through a list of elements, and that the wire determines the value.
\<close>

definition items :: "('a \<Rightarrow> u32) \<Rightarrow> ('a \<Rightarrow> bytes) \<Rightarrow> 'a list \<Rightarrow> (u32 \<times> bytes) list" where
  "items ty val xs = map (\<lambda>x. (ty x, val x)) xs"

locale tlv_codec =
  fixes field :: "'a \<Rightarrow> Field"
    and unmarshal :: "u32 \<Rightarrow> bytes \<Rightarrow> 'b outcome"
    and ty :: "'a \<Rightarrow> u32"
    and val :: "'a \<Rightarrow> bytes"
    and wf :: "'a \<Rightarrow> bool"
    and view :: "'a \<Rightarrow> 'b"
  assumes enc_field: "wf x \<Longrightarrow> enc (field x) = Ok (tlv_bytes (ty x) (val x))"
    and ty_val_ok: "wf x \<Longrightarrow> tlv_ok (ty x, val x)"
    and unmarshal_val: "wf x \<Longrightarrow> unmarshal (ty x) (val x) = Ok (view x)"
begin

lemma Encode_field: "wf x \<Longrightarrow> Encode [field x] = Ok (tlv_bytes (ty x) (val x))"
  by (simp add: Encode_encs enc_field)

lemma Decode_Encode:
  "wf x \<Longrightarrow> andthen (Encode [field x]) (\<lambda>w. Decode w unmarshal) = Ok (view x)"
  using ty_val_ok [of x] by (simp add: Encode_field Decode_tlv unmarshal_val)

lemma Encode_determines:
  assumes "wf x" and "wf y" and "Encode [field x] = Encode [field y]"
  shows "view x = view y"
  using Decode_Encode [OF assms(1)] Decode_Encode [OF assms(2)] assms(3) by simp

lemma items_ok: "list_all wf xs \<Longrightarrow> list_all tlv_ok (items ty val xs)"
  using ty_val_ok by (auto simp: items_def list_all_iff)

lemma encs_fields: "list_all wf xs \<Longrightarrow> encs (map field xs) = Ok (tlvs (items ty val xs))"
  by (induction xs) (simp_all add: items_def enc_field)

lemma Elements_items: "list_all wf xs \<Longrightarrow> Elements (tlvs (items ty val xs)) = Ok (elems_of (items ty val xs) [], [])"
  by (simp add: Elements_tlvs items_ok)

lemma unmarshal_items:
  "list_all wf xs \<Longrightarrow>
   forRange (\<lambda>acc de. andthen (unmarshal (Type de) (Value de)) (\<lambda>y. Ok (acc @ [y]))) acc
     (elems_of (items ty val xs) tail) = Ok (acc @ map view xs)"
  by (induction xs arbitrary: acc) (simp_all add: items_def unmarshal_val)

end

end
