(* ===== verification/Ndn_An.thy ===== *)
theory Ndn_An
  imports Ndn_Prelude
begin

text \<open>
  NDN assigned numbers (\<open>ndn/an\<close>): TLV-TYPE numbers, NackReason, SigType and ContentType codes.
  They are simplification rules, so that a comparison of assigned numbers evaluates.
\<close>

subsection \<open>TLV-TYPE\<close>

definition TtInvalid :: u32 where [simp]: "TtInvalid = 0x00"
definition TtLpPacket :: u32 where [simp]: "TtLpPacket = 0x64"
definition TtLpPayload :: u32 where [simp]: "TtLpPayload = 0x50"
definition TtLpSeqNum :: u32 where [simp]: "TtLpSeqNum = 0x51"
definition TtFragIndex :: u32 where [simp]: "TtFragIndex = 0x52"
definition TtFragCount :: u32 where [simp]: "TtFragCount = 0x53"
definition TtPitToken :: u32 where [simp]: "TtPitToken = 0x62"
definition TtNack :: u32 where [simp]: "TtNack = 0x0320"
definition TtNackReason :: u32 where [simp]: "TtNackReason = 0x0321"
definition TtCongestionMark :: u32 where [simp]: "TtCongestionMark = 0x0340"
definition TtName :: u32 where [simp]: "TtName = 0x07"
definition TtGenericNameComponent :: u32 where [simp]: "TtGenericNameComponent = 0x08"
definition TtImplicitSha256DigestComponent :: u32 where [simp]: "TtImplicitSha256DigestComponent = 0x01"
definition TtParametersSha256DigestComponent :: u32 where [simp]: "TtParametersSha256DigestComponent = 0x02"
definition TtKeywordNameComponent :: u32 where [simp]: "TtKeywordNameComponent = 0x20"
definition TtSegmentNameComponent :: u32 where [simp]: "TtSegmentNameComponent = 0x32"
definition TtByteOffsetNameComponent :: u32 where [simp]: "TtByteOffsetNameComponent = 0x34"
definition TtVersionNameComponent :: u32 where [simp]: "TtVersionNameComponent = 0x36"
definition TtTimestampNameComponent :: u32 where [simp]: "TtTimestampNameComponent = 0x38"
definition TtSequenceNumNameComponent :: u32 where [simp]: "TtSequenceNumNameComponent = 0x3A"
definition TtInterest :: u32 where [simp]: "TtInterest = 0x05"
definition TtCanBePrefix :: u32 where [simp]: "TtCanBePrefix = 0x21"
definition TtMustBeFresh :: u32 where [simp]: "TtMustBeFresh = 0x12"
definition TtForwardingHint :: u32 where [simp]: "TtForwardingHint = 0x1E"
definition TtNonce :: u32 where [simp]: "TtNonce = 0x0A"
definition TtInterestLifetime :: u32 where [simp]: "TtInterestLifetime = 0x0C"
definition TtHopLimit :: u32 where [simp]: "TtHopLimit = 0x22"
definition TtAppParameters :: u32 where [simp]: "TtAppParameters = 0x24"
definition TtISigInfo :: u32 where [simp]: "TtISigInfo = 0x2C"
definition TtISigValue :: u32 where [simp]: "TtISigValue = 0x2E"
definition TtData :: u32 where [simp]: "TtData = 0x06"
definition TtMetaInfo :: u32 where [simp]: "TtMetaInfo = 0x14"
definition TtContentType :: u32 where [simp]: "TtContentType = 0x18"
definition TtFreshnessPeriod :: u32 where [simp]: "TtFreshnessPeriod = 0x19"
definition TtFinalBlock :: u32 where [simp]: "TtFinalBlock = 0x1A"
definition TtContent :: u32 where [simp]: "TtContent = 0x15"
definition TtDSigInfo :: u32 where [simp]: "TtDSigInfo = 0x16"
definition TtDSigValue :: u32 where [simp]: "TtDSigValue = 0x17"
definition TtSigType :: u32 where [simp]: "TtSigType = 0x1B"
definition TtKeyLocator :: u32 where [simp]: "TtKeyLocator = 0x1C"
definition TtKeyDigest :: u32 where [simp]: "TtKeyDigest = 0x1D"
definition TtSigNonce :: u32 where [simp]: "TtSigNonce = 0x26"
definition TtSigTime :: u32 where [simp]: "TtSigTime = 0x28"
definition TtSigSeqNum :: u32 where [simp]: "TtSigSeqNum = 0x2A"
definition TtValidityPeriod :: u32 where [simp]: "TtValidityPeriod = 0x00FD"
definition TtNotBefore :: u32 where [simp]: "TtNotBefore = 0x00FE"
definition TtNotAfter :: u32 where [simp]: "TtNotAfter = 0x00FF"

subsection \<open>NackReason\<close>

definition NackNone :: u8 where [simp]: "NackNone = 0"
definition NackCongestion :: u8 where [simp]: "NackCongestion = 50"
definition NackDuplicate :: u8 where [simp]: "NackDuplicate = 100"
definition NackNoRoute :: u8 where [simp]: "NackNoRoute = 150"
definition NackUnspecified :: u8 where [simp]: "NackUnspecified = 255"

subsection \<open>SigType\<close>

definition SigSha256 :: u32 where [simp]: "SigSha256 = 0x00"
definition SigSha256WithRsa :: u32 where [simp]: "SigSha256WithRsa = 0x01"
definition SigSha256WithEcdsa :: u32 where [simp]: "SigSha256WithEcdsa = 0x03"
definition SigHmacWithSha256 :: u32 where [simp]: "SigHmacWithSha256 = 0x04"
definition SigNull :: u32 where [simp]: "SigNull = 0xC8"

end
