(* ===== verification/Ndn_Name.thy ===== *)
theory Ndn_Name
  imports Tlv_Encode Ndn_An "HOL-Library.Sublist"
begin

text \<open>
  Name components and names (\<open>ndn/name-component.go\<close>, \<open>ndn/name.go\<close>), without their URI form.
  \<open>NameComponent\<close> embeds one \<open>tlv.Element\<close> and nothing else, so it is that record. The lemmas show
  that \<open>Compare\<close> is a linear order whose zero is equality, that \<open>IsPrefixOf\<close> is the prefix relation,
  and that components and names meet the codec contract.
\<close>

subsection \<open>NameComponent\<close>

type_synonym NameComponent = Element

definition invalidComponent :: NameComponent where
  "invalidComponent = \<lparr>Type = 0, Value = []\<rparr>"

definition isValidNameComponentType :: "u32 \<Rightarrow> bool" where
  "isValidNameComponentType t \<longleftrightarrow> t \<ge> 1 \<and> t \<le> 65535"

definition NameComponent_Valid :: "NameComponent \<Rightarrow> bool" where
  "NameComponent_Valid c = isValidNameComponentType (Type c)"

text \<open>Go's \<open>bytes.Compare\<close>.\<close>

fun bytes_Compare :: "bytes \<Rightarrow> bytes \<Rightarrow> int" where
  "bytes_Compare [] [] = 0"
| "bytes_Compare [] (b # bs) = - 1"
| "bytes_Compare (a # as) [] = 1"
| "bytes_Compare (a # as) (b # bs) =
     (if a < b then - 1 else if b < a then 1 else bytes_Compare as bs)"

definition NameComponent_Compare :: "NameComponent \<Rightarrow> NameComponent \<Rightarrow> int" where
  "NameComponent_Compare c other =
     (let d = int (unat (Type c)) - int (unat (Type other)) in
      if d \<noteq> 0 then d
      else let d = int (Element_Length c) - int (Element_Length other) in
        if d \<noteq> 0 then d
        else bytes_Compare (Value c) (Value other))"

definition NameComponent_Equal :: "NameComponent \<Rightarrow> NameComponent \<Rightarrow> bool" where
  "NameComponent_Equal c other \<longleftrightarrow> NameComponent_Compare c other = 0"

definition NameComponent_Field :: "NameComponent \<Rightarrow> Field" where
  "NameComponent_Field c =
     (if \<not> NameComponent_Valid c then FieldError (Some ErrComponentType)
      else Element_Field c)"

definition NameComponent_UnmarshalTLV :: "u32 \<Rightarrow> bytes \<Rightarrow> NameComponent outcome" where
  "NameComponent_UnmarshalTLV ty value =
     (let c = \<lparr>Type = ty, Value = value\<rparr> in
      if \<not> NameComponent_Valid c then Fail ErrComponentType else Ok c)"

definition MakeNameComponent :: "u32 \<Rightarrow> bytes \<Rightarrow> NameComponent" where
  "MakeNameComponent ty value = \<lparr>Type = ty, Value = value\<rparr>"

definition NameComponentFrom :: "u32 \<Rightarrow> Field \<Rightarrow> NameComponent" where
  "NameComponentFrom ty value =
     (case Field_Encode value [] of
        Ok v \<Rightarrow> MakeNameComponent ty v
      | _ \<Rightarrow> invalidComponent)"

subsection \<open>Name\<close>

type_synonym Name = "NameComponent list"

definition Name_Length :: "Name \<Rightarrow> nat" where
  "Name_Length name = foldl (\<lambda>sum c. sum + Element_Size c) 0 name"

definition Name_Get :: "Name \<Rightarrow> int \<Rightarrow> NameComponent" where
  "Name_Get name i =
     (let i = (if i < 0 then i + int (length name) else i) in
      if i < 0 \<or> i \<ge> int (length name) then invalidComponent
      else name ! nat i)"

text \<open>The optional second argument of \<open>Slice\<close> is a list of at most one index.\<close>

definition Name_Slice :: "Name \<Rightarrow> int \<Rightarrow> int list \<Rightarrow> Name outcome" where
  "Name_Slice name i j =
     (let i = (if i < 0 then i + int (length name) else i) in
      case j of
        [] \<Rightarrow> Ok (if i < 0 \<or> i \<ge> int (length name) then [] else drop (nat i) name)
      | [j0] \<Rightarrow>
          (let jj = (if j0 < 0 then j0 + int (length name) else j0) in
           Ok (if i < 0 \<or> i \<ge> jj \<or> jj > int (length name) then []
               else drop (nat i) (take (nat jj) name)))
      | _ \<Rightarrow> Panic)"

definition Name_GetPrefix :: "Name \<Rightarrow> int \<Rightarrow> Name outcome" where
  "Name_GetPrefix name i = Name_Slice name 0 [i]"

definition Name_Append :: "Name \<Rightarrow> NameComponent list \<Rightarrow> Name" where
  "Name_Append name cs = ([] @ name) @ cs"

fun compareCommonPrefix :: "Name \<Rightarrow> Name \<Rightarrow> int" where
  "compareCommonPrefix [] other = 0"
| "compareCommonPrefix (c # cs) [] = 0"
| "compareCommonPrefix (c # cs) (d # ds) =
     (let r = NameComponent_Compare c d in if r \<noteq> 0 then r else compareCommonPrefix cs ds)"

definition Name_Compare :: "Name \<Rightarrow> Name \<Rightarrow> int" where
  "Name_Compare name other =
     (let d = compareCommonPrefix name other in
      if d \<noteq> 0 then d else int (length name) - int (length other))"

definition Name_Equal :: "Name \<Rightarrow> Name \<Rightarrow> bool" where
  "Name_Equal name other \<longleftrightarrow> Name_Compare name other = 0"

definition Name_IsPrefixOf :: "Name \<Rightarrow> Name \<Rightarrow> bool" where
  "Name_IsPrefixOf name other =
     (if compareCommonPrefix name other \<noteq> 0 then False else length name \<le> length other)"

definition Name_Field :: "Name \<Rightarrow> Field" where
  "Name_Field name = TLV TtName (map NameComponent_Field name)"

definition Name_MarshalBinary :: "Name \<Rightarrow> bytes outcome" where
  "Name_MarshalBinary name = EncodeValueOnly (Name_Field name)"

definition Name_UnmarshalBinary :: "bytes \<Rightarrow> Name outcome" where
  "Name_UnmarshalBinary wire =
     andthen (Elements wire) (\<lambda>(elements, d).
       andthen (forRange (\<lambda>name element.
           andthen (NameComponent_UnmarshalTLV (Type element) (Value element)) (\<lambda>c.
             Ok (name @ [c]))) [] elements) (\<lambda>name.
         andthen (ErrUnlessEOF d) (\<lambda>_. Ok name)))"

subsection \<open>Three-way comparison\<close>

text \<open>
  Go code compares by the sign of an integer. The contract of such a function: zero is equality,
  swapping the arguments negates the result, and it is transitive. It then is a linear order.
\<close>

locale comparator =
  fixes cmp :: "'a \<Rightarrow> 'a \<Rightarrow> int"
  assumes cmp_zero: "cmp x y = 0 \<longleftrightarrow> x = y"
    and cmp_swap: "cmp y x = - cmp x y"
    and cmp_trans: "cmp x y \<le> 0 \<Longrightarrow> cmp y z \<le> 0 \<Longrightarrow> cmp x z \<le> 0"
begin

sublocale ord: ordering "\<lambda>x y. cmp x y \<le> 0" "\<lambda>x y. cmp x y < 0"
proof
  fix x y z
  show "cmp x y < 0 \<longleftrightarrow> cmp x y \<le> 0 \<and> x \<noteq> y" using cmp_zero [of x y] by auto
  show "cmp x x \<le> 0" using cmp_zero [of x x] by simp
  show "cmp x y \<le> 0 \<Longrightarrow> cmp y z \<le> 0 \<Longrightarrow> cmp x z \<le> 0" by (rule cmp_trans)
  show "cmp x y \<le> 0 \<Longrightarrow> cmp y x \<le> 0 \<Longrightarrow> x = y"
    using cmp_zero [of x y] cmp_swap [of y x] by simp
qed

lemma cmp_total: "cmp x y \<le> 0 \<or> cmp y x \<le> 0"
  using cmp_swap [of y x] by linarith

end

lemma bytes_Compare_zero: "bytes_Compare a b = 0 \<longleftrightarrow> a = b"
  by (induction a b rule: bytes_Compare.induct) auto

lemma bytes_Compare_swap: "bytes_Compare b a = - bytes_Compare a b"
  by (induction a b rule: bytes_Compare.induct) auto

lemma bytes_Compare_trans:
  "bytes_Compare a b \<le> 0 \<Longrightarrow> bytes_Compare b c \<le> 0 \<Longrightarrow> bytes_Compare a c \<le> 0"
proof (induction a b arbitrary: c rule: bytes_Compare.induct)
  case (4 a as b bs)
  then show ?case by (cases c) (auto split: if_splits)
next
  case (2 b bs)
  then show ?case by (cases c) auto
qed auto

interpretation bytes_cmp: comparator bytes_Compare
  by unfold_locales (rule bytes_Compare_zero bytes_Compare_swap bytes_Compare_trans; assumption?)+

lemma NameComponent_Compare_alt:
  "NameComponent_Compare c d =
     (if Type c \<noteq> Type d then uint (Type c) - uint (Type d)
      else if length (Value c) \<noteq> length (Value d) then int (length (Value c)) - int (length (Value d))
      else bytes_Compare (Value c) (Value d))"
  by (simp add: NameComponent_Compare_def Let_def Element_Length_def word_uint_eq_iff)

lemma NameComponent_Compare_trans:
  assumes "NameComponent_Compare c d \<le> 0" and "NameComponent_Compare d e \<le> 0"
  shows "NameComponent_Compare c e \<le> 0"
proof (cases "Type c = Type d \<and> Type d = Type e")
  case True
  show ?thesis
  proof (cases "length (Value c) = length (Value d) \<and> length (Value d) = length (Value e)")
    case lengths: True
    with True assms show ?thesis
      by (auto simp: NameComponent_Compare_alt intro: bytes_Compare_trans)
  next
    case False
    with True assms show ?thesis by (auto simp: NameComponent_Compare_alt split: if_splits)
  qed
next
  case False
  with assms show ?thesis
    by (auto simp: NameComponent_Compare_alt word_uint_eq_iff split: if_splits)
qed

interpretation component_cmp: comparator NameComponent_Compare
proof
  fix c d e :: NameComponent
  show "NameComponent_Compare c d = 0 \<longleftrightarrow> c = d"
    by (auto simp: NameComponent_Compare_alt bytes_Compare_zero word_uint_eq_iff
        intro!: Element.equality)
  show "NameComponent_Compare d c = - NameComponent_Compare c d"
    by (auto simp: NameComponent_Compare_alt bytes_Compare_swap [of "Value d"])
qed (rule NameComponent_Compare_trans)

lemma Name_Compare_simps [simp]:
  "Name_Compare [] other = - int (length other)"
  "Name_Compare other [] = int (length other)"
  "Name_Compare (c # cs) (d # ds) =
     (if c = d then Name_Compare cs ds else NameComponent_Compare c d)"
  by (cases other; simp add: Name_Compare_def Let_def component_cmp.cmp_zero)+

lemma Name_Compare_induct [case_names Nil Left Both]:
  fixes cs ds :: Name
  assumes "\<And>ds. P [] ds" and "\<And>c cs. P (c # cs) []"
    and "\<And>c cs d ds. P cs ds \<Longrightarrow> P (c # cs) (d # ds)"
  shows "P cs ds"
  using assms by (induction cs ds rule: list_induct2') auto

lemma Name_Compare_trans:
  "Name_Compare a b \<le> 0 \<Longrightarrow> Name_Compare b c \<le> 0 \<Longrightarrow> Name_Compare a c \<le> 0"
proof (induction a b arbitrary: c rule: Name_Compare_induct)
  case (Both x xs y ys)
  then show ?case
    by (cases c) (auto split: if_splits intro: component_cmp.cmp_trans
        dest: component_cmp.ord.antisym)
qed auto

interpretation name_cmp: comparator Name_Compare
proof
  fix a b :: Name
  show "Name_Compare a b = 0 \<longleftrightarrow> a = b"
    by (induction a b rule: Name_Compare_induct) (auto simp: component_cmp.cmp_zero)
  show "Name_Compare b a = - Name_Compare a b"
  proof (induction a b rule: Name_Compare_induct)
    case (Both c cs d ds)
    then show ?case using component_cmp.cmp_swap [of c d] by auto
  qed auto
qed (rule Name_Compare_trans)

lemma Name_Equal_iff [simp]: "Name_Equal a b \<longleftrightarrow> a = b"
  by (simp add: Name_Equal_def name_cmp.cmp_zero)

lemma NameComponent_Equal_iff [simp]: "NameComponent_Equal c d \<longleftrightarrow> c = d"
  by (simp add: NameComponent_Equal_def component_cmp.cmp_zero)

lemma Name_IsPrefixOf_iff [simp]: "Name_IsPrefixOf a b \<longleftrightarrow> prefix a b"
  by (induction a b rule: Name_Compare_induct)
    (auto simp: Name_IsPrefixOf_def Let_def component_cmp.cmp_zero split: if_splits)

subsection \<open>Codec contracts\<close>

definition comp_ok :: "NameComponent \<Rightarrow> bool" where
  "comp_ok c \<longleftrightarrow> NameComponent_Valid c \<and> slice_ok (Value c)"

definition name_value :: "Name \<Rightarrow> bytes" where
  "name_value name = tlvs (items Type Value name)"

definition name_ok :: "Name \<Rightarrow> bool" where
  "name_ok name \<longleftrightarrow> list_all comp_ok name \<and> slice_ok (name_value name)"

lemma valid_type_nonzero [simp]: "NameComponent_Valid c \<Longrightarrow> Type c \<noteq> 0"
  by (auto simp: NameComponent_Valid_def isValidNameComponentType_def)

lemma NameComponent_UnmarshalTLV_Ok [simp]:
  "NameComponent_UnmarshalTLV t v = Ok c \<longleftrightarrow> c = \<lparr>Type = t, Value = v\<rparr> \<and> NameComponent_Valid c"
  by (auto simp: NameComponent_UnmarshalTLV_def Let_def)

interpretation component_codec:
  tlv_codec NameComponent_Field NameComponent_UnmarshalTLV Type Value comp_ok "\<lambda>c. c"
proof
  fix c :: NameComponent
  assume "comp_ok c"
  then show "enc (NameComponent_Field c) = Ok (tlv_bytes (Type c) (Value c))"
    and "tlv_ok (Type c, Value c)"
    and "NameComponent_UnmarshalTLV (Type c) (Value c) = Ok c"
    by (auto simp: comp_ok_def NameComponent_Field_def Element_Field_def valid_type_nonzero
        NameComponent_UnmarshalTLV_def NameComponent_Valid_def)
qed

lemma Name_MarshalBinary_ok:
  "list_all comp_ok name \<Longrightarrow> Name_MarshalBinary name = Ok (name_value name)"
  by (simp add: Name_MarshalBinary_def Name_Field_def name_value_def component_codec.encs_fields)

lemma Name_Unmarshal_value:
  "list_all comp_ok name \<Longrightarrow> Name_UnmarshalBinary (name_value name) = Ok name"
  by (simp add: Name_UnmarshalBinary_def name_value_def component_codec.Elements_items
      component_codec.unmarshal_items)

interpretation name_codec:
  tlv_codec Name_Field "\<lambda>_. Name_UnmarshalBinary" "\<lambda>_. TtName" name_value name_ok "\<lambda>n. n"
proof
  fix name :: Name
  assume "name_ok name"
  then show "enc (Name_Field name) = Ok (tlv_bytes TtName (name_value name))"
    and "tlv_ok (TtName, name_value name)"
    and "Name_UnmarshalBinary (name_value name) = Ok name"
    by (simp_all add: name_ok_def Name_Field_def name_value_def component_codec.encs_fields
        Name_Unmarshal_value [unfolded name_value_def])
qed

lemma length_name_value: "length (name_value name) = Name_Length name"
proof -
  have "foldl (\<lambda>sum c. sum + Element_Size c) k name = k + length (name_value name)" for k
    by (induction name arbitrary: k)
      (simp_all add: name_value_def items_def length_tlv_bytes Element_Size_def Element_Length_def)
  then show ?thesis by (simp add: Name_Length_def)
qed

lemma Name_MarshalBinary_Ok_iff:
  "(\<exists>w. Name_MarshalBinary name = Ok w) \<longleftrightarrow> list_all NameComponent_Valid name"
proof -
  have "(\<exists>w. encs (map NameComponent_Field name) = Ok w) \<longleftrightarrow> list_all NameComponent_Valid name"
    by (induction name)
      (auto simp: NameComponent_Field_def Element_Field_def valid_type_nonzero)
  then show ?thesis by (simp add: Name_MarshalBinary_def Name_Field_def)
qed

text \<open>A decoded name has valid components only, each a piece of the input.\<close>

lemma Element_Value_length:
  "Element_Decode wire = Ok (el, rest) \<Longrightarrow> length (Value el) + length rest < length wire"
  by (auto elim!: Element_Decode_OkE dest!: VarNum_Decode_shrinks)

lemma Elements_values:
  "Elements d = Ok (des, rest) \<Longrightarrow> de \<in> set des \<Longrightarrow> length (Value de) < length d"
proof (induction d arbitrary: des rule: Elements.induct)
  case (1 d)
  from "1.prems"(1) have "des \<noteq> [] \<Longrightarrow> \<exists>e d' list. DecodingBuffer_Element d = Ok (e, d')
      \<and> Elements d' = Ok (list, rest) \<and> des = e # list"
    by (auto simp: Elements.simps [of d] split: outcome.splits)
  with "1.prems"(2) obtain e d' list where *: "DecodingBuffer_Element d = Ok (e, d')"
    "Elements d' = Ok (list, rest)" "des = e # list" by fastforce
  then have "length (Value e) + length d' < length d"
    by (auto simp: DecodingBuffer_Element_def dest!: Element_Value_length)
  with "1.IH" [OF *(1) refl *(2)] "1.prems"(2) *(3) show ?case by fastforce
qed

lemma Name_Unmarshal_comp_ok:
  assumes "Name_UnmarshalBinary wire = Ok name" and "slice_ok wire"
  shows "list_all comp_ok name"
proof -
  from assms(1) obtain des d where des: "Elements wire = Ok (des, d)"
    and loop: "forRange (\<lambda>name de. andthen (NameComponent_UnmarshalTLV (Type de) (Value de))
      (\<lambda>c. Ok (name @ [c]))) [] des = Ok name"
    by (auto simp: Name_UnmarshalBinary_def)
  have vals: "\<forall>de \<in> set des. slice_ok (Value de)"
    using Elements_values [OF des] assms(2) by (fastforce simp: slice_ok_def)
  from loop show ?thesis
    by (rule forRange_invariant) (use vals in \<open>auto simp: comp_ok_def\<close>)
qed

subsection \<open>Properties\<close>

text \<open>
  Name_Compare_total_order. \<open>Name.Compare\<close> is a total order on names: zero means the names
  are the same (so \<open>Equal\<close> is equality), swapping the arguments negates the result, it is
  transitive, and \<open>IsPrefixOf\<close> is the prefix relation, whose prefixes never compare greater.
\<close>

theorem Name_Compare_total_order:
  "(Name_Compare a b = 0 \<longleftrightarrow> a = b)
   \<and> (Name_Equal a b \<longleftrightarrow> a = b)
   \<and> Name_Compare b a = - Name_Compare a b
   \<and> (Name_Compare a b \<le> 0 \<longrightarrow> Name_Compare b c \<le> 0 \<longrightarrow> Name_Compare a c \<le> 0)
   \<and> (Name_IsPrefixOf a b \<longleftrightarrow> (\<exists>s. b = a @ s))
   \<and> (Name_IsPrefixOf a b \<longrightarrow> Name_Compare a b \<le> 0)"
proof -
  have "prefix a b \<Longrightarrow> Name_Compare a b \<le> 0"
    by (induction a b rule: Name_Compare_induct) auto
  then show ?thesis
    using Name_Compare_trans [of a b c] name_cmp.cmp_swap [of b a]
    by (simp add: name_cmp.cmp_zero prefix_def)
qed

theorem Name_Compare_total_order_witness:
  "let a = [\<lparr>Type = 8, Value = [0x41]\<rparr>]; b = a @ [\<lparr>Type = 8, Value = []\<rparr>];
       c = [\<lparr>Type = 8, Value = [0x41, 0x41]\<rparr>]
   in Name_Compare a b \<le> 0 \<and> Name_Compare b c \<le> 0 \<and> Name_Compare a c \<le> 0 \<and> Name_IsPrefixOf a b"
proof -
  let ?a = "[\<lparr>Type = 8, Value = [0x41]\<rparr>] :: Name"
  let ?b = "?a @ [\<lparr>Type = 8, Value = []\<rparr>]" and ?c = "[\<lparr>Type = 8, Value = [0x41, 0x41]\<rparr>] :: Name"
  have "Name_Compare ?a ?b \<le> 0" and "Name_Compare ?b ?c \<le> 0"
    by (simp_all add: NameComponent_Compare_alt)
  moreover have "Name_IsPrefixOf ?a ?b" by simp
  ultimately show ?thesis
    unfolding Let_def using Name_Compare_total_order [of ?a ?b ?c] by blast
qed

text \<open>
  Name_roundtrip. Every name whose components have a valid TLV-TYPE encodes, to as many bytes
  as \<open>Name.Length\<close> announces, and decoding these bytes returns the same name. In the other
  direction every name that \<open>UnmarshalBinary\<close> accepts has valid components only, so it encodes again.
\<close>

theorem Name_roundtrip:
  "(list_all comp_ok name \<longrightarrow>
      (\<exists>w. Name_MarshalBinary name = Ok w \<and> length w = Name_Length name
           \<and> Name_UnmarshalBinary w = Ok name))
   \<and> (slice_ok wire \<and> Name_UnmarshalBinary wire = Ok name' \<longrightarrow>
      list_all NameComponent_Valid name' \<and> (\<exists>w. Name_MarshalBinary name' = Ok w))"
proof -
  have "list_all comp_ok name' \<Longrightarrow> list_all NameComponent_Valid name'"
    by (simp add: list_all_iff comp_ok_def)
  then show ?thesis
    using Name_Unmarshal_comp_ok [of wire name'] Name_MarshalBinary_ok [of name']
    by (auto simp: Name_MarshalBinary_ok Name_Unmarshal_value length_name_value)
qed

theorem Name_roundtrip_witness:
  "let name = [\<lparr>Type = 8, Value = [0x41]\<rparr>, \<lparr>Type = 0x32, Value = [1]\<rparr>]
   in (\<exists>w. Name_MarshalBinary name = Ok w \<and> length w = Name_Length name
           \<and> Name_UnmarshalBinary w = Ok name)
      \<and> Name_UnmarshalBinary [0xFD, 0, 8, 1, 0x41] = Ok [\<lparr>Type = 8, Value = [0x41]\<rparr>]
      \<and> list_all NameComponent_Valid [\<lparr>Type = 8, Value = [0x41]\<rparr>]"
proof -
  let ?n = "[\<lparr>Type = 8, Value = [0x41]\<rparr>, \<lparr>Type = 0x32, Value = [1]\<rparr>] :: Name"
  have ok: "list_all comp_ok ?n"
    by (simp add: comp_ok_def NameComponent_Valid_def isValidNameComponentType_def slice_ok_def)
  have dec: "Name_UnmarshalBinary [0xFD, 0, 8, 1, 0x41] = Ok [\<lparr>Type = 8, Value = [0x41]\<rparr>]"
    by code_simp
  have "slice_ok [0xFD, 0, 8, 1, 0x41 :: byte]" by (simp add: slice_ok_def)
  with dec Name_roundtrip [of ?n "[0xFD, 0, 8, 1, 0x41]" "[\<lparr>Type = 8, Value = [0x41]\<rparr>]"] ok
  show ?thesis unfolding Let_def by blast
qed

end
