(* ===== verification/Ndn_Uri.thy ===== *)
theory Ndn_Uri
  imports Ndn_Name
begin

text \<open>
  The URI form of components and names (\<open>ndn/name-component.go\<close>, \<open>ndn/name.go\<close>): \<open>String\<close>,
  \<open>ParseNameComponent\<close>, \<open>ParseName\<close>. A Go string is its bytes. The functions of \<open>strconv\<close> and
  \<open>strings\<close> that the code calls are defined first.
\<close>

subsection \<open>Strings of the Go standard library\<close>

definition str :: "string \<Rightarrow> bytes" where
  "str s = map of_char s"

text \<open>\<open>strconv.Itoa\<close> on a number that is not negative.\<close>

fun Itoa :: "nat \<Rightarrow> bytes" where
  "Itoa n = (if n < 10 then [0x30 + of_nat n] else Itoa (n div 10) @ [0x30 + of_nat (n mod 10)])"

declare Itoa.simps [simp del]

text \<open>
  \<open>strconv.ParseUint\<close> with a base that is not zero: None stands for its error, on an empty string, a
  byte that is not a digit of the base, or a value above \<open>bitSize\<close> bits.
\<close>

definition digitVal :: "byte \<Rightarrow> nat option" where
  "digitVal c =
     (if 0x30 \<le> c \<and> c \<le> 0x39 then Some (unat c - 0x30)
      else if 0x61 \<le> (c OR 0x20) \<and> (c OR 0x20) \<le> 0x7A then Some (unat (c OR 0x20) - 0x61 + 10)
      else None)"

fun parseDigits :: "nat \<Rightarrow> nat \<Rightarrow> bytes \<Rightarrow> nat option" where
  "parseDigits base acc [] = Some acc"
| "parseDigits base acc (c # cs) =
     (case digitVal c of
        None \<Rightarrow> None
      | Some d \<Rightarrow> if d \<ge> base then None else parseDigits base (acc * base + d) cs)"

definition ParseUint :: "bytes \<Rightarrow> nat \<Rightarrow> nat \<Rightarrow> nat option" where
  "ParseUint s base bitSize =
     (if s = [] then None
      else case parseDigits base 0 s of
        None \<Rightarrow> None
      | Some n \<Rightarrow> if n < 2 ^ bitSize then Some n else None)"

text \<open>\<open>strings.IndexByte\<close> (None for -1), \<open>strings.TrimRight(s, ".")\<close>, \<open>strings.TrimPrefix\<close> and
  \<open>strings.Split\<close> on one separator byte.\<close>

fun IndexByte :: "bytes \<Rightarrow> byte \<Rightarrow> nat option" where
  "IndexByte [] c = None"
| "IndexByte (b # bs) c = (if b = c then Some 0 else map_option Suc (IndexByte bs c))"

definition TrimRight :: "byte \<Rightarrow> bytes \<Rightarrow> bytes" where
  "TrimRight c s = rev (dropWhile (\<lambda>b. b = c) (rev s))"

definition TrimPrefix :: "bytes \<Rightarrow> bytes \<Rightarrow> bytes" where
  "TrimPrefix s p = (if prefix p s then drop (length p) s else s)"

fun Split :: "bytes \<Rightarrow> byte \<Rightarrow> bytes list" where
  "Split [] c = [[]]"
| "Split (b # bs) c =
     (if b = c then [] # Split bs c
      else case Split bs c of [] \<Rightarrow> [[b]] | t # ts \<Rightarrow> (b # t) # ts)"

subsection \<open>Components\<close>

definition unescapedChars :: bytes where
  "unescapedChars =
     str ''ABCDEFGHIJKLMNOPQRSTUVWXYZabcdefghijklmnopqrstuvwxyz0123456789-._~''"

definition hexChars :: bytes where
  "hexChars = str ''0123456789ABCDEF''"

definition escapeByte :: "byte \<Rightarrow> bytes" where
  "escapeByte b =
     (if IndexByte unescapedChars b \<noteq> None then [b]
      else [0x25, hexChars ! unat (drop_bit 4 b), hexChars ! unat (b AND 0x0F)])"

definition writeStringTo :: "NameComponent \<Rightarrow> bytes \<Rightarrow> bytes" where
  "writeStringTo c w =
     (let w = w @ Itoa (unat (Type c)) @ [0x3D];
          (w, nNonPeriods) =
            foldl (\<lambda>(w, n) b. (w @ escapeByte b, if b \<noteq> 0x2E then Suc n else n))
              (w, 0 :: nat) (Value c)
      in if nNonPeriods = 0 then w @ str ''...'' else w)"

definition NameComponent_String :: "NameComponent \<Rightarrow> bytes" where
  "NameComponent_String c = writeStringTo c []"

fun unescape :: "bytes \<Rightarrow> bytes" where
  "unescape [] = []"
| "unescape (ch # rest) =
     (if ch = 0x25 \<and> length rest \<ge> 2 then
        (case ParseUint (take 2 rest) 16 8 of
           Some b \<Rightarrow> of_nat b # unescape (drop 2 rest)
         | None \<Rightarrow> ch # unescape rest)
      else ch # unescape rest)"

definition ParseNameComponent :: "bytes \<Rightarrow> NameComponent outcome" where
  "ParseNameComponent input =
     (let (ty, pos) =
        (case IndexByte input 0x3D of
           Some p \<Rightarrow>
             (case ParseUint (take p input) 10 32 of
                Some t \<Rightarrow> if isValidNameComponentType (of_nat t) then (of_nat t, p + 1)
                          else (TtGenericNameComponent, 0)
              | None \<Rightarrow> (TtGenericNameComponent, 0))
         | None \<Rightarrow> (TtGenericNameComponent, 0))
      in if length (TrimRight 0x2E input) = pos \<and> length input \<ge> 3 then
           (if length input < pos + 3 then Panic
            else Ok \<lparr>Type = ty, Value = drop (pos + 3) input\<rparr>)
         else Ok \<lparr>Type = ty, Value = unescape (drop pos input)\<rparr>)"

subsection \<open>Names\<close>

definition Name_String :: "Name \<Rightarrow> bytes" where
  "Name_String name =
     (if length name = 0 then str ''/''
      else foldl (\<lambda>w c. writeStringTo c (w @ [0x2F])) [] name)"

definition ParseName :: "bytes \<Rightarrow> Name outcome" where
  "ParseName input =
     forRange (\<lambda>name token.
         if token = [] then Ok name
         else andthen (ParseNameComponent token) (\<lambda>c. Ok (name @ [c])))
       [] (Split (TrimPrefix input (str ''ndn:'')) 0x2F)"

definition Name_MarshalText :: "Name \<Rightarrow> bytes outcome" where
  "Name_MarshalText name = Ok (Name_String name)"

definition Name_UnmarshalText :: "bytes \<Rightarrow> Name outcome" where
  "Name_UnmarshalText text = ParseName text"

subsection \<open>Decimal and hexadecimal digits\<close>

lemma digitVal_decimal: "d < 10 \<Longrightarrow> digitVal (0x30 + of_nat d) = Some d"
proof -
  assume "d < 10"
  then have "d \<in> {0, 1, 2, 3, 4, 5, 6, 7, 8, 9}" by auto
  then show ?thesis by (auto simp: digitVal_def)
qed

lemma digitVal_hex: "i < 16 \<Longrightarrow> digitVal (hexChars ! i) = Some i"
proof -
  assume "i < 16"
  then have "i \<in> {0, 1, 2, 3, 4, 5, 6, 7, 8, 9, 10, 11, 12, 13, 14, 15}"
    by (simp only: insert_iff empty_iff) presburger
  then show ?thesis by (auto simp: digitVal_def hexChars_def str_def)
qed

lemma parseDigits_append:
  "parseDigits base acc (xs @ ys) = Option.bind (parseDigits base acc xs) (\<lambda>a. parseDigits base a ys)"
  by (induction base acc xs rule: parseDigits.induct) (auto split: option.split)

lemma parseDigits_Itoa: "parseDigits 10 0 (Itoa n) = Some n"
proof (induction n rule: Itoa.induct)
  case (1 n)
  show ?case
  proof (cases "n < 10")
    case True
    then show ?thesis by (simp add: Itoa.simps [of n] digitVal_decimal)
  next
    case False
    then have "parseDigits 10 0 (Itoa n) = Some (n div 10 * 10 + n mod 10)"
      using 1 by (simp add: Itoa.simps [of n] parseDigits_append digitVal_decimal)
    then show ?thesis by simp
  qed
qed

lemma Itoa_not_Nil [simp]: "Itoa n \<noteq> []"
  by (subst Itoa.simps) simp

lemma ParseUint_Itoa: "n < 2 ^ b \<Longrightarrow> ParseUint (Itoa n) 10 b = Some n"
  by (simp add: ParseUint_def parseDigits_Itoa)

lemma parseDigits_no_eq: "parseDigits base acc s = Some n \<Longrightarrow> 0x3D \<notin> set s \<and> 0x2E \<notin> set s \<and> 0x2F \<notin> set s"
  by (induction base acc s rule: parseDigits.induct)
    (auto simp: digitVal_def split: option.splits if_splits)

lemma ParseUint_no_eq:
  "ParseUint s base b = Some n \<Longrightarrow> s \<noteq> [] \<and> 0x3D \<notin> set s \<and> 0x2E \<notin> set s \<and> 0x2F \<notin> set s"
  by (auto simp: ParseUint_def split: option.splits if_splits dest: parseDigits_no_eq)

lemma ParseUint_hex:
  "ParseUint [hexChars ! unat (drop_bit 4 b), hexChars ! unat (b AND 0x0F)] 16 8 = Some (unat (b :: byte))"
proof -
  have "unat b < 256" using unsigned_less [of b, where ?'a = nat] by simp
  then have hi: "unat (drop_bit 4 b) = unat b div 16"
    by (simp only: unsigned_drop_bit_eq) (simp add: drop_bit_eq_div take_bit_nat_eq_self)
  have "b AND 0x0F = take_bit 4 b" by (simp add: take_bit_eq_mask mask_eq_exp_minus_1)
  then have lo: "unat (b AND 0x0F) = unat b mod 16"
    by (simp only: unsigned_take_bit_eq) (simp add: take_bit_eq_mod)
  have "unat b div 16 < 16" using \<open>unat b < 256\<close> by simp
  then show ?thesis
    using \<open>unat b < 256\<close> by (simp add: hi lo ParseUint_def digitVal_hex)
qed

subsection \<open>Escaping and trimming\<close>

lemma IndexByte_None: "IndexByte s c = None \<longleftrightarrow> c \<notin> set s"
  by (induction s) auto

lemma IndexByte_append: "c \<notin> set p \<Longrightarrow> IndexByte (p @ c # s) c = Some (length p)"
  by (induction p) auto

lemma IndexByte_Some: "IndexByte s c = Some i \<Longrightarrow> s = take i s @ c # drop (Suc i) s \<and> c \<notin> set (take i s)"
  by (induction s arbitrary: i) (auto split: if_splits)

lemma unescapedChars_mem [simp]:
  "0x25 \<notin> set unescapedChars" "0x2F \<notin> set unescapedChars" "0x2E \<in> set unescapedChars"
  by (simp_all add: unescapedChars_def str_def)

lemma hexChars_mem: "i < 16 \<Longrightarrow> hexChars ! i \<noteq> 0x2F \<and> hexChars ! i \<noteq> 0x2E"
  using digitVal_hex [of i] by (auto simp: digitVal_def)

lemma nibble_less: "unat (drop_bit 4 (b :: byte)) < 16" "unat ((b :: byte) AND 0x0F) < 16"
proof -
  have "unat b < 256" using unsigned_less [of b, where ?'a = nat] by simp
  then show "unat (drop_bit 4 b) < 16"
    by (simp only: unsigned_drop_bit_eq) (simp add: drop_bit_eq_div take_bit_nat_eq_self)
  have "b AND 0x0F \<le> 0x0F" by (rule word_and_le1)
  then show "unat (b AND 0x0F) < 16" by (simp add: word_le_nat_alt)
qed

lemma unescape_escapeByte: "unescape (escapeByte b @ rest) = b # unescape rest"
  by (auto simp: escapeByte_def IndexByte_None ParseUint_hex)

lemma unescape_escape: "unescape (concat (map escapeByte v)) = v"
  by (induction v) (auto simp: unescape_escapeByte)

lemma escapeByte_chars: "0x2F \<notin> set (escapeByte b)"
  using hexChars_mem nibble_less by (auto simp: escapeByte_def IndexByte_None)

lemma escapeByte_period: "escapeByte 0x2E = [0x2E]"
  by (simp add: escapeByte_def IndexByte_None)

lemma escapeByte_nonperiod: "b \<noteq> 0x2E \<Longrightarrow> \<exists>x\<in>set (escapeByte b). x \<noteq> 0x2E"
  by (auto simp: escapeByte_def)

lemma TrimRight_append:
  "TrimRight c (xs @ ys) = (if \<forall>y\<in>set ys. y = c then TrimRight c xs else xs @ TrimRight c ys)"
proof (cases "\<forall>y\<in>set ys. y = c")
  case True
  then have "dropWhile (\<lambda>b. b = c) (rev ys @ rev xs) = dropWhile (\<lambda>b. b = c) (rev xs)"
    by (intro dropWhile_append2) auto
  with True show ?thesis by (simp add: TrimRight_def)
next
  case False
  then obtain y where "y \<in> set (rev ys)" "y \<noteq> c" by auto
  then show ?thesis using False by (auto simp: TrimRight_def dropWhile_append1)
qed

lemma TrimRight_eq_Nil: "TrimRight c s = [] \<longleftrightarrow> (\<forall>y\<in>set s. y = c)"
  by (simp add: TrimRight_def dropWhile_eq_Nil_conv)

lemma TrimRight_snoc: "b \<noteq> c \<Longrightarrow> TrimRight c (xs @ [b]) = xs @ [b]"
  by (simp add: TrimRight_def)

lemma length_TrimRight_eq:
  "b \<noteq> c \<Longrightarrow> length (TrimRight c (xs @ b # ys)) = Suc (length xs) \<longleftrightarrow> (\<forall>y\<in>set ys. y = c)"
  using TrimRight_append [of c "xs @ [b]" ys] TrimRight_eq_Nil [of c ys]
  by (auto simp: TrimRight_snoc)

lemma writeStringTo_eq:
  "writeStringTo c w = w @ Itoa (unat (Type c)) @ [0x3D] @ concat (map escapeByte (Value c))
     @ (if \<forall>b\<in>set (Value c). b = 0x2E then replicate 3 0x2E else [])"
proof -
  have "foldl (\<lambda>(w, n) b. (w @ escapeByte b, if b \<noteq> 0x2E then Suc n else n)) (w, n) v
      = (w @ concat (map escapeByte v), n + length (filter (\<lambda>b. b \<noteq> 0x2E) v))" for w n v
    by (induction v arbitrary: w n) auto
  then show ?thesis
    by (auto simp: writeStringTo_def str_def Let_def numeral_3_eq_3 filter_empty_conv)
qed

text \<open>The text after the equals sign stands for a value of periods exactly when it has only periods.\<close>

lemma ParseNameComponent_typed:
  assumes "ParseUint p 10 32 = Some t" "isValidNameComponentType (of_nat t)"
  shows "ParseNameComponent (p @ 0x3D # s) =
    (if \<forall>b\<in>set s. b = 0x2E then
       (if length s \<ge> 3 then Ok \<lparr>Type = of_nat t, Value = drop 3 s\<rparr>
        else if length p + length s \<ge> 2 then Panic
        else Ok \<lparr>Type = of_nat t, Value = unescape s\<rparr>)
     else Ok \<lparr>Type = of_nat t, Value = unescape s\<rparr>)"
proof -
  have "IndexByte (p @ 0x3D # s) 0x3D = Some (length p)"
    using ParseUint_no_eq [OF assms(1)] by (auto intro: IndexByte_append)
  then show ?thesis
    using assms length_TrimRight_eq [of "0x3D" "0x2E" p s]
    by (auto simp: ParseNameComponent_def Let_def)
qed

subsection \<open>Round trip\<close>

lemma escape_periods: "\<forall>b\<in>set v. b = 0x2E \<Longrightarrow> concat (map escapeByte v) = v"
  by (induction v) (auto simp: escapeByte_period)

lemma replicate_swap: "\<forall>b\<in>set v. b = x \<Longrightarrow> v @ replicate k x = replicate k x @ v"
  by (induction v) (auto simp: replicate_app_Cons_same)

lemma ParseNameComponent_String:
  assumes "NameComponent_Valid c"
  shows "ParseNameComponent (NameComponent_String c) = Ok c"
proof -
  let ?s = "concat (map escapeByte (Value c))"
  have "unat (Type c) < 2 ^ 32" using unsigned_less [of "Type c", where ?'a = nat] by simp
  then have ty: "ParseUint (Itoa (unat (Type c))) 10 32 = Some (unat (Type c))"
    by (rule ParseUint_Itoa)
  have valid: "isValidNameComponentType (of_nat (unat (Type c)))"
    using assms by (simp add: NameComponent_Valid_def)
  show ?thesis
  proof (cases "\<forall>b\<in>set (Value c). b = 0x2E")
    case True
    then have "?s = Value c" by (rule escape_periods)
    moreover have "Value c @ replicate 3 0x2E = replicate 3 0x2E @ Value c"
      using True by (rule replicate_swap)
    ultimately show ?thesis
      using True ParseNameComponent_typed [OF ty valid, of "replicate 3 0x2E @ Value c"]
      by (simp add: NameComponent_String_def writeStringTo_eq)
  next
    case False
    then have "\<not> (\<forall>b\<in>set ?s. b = 0x2E)" using escapeByte_nonperiod by fastforce
    then have "ParseNameComponent (Itoa (unat (Type c)) @ 0x3D # ?s)
        = Ok \<lparr>Type = of_nat (unat (Type c)), Value = unescape ?s\<rparr>"
      using ParseNameComponent_typed [OF ty valid, of ?s] by (simp only: if_False)
    moreover have "NameComponent_String c = Itoa (unat (Type c)) @ 0x3D # ?s"
      using False by (simp only: NameComponent_String_def writeStringTo_eq if_False append.simps append_Nil2)
    ultimately show ?thesis by (simp add: unescape_escape)
  qed
qed

lemma Itoa_chars: "0x2F \<notin> set (Itoa n)"
  using parseDigits_no_eq [OF parseDigits_Itoa] by blast

lemma NameComponent_String_chars: "0x2F \<notin> set (NameComponent_String c)" "NameComponent_String c \<noteq> []"
  using Itoa_chars escapeByte_chars by (auto simp: NameComponent_String_def writeStringTo_eq)

lemma Name_String_eq:
  "name \<noteq> [] \<Longrightarrow> Name_String name = concat (map (\<lambda>c. 0x2F # NameComponent_String c) name)"
proof -
  have "foldl (\<lambda>w c. writeStringTo c (w @ [0x2F])) w name
      = w @ concat (map (\<lambda>c. 0x2F # NameComponent_String c) name)" for w name
    by (induction name arbitrary: w) (auto simp: NameComponent_String_def writeStringTo_eq)
  then show "name \<noteq> [] \<Longrightarrow> ?thesis" by (simp add: Name_String_def)
qed

lemma Split_not_Nil [simp]: "Split s c \<noteq> []"
  by (induction s c rule: Split.induct) (auto split: list.split)

lemma Split_append: "c \<notin> set p \<Longrightarrow> Split (p @ c # s) c = p # Split s c"
  by (induction p) auto

lemma Split_single: "c \<notin> set p \<Longrightarrow> Split p c = [p]"
  by (induction p) auto

lemma Split_concat:
  "\<lbrakk>c \<notin> set t; \<forall>t\<in>set ts. c \<notin> set t\<rbrakk> \<Longrightarrow> Split (t @ concat (map (\<lambda>t. c # t) ts)) c = t # ts"
  by (induction ts arbitrary: t) (auto simp: Split_append Split_single)

lemma ParseName_tokens:
  assumes "list_all NameComponent_Valid name"
  shows "ParseName (Name_String name) = Ok name"
proof (cases "name = []")
  case True
  then show ?thesis by (simp add: ParseName_def Name_String_def TrimPrefix_def str_def)
next
  case False
  let ?ts = "map NameComponent_String name"
  have "Split (Name_String name) 0x2F = [] # ?ts"
    using Split_concat [of "0x2F" "[]" ?ts] NameComponent_String_chars
    by (simp add: Name_String_eq [OF False] comp_def)
  moreover have "TrimPrefix (Name_String name) (str ''ndn:'') = Name_String name"
    using False by (cases name) (auto simp: TrimPrefix_def Name_String_eq str_def)
  moreover have "forRange (\<lambda>name token. if token = [] then Ok name
         else andthen (ParseNameComponent token) (\<lambda>c. Ok (name @ [c]))) acc ?ts = Ok (acc @ name)" for acc
    using assms
    by (induction name arbitrary: acc) (auto simp: ParseNameComponent_String NameComponent_String_chars)
  ultimately show ?thesis by (simp add: ParseName_def)
qed

text \<open>C22 (Name_uri_roundtrip). Parsing the URI of a name whose components have valid types gives that
  name: every byte of a value that is not unreserved is escaped, a value of periods only gains three
  periods, and \<open>ParseName\<close> undoes both. Valid names with the same URI are therefore equal.\<close>

theorem Name_uri_roundtrip:
  assumes "list_all NameComponent_Valid name" "list_all NameComponent_Valid name'"
  shows "ParseName (Name_String name) = Ok name \<and>
    (Name_String name = Name_String name' \<longleftrightarrow> name = name')"
  using ParseName_tokens [OF assms(1)] ParseName_tokens [OF assms(2)] by (metis outcome.inject(1))

theorem Name_uri_roundtrip_witness:
  "ParseName (Name_String [\<lparr>Type = 8, Value = [0x41, 0x2F]\<rparr>]) = Ok [\<lparr>Type = 8, Value = [0x41, 0x2F]\<rparr>] \<and>
   Name_String [\<lparr>Type = 8, Value = [0x41, 0x2F]\<rparr>] \<noteq> Name_String [\<lparr>Type = 32, Value = [0x2E]\<rparr>]"
  using Name_uri_roundtrip [of "[\<lparr>Type = 8, Value = [0x41, 0x2F]\<rparr>]" "[\<lparr>Type = 32, Value = [0x2E]\<rparr>]"]
  by (simp add: NameComponent_Valid_def isValidNameComponentType_def)

text \<open>C23 (ParseNameComponent_panics_iff). The comment of \<open>ParseNameComponent\<close> says that it accepts any
  input. It panics, with a slice out of range, exactly on a valid type number, an equals sign and fewer
  than three periods, when the whole has three bytes or more.\<close>

theorem ParseNameComponent_panics_iff:
  "ParseNameComponent input = Panic \<longleftrightarrow>
     (\<exists>p t k. input = p @ 0x3D # replicate k 0x2E \<and> k < 3 \<and> length p + k \<ge> 2
        \<and> ParseUint p 10 32 = Some t \<and> isValidNameComponentType (of_nat t))"
  (is "?L \<longleftrightarrow> ?R")
proof
  assume ?R
  then show ?L by (auto simp: ParseNameComponent_typed)
next
  assume panic: ?L
  then obtain i t where i: "IndexByte input 0x3D = Some i" and t: "ParseUint (take i input) 10 32 = Some t"
    and valid: "isValidNameComponentType (of_nat t)"
    by (auto simp: ParseNameComponent_def Let_def split: option.splits if_splits)
  let ?s = "drop (Suc i) input"
  have input: "input = take i input @ 0x3D # ?s" using IndexByte_Some [OF i] by simp
  then have "ParseNameComponent (take i input @ 0x3D # ?s) = Panic" using panic by simp
  then have s: "\<forall>b\<in>set ?s. b = 0x2E" "length ?s < 3" "length (take i input) + length ?s \<ge> 2"
    unfolding ParseNameComponent_typed [OF t valid] by (simp_all split: if_splits)
  have "?s = replicate (length ?s) 0x2E" by (rule sym, rule replicate_length_same, rule s(1))
  then have "input = take i input @ 0x3D # replicate (length ?s) 0x2E" using input by simp
  then show ?R using s(2,3) t valid by blast
qed

end
