(* ===== verification/Ndn_SigInfo.thy ===== *)
theory Ndn_SigInfo
  imports Ndn_Uri
begin

text \<open>
  KeyLocator and SignatureInfo (\<open>ndn/sig-info.go\<close>). The package variable \<open>sigInfoExtensionTypes\<close>, a
  Go map from TLV-TYPE to bool, is an argument of the functions that read it. A nil \<open>SigInfo\<close> pointer
  is None.
\<close>

subsection \<open>KeyLocator\<close>

record KeyLocator =
  kl_Name :: Name
  kl_Digest :: bytes

definition zero_KeyLocator :: KeyLocator where
  [simp]: "zero_KeyLocator = \<lparr>kl_Name = [], kl_Digest = []\<rparr>"

definition KeyLocator_Empty :: "KeyLocator \<Rightarrow> bool" where
  "KeyLocator_Empty kl \<longleftrightarrow> length (kl_Name kl) + length (kl_Digest kl) = 0"

definition KeyLocator_Field :: "KeyLocator \<Rightarrow> Field" where
  "KeyLocator_Field kl =
     (if length (kl_Name kl) > 0 \<and> length (kl_Digest kl) > 0 then FieldError (Some ErrKeyLocator)
      else if length (kl_Digest kl) > 0 then TLV TtKeyLocator [TLVBytes TtKeyDigest (kl_Digest kl)]
      else TLVFrom TtKeyLocator [Name_Field (kl_Name kl)])"

definition KeyLocator_step :: "KeyLocator \<Rightarrow> DecodingElement \<Rightarrow> KeyLocator outcome" where
  "KeyLocator_step kl de =
     (if Type de = TtName then
        andthen (Name_UnmarshalBinary (Value de)) (\<lambda>n. Ok (kl\<lparr>kl_Name := n\<rparr>))
      else if Type de = TtKeyDigest then Ok (kl\<lparr>kl_Digest := Value de\<rparr>)
      else if IsCriticalType de then Fail ErrCritical
      else Ok kl)"

definition KeyLocator_UnmarshalBinary :: "bytes \<Rightarrow> KeyLocator outcome" where
  "KeyLocator_UnmarshalBinary wire =
     andthen (decodeElements KeyLocator_step zero_KeyLocator wire) (\<lambda>(kl, d).
       if length (kl_Name kl) > 0 \<and> length (kl_Digest kl) > 0 then Fail ErrKeyLocator
       else andthen (ErrUnlessEOF d) (\<lambda>_. Ok kl))"

text \<open>\<open>hex.EncodeToString\<close>.\<close>

definition EncodeToString :: "bytes \<Rightarrow> bytes" where
  "EncodeToString bs =
     concat (map (\<lambda>b. [str ''0123456789abcdef'' ! unat (drop_bit 4 b),
                       str ''0123456789abcdef'' ! unat (b AND 0x0F)]) bs)"

definition KeyLocator_String :: "KeyLocator \<Rightarrow> bytes" where
  "KeyLocator_String kl =
     (if length (kl_Digest kl) > 0 then EncodeToString (kl_Digest kl) else Name_String (kl_Name kl))"

subsection \<open>SigInfo\<close>

record SigInfo =
  si_Type :: u32
  si_KeyLocator :: KeyLocator
  si_Nonce :: bytes
  si_Time :: u64
  si_SeqNum :: u64
  si_Extensions :: "Element list"

definition zero_SigInfo :: SigInfo where
  [simp]: "zero_SigInfo = \<lparr>si_Type = 0, si_KeyLocator = zero_KeyLocator, si_Nonce = [], si_Time = 0,
     si_SeqNum = 0, si_Extensions = []\<rparr>"

definition newNullSigInfo :: SigInfo where
  "newNullSigInfo = zero_SigInfo\<lparr>si_Type := SigNull\<rparr>"

definition RegisterSigInfoExtension :: "(u32 \<Rightarrow> bool) \<Rightarrow> u32 \<Rightarrow> (u32 \<Rightarrow> bool)" where
  "RegisterSigInfoExtension sigInfoExtensionTypes ty = sigInfoExtensionTypes(ty := True)"

definition FindExtension :: "SigInfo \<Rightarrow> u32 \<Rightarrow> Element option" where
  "FindExtension si ty = find (\<lambda>ext. Type ext = ty) (si_Extensions si)"

definition sigInfoFielder_Field :: "u32 \<Rightarrow> SigInfo option \<Rightarrow> Field" where
  "sigInfoFielder_Field ty sim =
     TLVFrom ty
       (case sim of
          None \<Rightarrow> [TLVNNI TtSigType (ucast SigNull)]
        | Some si \<Rightarrow>
            [TLVNNI TtSigType (ucast (si_Type si))]
            @ (if \<not> KeyLocator_Empty (si_KeyLocator si) then [KeyLocator_Field (si_KeyLocator si)] else [])
            @ (if si_Time si > 0 then [TLVNNI TtSigTime (si_Time si)] else [])
            @ (if length (si_Nonce si) > 0 then [TLVBytes TtSigNonce (si_Nonce si)] else [])
            @ (if si_SeqNum si > 0 then [TLVNNI TtSigSeqNum (si_SeqNum si)] else [])
            @ map Element_Field (si_Extensions si))"

definition EncodeAs :: "SigInfo option \<Rightarrow> u32 \<Rightarrow> Field" where
  "EncodeAs si ty = sigInfoFielder_Field ty si"

definition SigInfo_step :: "(u32 \<Rightarrow> bool) \<Rightarrow> SigInfo \<Rightarrow> DecodingElement \<Rightarrow> SigInfo outcome" where
  "SigInfo_step sigInfoExtensionTypes si de =
     (if Type de = TtSigType then
        andthen (UnmarshalNNI de 0xFFFFFFFF ErrSigType) (\<lambda>v. Ok (si\<lparr>si_Type := ucast v\<rparr>))
      else if Type de = TtKeyLocator then
        andthen (KeyLocator_UnmarshalBinary (Value de)) (\<lambda>kl. Ok (si\<lparr>si_KeyLocator := kl\<rparr>))
      else if Type de = TtSigNonce then
        (if Element_Length de < 1 then Fail ErrSigNonce else Ok (si\<lparr>si_Nonce := Value de\<rparr>))
      else if Type de = TtSigTime then
        andthen (UnmarshalNNI de 0xFFFFFFFFFFFFFFFF ErrRange) (\<lambda>v. Ok (si\<lparr>si_Time := v\<rparr>))
      else if Type de = TtSigSeqNum then
        andthen (UnmarshalNNI de 0xFFFFFFFFFFFFFFFF ErrRange) (\<lambda>v. Ok (si\<lparr>si_SeqNum := v\<rparr>))
      else if sigInfoExtensionTypes (Type de) then
        Ok (si\<lparr>si_Extensions := si_Extensions si @ [\<lparr>Type = Type de, Value = Value de\<rparr>]\<rparr>)
      else if IsCriticalType de then Fail ErrCritical
      else Ok si)"

definition SigInfo_UnmarshalBinary :: "(u32 \<Rightarrow> bool) \<Rightarrow> bytes \<Rightarrow> SigInfo outcome" where
  "SigInfo_UnmarshalBinary sigInfoExtensionTypes wire =
     andthen (decodeElements (SigInfo_step sigInfoExtensionTypes) zero_SigInfo wire) (\<lambda>(si, d).
       andthen (ErrUnlessEOF d) (\<lambda>_. Ok si))"

subsection \<open>Well-formed values and their wire form\<close>

definition keylocator_value :: "KeyLocator \<Rightarrow> bytes" where
  "keylocator_value kl =
     (if kl_Digest kl \<noteq> [] then tlvs [(TtKeyDigest, kl_Digest kl)]
      else tlvs [(TtName, name_value (kl_Name kl))])"

definition keylocator_ok :: "KeyLocator \<Rightarrow> bool" where
  "keylocator_ok kl \<longleftrightarrow> (kl_Name kl = [] \<or> kl_Digest kl = []) \<and> name_ok (kl_Name kl)
     \<and> slice_ok (keylocator_value kl)"

definition known_sig_type :: "u32 \<Rightarrow> bool" where
  "known_sig_type t \<longleftrightarrow> t \<in> {TtSigType, TtKeyLocator, TtSigNonce, TtSigTime, TtSigSeqNum}"

definition siginfo_items :: "SigInfo \<Rightarrow> (u32 \<times> bytes) list" where
  "siginfo_items si =
     [(TtSigType, NNI_Encode (ucast (si_Type si)) [])]
     @ (if \<not> KeyLocator_Empty (si_KeyLocator si)
        then [(TtKeyLocator, keylocator_value (si_KeyLocator si))] else [])
     @ (if si_Time si > 0 then [(TtSigTime, NNI_Encode (si_Time si) [])] else [])
     @ (if length (si_Nonce si) > 0 then [(TtSigNonce, si_Nonce si)] else [])
     @ (if si_SeqNum si > 0 then [(TtSigSeqNum, NNI_Encode (si_SeqNum si) [])] else [])
     @ items Type Value (si_Extensions si)"

definition siginfo_ok :: "(u32 \<Rightarrow> bool) \<Rightarrow> SigInfo \<Rightarrow> bool" where
  "siginfo_ok sigInfoExtensionTypes si \<longleftrightarrow> keylocator_ok (si_KeyLocator si)
     \<and> list_all (\<lambda>ext. Type ext \<noteq> 0 \<and> sigInfoExtensionTypes (Type ext) \<and> \<not> known_sig_type (Type ext))
         (si_Extensions si)
     \<and> slice_ok (tlvs (siginfo_items si))"

definition siginfo_value :: "SigInfo option \<Rightarrow> bytes" where
  "siginfo_value sim = tlvs (siginfo_items (case sim of None \<Rightarrow> newNullSigInfo | Some si \<Rightarrow> si))"

lemma slice_ok_tlv_value: "slice_ok (tlv_bytes t v) \<Longrightarrow> slice_ok v"
  by (simp add: slice_ok_def tlv_bytes_def)

interpretation keylocator_codec:
  tlv_codec KeyLocator_Field "\<lambda>_. KeyLocator_UnmarshalBinary" "\<lambda>_. TtKeyLocator"
    keylocator_value keylocator_ok "\<lambda>kl. kl"
proof
  fix kl
  assume ok: "keylocator_ok kl"
  show "enc (KeyLocator_Field kl) = Ok (tlv_bytes TtKeyLocator (keylocator_value kl))"
    using ok
    by (auto simp: keylocator_ok_def KeyLocator_Field_def keylocator_value_def
        name_codec.enc_field simp del: TtName_def)
  show "tlv_ok (TtKeyLocator, keylocator_value kl)"
    using ok by (simp add: keylocator_ok_def)
  show "KeyLocator_UnmarshalBinary (keylocator_value kl) = Ok kl"
  proof (cases "kl_Digest kl = []")
    case True
    then have "list_all tlv_ok [(TtName, name_value (kl_Name kl))]"
      using ok by (simp add: keylocator_ok_def name_ok_def)
    from decodeElements_tlvs [OF this, of KeyLocator_step zero_KeyLocator] True ok show ?thesis
      by (simp add: KeyLocator_UnmarshalBinary_def keylocator_value_def KeyLocator_step_def
          keylocator_ok_def name_codec.unmarshal_val)
  next
    case False
    then have "list_all tlv_ok [(TtKeyDigest, kl_Digest kl)]"
      using ok slice_ok_tlv_value by (auto simp: keylocator_ok_def keylocator_value_def)
    from decodeElements_tlvs [OF this, of KeyLocator_step zero_KeyLocator] False ok show ?thesis
      by (simp add: KeyLocator_UnmarshalBinary_def keylocator_value_def KeyLocator_step_def
          keylocator_ok_def)
  qed
qed

lemma siginfo_items_ok:
  assumes "siginfo_ok reg si"
  shows "list_all tlv_ok (siginfo_items si)"
proof (rule tlvs_ok)
  show "slice_ok (tlvs (siginfo_items si))" using assms by (simp add: siginfo_ok_def)
  show "\<forall>x\<in>set (siginfo_items si). fst x \<noteq> 0"
    using assms by (auto simp: siginfo_items_def siginfo_ok_def items_def list_all_iff)
qed

lemma newNullSigInfo_ok: "siginfo_ok reg newNullSigInfo"
  by (simp add: siginfo_ok_def keylocator_ok_def keylocator_value_def name_ok_def name_value_def
      items_def newNullSigInfo_def siginfo_items_def KeyLocator_Empty_def slice_ok_def
      length_tlv_bytes Element_Size_def Element_Length_def VarNum_Size_def NNI_Size_def)

lemma UnmarshalNNI_Encode [simp]:
  "Value de = NNI_Encode n [] \<Longrightarrow> UnmarshalNNI de mx e = (if n > mx then Fail e else Ok n)"
  by (simp add: UnmarshalNNI_def)

lemma ucast_u32_u64:
  "\<not> 0xFFFFFFFF < (ucast (t :: u32) :: u64)" "ucast (ucast (t :: u32) :: u64) = t"
proof -
  have "unat (ucast t :: u64) = unat t"
    using unsigned_less [of t, where ?'a = nat] by (simp add: unsigned_ucast_eq take_bit_nat_eq_self)
  then show "\<not> 0xFFFFFFFF < (ucast t :: u64)"
    using unsigned_less [of t, where ?'a = nat] by (simp add: word_less_nat_alt)
  show "ucast (ucast t :: u64) = t" by (rule ucast_up_ucast_id) (simp add: is_up)
qed

lemma u64_max [simp]: "\<not> 0xFFFFFFFFFFFFFFFF < (n :: u64)"
  using unsigned_less [of n, where ?'a = nat] by (simp add: word_less_nat_alt)

text \<open>One lemma per element: what the loop does on the optional part that carries it.\<close>

lemma SigInfo_step_Type:
  "forRange (SigInfo_step reg) si (elems_of [(TtSigType, NNI_Encode (ucast n) [])] tail)
     = Ok (si\<lparr>si_Type := n\<rparr>)"
  by (simp add: SigInfo_step_def ucast_u32_u64)

lemma SigInfo_step_KeyLocator:
  "\<lbrakk>si_KeyLocator si = zero_KeyLocator; keylocator_ok kl\<rbrakk> \<Longrightarrow>
   forRange (SigInfo_step reg) si
     (elems_of (if \<not> KeyLocator_Empty kl then [(TtKeyLocator, keylocator_value kl)] else []) tail)
     = Ok (si\<lparr>si_KeyLocator := kl\<rparr>)"
  by (cases kl) (auto simp: SigInfo_step_def keylocator_codec.unmarshal_val KeyLocator_Empty_def)

lemma SigInfo_step_Time:
  "si_Time si = 0 \<Longrightarrow>
   forRange (SigInfo_step reg) si (elems_of (if n > 0 then [(TtSigTime, NNI_Encode n [])] else []) tail)
     = Ok (si\<lparr>si_Time := n\<rparr>)"
  by (auto simp: SigInfo_step_def word_gt_0)

lemma SigInfo_step_Nonce:
  "si_Nonce si = [] \<Longrightarrow>
   forRange (SigInfo_step reg) si (elems_of (if length n > 0 then [(TtSigNonce, n)] else []) tail)
     = Ok (si\<lparr>si_Nonce := n\<rparr>)"
  by (cases n) (auto simp: SigInfo_step_def Element_Length_def)

lemma SigInfo_step_SeqNum:
  "si_SeqNum si = 0 \<Longrightarrow>
   forRange (SigInfo_step reg) si (elems_of (if n > 0 then [(TtSigSeqNum, NNI_Encode n [])] else []) tail)
     = Ok (si\<lparr>si_SeqNum := n\<rparr>)"
  by (auto simp: SigInfo_step_def word_gt_0)

lemma SigInfo_step_Extensions:
  "list_all (\<lambda>ext. reg (Type ext) \<and> \<not> known_sig_type (Type ext)) exts \<Longrightarrow>
   forRange (SigInfo_step reg) si (elems_of (items Type Value exts) tail)
     = Ok (si\<lparr>si_Extensions := si_Extensions si @ exts\<rparr>)"
proof (induction exts arbitrary: si)
  case (Cons x exts)
  then show ?case by (simp add: items_def SigInfo_step_def known_sig_type_def)
qed (simp add: items_def)

lemmas SigInfo_steps = SigInfo_step_Type SigInfo_step_KeyLocator SigInfo_step_Time
  SigInfo_step_Nonce SigInfo_step_SeqNum SigInfo_step_Extensions

lemma SigInfo_Unmarshal_items:
  assumes "siginfo_ok reg si"
  shows "SigInfo_UnmarshalBinary reg (tlvs (siginfo_items si)) = Ok si"
proof -
  have exts: "list_all (\<lambda>ext. reg (Type ext) \<and> \<not> known_sig_type (Type ext)) (si_Extensions si)"
    and kl: "keylocator_ok (si_KeyLocator si)"
    using assms by (auto simp: siginfo_ok_def list_all_iff)
  have "forRange (SigInfo_step reg) zero_SigInfo (elems_of (siginfo_items si) []) = Ok si"
    unfolding siginfo_items_def elems_of_append forRange_append
    by (simp only: SigInfo_steps exts kl andthen.simps zero_SigInfo_def
        SigInfo.simps) simp
  then show ?thesis
    using decodeElements_tlvs [OF siginfo_items_ok [OF assms], of "SigInfo_step reg" zero_SigInfo]
    by (simp only: SigInfo_UnmarshalBinary_def andthen.simps case_prod_conv ErrUnlessEOF_Nil)
qed

lemma sigInfo_fields:
  assumes "siginfo_ok reg si"
  shows "encs ([TLVNNI TtSigType (ucast (si_Type si))]
    @ (if \<not> KeyLocator_Empty (si_KeyLocator si) then [KeyLocator_Field (si_KeyLocator si)] else [])
    @ (if si_Time si > 0 then [TLVNNI TtSigTime (si_Time si)] else [])
    @ (if length (si_Nonce si) > 0 then [TLVBytes TtSigNonce (si_Nonce si)] else [])
    @ (if si_SeqNum si > 0 then [TLVNNI TtSigSeqNum (si_SeqNum si)] else [])
    @ map Element_Field (si_Extensions si)) = Ok (tlvs (siginfo_items si))"
proof -
  have "encs (map Element_Field exts) = Ok (tlvs (items Type Value exts))"
    if "list_all (\<lambda>ext. Type ext \<noteq> 0) exts" for exts :: "Element list"
    using that by (induction exts) (auto simp: items_def Element_Field_def)
  then have "encs (map Element_Field (si_Extensions si)) = Ok (tlvs (items Type Value (si_Extensions si)))"
    using assms by (auto simp: siginfo_ok_def list_all_iff)
  moreover have "enc (KeyLocator_Field (si_KeyLocator si))
      = Ok (tlv_bytes TtKeyLocator (keylocator_value (si_KeyLocator si)))"
    using assms by (intro keylocator_codec.enc_field) (simp add: siginfo_ok_def)
  ultimately show ?thesis by (simp add: siginfo_items_def)
qed

definition siginfo_opt_ok :: "(u32 \<Rightarrow> bool) \<Rightarrow> SigInfo option \<Rightarrow> bool" where
  "siginfo_opt_ok reg sim \<longleftrightarrow> (case sim of None \<Rightarrow> True | Some si \<Rightarrow> siginfo_ok reg si)"

lemma siginfo_codec_laws:
  assumes "siginfo_opt_ok reg sim" and "ty \<noteq> 0"
  shows "enc (EncodeAs sim ty) = Ok (tlv_bytes ty (siginfo_value sim))"
    and "tlv_ok (ty, siginfo_value sim)"
    and "SigInfo_UnmarshalBinary reg (siginfo_value sim)
      = Ok (case sim of None \<Rightarrow> newNullSigInfo | Some si \<Rightarrow> si)"
proof -
  let ?si = "case sim of None \<Rightarrow> newNullSigInfo | Some si \<Rightarrow> si"
  have ok: "siginfo_ok reg ?si"
    using assms newNullSigInfo_ok by (simp add: siginfo_opt_ok_def split: option.splits)
  have eq: "EncodeAs sim ty = EncodeAs (Some ?si) ty"
    by (simp add: EncodeAs_def sigInfoFielder_Field_def newNullSigInfo_def KeyLocator_Empty_def
        split: option.split)
  have "enc (EncodeAs (Some si) ty) = Ok (tlv_bytes ty (tlvs (siginfo_items si)))"
    if "siginfo_ok reg si" for si
    unfolding EncodeAs_def sigInfoFielder_Field_def
    by (simp only: option.case enc_TLV_nonzero(2) [OF assms(2)] sigInfo_fields [OF that] andthen.simps)
  from this [OF ok] show "enc (EncodeAs sim ty) = Ok (tlv_bytes ty (siginfo_value sim))"
    unfolding eq by (simp only: siginfo_value_def)
  show "tlv_ok (ty, siginfo_value sim)"
    using ok assms(2) by (simp add: siginfo_ok_def siginfo_value_def)
  show "SigInfo_UnmarshalBinary reg (siginfo_value sim) = Ok ?si"
    using SigInfo_Unmarshal_items [OF ok] by (simp add: siginfo_value_def)
qed

text \<open>The two TLV-TYPEs that carry a SigInfo; the contract holds for every set of registered extensions.\<close>

definition sig_of :: "SigInfo option \<Rightarrow> SigInfo" where
  "sig_of sim = (case sim of None \<Rightarrow> newNullSigInfo | Some si \<Rightarrow> si)"

interpretation isiginfo_codec:
  tlv_codec "\<lambda>sim. EncodeAs sim TtISigInfo" "\<lambda>_. SigInfo_UnmarshalBinary reg" "\<lambda>_. TtISigInfo"
    siginfo_value "siginfo_opt_ok reg" sig_of for reg
  by (unfold_locales; drule siginfo_codec_laws [of _ _ TtISigInfo]) (simp_all add: sig_of_def)

interpretation dsiginfo_codec:
  tlv_codec "\<lambda>sim. EncodeAs sim TtDSigInfo" "\<lambda>_. SigInfo_UnmarshalBinary reg" "\<lambda>_. TtDSigInfo"
    siginfo_value "siginfo_opt_ok reg" sig_of for reg
  by (unfold_locales; drule siginfo_codec_laws [of _ _ TtDSigInfo]) (simp_all add: sig_of_def)

subsection \<open>Evolvability\<close>

interpretation keylocator_loop:
  evolvable KeyLocator_step "\<lambda>t. t \<in> {TtName, TtKeyDigest}" is_critical
  by unfold_locales (auto simp: KeyLocator_step_def IsCriticalType_is_critical)

interpretation siginfo_loop:
  evolvable "SigInfo_step reg" "\<lambda>t. known_sig_type t \<or> reg t" is_critical for reg
  by unfold_locales
    (auto simp: SigInfo_step_def IsCriticalType_is_critical known_sig_type_def UnmarshalNNI_def
      Element_Length_def)

text \<open>
  SigInfo_roundtrip. A SigInfo whose KeyLocator is not both a name and a digest, and whose
  extensions are of registered types, is the one decoded from its encoding, under either TLV-TYPE;
  a nil SigInfo encodes as the null signature type. Elements of unrecognised types that are not
  critical, anywhere in the TLV-VALUE, change nothing.
\<close>

theorem SigInfo_roundtrip:
  assumes "siginfo_opt_ok reg sim" and "ty \<in> {TtISigInfo, TtDSigInfo}"
    and "list_all tlv_ok xs" and "\<forall>(t, v)\<in>set xs. known_sig_type t \<or> reg t \<or> \<not> is_critical t"
    and "tlvs (filter (\<lambda>(t, v). known_sig_type t \<or> reg t) xs) = siginfo_value sim"
  shows "andthen (Encode [EncodeAs sim ty]) (\<lambda>w. Decode w (\<lambda>_. SigInfo_UnmarshalBinary reg))
      = Ok (sig_of sim)
    \<and> SigInfo_UnmarshalBinary reg (tlvs xs) = Ok (sig_of sim)"
proof -
  let ?ys = "filter (\<lambda>(t, v). known_sig_type t \<or> reg t) xs"
  have ys: "list_all tlv_ok ?ys" using assms(3) by (auto simp: list_all_iff)
  have "decodeElements (SigInfo_step reg) zero_SigInfo (tlvs xs)
      = decodeElements (SigInfo_step reg) zero_SigInfo (tlvs ?ys)"
    unfolding decodeElements_tlvs [OF assms(3)] decodeElements_tlvs [OF ys]
    by (subst siginfo_loop.forRange_known [where tail' = "[]"]) (use assms(4) in auto)
  then have "SigInfo_UnmarshalBinary reg (tlvs xs) = SigInfo_UnmarshalBinary reg (siginfo_value sim)"
    by (simp only: SigInfo_UnmarshalBinary_def assms(5))
  then show ?thesis
    using assms(2) isiginfo_codec.Decode_Encode [OF assms(1)] dsiginfo_codec.Decode_Encode [OF assms(1)]
      isiginfo_codec.unmarshal_val [OF assms(1)] by auto
qed

theorem SigInfo_roundtrip_witness:
  "let si = \<lparr>si_Type = 3, si_KeyLocator = \<lparr>kl_Name = [], kl_Digest = [0xAA]\<rparr>, si_Nonce = [1],
       si_Time = 0, si_SeqNum = 0, si_Extensions = []\<rparr>
   in andthen (Encode [EncodeAs (Some si) TtISigInfo])
        (\<lambda>w. Decode w (\<lambda>_. SigInfo_UnmarshalBinary (\<lambda>_. False))) = Ok si
      \<and> SigInfo_UnmarshalBinary (\<lambda>_. False)
          (tlvs [(TtSigType, [3]), (TtKeyLocator, [0x1D, 1, 0xAA]), (0xF0, []), (TtSigNonce, [1])]) = Ok si"
proof -
  let ?si = "\<lparr>si_Type = 3, si_KeyLocator = \<lparr>kl_Name = [], kl_Digest = [0xAA]\<rparr>, si_Nonce = [1],
       si_Time = 0, si_SeqNum = 0, si_Extensions = []\<rparr> :: SigInfo"
  let ?xs = "[(TtSigType, [3]), (TtKeyLocator, [0x1D, 1, 0xAA]), (0xF0, []), (TtSigNonce, [1])]"
  have items: "siginfo_items ?si = [(TtSigType, [3]), (TtKeyLocator, [0x1D, 1, 0xAA]), (TtSigNonce, [1])]"
    by (simp add: siginfo_items_def KeyLocator_Empty_def keylocator_value_def items_def tlv_bytes_def
        VarNum_Encode_def NNI_Encode_def byte_at_def)
  have "siginfo_ok (\<lambda>_. False) ?si"
    unfolding siginfo_ok_def items
    by (simp add: keylocator_ok_def keylocator_value_def name_ok_def name_value_def items_def
        slice_ok_def length_tlv_bytes Element_Size_def Element_Length_def VarNum_Size_def)
  then have "siginfo_opt_ok (\<lambda>_. False) (Some ?si)" by (simp add: siginfo_opt_ok_def)
  moreover have "list_all tlv_ok ?xs" by (simp add: slice_ok_def)
  moreover have "\<forall>(t, v)\<in>set ?xs. known_sig_type t \<or> False \<or> \<not> is_critical t"
    by (simp add: known_sig_type_def is_critical_def)
  moreover have "tlvs (filter (\<lambda>(t, v). known_sig_type t \<or> False) ?xs) = siginfo_value (Some ?si)"
    by (simp add: siginfo_value_def items known_sig_type_def)
  ultimately show ?thesis
    using SigInfo_roundtrip [of "\<lambda>_. False" "Some ?si" TtISigInfo ?xs]
    unfolding Let_def sig_of_def option.case by blast
qed

end
