(* ===== verification/Ndn_Signing.thy ===== *)
theory Ndn_Signing
  imports Ndn_SigInfo Sha256
begin

text \<open>
  Signers and verifiers (\<open>ndn/signing.go\<close>). A signer receives the packet name and a pointer to the
  SigInfo, which it may change, and returns a low-level signing function; here it returns the changed
  SigInfo beside it. \<open>Sign\<close> and \<open>Verify\<close> take a packet through its \<open>SignWith\<close> or \<open>VerifyWith\<close> method.
\<close>

type_synonym LLSign = "bytes \<Rightarrow> bytes outcome"
type_synonym LLVerify = "bytes \<Rightarrow> bytes \<Rightarrow> unit outcome"
type_synonym signer = "Name \<Rightarrow> SigInfo \<Rightarrow> SigInfo \<times> LLSign outcome"
type_synonym verifier = "Name \<Rightarrow> SigInfo \<Rightarrow> LLVerify outcome"

definition digestSigner :: signer where
  "digestSigner name si =
     (si\<lparr>si_Type := SigSha256, si_KeyLocator := zero_KeyLocator\<rparr>, Ok (\<lambda>input. Ok (Sum256 input)))"

definition digestSigning_Sign :: "(signer \<Rightarrow> 'p \<times> unit outcome) \<Rightarrow> 'p \<times> unit outcome" where
  "digestSigning_Sign SignWith = SignWith digestSigner"

definition digestVerifier :: verifier where
  "digestVerifier name si =
     (if si_Type si \<noteq> SigSha256 then Fail ErrSigType
      else Ok (\<lambda>input sig. if sig \<noteq> Sum256 input then Fail ErrSigValue else Ok ()))"

definition digestSigning_Verify :: "(verifier \<Rightarrow> unit outcome) \<Rightarrow> unit outcome" where
  "digestSigning_Verify VerifyWith = VerifyWith digestVerifier"

definition nullSignerFn :: signer where
  "nullSignerFn name si =
     (si\<lparr>si_Type := SigNull, si_KeyLocator := zero_KeyLocator\<rparr>, Ok (\<lambda>input. Ok []))"

definition nullSigner_Sign :: "(signer \<Rightarrow> 'p \<times> unit outcome) \<Rightarrow> 'p \<times> unit outcome" where
  "nullSigner_Sign SignWith = SignWith nullSignerFn"

definition nopVerifier_Verify :: "(verifier \<Rightarrow> unit outcome) \<Rightarrow> unit outcome" where
  "nopVerifier_Verify VerifyWith = Ok ()"

text \<open>
  The contract between a signer and the verifier that goes with it: the verifier accepts what the
  signer produced, and for no other signature over the same input when the scheme is deterministic.
\<close>

locale sign_verify =
  fixes signer :: signer and verifier :: verifier
  assumes accepts: "\<lbrakk>signer name si0 = (si, Ok ll); ll input = Ok sig\<rbrakk> \<Longrightarrow>
      \<exists>vf. verifier name' si = Ok vf \<and> vf input sig = Ok ()"

locale deterministic_sign_verify = sign_verify +
  assumes rejects: "\<lbrakk>signer name si0 = (si, Ok ll); ll input = Ok sig; verifier name' si = Ok vf;
      vf input sig' = Ok ()\<rbrakk> \<Longrightarrow> sig' = sig"
begin

lemma accepts_iff:
  assumes "signer name si0 = (si, Ok ll)" "ll input = Ok sig" "verifier name' si = Ok vf"
  shows "vf input sig' = Ok () \<longleftrightarrow> sig' = sig"
  using rejects [OF assms, of sig'] accepts [OF assms(1,2), of name'] assms(3) by auto

end

lemma digestSigner_Ok:
  "digestSigner name si0 = (si, Ok ll) \<longleftrightarrow>
   si = si0\<lparr>si_Type := SigSha256, si_KeyLocator := zero_KeyLocator\<rparr> \<and> ll = (\<lambda>input. Ok (Sum256 input))"
  unfolding digestSigner_def prod.inject outcome.inject by (rule conj_cong) (rule eq_commute)+

lemma digestVerifier_Ok:
  "digestVerifier name si = Ok vf \<longleftrightarrow> si_Type si = SigSha256 \<and>
     vf = (\<lambda>input sig. if sig \<noteq> Sum256 input then Fail ErrSigValue else Ok ())"
proof (cases "si_Type si = SigSha256")
  case True
  then show ?thesis
    unfolding digestVerifier_def by (simp only: not_True_eq_False if_False outcome.inject simp_thms) (rule eq_commute)
next
  case False
  then show ?thesis unfolding digestVerifier_def by (simp only: if_True not_False_eq_True outcome.distinct simp_thms)
qed

interpretation digest: deterministic_sign_verify digestSigner digestVerifier
proof
  fix name si0 si ll input sig name'
  assume "digestSigner name si0 = (si, Ok ll)" "ll input = Ok sig"
  then show "\<exists>vf. digestVerifier name' si = Ok vf \<and> vf input sig = Ok ()"
    unfolding digestSigner_Ok digestVerifier_Ok by simp
next
  fix name si0 si ll input sig name' vf sig'
  assume "digestSigner name si0 = (si, Ok ll)" "ll input = Ok sig" "digestVerifier name' si = Ok vf"
    "vf input sig' = Ok ()"
  then show "sig' = sig"
    unfolding digestSigner_Ok digestVerifier_Ok by (simp split: if_splits)
qed

end
