(* ===== verification/Ndn_Interest.thy ===== *)
theory Ndn_Interest
  imports Ndn_Signing
begin

text \<open>
  Interest packets (\<open>ndn/interest.go\<close>): forwarding hint, nonce, hop limit, the TLV codec, the
  parameters digest, signing and verification. A \<open>time.Duration\<close> is its number of nanoseconds. The
  random bytes that \<open>NewNonce\<close> reads are an argument of \<open>Field\<close>. The pointer to the enclosing Packet
  is an address; \<open>MakeInterest\<close> and \<open>ToPacket\<close>, which follow it, are in \<open>Ndn_Packet\<close>.
\<close>

subsection \<open>ForwardingHint, Nonce, HopLimit\<close>

type_synonym ForwardingHint = "Name list"

definition ForwardingHint_Field :: "ForwardingHint \<Rightarrow> Field" where
  "ForwardingHint_Field fh = TLV TtForwardingHint (map Name_Field fh)"

definition ForwardingHint_step :: "ForwardingHint \<Rightarrow> DecodingElement \<Rightarrow> ForwardingHint outcome" where
  "ForwardingHint_step fh de =
     (if Type de = TtName then andthen (Name_UnmarshalBinary (Value de)) (\<lambda>del. Ok (fh @ [del]))
      else if IsCriticalType de then Fail ErrCritical
      else Ok fh)"

text \<open>The method appends to the receiver's delegations.\<close>

definition ForwardingHint_UnmarshalBinary :: "ForwardingHint \<Rightarrow> bytes \<Rightarrow> ForwardingHint outcome" where
  "ForwardingHint_UnmarshalBinary fh wire =
     andthen (decodeElements ForwardingHint_step fh wire) (\<lambda>(fh, d).
       andthen (ErrUnlessEOF d) (\<lambda>_. Ok fh))"

text \<open>A Go \<open>[4]byte\<close>.\<close>

type_synonym Nonce = "byte \<times> byte \<times> byte \<times> byte"

definition Nonce_bytes :: "Nonce \<Rightarrow> bytes" where
  "Nonce_bytes nonce = (case nonce of (a, b, c, d) \<Rightarrow> [a, b, c, d])"

definition NonceFromUint :: "u32 \<Rightarrow> Nonce" where
  "NonceFromUint n =
     (ucast (drop_bit 24 n), ucast (drop_bit 16 n), ucast (drop_bit 8 n), ucast n)"

definition Nonce_IsZero :: "Nonce \<Rightarrow> bool" where
  "Nonce_IsZero nonce = (case nonce of (a, b, c, d) \<Rightarrow> a OR b OR c OR d = 0)"

definition Nonce_ToUint :: "Nonce \<Rightarrow> u32" where
  "Nonce_ToUint nonce =
     (case nonce of (a, b, c, d) \<Rightarrow>
        ucast d OR push_bit 8 (ucast c) OR push_bit 16 (ucast b) OR push_bit 24 (ucast a))"

definition Nonce_Field :: "Nonce \<Rightarrow> Field" where
  "Nonce_Field nonce = TLVBytes TtNonce (Nonce_bytes nonce)"

definition Nonce_UnmarshalBinary :: "bytes \<Rightarrow> Nonce outcome" where
  "Nonce_UnmarshalBinary wire =
     (case wire of [a, b, c, d] \<Rightarrow> Ok (a, b, c, d) | _ \<Rightarrow> Fail ErrNonceLen)"

type_synonym HopLimit = u8

definition HopLimit_Field :: "HopLimit \<Rightarrow> Field" where
  "HopLimit_Field hl = TLVNNI TtHopLimit (ucast hl)"

definition HopLimit_UnmarshalBinary :: "bytes \<Rightarrow> HopLimit outcome" where
  "HopLimit_UnmarshalBinary wire = (case wire of [b] \<Rightarrow> Ok b | _ \<Rightarrow> Fail ErrHopLimit)"

subsection \<open>Interest\<close>

type_synonym Duration = int

definition Millisecond :: Duration where "Millisecond = 1000000"
definition DefaultInterestLifetime :: Duration where "DefaultInterestLifetime = 4000 * Millisecond"
definition MinInterestLifetime :: Duration where "MinInterestLifetime = 1 * Millisecond"

record Interest =
  i_packet :: "nat option"
  i_Name :: Name
  i_CanBePrefix :: bool
  i_MustBeFresh :: bool
  i_ForwardingHint :: ForwardingHint
  i_Nonce :: Nonce
  i_Lifetime :: Duration
  i_HopLimit :: HopLimit
  i_AppParameters :: bytes
  i_SigInfo :: "SigInfo option"
  i_SigValue :: bytes

definition zero_Interest :: Interest where
  "zero_Interest = \<lparr>i_packet = None, i_Name = [], i_CanBePrefix = False, i_MustBeFresh = False,
     i_ForwardingHint = [], i_Nonce = (0, 0, 0, 0), i_Lifetime = 0, i_HopLimit = 0,
     i_AppParameters = [], i_SigInfo = None, i_SigValue = []\<rparr>"

definition Interest_String :: "Interest \<Rightarrow> bytes" where
  "Interest_String interest = Name_String (i_Name interest)
     @ (if i_CanBePrefix interest then str ''[P]'' else [])
     @ (if i_MustBeFresh interest then str ''[F]'' else [])"

text \<open>The method changes the receiver and returns the lifetime.\<close>

definition ApplyDefaultLifetime :: "Interest \<Rightarrow> Interest \<times> Duration" where
  "ApplyDefaultLifetime interest =
     (let interest = (if i_Lifetime interest = 0
                      then interest\<lparr>i_Lifetime := DefaultInterestLifetime\<rparr> else interest)
      in (interest, i_Lifetime interest))"

definition encodeParamsPortion :: "Interest \<Rightarrow> Field list" where
  "encodeParamsPortion interest =
     (if length (i_AppParameters interest) = 0 \<and> i_SigInfo interest = None then []
      else [TLVBytes TtAppParameters (i_AppParameters interest)]
        @ (if i_SigInfo interest \<noteq> None
           then [EncodeAs (i_SigInfo interest) TtISigInfo, TLVBytes TtISigValue (i_SigValue interest)]
           else []))"

definition Interest_encodeSignedPortion :: "Interest \<Rightarrow> bytes outcome" where
  "Interest_encodeSignedPortion interest =
     andthen (if Type (Name_Get (i_Name interest) (- 1)) = TtParametersSha256DigestComponent
              then Name_GetPrefix (i_Name interest) (- 1) else Ok (i_Name interest))
       (\<lambda>nameWithoutDigest.
          EncodeFrom (map NameComponent_Field nameWithoutDigest
            @ [TLVBytes TtAppParameters (i_AppParameters interest),
               EncodeAs (i_SigInfo interest) TtISigInfo]))"

definition replaceDigest :: "NameComponent \<Rightarrow> Name \<Rightarrow> Name \<times> bool" where
  "replaceDigest digestComp name =
     foldl (\<lambda>(name, isReplaced) comp.
         if Type comp = TtParametersSha256DigestComponent then (name @ [digestComp], True)
         else (name @ [comp], isReplaced)) ([], False) name"

definition UpdateParamsDigest :: "Interest \<Rightarrow> Interest" where
  "UpdateParamsDigest interest =
     (let paramsPortion =
        (case EncodeFrom (encodeParamsPortion interest) of Ok w \<Rightarrow> w | _ \<Rightarrow> [])
      in if length paramsPortion = 0 then interest
         else
           let digestComp = MakeNameComponent TtParametersSha256DigestComponent (Sum256 paramsPortion);
               (name, isReplaced) = replaceDigest digestComp (i_Name interest)
           in interest\<lparr>i_Name := (if \<not> isReplaced then name @ [digestComp] else name)\<rparr>)"

definition Interest_SignWith :: "Interest \<Rightarrow> signer \<Rightarrow> Interest \<times> unit outcome" where
  "Interest_SignWith interest signer =
     (let (si, r) = signer (i_Name interest)
            (case i_SigInfo interest of None \<Rightarrow> newNullSigInfo | Some si \<Rightarrow> si);
          interest = interest\<lparr>i_SigInfo := Some si\<rparr>
      in onOk interest r (\<lambda>llSign.
           onOk interest (Interest_encodeSignedPortion interest) (\<lambda>signedPortion.
             onOk interest (llSign signedPortion) (\<lambda>sig.
               (UpdateParamsDigest (interest\<lparr>i_SigValue := sig\<rparr>), Ok ())))))"

definition Interest_VerifyWith :: "Interest \<Rightarrow> verifier \<Rightarrow> unit outcome" where
  "Interest_VerifyWith interest verifier =
     andthen (verifier (i_Name interest)
         (case i_SigInfo interest of None \<Rightarrow> newNullSigInfo | Some si \<Rightarrow> si)) (\<lambda>llVerify.
       andthen (Interest_encodeSignedPortion interest) (\<lambda>signedPortion.
         llVerify signedPortion (i_SigValue interest)))"

definition Interest_Field :: "Nonce \<Rightarrow> Interest \<Rightarrow> Field" where
  "Interest_Field newNonce interest =
     (let nonce = (if Nonce_IsZero (i_Nonce interest) then newNonce else i_Nonce interest);
          lifetime = i_Lifetime interest;
          hasLifetime = (lifetime \<noteq> 0 \<and> lifetime \<noteq> DefaultInterestLifetime)
      in if hasLifetime \<and> lifetime < MinInterestLifetime then FieldError (Some ErrLifetime)
         else TLVFrom TtInterest
           ([Name_Field (i_Name interest)]
            @ (if i_CanBePrefix interest then [TLV TtCanBePrefix []] else [])
            @ (if i_MustBeFresh interest then [TLV TtMustBeFresh []] else [])
            @ (if length (i_ForwardingHint interest) > 0
               then [ForwardingHint_Field (i_ForwardingHint interest)] else [])
            @ [Nonce_Field nonce]
            @ (if hasLifetime
               then [TLVNNI TtInterestLifetime (of_int (lifetime div Millisecond))] else [])
            @ (if i_HopLimit interest \<noteq> 0 then [HopLimit_Field (i_HopLimit interest)] else [])
            @ encodeParamsPortion interest))"

text \<open>The loop carries the Interest and the parameters portion. \<open>9223372036854\<close> is
  \<open>math.MaxInt64 / time.Millisecond\<close>.\<close>

definition Interest_step ::
    "(u32 \<Rightarrow> bool) \<Rightarrow> Interest \<times> bytes \<Rightarrow> DecodingElement \<Rightarrow> (Interest \<times> bytes) outcome" where
  "Interest_step reg = (\<lambda>(interest, paramsPortion) de.
     if Type de = TtName then
       andthen (Name_UnmarshalBinary (Value de)) (\<lambda>n. Ok (interest\<lparr>i_Name := n\<rparr>, paramsPortion))
     else if Type de = TtCanBePrefix then Ok (interest\<lparr>i_CanBePrefix := True\<rparr>, paramsPortion)
     else if Type de = TtMustBeFresh then Ok (interest\<lparr>i_MustBeFresh := True\<rparr>, paramsPortion)
     else if Type de = TtForwardingHint then
       andthen (ForwardingHint_UnmarshalBinary (i_ForwardingHint interest) (Value de)) (\<lambda>fh.
         Ok (interest\<lparr>i_ForwardingHint := fh\<rparr>, paramsPortion))
     else if Type de = TtNonce then
       andthen (Nonce_UnmarshalBinary (Value de)) (\<lambda>n. Ok (interest\<lparr>i_Nonce := n\<rparr>, paramsPortion))
     else if Type de = TtInterestLifetime then
       andthen (UnmarshalNNI de 9223372036854 ErrLifetime) (\<lambda>v.
         Ok (interest\<lparr>i_Lifetime := uint v * Millisecond\<rparr>, paramsPortion))
     else if Type de = TtHopLimit then
       andthen (HopLimit_UnmarshalBinary (Value de)) (\<lambda>hl.
         Ok (interest\<lparr>i_HopLimit := hl\<rparr>, paramsPortion))
     else if Type de = TtAppParameters then
       Ok (interest\<lparr>i_AppParameters := Value de\<rparr>, WireAfter de)
     else if Type de = TtISigInfo then
       andthen (SigInfo_UnmarshalBinary reg (Value de)) (\<lambda>si.
         Ok (interest\<lparr>i_SigInfo := Some si\<rparr>, paramsPortion))
     else if Type de = TtISigValue then Ok (interest\<lparr>i_SigValue := Value de\<rparr>, paramsPortion)
     else if IsCriticalType de then Fail ErrCritical
     else Ok (interest, paramsPortion))"

definition checkParamsDigest :: "Interest \<Rightarrow> bytes \<Rightarrow> unit outcome" where
  "checkParamsDigest interest paramsPortion =
     (if length paramsPortion > 0 then
        (let digest = Sum256 paramsPortion in
         andthen (forRange (\<lambda>foundParamsDigest (i, comp).
             if Type comp \<noteq> TtParametersSha256DigestComponent then Ok foundParamsDigest
             else if i_SigInfo interest \<noteq> None \<and> i \<noteq> length (i_Name interest) - 1 then Fail ErrParamsDigest
             else if digest \<noteq> Value comp then Fail ErrParamsDigest
             else Ok (foundParamsDigest + 1)) (0 :: nat)
           (zip [0 ..< length (i_Name interest)] (i_Name interest)))
         (\<lambda>foundParamsDigest. if foundParamsDigest \<noteq> 1 then Fail ErrParamsDigest else Ok ()))
      else Ok ())"

definition Interest_UnmarshalBinary :: "(u32 \<Rightarrow> bool) \<Rightarrow> bytes \<Rightarrow> Interest outcome" where
  "Interest_UnmarshalBinary reg wire =
     andthen (decodeElements (Interest_step reg) (zero_Interest, []) wire)
       (\<lambda>((interest, paramsPortion), d).
          andthen (checkParamsDigest interest paramsPortion) (\<lambda>_.
            andthen (ErrUnlessEOF d) (\<lambda>_. Ok interest)))"

subsection \<open>Codecs of the parts\<close>

definition fh_value :: "ForwardingHint \<Rightarrow> bytes" where
  "fh_value fh = tlvs (items (\<lambda>_. TtName) name_value fh)"

definition fh_ok :: "ForwardingHint \<Rightarrow> bool" where
  "fh_ok fh \<longleftrightarrow> list_all name_ok fh \<and> slice_ok (fh_value fh)"

lemma ForwardingHint_steps:
  "list_all name_ok fh \<Longrightarrow>
   forRange ForwardingHint_step acc (elems_of (items (\<lambda>_. TtName) name_value fh) tail) = Ok (acc @ fh)"
  by (induction fh arbitrary: acc)
    (auto simp: items_def ForwardingHint_step_def name_codec.unmarshal_val)

interpretation fh_codec:
  tlv_codec ForwardingHint_Field "\<lambda>_. ForwardingHint_UnmarshalBinary []" "\<lambda>_. TtForwardingHint"
    fh_value fh_ok "\<lambda>fh. fh"
proof
  fix fh
  assume ok: "fh_ok fh"
  then have names: "list_all name_ok fh" by (simp add: fh_ok_def)
  show "enc (ForwardingHint_Field fh) = Ok (tlv_bytes TtForwardingHint (fh_value fh))"
    using name_codec.encs_fields [OF names] by (simp add: ForwardingHint_Field_def fh_value_def)
  show "tlv_ok (TtForwardingHint, fh_value fh)" using ok by (simp add: fh_ok_def)
  show "ForwardingHint_UnmarshalBinary [] (fh_value fh) = Ok fh"
    using decodeElements_tlvs [OF name_codec.items_ok [OF names], of ForwardingHint_step "[]"]
    by (simp only: ForwardingHint_UnmarshalBinary_def fh_value_def ForwardingHint_steps [OF names]
        andthen.simps case_prod_conv ErrUnlessEOF_Nil append_Nil)
qed

lemma Nonce_bytes_simps [simp]:
  "length (Nonce_bytes n) = 4" "Nonce_UnmarshalBinary (Nonce_bytes n) = Ok n"
  by (cases n, simp add: Nonce_bytes_def Nonce_UnmarshalBinary_def)+

interpretation nonce_codec:
  tlv_codec Nonce_Field "\<lambda>_. Nonce_UnmarshalBinary" "\<lambda>_. TtNonce" Nonce_bytes "\<lambda>_. True" "\<lambda>n. n"
  by unfold_locales (simp_all add: Nonce_Field_def slice_ok_def)

lemma NNI_Encode_byte: "NNI_Encode (ucast (b :: byte)) [] = [b]"
proof -
  have "unat (ucast b :: u64) = unat b"
    using unsigned_less [of b, where ?'a = nat] by (simp add: unsigned_ucast_eq take_bit_nat_eq_self)
  then have "(ucast b :: u64) \<le> 0xFF"
    using unsigned_less [of b, where ?'a = nat] by (simp add: word_le_nat_alt)
  moreover have "ucast (ucast b :: u64) = b" by (rule ucast_up_ucast_id) (simp add: is_up)
  ultimately show ?thesis by (simp add: NNI_Encode_def byte_at_def)
qed

interpretation hoplimit_codec:
  tlv_codec HopLimit_Field "\<lambda>_. HopLimit_UnmarshalBinary" "\<lambda>_. TtHopLimit" "\<lambda>hl. [hl]" "\<lambda>_. True" "\<lambda>hl. hl"
  by unfold_locales
    (simp_all add: HopLimit_Field_def HopLimit_UnmarshalBinary_def slice_ok_def NNI_Encode_byte)

interpretation fh_loop: evolvable ForwardingHint_step "\<lambda>t. t = TtName" is_critical
  by unfold_locales (auto simp: ForwardingHint_step_def IsCriticalType_is_critical)

lemma Nonce_uint: "Nonce_ToUint (NonceFromUint n) = n" "NonceFromUint (Nonce_ToUint nonce) = nonce"
proof -
  show "Nonce_ToUint (NonceFromUint n) = n"
    unfolding Nonce_ToUint_def NonceFromUint_def prod.case
  proof (rule bit_word_eqI)
    fix m
    assume "m < LENGTH(32)"
    then consider "m < 8" | "8 \<le> m" "m < 16" | "16 \<le> m" "m < 24" | "24 \<le> m" "m < 32" by force
    then show "bit ((ucast (ucast n :: byte) :: u32) OR push_bit 8 (ucast (ucast (drop_bit 8 n) :: byte))
        OR push_bit 16 (ucast (ucast (drop_bit 16 n) :: byte))
        OR push_bit 24 (ucast (ucast (drop_bit 24 n) :: byte))) m = bit n m"
      by cases (auto simp: bit_or_iff bit_push_bit_iff bit_ucast_iff bit_drop_bit_eq)
  qed
  obtain a b c d where "nonce = (a, b, c, d)" by (cases nonce)
  then show "NonceFromUint (Nonce_ToUint nonce) = nonce"
    unfolding Nonce_ToUint_def NonceFromUint_def prod.case
    by (auto intro!: bit_word_eqI
        simp: bit_or_iff bit_push_bit_iff bit_ucast_iff bit_drop_bit_eq not_less not_le)
      (drule bit_imp_le_length, simp)+
qed

subsection \<open>Codec of the Interest\<close>

definition params_items :: "Interest \<Rightarrow> (u32 \<times> bytes) list" where
  "params_items interest =
     (if i_AppParameters interest = [] \<and> i_SigInfo interest = None then []
      else [(TtAppParameters, i_AppParameters interest)]
        @ (if i_SigInfo interest \<noteq> None
           then [(TtISigInfo, siginfo_value (i_SigInfo interest)), (TtISigValue, i_SigValue interest)]
           else []))"

definition has_lifetime :: "Interest \<Rightarrow> bool" where
  "has_lifetime interest \<longleftrightarrow> i_Lifetime interest \<noteq> 0 \<and> i_Lifetime interest \<noteq> DefaultInterestLifetime"

definition nonce_of :: "Nonce \<Rightarrow> Interest \<Rightarrow> Nonce" where
  "nonce_of newNonce interest = (if Nonce_IsZero (i_Nonce interest) then newNonce else i_Nonce interest)"

definition interest_items :: "Nonce \<Rightarrow> Interest \<Rightarrow> (u32 \<times> bytes) list" where
  "interest_items newNonce interest =
     [(TtName, name_value (i_Name interest))]
     @ (if i_CanBePrefix interest then [(TtCanBePrefix, [])] else [])
     @ (if i_MustBeFresh interest then [(TtMustBeFresh, [])] else [])
     @ (if length (i_ForwardingHint interest) > 0
        then [(TtForwardingHint, fh_value (i_ForwardingHint interest))] else [])
     @ [(TtNonce, Nonce_bytes (nonce_of newNonce interest))]
     @ (if has_lifetime interest
        then [(TtInterestLifetime, NNI_Encode (of_int (i_Lifetime interest div Millisecond)) [])] else [])
     @ (if i_HopLimit interest \<noteq> 0 then [(TtHopLimit, [i_HopLimit interest])] else [])
     @ params_items interest"

definition interest_value :: "Nonce \<Rightarrow> Interest \<Rightarrow> bytes" where
  "interest_value newNonce interest = tlvs (interest_items newNonce interest)"

text \<open>
  The Interests that can be encoded: names and SigInfo in range, the lifetime at least the minimum
  when it is given, and a size that fits a slice.
\<close>

definition interest_ok :: "(u32 \<Rightarrow> bool) \<Rightarrow> Nonce \<Rightarrow> Interest \<Rightarrow> bool" where
  "interest_ok reg newNonce interest \<longleftrightarrow> name_ok (i_Name interest) \<and> fh_ok (i_ForwardingHint interest)
     \<and> (has_lifetime interest \<longrightarrow> MinInterestLifetime \<le> i_Lifetime interest \<and> i_Lifetime interest < 2 ^ 63)
     \<and> siginfo_opt_ok reg (i_SigInfo interest) \<and> slice_ok (interest_value newNonce interest)"

text \<open>What the wire keeps of an Interest.\<close>

definition interest_view :: "Nonce \<Rightarrow> Interest \<Rightarrow> Interest" where
  "interest_view newNonce interest = interest\<lparr>i_packet := None, i_Nonce := nonce_of newNonce interest,
     i_Lifetime := (if has_lifetime interest then i_Lifetime interest div Millisecond * Millisecond else 0),
     i_SigValue := (if i_SigInfo interest = None then [] else i_SigValue interest)\<rparr>"

lemma encs_params:
  "siginfo_opt_ok reg (i_SigInfo interest) \<Longrightarrow>
   encs (encodeParamsPortion interest) = Ok (tlvs (params_items interest))"
  using isiginfo_codec.enc_field [of reg "i_SigInfo interest"]
  by (simp add: encodeParamsPortion_def params_items_def)

lemma enc_Interest_Field:
  assumes "interest_ok reg newNonce interest"
  shows "enc (Interest_Field newNonce interest) = Ok (tlv_bytes TtInterest (interest_value newNonce interest))"
proof -
  have "\<not> (has_lifetime interest \<and> i_Lifetime interest < MinInterestLifetime)"
    using assms by (auto simp: interest_ok_def)
  moreover have "encs (encodeParamsPortion interest) = Ok (tlvs (params_items interest))"
    using assms by (intro encs_params [of reg]) (simp add: interest_ok_def)
  moreover have "enc (Name_Field (i_Name interest)) = Ok (tlv_bytes TtName (name_value (i_Name interest)))"
    "enc (ForwardingHint_Field (i_ForwardingHint interest))
      = Ok (tlv_bytes TtForwardingHint (fh_value (i_ForwardingHint interest)))"
    using assms by (simp_all add: interest_ok_def name_codec.enc_field fh_codec.enc_field
        del: TtName_def TtForwardingHint_def)
  ultimately show ?thesis
    by (simp add: Interest_Field_def Let_def interest_value_def interest_items_def
        nonce_codec.enc_field hoplimit_codec.enc_field has_lifetime_def nonce_of_def)
qed

text \<open>One lemma per part: what the loop does on the elements that carry it.\<close>

lemma Interest_step_Name:
  "name_ok n \<Longrightarrow> forRange (Interest_step reg) (i, pp) (elems_of [(TtName, name_value n)] tail)
     = Ok (i\<lparr>i_Name := n\<rparr>, pp)"
  by (simp add: Interest_step_def name_codec.unmarshal_val)

lemma Interest_step_CanBePrefix:
  "\<not> i_CanBePrefix i \<Longrightarrow>
   forRange (Interest_step reg) (i, pp) (elems_of (if b then [(TtCanBePrefix, [])] else []) tail)
     = Ok (i\<lparr>i_CanBePrefix := b\<rparr>, pp)"
  by (cases i) (simp add: Interest_step_def)

lemma Interest_step_MustBeFresh:
  "\<not> i_MustBeFresh i \<Longrightarrow>
   forRange (Interest_step reg) (i, pp) (elems_of (if b then [(TtMustBeFresh, [])] else []) tail)
     = Ok (i\<lparr>i_MustBeFresh := b\<rparr>, pp)"
  by (cases i) (simp add: Interest_step_def)

lemma Interest_step_ForwardingHint:
  "\<lbrakk>i_ForwardingHint i = []; fh_ok fh\<rbrakk> \<Longrightarrow>
   forRange (Interest_step reg) (i, pp)
     (elems_of (if length fh > 0 then [(TtForwardingHint, fh_value fh)] else []) tail)
     = Ok (i\<lparr>i_ForwardingHint := fh\<rparr>, pp)"
  by (cases i) (simp add: Interest_step_def fh_codec.unmarshal_val)

lemma Interest_step_Nonce:
  "forRange (Interest_step reg) (i, pp) (elems_of [(TtNonce, Nonce_bytes n)] tail)
     = Ok (i\<lparr>i_Nonce := n\<rparr>, pp)"
  by (simp add: Interest_step_def)

lemma lifetime_bounds:
  assumes "0 \<le> l" "l < 2 ^ 63"
  shows "uint (of_int (l div Millisecond) :: u64) = l div Millisecond"
    and "\<not> 9223372036854 < (of_int (l div Millisecond) :: u64)"
proof -
  have b: "0 \<le> l div Millisecond" "l div Millisecond \<le> 9223372036854"
    using assms by (auto simp: Millisecond_def pos_imp_zdiv_nonneg_iff)
  then show u: "uint (of_int (l div Millisecond) :: u64) = l div Millisecond"
    by (simp add: uint_word_of_int take_bit_int_eq_self)
  show "\<not> 9223372036854 < (of_int (l div Millisecond) :: u64)"
    using b(2) u by (simp add: word_less_def)
qed

lemma Interest_step_Lifetime:
  "\<lbrakk>i_Lifetime i = 0; c \<Longrightarrow> 0 \<le> l \<and> l < 2 ^ 63\<rbrakk> \<Longrightarrow>
   forRange (Interest_step reg) (i, pp)
     (elems_of (if c then [(TtInterestLifetime, NNI_Encode (of_int (l div Millisecond)) [])] else []) tail)
     = Ok (i\<lparr>i_Lifetime := (if c then l div Millisecond * Millisecond else 0)\<rparr>, pp)"
  using lifetime_bounds [of l] by (cases i) (simp add: Interest_step_def)

lemma Interest_step_HopLimit:
  "i_HopLimit i = 0 \<Longrightarrow>
   forRange (Interest_step reg) (i, pp) (elems_of (if h \<noteq> 0 then [(TtHopLimit, [h])] else []) tail)
     = Ok (i\<lparr>i_HopLimit := h\<rparr>, pp)"
  by (cases i) (simp add: Interest_step_def HopLimit_UnmarshalBinary_def)

lemma Interest_step_params:
  "\<lbrakk>i_AppParameters i = []; i_SigInfo i = None; i_SigValue i = [];
    siginfo_opt_ok reg (i_SigInfo interest)\<rbrakk> \<Longrightarrow>
   forRange (Interest_step reg) (i, []) (elems_of (params_items interest) [])
     = Ok (i\<lparr>i_AppParameters := i_AppParameters interest, i_SigInfo := i_SigInfo interest,
             i_SigValue := (if i_SigInfo interest = None then [] else i_SigValue interest)\<rparr>,
           tlvs (params_items interest))"
  using isiginfo_codec.unmarshal_val [of reg "i_SigInfo interest"]
  by (cases i) (auto simp: Interest_step_def params_items_def WireAfter_def sig_of_def)

lemmas Interest_steps = Interest_step_Name Interest_step_CanBePrefix Interest_step_MustBeFresh
  Interest_step_ForwardingHint Interest_step_Nonce Interest_step_Lifetime Interest_step_HopLimit
  Interest_step_params

lemma interest_items_ok:
  "interest_ok reg newNonce interest \<Longrightarrow> list_all tlv_ok (interest_items newNonce interest)"
  by (rule tlvs_ok) (auto simp: interest_ok_def interest_value_def interest_items_def params_items_def)

lemma Interest_loop:
  assumes "interest_ok reg newNonce interest"
  shows "forRange (Interest_step reg) (zero_Interest, []) (elems_of (interest_items newNonce interest) [])
    = Ok (interest_view newNonce interest, tlvs (params_items interest))"
proof -
  have ok: "name_ok (i_Name interest)" "fh_ok (i_ForwardingHint interest)"
    "siginfo_opt_ok reg (i_SigInfo interest)"
    and l: "has_lifetime interest \<Longrightarrow> 0 \<le> i_Lifetime interest \<and> i_Lifetime interest < 2 ^ 63"
    using assms by (auto simp: interest_ok_def MinInterestLifetime_def Millisecond_def)
  show ?thesis
    unfolding interest_items_def elems_of_append forRange_append
    by (simp only: Interest_steps ok l andthen.simps zero_Interest_def Interest.simps interest_view_def
        simp_thms)
      simp
qed

lemma Interest_Unmarshal_value:
  assumes "interest_ok reg newNonce interest"
  shows "Interest_UnmarshalBinary reg (interest_value newNonce interest) =
    andthen (checkParamsDigest (interest_view newNonce interest) (tlvs (params_items interest)))
      (\<lambda>_. Ok (interest_view newNonce interest))"
  using decodeElements_tlvs [OF interest_items_ok [OF assms], of "Interest_step reg" "(zero_Interest, [])"]
  by (simp only: Interest_UnmarshalBinary_def interest_value_def Interest_loop [OF assms]
      andthen.simps case_prod_conv ErrUnlessEOF_Nil)

subsection \<open>The parameters digest\<close>

definition is_digest :: "NameComponent \<Rightarrow> bool" where
  "is_digest c \<longleftrightarrow> Type c = TtParametersSha256DigestComponent"

text \<open>The name without a digest component in the last place, and names with none elsewhere.\<close>

definition strip :: "Name \<Rightarrow> Name" where
  "strip name = (if name \<noteq> [] \<and> is_digest (last name) then butlast name else name)"

definition digest_last :: "Name \<Rightarrow> bool" where
  "digest_last name \<longleftrightarrow> list_all (\<lambda>c. \<not> is_digest c) (strip name)"

definition digest_comp :: "Interest \<Rightarrow> NameComponent" where
  "digest_comp interest =
     \<lparr>Type = TtParametersSha256DigestComponent, Value = Sum256 (tlvs (params_items interest))\<rparr>"

lemma strip_snoc [simp]: "is_digest c \<Longrightarrow> strip (name @ [c]) = name"
  by (simp add: strip_def)

lemma replaceDigest_eq:
  "replaceDigest dc name = (map (\<lambda>c. if is_digest c then dc else c) name, \<exists>c\<in>set name. is_digest c)"
  unfolding replaceDigest_def is_digest_def by (induction name rule: rev_induct) auto

lemma replaceDigest_last:
  assumes "digest_last name" and "replaceDigest dc name = (name', r)"
  shows "(if \<not> r then name' @ [dc] else name') = strip name @ [dc]"
proof (cases "name \<noteq> [] \<and> is_digest (last name)")
  case True
  then obtain p c where name: "name = p @ [c]" and c: "is_digest c"
    by (metis append_butlast_last_id)
  have p: "\<forall>x\<in>set p. \<not> is_digest x" using assms(1) c by (auto simp: name digest_last_def list_all_iff)
  have "map (\<lambda>x. if is_digest x then dc else x) p = p" using p by (auto intro: map_idI)
  then show ?thesis using assms(2) c by (auto simp: replaceDigest_eq name)
next
  case False
  then have st: "strip name = name" by (auto simp: strip_def)
  then have "\<forall>x\<in>set name. \<not> is_digest x" using assms(1) by (auto simp: digest_last_def list_all_iff)
  then have "replaceDigest dc name = (name, False)" by (auto simp: replaceDigest_eq intro: map_idI)
  then show ?thesis using assms(2) st by simp
qed

lemma tlvs_eq_Nil [simp]: "tlvs xs = [] \<longleftrightarrow> xs = []"
  by (cases xs) (auto simp: tlv_bytes_def VarNum_Encode_def)

lemma UpdateParamsDigest_eq:
  assumes "siginfo_opt_ok reg (i_SigInfo interest)" and "digest_last (i_Name interest)"
  shows "UpdateParamsDigest interest =
    (if params_items interest = [] then interest
     else interest\<lparr>i_Name := strip (i_Name interest) @ [digest_comp interest]\<rparr>)"
  using replaceDigest_last [OF assms(2)]
  by (auto simp: UpdateParamsDigest_def EncodeFrom_encs encs_params [OF assms(1)] Let_def
      MakeNameComponent_def digest_comp_def split: prod.split)

lemma checkParamsDigest_loop:
  "\<lbrakk>list_all (\<lambda>c. \<not> is_digest c) p; b = a + length p\<rbrakk> \<Longrightarrow>
   forRange (\<lambda>k (i, comp). if Type comp \<noteq> TtParametersSha256DigestComponent then Ok k else f k i comp)
     k (zip [a ..< b] p) = Ok k"
proof (induction p arbitrary: a)
  case (Cons c p)
  have "a < b" using Cons.prems(2) by simp
  then have upt: "[a ..< b] = a # [Suc a ..< b]" by (rule upt_conv_Cons)
  have "b = Suc a + length p" using Cons.prems(2) by simp
  with Cons.IH [of "Suc a"] Cons.prems(1) show ?case
    unfolding upt by (simp add: is_digest_def del: upt_Suc)
qed simp

lemma checkParamsDigest_last:
  assumes "i_Name interest = p @ [\<lparr>Type = TtParametersSha256DigestComponent, Value = Sum256 pp\<rparr>]"
    and "list_all (\<lambda>c. \<not> is_digest c) p"
  shows "checkParamsDigest interest pp = Ok ()"
proof -
  have "zip [0 ..< length (i_Name interest)] (i_Name interest) = zip [0 ..< 0 + length p] p
      @ [(length p, \<lparr>Type = TtParametersSha256DigestComponent, Value = Sum256 pp\<rparr>)]"
    by (simp add: assms(1))
  then show ?thesis
    unfolding checkParamsDigest_def Let_def
    by (simp only: forRange_append checkParamsDigest_loop [OF assms(2) refl]) (simp add: assms(1))
qed

lemma view_simps [simp]:
  "i_Name (interest_view nn interest) = i_Name interest"
  "i_AppParameters (interest_view nn interest) = i_AppParameters interest"
  "i_SigInfo (interest_view nn interest) = i_SigInfo interest"
  by (simp_all add: interest_view_def)

lemma params_items_Name [simp]: "params_items (interest\<lparr>i_Name := n\<rparr>) = params_items interest"
  by (simp add: params_items_def)

text \<open>An Interest that passes the digest check of its own encoding.\<close>

definition digest_ok :: "Interest \<Rightarrow> bool" where
  "digest_ok interest \<longleftrightarrow> params_items interest = [] \<or>
     (\<exists>p. i_Name interest = p @ [digest_comp interest] \<and> list_all (\<lambda>c. \<not> is_digest c) p)"

lemma digest_ok_check:
  "digest_ok interest \<Longrightarrow>
   checkParamsDigest (interest_view nn interest) (tlvs (params_items interest)) = Ok ()"
  unfolding digest_ok_def digest_comp_def
  by (auto intro: checkParamsDigest_last) (simp add: checkParamsDigest_def)

lemma UpdateParamsDigest_digest_ok:
  assumes "siginfo_opt_ok reg (i_SigInfo interest)" and "digest_last (i_Name interest)"
  shows "digest_ok (UpdateParamsDigest interest)"
  using assms(2)
  by (auto simp: UpdateParamsDigest_eq [OF assms] digest_ok_def digest_last_def digest_comp_def)

interpretation interest_codec:
  tlv_codec "Interest_Field nn" "\<lambda>_. Interest_UnmarshalBinary reg" "\<lambda>_. TtInterest" "interest_value nn"
    "\<lambda>interest. interest_ok reg nn interest \<and> digest_ok interest" "interest_view nn" for reg nn
proof
  fix interest
  assume ok: "interest_ok reg nn interest \<and> digest_ok interest"
  then show "enc (Interest_Field nn interest) = Ok (tlv_bytes TtInterest (interest_value nn interest))"
    using enc_Interest_Field by blast
  show "tlv_ok (TtInterest, interest_value nn interest)"
    using ok by (simp add: interest_ok_def)
  show "Interest_UnmarshalBinary reg (interest_value nn interest) = Ok (interest_view nn interest)"
    using ok by (simp add: Interest_Unmarshal_value digest_ok_check)
qed

subsection \<open>Signing\<close>

lemma Interest_encodeSignedPortion_strip:
  "Interest_encodeSignedPortion interest =
     encs (map NameComponent_Field (strip (i_Name interest))
       @ [TLVBytes TtAppParameters (i_AppParameters interest), EncodeAs (i_SigInfo interest) TtISigInfo])"
proof (cases "i_Name interest" rule: rev_cases)
  case Nil
  then show ?thesis
    by (simp add: Interest_encodeSignedPortion_def Name_Get_def invalidComponent_def strip_def EncodeFrom_encs)
next
  case (snoc p c)
  then have "Name_Get (i_Name interest) (- 1) = c" and "Name_GetPrefix (i_Name interest) (- 1) = Ok p"
    by (auto simp: Name_Get_def Name_GetPrefix_def Name_Slice_def Let_def)
  then show ?thesis
    using snoc by (auto simp: Interest_encodeSignedPortion_def strip_def is_digest_def EncodeFrom_encs)
qed

lemma Interest_SignWith_Ok:
  assumes "Interest_SignWith interest signer = (interest', Ok ())"
  obtains si ll portion sig
  where "signer (i_Name interest) (sig_of (i_SigInfo interest)) = (si, Ok ll)"
    "Interest_encodeSignedPortion (interest\<lparr>i_SigInfo := Some si\<rparr>) = Ok portion" "ll portion = Ok sig"
    "interest' = UpdateParamsDigest (interest\<lparr>i_SigInfo := Some si, i_SigValue := sig\<rparr>)"
  using assms unfolding Interest_SignWith_def
  by (auto simp: sig_of_def onOk_Ok_iff Let_def split: prod.splits)

lemma UpdateParamsDigest_keeps [simp]:
  "i_SigInfo (UpdateParamsDigest interest) = i_SigInfo interest"
  "i_SigValue (UpdateParamsDigest interest) = i_SigValue interest"
  "i_AppParameters (UpdateParamsDigest interest) = i_AppParameters interest"
  by (simp_all add: UpdateParamsDigest_def Let_def split: prod.split)

context sign_verify
begin

lemma Interest_sign_verify:
  assumes sign: "Interest_SignWith interest signer = (interest', Ok ())"
    and name: "digest_last (i_Name interest)" and ok: "interest_ok reg nn interest'"
  shows "andthen (Encode [Interest_Field nn interest']) (\<lambda>w. Decode w (\<lambda>_. Interest_UnmarshalBinary reg))
      = Ok (interest_view nn interest')
    \<and> Interest_VerifyWith (interest_view nn interest') verifier = Ok ()"
proof -
  from sign obtain si ll portion sig
    where s: "signer (i_Name interest) (sig_of (i_SigInfo interest)) = (si, Ok ll)"
    and portion: "Interest_encodeSignedPortion (interest\<lparr>i_SigInfo := Some si\<rparr>) = Ok portion"
    and sig: "ll portion = Ok sig"
    and i': "interest' = UpdateParamsDigest (interest\<lparr>i_SigInfo := Some si, i_SigValue := sig\<rparr>)"
    by (rule Interest_SignWith_Ok)
  let ?i = "interest\<lparr>i_SigInfo := Some si, i_SigValue := sig\<rparr>"
  have si: "siginfo_opt_ok reg (i_SigInfo ?i)"
    using ok by (simp add: interest_ok_def i')
  have upd: "interest' = ?i\<lparr>i_Name := strip (i_Name interest) @ [digest_comp ?i]\<rparr>"
    using UpdateParamsDigest_eq [OF si] name by (simp add: i' params_items_def)
  have dok: "digest_ok interest'"
    unfolding i' by (rule UpdateParamsDigest_digest_ok [OF si]) (simp add: name)
  have "Interest_encodeSignedPortion (interest_view nn interest') = Ok portion"
    using portion by (simp add: Interest_encodeSignedPortion_strip upd digest_comp_def is_digest_def)
  moreover obtain vf where "verifier (i_Name interest') si = Ok vf" "vf portion sig = Ok ()"
    using accepts [OF s sig] by blast
  ultimately have "Interest_VerifyWith (interest_view nn interest') verifier = Ok ()"
    by (simp add: Interest_VerifyWith_def upd interest_view_def)
  then show ?thesis using interest_codec.Decode_Encode [of reg nn interest'] ok dok by simp
qed

end

subsection \<open>What an accepted Interest guarantees\<close>

lemma Interest_step_paramsPortion:
  "\<lbrakk>Interest_step reg (i, pp) de = Ok (i', pp'); Type de \<noteq> TtAppParameters\<rbrakk> \<Longrightarrow> pp' = pp"
  by (auto simp: Interest_step_def split: if_splits)

lemma forRange_paramsPortion:
  "\<lbrakk>forRange (Interest_step reg) (i, pp) des = Ok (i', pp'); \<forall>de\<in>set des. Type de \<noteq> TtAppParameters\<rbrakk>
   \<Longrightarrow> pp' = pp"
proof (induction des arbitrary: i pp)
  case (Cons de des)
  from Cons.prems(1) obtain j qq where "Interest_step reg (i, pp) de = Ok (j, qq)"
    "forRange (Interest_step reg) (j, qq) des = Ok (i', pp')" by auto
  with Cons.IH [of j qq] Cons.prems(2) Interest_step_paramsPortion [of reg i pp de j qq]
  show ?case by simp
qed simp

lemma elems_of_types: "de \<in> set (elems_of xs tail) \<Longrightarrow> Type de \<in> fst ` set xs"
  by (induction xs) auto

lemma checkParamsDigest_count:
  "\<lbrakk>forRange (\<lambda>k (i, comp). if Type comp \<noteq> TtParametersSha256DigestComponent then Ok k
       else if b \<and> i \<noteq> m then Fail ErrParamsDigest
       else if digest \<noteq> Value comp then Fail ErrParamsDigest else Ok (k + 1)) k ics = Ok n\<rbrakk> \<Longrightarrow>
   n = k + length (filter is_digest (map snd ics)) \<and>
   (\<forall>(i, c)\<in>set ics. is_digest c \<longrightarrow> Value c = digest \<and> (b \<longrightarrow> i = m))"
proof (induction ics arbitrary: k)
  case (Cons ic ics)
  obtain i c where ic: "ic = (i, c)" by (cases ic)
  show ?case
  proof (cases "is_digest c")
    case True
    then have "Value c = digest" "b \<longrightarrow> i = m" using Cons.prems by (auto simp: ic is_digest_def split: if_splits)
    with True Cons.IH [of "k + 1"] Cons.prems show ?thesis by (auto simp: ic is_digest_def split: if_splits)
  next
    case False
    with Cons.IH [of k] Cons.prems show ?thesis by (auto simp: ic is_digest_def)
  qed
qed simp

lemma checkParamsDigest_Ok:
  assumes "checkParamsDigest interest pp = Ok ()" and "pp \<noteq> []"
  shows "\<exists>c. filter is_digest (i_Name interest) = [c] \<and> Value c = Sum256 pp
    \<and> (i_SigInfo interest \<noteq> None \<longrightarrow> last (i_Name interest) = c)"
proof -
  let ?n = "i_Name interest"
  let ?ics = "zip [0 ..< length ?n] ?n"
  have *: "length (filter is_digest ?n) = 1"
    "\<forall>(i, c)\<in>set ?ics. is_digest c \<longrightarrow> Value c = Sum256 pp \<and> (i_SigInfo interest \<noteq> None \<longrightarrow> i = length ?n - 1)"
    using assms checkParamsDigest_count [of "i_SigInfo interest \<noteq> None" "length ?n - 1" "Sum256 pp" 0 ?ics]
    by (auto simp: checkParamsDigest_def Let_def split: if_splits)
  then obtain c where c: "filter is_digest ?n = [c]" by (auto simp: length_Suc_conv)
  then have "c \<in> set ?n" "is_digest c"
    using filter_set [of is_digest ?n] by (auto simp: filter_eq_Cons_iff)
  then obtain i where i: "i < length ?n" "?n ! i = c" by (auto simp: in_set_conv_nth)
  then have "(i, c) \<in> set ?ics" by (auto simp: set_zip intro!: exI [of _ i])
  with * \<open>is_digest c\<close> have "Value c = Sum256 pp" "i_SigInfo interest \<noteq> None \<longrightarrow> i = length ?n - 1" by auto
  moreover have "last ?n = ?n ! (length ?n - 1)" using i by (intro last_conv_nth) auto
  ultimately show ?thesis using c i by auto
qed

subsection \<open>Properties\<close>

text \<open>
  C3 (Interest_roundtrip). An Interest without parameters, or one whose parameters digest was set by
  \<open>UpdateParamsDigest\<close>, decodes from its encoding to itself: a zero nonce is replaced by the random one,
  the lifetime is cut to milliseconds and the default lifetime is left out, everything else is kept. The
  digest component must not occur elsewhere in the name.
\<close>

theorem Interest_roundtrip:
  assumes "interest_ok reg nn (UpdateParamsDigest interest)" and "digest_last (i_Name interest)"
  shows "andthen (Encode [Interest_Field nn (UpdateParamsDigest interest)])
      (\<lambda>w. Decode w (\<lambda>_. Interest_UnmarshalBinary reg)) = Ok (interest_view nn (UpdateParamsDigest interest))
    \<and> (i_AppParameters interest = [] \<and> i_SigInfo interest = None \<longrightarrow> UpdateParamsDigest interest = interest)"
proof -
  have si: "siginfo_opt_ok reg (i_SigInfo interest)" using assms(1) by (simp add: interest_ok_def)
  from UpdateParamsDigest_digest_ok [OF si assms(2)] assms(1)
  have "andthen (Encode [Interest_Field nn (UpdateParamsDigest interest)])
      (\<lambda>w. Decode w (\<lambda>_. Interest_UnmarshalBinary reg)) = Ok (interest_view nn (UpdateParamsDigest interest))"
    by (intro interest_codec.Decode_Encode) simp
  then show ?thesis
    by (auto simp: UpdateParamsDigest_eq [OF si assms(2)] params_items_def)
qed

lemmas length_simps = slice_ok_def length_tlv_bytes Element_Size_def Element_Length_def VarNum_Size_def
  NNI_Size_def

definition sample_Interest :: Interest where
  "sample_Interest = zero_Interest\<lparr>i_Name := [\<lparr>Type = 8, Value = [0x41]\<rparr>], i_CanBePrefix := True,
     i_Nonce := (1, 2, 3, 4), i_Lifetime := 5 * Millisecond, i_HopLimit := 9\<rparr>"

lemma name_ok_sample: "name_ok [\<lparr>Type = 8, Value = [0x41]\<rparr>]"
  by (simp add: name_ok_def name_value_def items_def comp_ok_def NameComponent_Valid_def
      isValidNameComponentType_def length_simps)

theorem Interest_roundtrip_witness:
  "andthen (Encode [Interest_Field (0, 0, 0, 0) sample_Interest])
     (\<lambda>w. Decode w (\<lambda>_. Interest_UnmarshalBinary (\<lambda>_. False))) = Ok sample_Interest"
proof -
  have upd: "UpdateParamsDigest sample_Interest = sample_Interest"
    by (simp add: UpdateParamsDigest_def sample_Interest_def zero_Interest_def encodeParamsPortion_def
        EncodeFrom_encs)
  have "interest_ok (\<lambda>_. False) (0, 0, 0, 0) sample_Interest"
    using name_ok_sample
    by (simp add: interest_ok_def sample_Interest_def zero_Interest_def has_lifetime_def
        DefaultInterestLifetime_def MinInterestLifetime_def Millisecond_def fh_ok_def fh_value_def items_def
        siginfo_opt_ok_def interest_value_def interest_items_def params_items_def name_value_def length_simps)
  moreover have "digest_last (i_Name sample_Interest)"
    by (simp add: digest_last_def strip_def is_digest_def sample_Interest_def)
  moreover have "interest_view (0, 0, 0, 0) sample_Interest = sample_Interest"
    by (simp add: interest_view_def sample_Interest_def zero_Interest_def has_lifetime_def nonce_of_def
        Nonce_IsZero_def DefaultInterestLifetime_def Millisecond_def)
  ultimately show ?thesis
    using Interest_roundtrip [of "\<lambda>_. False" "(0, 0, 0, 0)" sample_Interest] by (simp add: upd)
qed

text \<open>
  C12 (Interest_params_digest_checked). An Interest that decodes with parameters names them: its name has
  exactly one parameters digest component, holding the SHA-256 digest of the wire from the (last)
  ApplicationParameters element to the end, and if the Interest has a SigInfo this is the last component.
\<close>

theorem Interest_params_digest_checked:
  assumes "Interest_UnmarshalBinary reg (tlvs (xs @ (TtAppParameters, v) # ys)) = Ok interest"
    and "list_all tlv_ok (xs @ (TtAppParameters, v) # ys)" and "TtAppParameters \<notin> fst ` set ys"
  shows "\<exists>c. filter is_digest (i_Name interest) = [c] \<and> Value c = Sum256 (tlvs ((TtAppParameters, v) # ys))
    \<and> (i_SigInfo interest \<noteq> None \<longrightarrow> last (i_Name interest) = c)"
proof -
  let ?xs = "xs @ (TtAppParameters, v) # ys"
  from assms(1) obtain pp where
    loop: "forRange (Interest_step reg) (zero_Interest, []) (elems_of ?xs []) = Ok (interest, pp)"
    and check: "checkParamsDigest interest pp = Ok ()"
    using decodeElements_tlvs [OF assms(2), of "Interest_step reg" "(zero_Interest, [])"]
    by (auto simp: Interest_UnmarshalBinary_def simp del: tlvs_simps elems_of_append forRange_append)
  from loop obtain i where
    rest: "forRange (Interest_step reg) (i, tlvs ((TtAppParameters, v) # ys)) (elems_of ys []) = Ok (interest, pp)"
    by (auto simp: Interest_step_def WireAfter_def)
  have "\<forall>de\<in>set (elems_of ys []). Type de \<noteq> TtAppParameters"
    using assms(3) elems_of_types [of _ ys "[]"] by metis
  from forRange_paramsPortion [OF rest this] have "pp = tlvs ((TtAppParameters, v) # ys)" .
  moreover have "tlvs ((TtAppParameters, v) # ys) \<noteq> []" unfolding tlvs_eq_Nil by simp
  ultimately show ?thesis using checkParamsDigest_Ok [OF check] by simp
qed

theorem Interest_params_digest_checked_witness:
  "let c = \<lparr>Type = TtParametersSha256DigestComponent, Value = Sum256 (tlvs [(TtAppParameters, [1])])\<rparr>;
       xs = [(TtName, name_value [\<lparr>Type = 8, Value = [0x41]\<rparr>, c]), (TtNonce, [1, 2, 3, 4])]
   in \<exists>interest. Interest_UnmarshalBinary (\<lambda>_. False) (tlvs (xs @ (TtAppParameters, [1]) # [])) = Ok interest
        \<and> (\<exists>c. filter is_digest (i_Name interest) = [c] \<and> Value c = Sum256 (tlvs [(TtAppParameters, [1])]))"
proof -
  let ?c = "\<lparr>Type = TtParametersSha256DigestComponent, Value = Sum256 (tlvs [(TtAppParameters, [1])])\<rparr>"
  let ?name = "[\<lparr>Type = 8, Value = [0x41]\<rparr>, ?c] :: Name"
  let ?xs = "[(TtName, name_value ?name), (TtNonce, [1, 2, 3, 4])]"
  let ?i = "zero_Interest\<lparr>i_Name := ?name, i_Nonce := (1, 2, 3, 4), i_AppParameters := [1]\<rparr>"
  have items: "params_items ?i = [(TtAppParameters, [1])]"
    by (simp add: params_items_def zero_Interest_def)
  have witems: "interest_items (0, 0, 0, 0) ?i = ?xs @ (TtAppParameters, [1]) # []"
    unfolding interest_items_def items
    by (simp add: zero_Interest_def has_lifetime_def nonce_of_def Nonce_IsZero_def Nonce_bytes_def)
  have name: "name_ok ?name"
    by (simp add: name_ok_def name_value_def items_def comp_ok_def NameComponent_Valid_def
        isValidNameComponentType_def length_simps)
  have "interest_ok (\<lambda>_. False) (0, 0, 0, 0) ?i"
    unfolding interest_ok_def interest_value_def witems
    using name by (simp add: zero_Interest_def has_lifetime_def fh_ok_def fh_value_def items_def
        siginfo_opt_ok_def name_value_def length_simps)
  moreover have "digest_ok ?i"
    unfolding digest_ok_def digest_comp_def items
    by (intro disjI2 exI [of _ "[\<lparr>Type = 8, Value = [0x41]\<rparr>]"]) (simp add: is_digest_def)
  ultimately have dec: "Interest_UnmarshalBinary (\<lambda>_. False) (tlvs (?xs @ (TtAppParameters, [1]) # []))
      = Ok (interest_view (0, 0, 0, 0) ?i)"
    using interest_codec.unmarshal_val [of "\<lambda>_. False" "(0, 0, 0, 0)" ?i]
    by (simp only: interest_value_def witems simp_thms)
  have "list_all tlv_ok (?xs @ (TtAppParameters, [1]) # [])"
    using name by (simp add: name_ok_def slice_ok_def)
  from Interest_params_digest_checked [OF dec this]
  have "\<exists>c. filter is_digest (i_Name (interest_view (0, 0, 0, 0) ?i)) = [c]
      \<and> Value c = Sum256 (tlvs [(TtAppParameters, [1])])"
    by (simp only: list.set image_empty empty_iff not_False_eq_True) blast
  with dec show ?thesis unfolding Let_def by blast
qed

text \<open>
  Interest_signature_survives_wire. An Interest signed by \<open>DigestSigning.Sign\<close>, encoded and
  decoded, is accepted by \<open>DigestSigning.Verify\<close>, and with any other signature value it is rejected with
  \<open>ErrSigValue\<close>.
\<close>

theorem Interest_signature_survives_wire:
  assumes "digestSigning_Sign (Interest_SignWith interest) = (interest', Ok ())"
    and "digest_last (i_Name interest)" and "interest_ok reg nn interest'"
  shows "\<exists>j. andthen (Encode [Interest_Field nn interest']) (\<lambda>w. Decode w (\<lambda>_. Interest_UnmarshalBinary reg)) = Ok j
    \<and> digestSigning_Verify (Interest_VerifyWith j) = Ok ()
    \<and> (\<forall>sig. sig \<noteq> i_SigValue j \<longrightarrow>
          digestSigning_Verify (Interest_VerifyWith (j\<lparr>i_SigValue := sig\<rparr>)) = Fail ErrSigValue)"
proof -
  let ?j = "interest_view nn interest'"
  have j: "andthen (Encode [Interest_Field nn interest']) (\<lambda>w. Decode w (\<lambda>_. Interest_UnmarshalBinary reg)) = Ok ?j"
    and v: "Interest_VerifyWith ?j digestVerifier = Ok ()"
    using digest.Interest_sign_verify [OF _ assms(2,3)] assms(1)
    by (simp_all add: digestSigning_Sign_def)
  from v obtain portion vf where
    "digestVerifier (i_Name ?j) (sig_of (i_SigInfo ?j)) = Ok vf"
    "Interest_encodeSignedPortion ?j = Ok portion" "vf portion (i_SigValue ?j) = Ok ()"
    by (auto simp: Interest_VerifyWith_def sig_of_def)
  moreover have "Interest_encodeSignedPortion (?j\<lparr>i_SigValue := sig\<rparr>) = Interest_encodeSignedPortion ?j" for sig
    by (simp add: Interest_encodeSignedPortion_strip)
  ultimately have "Interest_VerifyWith (?j\<lparr>i_SigValue := sig\<rparr>) digestVerifier = Fail ErrSigValue"
    if "sig \<noteq> i_SigValue ?j" for sig
    using that by (auto simp: Interest_VerifyWith_def digestVerifier_def sig_of_def split: if_splits)
  with j v show ?thesis by (auto simp: digestSigning_Verify_def)
qed

theorem Interest_signature_survives_wire_witness:
  "\<exists>interest' j. digestSigning_Sign (Interest_SignWith sample_Interest) = (interest', Ok ())
     \<and> andthen (Encode [Interest_Field (0, 0, 0, 0) interest'])
         (\<lambda>w. Decode w (\<lambda>_. Interest_UnmarshalBinary (\<lambda>_. False))) = Ok j
     \<and> digestSigning_Verify (Interest_VerifyWith j) = Ok ()"
proof -
  let ?si = "zero_SigInfo" and ?reg = "\<lambda>_ :: u32. False"
  have kl: "keylocator_ok zero_KeyLocator"
    by (simp add: keylocator_ok_def keylocator_value_def name_ok_def name_value_def items_def length_simps)
  have items: "siginfo_items ?si = [(TtSigType, NNI_Encode 0 [])]"
    by (simp add: siginfo_items_def KeyLocator_Empty_def items_def)
  have si: "siginfo_ok ?reg ?si"
    unfolding siginfo_ok_def items using kl by (simp add: length_simps)
  then have si': "siginfo_opt_ok ?reg (Some ?si)" by (simp add: siginfo_opt_ok_def)
  have name: "digest_last (i_Name sample_Interest)"
    by (simp add: digest_last_def strip_def is_digest_def sample_Interest_def)
  obtain portion where portion:
    "Interest_encodeSignedPortion (sample_Interest\<lparr>i_SigInfo := Some ?si\<rparr>) = Ok portion"
    using isiginfo_codec.enc_field [OF si'] name
    by (auto simp: Interest_encodeSignedPortion_strip strip_def is_digest_def sample_Interest_def
        NameComponent_Field_def NameComponent_Valid_def isValidNameComponentType_def Element_Field_def)
  let ?i = "sample_Interest\<lparr>i_SigInfo := Some ?si, i_SigValue := Sum256 portion\<rparr>"
  have sign: "digestSigning_Sign (Interest_SignWith sample_Interest) = (UpdateParamsDigest ?i, Ok ())"
    using portion
    by (simp add: digestSigning_Sign_def Interest_SignWith_def digestSigner_def newNullSigInfo_def
        sample_Interest_def zero_Interest_def)
  have upd: "UpdateParamsDigest ?i = ?i\<lparr>i_Name := [\<lparr>Type = 8, Value = [0x41]\<rparr>, digest_comp ?i]\<rparr>"
    using UpdateParamsDigest_eq [of ?reg ?i] si' name
    by (simp add: params_items_def sample_Interest_def strip_def is_digest_def)
  have "interest_ok ?reg (0, 0, 0, 0) (UpdateParamsDigest ?i)"
    using si' unfolding upd
    by (simp add: interest_ok_def sample_Interest_def zero_Interest_def has_lifetime_def
        DefaultInterestLifetime_def MinInterestLifetime_def Millisecond_def fh_ok_def fh_value_def items_def
        interest_value_def interest_items_def params_items_def name_value_def name_ok_def comp_ok_def
        NameComponent_Valid_def isValidNameComponentType_def digest_comp_def siginfo_value_def
        items [unfolded zero_SigInfo_def zero_KeyLocator_def] length_simps)
  from Interest_signature_survives_wire [OF sign name this] sign show ?thesis by blast
qed

end
