(* ===== verification/Ndn_Data.thy ===== *)
theory Ndn_Data
  imports Ndn_Interest
begin

text \<open>
  Data packets (\<open>ndn/data.go\<close>): the TLV codec with MetaInfo, signing and verification. The enclosing
  Packet is an address; \<open>VerifyWith\<close> reads the TLV-VALUE the packet was decoded from, which is an argument
  here. \<open>MakeData\<close>, \<open>ToPacket\<close> and \<open>ComputeDigest\<close>, which follow the pointer, are in \<open>Ndn_Packet\<close>.
\<close>

type_synonym ContentType = u64

record Data =
  d_packet :: "nat option"
  d_l3SigValueOffset :: nat
  d_Name :: Name
  d_ContentType :: ContentType
  d_Freshness :: Duration
  d_FinalBlock :: NameComponent
  d_Content :: bytes
  d_SigInfo :: "SigInfo option"
  d_SigValue :: bytes

definition zero_Data :: Data where
  "zero_Data = \<lparr>d_packet = None, d_l3SigValueOffset = 0, d_Name = [], d_ContentType = 0, d_Freshness = 0,
     d_FinalBlock = invalidComponent, d_Content = [], d_SigInfo = None, d_SigValue = []\<rparr>"

definition ContentType_Field :: "ContentType \<Rightarrow> Field" where
  "ContentType_Field ct = TLVNNI TtContentType ct"

definition ContentType_UnmarshalBinary :: "bytes \<Rightarrow> ContentType outcome" where
  "ContentType_UnmarshalBinary wire = NNI_UnmarshalBinary wire"

definition Data_String :: "Data \<Rightarrow> bytes" where
  "Data_String data = Name_String (d_Name data)"

definition IsFinalBlock :: "Data \<Rightarrow> bool" where
  "IsFinalBlock data \<longleftrightarrow> NameComponent_Valid (d_FinalBlock data)
     \<and> NameComponent_Equal (d_FinalBlock data) (Name_Get (d_Name data) (- 1))"

definition metaFields :: "Data \<Rightarrow> Field list" where
  "metaFields data =
     (if d_ContentType data > 0 then [ContentType_Field (d_ContentType data)] else [])
     @ (if d_Freshness data > 0
        then [TLVNNI TtFreshnessPeriod (of_int (d_Freshness data div Millisecond))] else [])
     @ (if NameComponent_Valid (d_FinalBlock data)
        then [TLVFrom TtFinalBlock [NameComponent_Field (d_FinalBlock data)]] else [])"

definition Data_encodeSignedPortion :: "Data \<Rightarrow> bytes outcome" where
  "Data_encodeSignedPortion data =
     EncodeFrom ([Name_Field (d_Name data)]
       @ (if length (metaFields data) > 0 then [TLV TtMetaInfo (metaFields data)] else [])
       @ (if length (d_Content data) > 0 then [TLVBytes TtContent (d_Content data)] else [])
       @ [EncodeAs (d_SigInfo data) TtDSigInfo])"

definition Data_Field :: "Data \<Rightarrow> Field" where
  "Data_Field data =
     (case Data_encodeSignedPortion data of
        Ok signedPortion \<Rightarrow> TLV TtData [Bytes signedPortion, TLVBytes TtDSigValue (d_SigValue data)]
      | Fail e \<Rightarrow> FieldError (Some e)
      | Panic \<Rightarrow> FieldError None)"

definition Data_SignWith :: "Data \<Rightarrow> signer \<Rightarrow> Data \<times> unit outcome" where
  "Data_SignWith data signer =
     (let (si, r) = signer (d_Name data)
            (case d_SigInfo data of None \<Rightarrow> newNullSigInfo | Some si \<Rightarrow> si);
          data = data\<lparr>d_SigInfo := Some si\<rparr>
      in onOk data r (\<lambda>llSign.
           onOk data (Data_encodeSignedPortion data) (\<lambda>signedPortion.
             onOk data (llSign signedPortion) (\<lambda>sig. (data\<lparr>d_SigValue := sig\<rparr>, Ok ())))))"

text \<open>\<open>l3value\<close> is \<open>data.packet.l3value\<close>, None when \<open>data.packet\<close> is nil. A decoded Data has an offset
  inside the value it was decoded from; the slice expression panics for any other.\<close>

definition Data_VerifyWith :: "Data \<Rightarrow> bytes option \<Rightarrow> verifier \<Rightarrow> unit outcome" where
  "Data_VerifyWith data l3value verifier =
     andthen (verifier (d_Name data)
         (case d_SigInfo data of None \<Rightarrow> newNullSigInfo | Some si \<Rightarrow> si)) (\<lambda>llVerify.
       andthen (case l3value of
            Some value \<Rightarrow>
              if d_l3SigValueOffset data > 0 then
                (if d_l3SigValueOffset data \<le> length value
                 then Ok (take (d_l3SigValueOffset data) value) else Panic)
              else Data_encodeSignedPortion data
          | None \<Rightarrow> Data_encodeSignedPortion data) (\<lambda>signedPortion.
         llVerify signedPortion (d_SigValue data)))"

definition MetaInfo_step :: "Data \<Rightarrow> DecodingElement \<Rightarrow> Data outcome" where
  "MetaInfo_step data de =
     (if Type de = TtContentType then
        andthen (UnmarshalNNI de 0xFFFFFFFFFFFFFFFF ErrRange) (\<lambda>v. Ok (data\<lparr>d_ContentType := v\<rparr>))
      else if Type de = TtFreshnessPeriod then
        andthen (UnmarshalNNI de 9223372036854 ErrRange) (\<lambda>v.
          Ok (data\<lparr>d_Freshness := uint v * Millisecond\<rparr>))
      else if Type de = TtFinalBlock then
        andthen (Element_Decode (Value de)) (\<lambda>(fb, d1).
          if \<not> NameComponent_Valid fb then Fail ErrComponentType
          else andthen (ErrUnlessEOF d1) (\<lambda>_. Ok (data\<lparr>d_FinalBlock := fb\<rparr>)))
      else if IsCriticalType de then Fail ErrCritical
      else Ok data)"

definition decodeMetaInfo :: "Data \<Rightarrow> bytes \<Rightarrow> Data outcome" where
  "decodeMetaInfo data value =
     andthen (decodeElements MetaInfo_step data value) (\<lambda>(data, d).
       andthen (ErrUnlessEOF d) (\<lambda>_. Ok data))"

definition Data_step :: "(u32 \<Rightarrow> bool) \<Rightarrow> bytes \<Rightarrow> Data \<Rightarrow> DecodingElement \<Rightarrow> Data outcome" where
  "Data_step reg value data de =
     (if Type de = TtName then
        andthen (Name_UnmarshalBinary (Value de)) (\<lambda>n. Ok (data\<lparr>d_Name := n\<rparr>))
      else if Type de = TtMetaInfo then decodeMetaInfo data (Value de)
      else if Type de = TtContent then Ok (data\<lparr>d_Content := Value de\<rparr>)
      else if Type de = TtDSigInfo then
        andthen (SigInfo_UnmarshalBinary reg (Value de)) (\<lambda>si. Ok (data\<lparr>d_SigInfo := Some si\<rparr>))
      else if Type de = TtDSigValue then
        Ok (data\<lparr>d_SigValue := Value de, d_l3SigValueOffset := length value - length (WireAfter de)\<rparr>)
      else if IsCriticalType de then Fail ErrCritical
      else Ok data)"

definition Data_UnmarshalBinary :: "(u32 \<Rightarrow> bool) \<Rightarrow> bytes \<Rightarrow> Data outcome" where
  "Data_UnmarshalBinary reg value =
     andthen (decodeElements (Data_step reg value) zero_Data value) (\<lambda>(data, d).
       andthen (ErrUnlessEOF d) (\<lambda>_. Ok data))"

subsection \<open>Codec\<close>

definition meta_items :: "Data \<Rightarrow> (u32 \<times> bytes) list" where
  "meta_items data =
     (if d_ContentType data > 0 then [(TtContentType, NNI_Encode (d_ContentType data) [])] else [])
     @ (if d_Freshness data > 0
        then [(TtFreshnessPeriod, NNI_Encode (of_int (d_Freshness data div Millisecond)) [])] else [])
     @ (if NameComponent_Valid (d_FinalBlock data)
        then [(TtFinalBlock, tlv_bytes (Type (d_FinalBlock data)) (Value (d_FinalBlock data)))] else [])"

definition signed_items :: "Data \<Rightarrow> (u32 \<times> bytes) list" where
  "signed_items data =
     [(TtName, name_value (d_Name data))]
     @ (if meta_items data \<noteq> [] then [(TtMetaInfo, tlvs (meta_items data))] else [])
     @ (if length (d_Content data) > 0 then [(TtContent, d_Content data)] else [])
     @ [(TtDSigInfo, siginfo_value (d_SigInfo data))]"

definition data_value :: "Data \<Rightarrow> bytes" where
  "data_value data = tlvs (signed_items data @ [(TtDSigValue, d_SigValue data)])"

definition data_ok :: "(u32 \<Rightarrow> bool) \<Rightarrow> Data \<Rightarrow> bool" where
  "data_ok reg data \<longleftrightarrow> name_ok (d_Name data) \<and> d_Freshness data < 2 ^ 63
     \<and> siginfo_opt_ok reg (d_SigInfo data) \<and> slice_ok (data_value data)"

text \<open>What the wire keeps of a Data.\<close>

definition data_view :: "Data \<Rightarrow> Data" where
  "data_view data = data\<lparr>d_packet := None, d_l3SigValueOffset := length (tlvs (signed_items data)),
     d_Freshness := (if d_Freshness data > 0 then d_Freshness data div Millisecond * Millisecond else 0),
     d_FinalBlock := (if NameComponent_Valid (d_FinalBlock data) then d_FinalBlock data else invalidComponent),
     d_SigInfo := Some (sig_of (d_SigInfo data))\<rparr>"

lemma encs_metaFields: "encs (metaFields data) = Ok (tlvs (meta_items data))"
  by (simp add: metaFields_def meta_items_def ContentType_Field_def NameComponent_Field_def Element_Field_def)

lemma metaFields_Nil: "metaFields data = [] \<longleftrightarrow> meta_items data = []"
  by (simp add: metaFields_def meta_items_def)

lemma Data_encodeSignedPortion_items:
  assumes "name_ok (d_Name data)" and "siginfo_opt_ok reg (d_SigInfo data)"
  shows "Data_encodeSignedPortion data = Ok (tlvs (signed_items data))"
  using name_codec.enc_field [OF assms(1)] dsiginfo_codec.enc_field [OF assms(2)]
  by (simp add: Data_encodeSignedPortion_def EncodeFrom_encs signed_items_def encs_metaFields metaFields_Nil)

lemma signed_items_ok:
  "data_ok reg data \<Longrightarrow> list_all tlv_ok (signed_items data @ [(TtDSigValue, d_SigValue data)])"
  by (rule tlvs_ok) (auto simp: data_ok_def data_value_def signed_items_def)

lemma MetaInfo_step_ContentType:
  "d_ContentType d = 0 \<Longrightarrow>
   forRange MetaInfo_step d (elems_of (if n > 0 then [(TtContentType, NNI_Encode n [])] else []) tail)
     = Ok (d\<lparr>d_ContentType := n\<rparr>)"
  by (cases d) (auto simp: MetaInfo_step_def word_gt_0)

lemma MetaInfo_step_Freshness:
  "\<lbrakk>d_Freshness d = 0; f < 2 ^ 63\<rbrakk> \<Longrightarrow>
   forRange MetaInfo_step d (elems_of (if f > 0
       then [(TtFreshnessPeriod, NNI_Encode (of_int (f div Millisecond)) [])] else []) tail)
     = Ok (d\<lparr>d_Freshness := (if f > 0 then f div Millisecond * Millisecond else 0)\<rparr>)"
  using lifetime_bounds [of f] by (cases d) (simp add: MetaInfo_step_def)

lemma Element_Decode_component:
  assumes "NameComponent_Valid c" and "slice_ok (Value c)"
  shows "Element_Decode (tlv_bytes (Type c) (Value c)) = Ok (c, [])"
  using Element_Decode_tlv [of "Type c" "Value c" "[]"] assms by simp

lemma MetaInfo_step_FinalBlock:
  "\<lbrakk>d_FinalBlock d = invalidComponent; NameComponent_Valid c \<Longrightarrow> slice_ok (Value c)\<rbrakk> \<Longrightarrow>
   forRange MetaInfo_step d (elems_of (if NameComponent_Valid c
       then [(TtFinalBlock, tlv_bytes (Type c) (Value c))] else []) tail)
     = Ok (d\<lparr>d_FinalBlock := (if NameComponent_Valid c then c else invalidComponent)\<rparr>)"
  by (cases d) (simp add: MetaInfo_step_def Element_Decode_component)

lemma meta_items_slice_ok:
  assumes "data_ok reg data"
  shows "list_all tlv_ok (meta_items data)"
    and "NameComponent_Valid (d_FinalBlock data) \<Longrightarrow> slice_ok (Value (d_FinalBlock data))"
proof -
  have "meta_items data \<noteq> [] \<Longrightarrow> slice_ok (tlvs (meta_items data))"
    using signed_items_ok [OF assms] by (simp add: signed_items_def)
  then have sl: "slice_ok (tlvs (meta_items data))" by (cases "meta_items data = []") (simp_all add: slice_ok_def)
  then show ok: "list_all tlv_ok (meta_items data)"
    by (rule tlvs_ok) (auto simp: meta_items_def)
  show "NameComponent_Valid (d_FinalBlock data) \<Longrightarrow> slice_ok (Value (d_FinalBlock data))"
    using ok slice_ok_tlv_value by (auto simp: meta_items_def)
qed

lemma decodeMetaInfo_items:
  assumes "data_ok reg data" "d_ContentType d = 0" "d_Freshness d = 0" "d_FinalBlock d = invalidComponent"
  shows "decodeMetaInfo d (tlvs (meta_items data)) = Ok (d\<lparr>d_ContentType := d_ContentType data,
     d_Freshness := (if d_Freshness data > 0 then d_Freshness data div Millisecond * Millisecond else 0),
     d_FinalBlock := (if NameComponent_Valid (d_FinalBlock data) then d_FinalBlock data else invalidComponent)\<rparr>)"
proof -
  have fr: "d_Freshness data < 2 ^ 63" using assms(1) by (simp add: data_ok_def)
  have "forRange MetaInfo_step d (elems_of (meta_items data) []) = Ok (d\<lparr>d_ContentType := d_ContentType data,
     d_Freshness := (if d_Freshness data > 0 then d_Freshness data div Millisecond * Millisecond else 0),
     d_FinalBlock := (if NameComponent_Valid (d_FinalBlock data) then d_FinalBlock data else invalidComponent)\<rparr>)"
    using assms(2-4) unfolding meta_items_def elems_of_append forRange_append
    by (cases d)
      (simp only: MetaInfo_step_ContentType MetaInfo_step_Freshness MetaInfo_step_FinalBlock
        meta_items_slice_ok(2) [OF assms(1)] fr andthen.simps Data.simps simp_thms)
  then show ?thesis
    using decodeElements_tlvs [OF meta_items_slice_ok(1) [OF assms(1)], of MetaInfo_step d]
    by (simp only: decodeMetaInfo_def andthen.simps case_prod_conv ErrUnlessEOF_Nil)
qed

lemma Data_step_Name:
  "name_ok n \<Longrightarrow> forRange (Data_step reg v) d (elems_of [(TtName, name_value n)] tail) = Ok (d\<lparr>d_Name := n\<rparr>)"
  by (simp add: Data_step_def name_codec.unmarshal_val)

lemma Data_step_MetaInfo:
  assumes "data_ok reg data" "d_ContentType d = 0" "d_Freshness d = 0" "d_FinalBlock d = invalidComponent"
  shows "forRange (Data_step reg v) d
     (elems_of (if meta_items data \<noteq> [] then [(TtMetaInfo, tlvs (meta_items data))] else []) tail)
     = Ok (d\<lparr>d_ContentType := d_ContentType data,
     d_Freshness := (if d_Freshness data > 0 then d_Freshness data div Millisecond * Millisecond else 0),
     d_FinalBlock := (if NameComponent_Valid (d_FinalBlock data) then d_FinalBlock data else invalidComponent)\<rparr>)"
proof (cases "meta_items data = []")
  case True
  then have "d_ContentType data = 0" "\<not> d_Freshness data > 0" "\<not> NameComponent_Valid (d_FinalBlock data)"
    by (auto simp: meta_items_def word_gt_0 split: if_splits)
  then show ?thesis using True assms(2-4) by (cases d) simp
next
  case False
  then show ?thesis using decodeMetaInfo_items [OF assms] by (simp add: Data_step_def)
qed

lemma Data_step_Content:
  "d_Content d = [] \<Longrightarrow>
   forRange (Data_step reg v) d (elems_of (if length c > 0 then [(TtContent, c)] else []) tail)
     = Ok (d\<lparr>d_Content := c\<rparr>)"
  by (cases d) (simp add: Data_step_def)

lemma Data_step_SigInfo:
  "siginfo_opt_ok reg sim \<Longrightarrow>
   forRange (Data_step reg v) d (elems_of [(TtDSigInfo, siginfo_value sim)] tail)
     = Ok (d\<lparr>d_SigInfo := Some (sig_of sim)\<rparr>)"
  using dsiginfo_codec.unmarshal_val [of reg sim] by (simp add: Data_step_def)

lemma Data_step_SigValue:
  "forRange (Data_step reg (p @ tlvs [(TtDSigValue, sig)] @ tail)) d (elems_of [(TtDSigValue, sig)] tail)
     = Ok (d\<lparr>d_SigValue := sig, d_l3SigValueOffset := length p\<rparr>)"
  by (simp add: Data_step_def WireAfter_def)

lemma Data_loop:
  assumes "data_ok reg data"
  shows "forRange (Data_step reg (data_value data)) zero_Data
      (elems_of (signed_items data @ [(TtDSigValue, d_SigValue data)]) []) = Ok (data_view data)"
proof -
  have ok: "name_ok (d_Name data)" "siginfo_opt_ok reg (d_SigInfo data)" using assms by (simp_all add: data_ok_def)
  have "forRange (Data_step reg v) zero_Data (elems_of (signed_items data) tail)
      = Ok ((data_view data)\<lparr>d_SigValue := [], d_l3SigValueOffset := 0\<rparr>)" for v tail
    unfolding signed_items_def elems_of_append forRange_append
    by (simp only: Data_step_Name Data_step_MetaInfo [OF assms] Data_step_Content Data_step_SigInfo ok
        andthen.simps zero_Data_def Data.simps) (cases data, simp add: data_view_def)
  then have "forRange (Data_step reg (data_value data)) zero_Data
      (elems_of (signed_items data @ [(TtDSigValue, d_SigValue data)]) [])
    = forRange (Data_step reg (data_value data)) ((data_view data)\<lparr>d_SigValue := [], d_l3SigValueOffset := 0\<rparr>)
        (elems_of [(TtDSigValue, d_SigValue data)] [])"
    unfolding elems_of_append forRange_append by (simp only: andthen.simps)
  also have "\<dots> = Ok (data_view data)"
    using Data_step_SigValue [of reg "tlvs (signed_items data)" "d_SigValue data" "[]"
        "(data_view data)\<lparr>d_SigValue := [], d_l3SigValueOffset := 0\<rparr>"]
    unfolding data_value_def tlvs_simps(3) append_Nil2 by (simp add: data_view_def)
  finally show ?thesis .
qed

interpretation data_codec:
  tlv_codec Data_Field "\<lambda>_. Data_UnmarshalBinary reg" "\<lambda>_. TtData" data_value "data_ok reg" data_view for reg
proof
  fix data
  assume ok: "data_ok reg data"
  show "enc (Data_Field data) = Ok (tlv_bytes TtData (data_value data))"
    using Data_encodeSignedPortion_items [of data reg] ok
    by (simp add: Data_Field_def data_ok_def data_value_def)
  show "tlv_ok (TtData, data_value data)" using ok by (simp add: data_ok_def)
  show "Data_UnmarshalBinary reg (data_value data) = Ok (data_view data)"
    using decodeElements_tlvs [OF signed_items_ok [OF ok], of "Data_step reg (data_value data)" zero_Data]
    by (simp only: Data_UnmarshalBinary_def Data_loop [OF ok] flip: data_value_def) simp
qed

subsection \<open>Signing\<close>

lemma Data_SignWith_Ok:
  assumes "Data_SignWith data signer = (data', Ok ())"
  obtains si ll portion sig
  where "signer (d_Name data) (sig_of (d_SigInfo data)) = (si, Ok ll)"
    "Data_encodeSignedPortion (data\<lparr>d_SigInfo := Some si\<rparr>) = Ok portion" "ll portion = Ok sig"
    "data' = data\<lparr>d_SigInfo := Some si, d_SigValue := sig\<rparr>"
  using assms unfolding Data_SignWith_def
  by (auto simp: sig_of_def onOk_Ok_iff Let_def split: prod.splits)

lemma signed_items_keep [simp]:
  "signed_items (data\<lparr>d_SigValue := sig\<rparr>) = signed_items data"
  by (simp add: signed_items_def meta_items_def)

lemma take_data_value: "take (length (tlvs (signed_items data))) (data_value data) = tlvs (signed_items data)"
  by (simp add: data_value_def)

lemma signed_items_not_Nil [simp]: "signed_items data \<noteq> []"
  by (simp add: signed_items_def)

lemma Data_VerifyWith_view:
  "Data_VerifyWith (data_view data) (Some (data_value data)) verifier =
     andthen (verifier (d_Name data) (sig_of (d_SigInfo data)))
       (\<lambda>llVerify. llVerify (tlvs (signed_items data)) (d_SigValue data))"
  by (simp add: Data_VerifyWith_def data_view_def take_data_value) (simp add: data_value_def)

context sign_verify
begin

lemma Data_sign_verify:
  assumes sign: "Data_SignWith data signer = (data', Ok ())" and ok: "data_ok reg data'"
  shows "andthen (Encode [Data_Field data']) (\<lambda>w. Decode w (\<lambda>_. Data_UnmarshalBinary reg)) = Ok (data_view data')
    \<and> Data_VerifyWith (data_view data') (Some (data_value data')) verifier = Ok ()"
proof -
  from sign obtain si ll portion sig
    where s: "signer (d_Name data) (sig_of (d_SigInfo data)) = (si, Ok ll)"
    and portion: "Data_encodeSignedPortion (data\<lparr>d_SigInfo := Some si\<rparr>) = Ok portion"
    and sig: "ll portion = Ok sig"
    and d': "data' = data\<lparr>d_SigInfo := Some si, d_SigValue := sig\<rparr>"
    by (rule Data_SignWith_Ok)
  have "Data_encodeSignedPortion (data\<lparr>d_SigInfo := Some si\<rparr>) = Ok (tlvs (signed_items (data\<lparr>d_SigInfo := Some si\<rparr>)))"
    using ok by (intro Data_encodeSignedPortion_items [of _ reg]) (simp_all add: data_ok_def d')
  then have items: "portion = tlvs (signed_items data')"
    using portion signed_items_keep [of sig "data\<lparr>d_SigInfo := Some si\<rparr>"] by (simp add: d')
  obtain vf where "verifier (d_Name data') si = Ok vf" "vf portion sig = Ok ()"
    using accepts [OF s sig] by blast
  then have "Data_VerifyWith (data_view data') (Some (data_value data')) verifier = Ok ()"
    by (simp add: Data_VerifyWith_view items d' sig_of_def)
  then show ?thesis using data_codec.Decode_Encode [OF ok] by simp
qed

end

subsection \<open>The part of the wire that a signature covers\<close>

lemma Data_step_offset:
  "\<lbrakk>Data_step reg v d de = Ok d'; Type de \<noteq> TtDSigValue\<rbrakk> \<Longrightarrow>
   d_l3SigValueOffset d' = d_l3SigValueOffset d \<and> d_SigValue d' = d_SigValue d"
proof -
  have meta: "d_l3SigValueOffset d' = d_l3SigValueOffset d \<and> d_SigValue d' = d_SigValue d"
    if "decodeMetaInfo d w = Ok d'" for d d' w
  proof -
    from that obtain des where "forRange MetaInfo_step d des = Ok d'"
      by (auto simp: decodeMetaInfo_def elim!: decodeElements_OkE)
    then show ?thesis
      by (rule forRange_invariant) (auto simp: MetaInfo_step_def split: if_splits)
  qed
  assume "Data_step reg v d de = Ok d'" "Type de \<noteq> TtDSigValue"
  then show ?thesis by (auto simp: Data_step_def split: if_splits dest: meta)
qed

lemma Data_loop_offset:
  assumes "forRange (Data_step reg v) d des = Ok d'" and "\<forall>de\<in>set des. Type de \<noteq> TtDSigValue"
  shows "d_l3SigValueOffset d' = d_l3SigValueOffset d \<and> d_SigValue d' = d_SigValue d"
  using assms(1) by (rule forRange_invariant) (use assms(2) Data_step_offset in auto)

lemma Data_step_tail:
  "forRange (Data_step reg (v @ tail)) d (elems_of xs tail) = forRange (Data_step reg v) d (elems_of xs [])"
proof (induction xs arbitrary: d)
  case (Cons x xs)
  obtain t u where x: "x = (t, u)" by (cases x)
  let ?e = "\<lambda>tail. \<lparr>Type = t, Value = u, Wire = tlv_bytes t u, After = tlvs xs @ tail\<rparr>"
  have "Data_step reg (v @ tail) d (?e tail) = Data_step reg v d (?e [])"
    by (simp add: Data_step_def WireAfter_def IsCriticalType_def)
  then show ?case by (simp add: x Cons.IH)
qed simp

lemma Data_offset_bound:
  assumes "forRange (Data_step reg v) zero_Data des = Ok data"
  shows "d_l3SigValueOffset data \<le> length v"
  using assms
proof (rule forRange_invariant)
  show "d_l3SigValueOffset zero_Data \<le> length v" by (simp add: zero_Data_def)
  fix d de d'
  assume "d_l3SigValueOffset d \<le> length v" "Data_step reg v d de = Ok d'"
  then show "d_l3SigValueOffset d' \<le> length v"
    using Data_step_offset [of reg v d de d']
    by (cases "Type de = TtDSigValue") (auto simp: Data_step_def)
qed

lemma Data_loop_snoc:
  assumes "Data_UnmarshalBinary reg (tlvs xs) = Ok data" and "list_all tlv_ok xs"
  shows "forRange (Data_step reg (tlvs xs)) zero_Data (elems_of xs []) = Ok data"
  using assms(1) decodeElements_tlvs [OF assms(2), of "Data_step reg (tlvs xs)" zero_Data]
  by (auto simp: Data_UnmarshalBinary_def)

subsection \<open>Properties\<close>

text \<open>
  C4 (Data_roundtrip). A Data decodes from its encoding to itself, with the freshness cut to
  milliseconds and dropped when it is not positive, an invalid FinalBlock dropped and a nil SigInfo read
  back as the null signature; the offset of the signature value is the length of the signed portion.
\<close>

theorem Data_roundtrip:
  assumes "data_ok reg data"
  shows "\<exists>signedPortion. Data_encodeSignedPortion data = Ok signedPortion
    \<and> andthen (Encode [Data_Field data]) (\<lambda>w. Decode w (\<lambda>_. Data_UnmarshalBinary reg))
      = Ok (data\<lparr>d_packet := None, d_l3SigValueOffset := length signedPortion,
          d_Freshness := (if d_Freshness data > 0 then d_Freshness data div Millisecond * Millisecond else 0),
          d_FinalBlock := (if NameComponent_Valid (d_FinalBlock data) then d_FinalBlock data else invalidComponent),
          d_SigInfo := Some (sig_of (d_SigInfo data))\<rparr>)"
  using data_codec.Decode_Encode [OF assms] Data_encodeSignedPortion_items [of data reg] assms
  by (simp add: data_ok_def data_view_def)

definition sample_Data :: Data where
  "sample_Data = zero_Data\<lparr>d_Name := [\<lparr>Type = 8, Value = [0x41]\<rparr>], d_Freshness := 5 * Millisecond,
     d_FinalBlock := \<lparr>Type = 8, Value = [0x41]\<rparr>, d_Content := [0xC0], d_SigInfo := Some zero_SigInfo\<rparr>"

lemma zero_SigInfo_ok: "siginfo_ok reg zero_SigInfo" "siginfo_items zero_SigInfo = [(TtSigType, [0])]"
  by (simp_all add: siginfo_ok_def siginfo_items_def keylocator_ok_def keylocator_value_def KeyLocator_Empty_def
      name_ok_def name_value_def items_def NNI_Encode_def byte_at_def length_simps)

lemma sample_Data_ok: "length sig < 253 \<Longrightarrow> data_ok reg (sample_Data\<lparr>d_SigValue := sig\<rparr>)"
  using name_ok_sample zero_SigInfo_ok
  by (simp add: data_ok_def sample_Data_def zero_Data_def Millisecond_def siginfo_opt_ok_def data_value_def
      signed_items_def meta_items_def NameComponent_Valid_def isValidNameComponentType_def siginfo_value_def
      name_value_def items_def length_simps)

theorem Data_roundtrip_witness:
  "andthen (Encode [Data_Field sample_Data]) (\<lambda>w. Decode w (\<lambda>_. Data_UnmarshalBinary (\<lambda>_. False)))
     = Ok (sample_Data\<lparr>d_l3SigValueOffset := 23\<rparr>)"
proof -
  have "sample_Data = sample_Data\<lparr>d_SigValue := []\<rparr>" by (simp add: sample_Data_def zero_Data_def)
  then have ok: "data_ok (\<lambda>_. False) sample_Data" using sample_Data_ok [of "[]"] by simp
  have len: "length (tlvs (signed_items sample_Data)) = 23"
    using zero_SigInfo_ok
    by (simp add: sample_Data_def zero_Data_def signed_items_def meta_items_def NameComponent_Valid_def
        isValidNameComponentType_def siginfo_value_def name_value_def items_def Millisecond_def length_simps)
  have "Data_encodeSignedPortion sample_Data = Ok (tlvs (signed_items sample_Data))"
    using Data_encodeSignedPortion_items [of sample_Data "\<lambda>_. False"] ok by (simp add: data_ok_def)
  then show ?thesis
    using Data_roundtrip [OF ok] len
    by (simp add: sample_Data_def zero_Data_def Millisecond_def NameComponent_Valid_def
        isValidNameComponentType_def sig_of_def)
qed

text \<open>
  Data_signature_survives_wire. A Data signed by \<open>DigestSigning.Sign\<close>, encoded and decoded, is
  accepted by \<open>DigestSigning.Verify\<close> on the original TLV-VALUE, and with any other signature value it is
  rejected.
\<close>

theorem Data_signature_survives_wire:
  assumes "digestSigning_Sign (Data_SignWith data) = (data', Ok ())" and "data_ok reg data'"
  shows "\<exists>value d. EncodeValueOnly (Data_Field data') = Ok value \<and> Data_UnmarshalBinary reg value = Ok d
    \<and> digestSigning_Verify (Data_VerifyWith d (Some value)) = Ok ()
    \<and> (\<forall>sig. sig \<noteq> d_SigValue d \<longrightarrow>
          digestSigning_Verify (Data_VerifyWith (d\<lparr>d_SigValue := sig\<rparr>) (Some value)) = Fail ErrSigValue)"
proof -
  have v: "Data_VerifyWith (data_view data') (Some (data_value data')) digestVerifier = Ok ()"
    using digest.Data_sign_verify [OF _ assms(2)] assms(1) by (simp add: digestSigning_Sign_def)
  have "EncodeValueOnly (Data_Field data') = Ok (data_value data')"
    using Data_encodeSignedPortion_items [of data' reg] assms(2)
    by (simp add: Data_Field_def data_ok_def data_value_def)
  moreover have "Data_UnmarshalBinary reg (data_value data') = Ok (data_view data')"
    by (rule data_codec.unmarshal_val [OF assms(2)])
  moreover have "d_l3SigValueOffset (data_view data') \<noteq> 0" by (simp add: data_view_def)
  then have "Data_VerifyWith ((data_view data')\<lparr>d_SigValue := sig\<rparr>) (Some (data_value data')) digestVerifier
      = Fail ErrSigValue" if "sig \<noteq> d_SigValue (data_view data')" for sig
    using v that by (auto simp: Data_VerifyWith_def digestVerifier_def split: if_splits)
  ultimately show ?thesis using v by (auto simp: digestSigning_Verify_def)
qed

theorem Data_signature_survives_wire_witness:
  "\<exists>data' value d. digestSigning_Sign (Data_SignWith sample_Data) = (data', Ok ())
     \<and> EncodeValueOnly (Data_Field data') = Ok value \<and> Data_UnmarshalBinary (\<lambda>_. False) value = Ok d
     \<and> digestSigning_Verify (Data_VerifyWith d (Some value)) = Ok ()"
proof -
  let ?portion = "tlvs (signed_items sample_Data)"
  have ok: "data_ok (\<lambda>_. False) (sample_Data\<lparr>d_SigValue := Sum256 ?portion\<rparr>)"
    by (rule sample_Data_ok) simp
  then have "Data_encodeSignedPortion sample_Data = Ok ?portion"
    by (intro Data_encodeSignedPortion_items [of _ "\<lambda>_. False"]) (simp_all add: data_ok_def)
  then have sign: "digestSigning_Sign (Data_SignWith sample_Data)
      = (sample_Data\<lparr>d_SigValue := Sum256 ?portion\<rparr>, Ok ())"
    by (simp add: digestSigning_Sign_def Data_SignWith_def digestSigner_def sample_Data_def Let_def)
  from Data_signature_survives_wire [OF sign ok] sign show ?thesis by blast
qed

text \<open>
  C24 (Data_elements_after_signature_unsigned). The signature covers the wire before the SignatureValue
  element only, but the decoder also reads what follows: a Content element appended behind the
  SignatureValue replaces the content of the decoded Data and every verifier gives the same verdict as on
  the original packet.
\<close>

theorem Data_elements_after_signature_unsigned:
  assumes "Data_UnmarshalBinary reg (tlvs xs) = Ok data"
    and "list_all tlv_ok (xs @ [(TtContent, content)])" and "d_l3SigValueOffset data > 0"
  shows "Data_UnmarshalBinary reg (tlvs (xs @ [(TtContent, content)])) = Ok (data\<lparr>d_Content := content\<rparr>)
    \<and> Data_VerifyWith (data\<lparr>d_Content := content\<rparr>) (Some (tlvs (xs @ [(TtContent, content)]))) verifier
      = Data_VerifyWith data (Some (tlvs xs)) verifier"
proof -
  have xs: "list_all tlv_ok xs" using assms(2) by simp
  let ?xs = "xs @ [(TtContent, content)]"
  note loop = Data_loop_snoc [OF assms(1) xs]
  have off: "d_l3SigValueOffset data \<le> length (tlvs xs)" by (rule Data_offset_bound [OF loop])
  have "forRange (Data_step reg (tlvs ?xs)) zero_Data (elems_of ?xs []) = Ok (data\<lparr>d_Content := content\<rparr>)"
    using Data_step_tail [of reg "tlvs xs" "tlvs [(TtContent, content)]" zero_Data xs] loop
    by (simp add: Data_step_def)
  then have "Data_UnmarshalBinary reg (tlvs ?xs) = Ok (data\<lparr>d_Content := content\<rparr>)"
    using decodeElements_tlvs [OF assms(2), of "Data_step reg (tlvs ?xs)" zero_Data]
    by (simp only: Data_UnmarshalBinary_def andthen.simps case_prod_conv ErrUnlessEOF_Nil)
  then show ?thesis using assms(3) off by (simp add: Data_VerifyWith_def)
qed

theorem Data_elements_after_signature_unsigned_witness:
  "\<exists>xs data. Data_UnmarshalBinary (\<lambda>_. False) (tlvs xs) = Ok data \<and> d_Content data = [0xC0]
     \<and> Data_UnmarshalBinary (\<lambda>_. False) (tlvs (xs @ [(TtContent, [0xEE])])) = Ok (data\<lparr>d_Content := [0xEE]\<rparr>)
     \<and> Data_VerifyWith (data\<lparr>d_Content := [0xEE]\<rparr>) (Some (tlvs (xs @ [(TtContent, [0xEE])]))) digestVerifier
       = Data_VerifyWith data (Some (tlvs xs)) digestVerifier"
proof -
  let ?d = "sample_Data\<lparr>d_SigValue := [7]\<rparr>"
  let ?xs = "signed_items ?d @ [(TtDSigValue, d_SigValue ?d)]"
  have ok: "data_ok (\<lambda>_. False) ?d" by (rule sample_Data_ok) simp
  have dec: "Data_UnmarshalBinary (\<lambda>_. False) (tlvs ?xs) = Ok (data_view ?d)"
    using data_codec.unmarshal_val [OF ok] unfolding data_value_def .
  have all: "list_all tlv_ok (?xs @ [(TtContent, [0xEE])])"
    using signed_items_ok [OF ok] by (simp add: slice_ok_def)
  have pos: "d_l3SigValueOffset (data_view ?d) > 0" and content: "d_Content (data_view ?d) = [0xC0]"
    by (simp_all add: data_view_def) (simp add: sample_Data_def)
  from Data_elements_after_signature_unsigned [OF dec all pos, of digestVerifier] dec content
  show ?thesis by blast
qed

end
