(* ===== verification/Ndn_Packet.thy ===== *)
theory Ndn_Packet
  imports Ndn_Data
begin

text \<open>
  Packets with their link-layer header (\<open>ndn/packet.go\<close>, \<open>ndn/nack.go\<close>, and \<open>LpL3\<close> and \<open>LpFragment\<close> of
  \<open>ndn/lp.go\<close>). A Packet owns the Interest, Data, Nack or fragment it points to, so these are fields of
  type option; the back pointer in an Interest, Data or Nack is the address \<open>self\<close> of its Packet. A Go
  slice that the code compares with nil (the payload of a fragment, the cached digest) is an option.
\<close>

subsection \<open>LpL3\<close>

definition lpIsCritical :: "u32 \<Rightarrow> bool" where
  "lpIsCritical ty \<longleftrightarrow> ty < 800 \<or> ty > 959 \<or> ty AND 0x03 \<noteq> 0"

definition fragmentOverhead :: int where
  "fragmentOverhead = 0 + 1 + 3 + 1 + 1 + 8 + 1 + 1 + 2 + 1 + 1 + 2 + 1 + 3 + 0"

record LpL3 =
  PitToken :: bytes
  NackReason :: u8
  CongMark :: u8

definition zero_LpL3 :: LpL3 where
  "zero_LpL3 = \<lparr>PitToken = [], NackReason = 0, CongMark = 0\<rparr>"

definition LpL3_Empty :: "LpL3 \<Rightarrow> bool" where
  "LpL3_Empty lph \<longleftrightarrow> length (PitToken lph) = 0 \<and> NackReason lph = NackNone \<and> CongMark lph = 0"

definition LpL3_encode :: "LpL3 \<Rightarrow> Field list" where
  "LpL3_encode lph =
     (if length (PitToken lph) > 0 then [TLVBytes TtPitToken (PitToken lph)] else [])
     @ (if NackReason lph = NackNone then []
        else if NackReason lph = NackUnspecified then [TLV TtNack []]
        else [TLV TtNack [TLVNNI TtNackReason (ucast (NackReason lph))]])
     @ (if CongMark lph \<noteq> 0 then [TLVNNI TtCongestionMark (ucast (CongMark lph))] else [])"

definition inheritFrom :: "LpL3 \<Rightarrow> LpL3 \<Rightarrow> LpL3" where
  "inheritFrom lph src = lph\<lparr>PitToken := [] @ PitToken src, CongMark := CongMark src\<rparr>"

subsection \<open>LpFragment\<close>

record LpFragment =
  SeqNum :: u64
  FragIndex :: int
  FragCount :: int
  f_header :: bytes
  f_payload :: "bytes option"

definition nil_bytes :: "bytes option \<Rightarrow> bytes" where
  "nil_bytes b = (case b of None \<Rightarrow> [] | Some v \<Rightarrow> v)"

definition LpFragment_Field :: "LpFragment \<Rightarrow> Field" where
  "LpFragment_Field frag =
     (if FragIndex frag < 0 \<or> FragIndex frag \<ge> FragCount frag then FieldError (Some ErrFragment)
      else TLV TtLpPacket
        [TLVBytes TtLpSeqNum (be_bytes 8 (SeqNum frag)),
         TLVNNI TtFragIndex (of_int (FragIndex frag)),
         TLVNNI TtFragCount (of_int (FragCount frag)),
         Bytes (f_header frag),
         TLVBytes TtLpPayload (nil_bytes (f_payload frag))])"

subsection \<open>Nack and Packet\<close>

record Nack =
  n_packet :: "nat option"
  n_Reason :: u8
  n_Interest :: Interest

definition Nack_Name :: "Nack \<Rightarrow> Name" where
  "Nack_Name nack = i_Name (n_Interest nack)"

record Packet =
  Lp :: LpL3
  l3type :: u32
  l3value :: bytes
  l3digest :: "bytes option"
  p_Fragment :: "LpFragment option"
  p_Interest :: "Interest option"
  p_Data :: "Data option"
  p_Nack :: "Nack option"

definition zero_Packet :: Packet where
  "zero_Packet = \<lparr>Lp = zero_LpL3, l3type = 0, l3value = [], l3digest = None, p_Fragment = None,
     p_Interest = None, p_Data = None, p_Nack = None\<rparr>"

text \<open>The switch of \<open>encodeL3\<close> picks what to encode and changes the packet, which the method has by
  pointer.\<close>

definition l3fielder :: "Nonce \<Rightarrow> Packet \<Rightarrow> (Packet \<times> Field) option" where
  "l3fielder newNonce pkt =
     (case p_Interest pkt of
        Some interest \<Rightarrow>
          Some (pkt\<lparr>l3digest := None, Lp := (Lp pkt)\<lparr>NackReason := NackNone\<rparr>\<rparr>, Interest_Field newNonce interest)
      | None \<Rightarrow>
          (case p_Data pkt of
             Some data \<Rightarrow>
               Some (pkt\<lparr>l3digest := None, Lp := (Lp pkt)\<lparr>NackReason := NackNone\<rparr>\<rparr>, Data_Field data)
           | None \<Rightarrow>
               (case p_Nack pkt of
                  Some nack \<Rightarrow>
                    Some (pkt\<lparr>l3digest := None, Lp := (Lp pkt)\<lparr>NackReason := n_Reason nack\<rparr>\<rparr>,
                          Interest_Field newNonce (n_Interest nack))
                | None \<Rightarrow> None)))"

definition encodeL3 :: "Nonce \<Rightarrow> Packet \<Rightarrow> Packet \<times> (bytes \<times> bytes) outcome" where
  "encodeL3 newNonce pkt =
     (case l3fielder newNonce pkt of
        None \<Rightarrow> (pkt, Fail ErrFragment)
      | Some (pkt, f) \<Rightarrow>
          onOk pkt (EncodeFrom [f]) (\<lambda>payload.
            onOk pkt (Encode (LpL3_encode (Lp pkt))) (\<lambda>header. (pkt, Ok (header, payload)))))"

definition Packet_Field :: "Nonce \<Rightarrow> Packet \<Rightarrow> Packet \<times> Field" where
  "Packet_Field newNonce pkt =
     (case p_Fragment pkt of
        Some frag \<Rightarrow> (pkt, LpFragment_Field frag)
      | None \<Rightarrow>
          (case encodeL3 newNonce pkt of
             (pkt, Ok (header, payload)) \<Rightarrow>
               (pkt, if length header = 0 then Bytes payload
                     else TLV TtLpPacket [Bytes header, TLVBytes TtLpPayload payload])
           | (pkt, Fail e) \<Rightarrow> (pkt, FieldError (Some e))
           | (pkt, Panic) \<Rightarrow> (pkt, FieldError None)))"

definition decodeL3 :: "(u32 \<Rightarrow> bool) \<Rightarrow> nat \<Rightarrow> Packet \<Rightarrow> u32 \<Rightarrow> bytes \<Rightarrow> Packet outcome" where
  "decodeL3 reg self pkt ty value =
     andthen
       (if ty = TtInterest then
          andthen (Interest_UnmarshalBinary reg value) (\<lambda>interest.
            Ok (if NackReason (Lp pkt) \<noteq> NackNone
                then pkt\<lparr>p_Nack := Some \<lparr>n_packet = Some self, n_Reason = NackReason (Lp pkt),
                                          n_Interest = interest\<rparr>\<rparr>
                else pkt\<lparr>p_Interest := Some (interest\<lparr>i_packet := Some self\<rparr>)\<rparr>))
        else if ty = TtData then
          andthen (Data_UnmarshalBinary reg value) (\<lambda>data.
            Ok (pkt\<lparr>p_Data := Some (data\<lparr>d_packet := Some self\<rparr>)\<rparr>))
        else Fail ErrL3Type)
       (\<lambda>pkt. Ok (pkt\<lparr>l3type := ty, l3value := value, l3digest := None\<rparr>))"

definition decodePayload :: "(u32 \<Rightarrow> bool) \<Rightarrow> nat \<Rightarrow> Packet \<Rightarrow> bytes \<Rightarrow> Packet outcome" where
  "decodePayload reg self pkt payload =
     (case p_Fragment pkt of
        Some frag \<Rightarrow> Ok (pkt\<lparr>p_Fragment := Some (frag\<lparr>f_payload := Some payload\<rparr>)\<rparr>)
      | None \<Rightarrow>
          andthen (DecodingBuffer_Element payload) (\<lambda>(field, d).
            andthen (decodeL3 reg self pkt (Type field) (Value field)) (\<lambda>pkt.
              andthen (ErrUnlessEOF d) (\<lambda>_. Ok pkt))))"

definition NackReason_step :: "u8 \<Rightarrow> DecodingElement \<Rightarrow> u8 outcome" where
  "NackReason_step reason de1 =
     (if Type de1 = TtNackReason then
        andthen (UnmarshalNNI de1 0xFF ErrRange) (\<lambda>v. Ok (ucast v))
      else if lpIsCritical (Type de1) then Fail ErrCritical
      else Ok reason)"

text \<open>
  The loop of \<open>decodeValue\<close> has a local \<open>fragment\<close>; once \<open>pkt.Fragment = &fragment\<close> is done, both are the
  same object, so a change to one is made to both.
\<close>

definition setFragment :: "Packet \<Rightarrow> LpFragment \<Rightarrow> Packet \<times> LpFragment" where
  "setFragment pkt fragment =
     (if p_Fragment pkt \<noteq> None then pkt\<lparr>p_Fragment := Some fragment\<rparr> else pkt, fragment)"

definition Packet_step ::
    "(u32 \<Rightarrow> bool) \<Rightarrow> nat \<Rightarrow> Packet \<times> LpFragment \<Rightarrow> DecodingElement \<Rightarrow> (Packet \<times> LpFragment) outcome" where
  "Packet_step reg self = (\<lambda>(pkt, fragment) de.
     if Type de = TtLpSeqNum then
       (if Element_Length de \<noteq> 8 then Fail ErrFragment
        else Ok (setFragment pkt (fragment\<lparr>SeqNum := be_word (Value de)\<rparr>)))
     else if Type de = TtFragIndex then
       andthen (UnmarshalNNI de 0x7FFFFFFF ErrFragment) (\<lambda>v.
         Ok (setFragment pkt (fragment\<lparr>FragIndex := uint v\<rparr>)))
     else if Type de = TtFragCount then
       andthen (UnmarshalNNI de 0x7FFFFFFF ErrFragment) (\<lambda>v.
         let (pkt, fragment) = setFragment pkt (fragment\<lparr>FragCount := uint v\<rparr>)
         in Ok (if FragCount fragment > 1 then pkt\<lparr>p_Fragment := Some fragment\<rparr> else pkt, fragment))
     else if Type de = TtPitToken then Ok (pkt\<lparr>Lp := (Lp pkt)\<lparr>PitToken := Value de\<rparr>\<rparr>, fragment)
     else if Type de = TtNack then
       andthen (decodeElements NackReason_step NackUnspecified (Value de)) (\<lambda>(reason, d1).
         andthen (ErrUnlessEOF d1) (\<lambda>_. Ok (pkt\<lparr>Lp := (Lp pkt)\<lparr>NackReason := reason\<rparr>\<rparr>, fragment)))
     else if Type de = TtCongestionMark then
       andthen (UnmarshalNNI de 0xFF ErrRange) (\<lambda>v.
         Ok (pkt\<lparr>Lp := (Lp pkt)\<lparr>CongMark := ucast v\<rparr>\<rparr>, fragment))
     else if Type de = TtLpPayload then
       andthen (decodePayload reg self pkt (Value de)) (\<lambda>pkt.
         Ok (pkt, case p_Fragment pkt of Some f \<Rightarrow> f | None \<Rightarrow> fragment))
     else if lpIsCritical (Type de) then Fail ErrCritical
     else Ok (pkt, fragment))"

definition new_fragment :: LpFragment where
  "new_fragment = \<lparr>SeqNum = 0, FragIndex = 0, FragCount = 1, f_header = [], f_payload = None\<rparr>"

definition decodeValue :: "(u32 \<Rightarrow> bool) \<Rightarrow> nat \<Rightarrow> Packet \<Rightarrow> bytes \<Rightarrow> Packet outcome" where
  "decodeValue reg self pkt value =
     andthen (decodeElements (Packet_step reg self) (pkt, new_fragment) value) (\<lambda>((pkt, fragment), d).
       if FragIndex fragment \<ge> FragCount fragment then Fail ErrFragment
       else andthen (ErrUnlessEOF d) (\<lambda>_. Ok pkt))"

definition Packet_UnmarshalTLV :: "(u32 \<Rightarrow> bool) \<Rightarrow> nat \<Rightarrow> u32 \<Rightarrow> bytes \<Rightarrow> Packet outcome" where
  "Packet_UnmarshalTLV reg self ty value =
     (if ty \<noteq> TtLpPacket then decodeL3 reg self zero_Packet ty value
      else decodeValue reg self zero_Packet value)"

subsection \<open>Codec of the link-layer header\<close>

definition lp_items :: "LpL3 \<Rightarrow> (u32 \<times> bytes) list" where
  "lp_items lph =
     (if length (PitToken lph) > 0 then [(TtPitToken, PitToken lph)] else [])
     @ (if NackReason lph = NackNone then []
        else [(TtNack, tlvs (if NackReason lph = NackUnspecified then [] else [(TtNackReason, [NackReason lph])]))])
     @ (if CongMark lph \<noteq> 0 then [(TtCongestionMark, [CongMark lph])] else [])"

lemma lp_items_Nil: "lp_items lph = [] \<longleftrightarrow> LpL3_Empty lph"
  by (auto simp: lp_items_def LpL3_Empty_def)

lemma encs_LpL3: "encs (LpL3_encode lph) = Ok (tlvs (lp_items lph))"
  by (simp add: LpL3_encode_def lp_items_def NNI_Encode_byte)

lemma UnmarshalNNI_byte:
  "Value de = [b] \<Longrightarrow> UnmarshalNNI de 0xFF e = Ok (ucast (b :: byte))" "ucast (ucast (b :: byte) :: u64) = b"
proof -
  have u: "unat (ucast b :: u64) = unat b"
    using unsigned_less [of b, where ?'a = nat] by (simp add: unsigned_ucast_eq take_bit_nat_eq_self)
  have "NNI_UnmarshalBinary [b] = Ok (ucast b)" using NNI_Unmarshal_Encode [of "ucast b"] by (simp add: NNI_Encode_byte)
  moreover have "\<not> 0xFF < (ucast b :: u64)"
    using unsigned_less [of b, where ?'a = nat] u by (simp add: word_less_nat_alt)
  ultimately show "Value de = [b] \<Longrightarrow> UnmarshalNNI de 0xFF e = Ok (ucast b)" by (simp add: UnmarshalNNI_def)
  show "ucast (ucast b :: u64) = b" by (rule ucast_up_ucast_id) (simp add: is_up)
qed

lemma Packet_step_PitToken:
  "PitToken (Lp pkt) = [] \<Longrightarrow>
   forRange (Packet_step reg self) (pkt, frag) (elems_of (if length tok > 0 then [(TtPitToken, tok)] else []) tail)
     = Ok (pkt\<lparr>Lp := (Lp pkt)\<lparr>PitToken := tok\<rparr>\<rparr>, frag)"
  by (cases pkt; cases "Lp pkt") (simp add: Packet_step_def)

lemma decode_NackReason:
  "decodeElements NackReason_step NackUnspecified
     (tlvs (if r = NackUnspecified then [] else [(TtNackReason, [r])])) = Ok (r, [])"
proof (cases "r = NackUnspecified")
  case True
  then show ?thesis by (simp add: decodeElements_def)
next
  case False
  have "list_all tlv_ok [(TtNackReason, [r])]" by (simp add: slice_ok_def)
  from decodeElements_tlvs [OF this, of NackReason_step NackUnspecified] False show ?thesis
    by (simp add: NackReason_step_def UnmarshalNNI_byte)
qed

lemma Packet_step_Nack:
  "NackReason (Lp pkt) = 0 \<Longrightarrow>
   forRange (Packet_step reg self) (pkt, frag) (elems_of (if r = NackNone then []
       else [(TtNack, tlvs (if r = NackUnspecified then [] else [(TtNackReason, [r])]))]) tail)
     = Ok (pkt\<lparr>Lp := (Lp pkt)\<lparr>NackReason := r\<rparr>\<rparr>, frag)"
proof (cases "r = NackNone")
  case True
  moreover assume "NackReason (Lp pkt) = 0"
  ultimately show ?thesis by (cases pkt; cases "Lp pkt") simp
next
  case False
  then show ?thesis using decode_NackReason [of r]
    by (simp only: if_False elems_of.simps forRange.simps Packet_step_def case_prod_conv DecodingElement.simps
        Element.simps) simp
qed

lemma Packet_step_CongMark:
  "CongMark (Lp pkt) = 0 \<Longrightarrow>
   forRange (Packet_step reg self) (pkt, frag) (elems_of (if c \<noteq> 0 then [(TtCongestionMark, [c])] else []) tail)
     = Ok (pkt\<lparr>Lp := (Lp pkt)\<lparr>CongMark := c\<rparr>\<rparr>, frag)"
  by (cases pkt; cases "Lp pkt") (simp add: Packet_step_def UnmarshalNNI_byte)

lemma Packet_step_header:
  assumes "Lp pkt = zero_LpL3"
  shows "forRange (Packet_step reg self) (pkt, frag) (elems_of (lp_items lph) tail) = Ok (pkt\<lparr>Lp := lph\<rparr>, frag)"
  using assms unfolding lp_items_def elems_of_append forRange_append
  by (cases pkt; cases lph)
    (simp only: Packet_step_PitToken Packet_step_Nack Packet_step_CongMark andthen.simps Packet.simps LpL3.simps
      zero_LpL3_def)

lemma decodeL3_Fragment: "decodeL3 reg self pkt t v = Ok pkt' \<Longrightarrow> p_Fragment pkt' = p_Fragment pkt"
  by (auto simp: decodeL3_def split: if_splits)

lemma Packet_step_payload:
  assumes "p_Fragment pkt = None" and "t \<noteq> 0" and "slice_ok v"
  shows "forRange (Packet_step reg self) (pkt, frag) (elems_of [(TtLpPayload, tlv_bytes t v)] tail)
    = andthen (decodeL3 reg self pkt t v) (\<lambda>pkt'. Ok (pkt', frag))"
proof -
  have "decodePayload reg self pkt (tlv_bytes t v) = decodeL3 reg self pkt t v"
    using DecodingBuffer_Element_tlv [OF assms(2,3), of "[]"] assms(1) by (simp add: decodePayload_def)
  then show ?thesis
    using decodeL3_Fragment [of reg self pkt t v] assms(1)
    by (cases "decodeL3 reg self pkt t v") (simp_all add: Packet_step_def)
qed

text \<open>The wire of a layer-3 element with a header, bare when the header is empty.\<close>

definition lp_value :: "LpL3 \<Rightarrow> u32 \<Rightarrow> bytes \<Rightarrow> bytes" where
  "lp_value lph t v = tlvs (lp_items lph @ [(TtLpPayload, tlv_bytes t v)])"

definition lp_wire :: "LpL3 \<Rightarrow> u32 \<Rightarrow> bytes \<Rightarrow> bytes" where
  "lp_wire lph t v = (if LpL3_Empty lph then tlv_bytes t v else tlv_bytes TtLpPacket (lp_value lph t v))"

lemma LpL3_Empty_zero: "LpL3_Empty lph \<longleftrightarrow> lph = zero_LpL3"
  by (cases lph) (auto simp: LpL3_Empty_def zero_LpL3_def)

lemma Packet_decode_wire:
  assumes "t \<noteq> 0" and "t \<noteq> TtLpPacket" and "slice_ok (lp_value lph t v)"
  shows "Decode (lp_wire lph t v) (Packet_UnmarshalTLV reg self) = decodeL3 reg self (zero_Packet\<lparr>Lp := lph\<rparr>) t v"
proof -
  have "slice_ok (tlv_bytes t v)"
    using assms(3) by (simp add: lp_value_def slice_ok_def length_tlv_bytes Element_Size_def Element_Length_def)
  then have v: "slice_ok v" by (rule slice_ok_tlv_value)
  show ?thesis
  proof (cases "LpL3_Empty lph")
    case True
    then have "zero_Packet\<lparr>Lp := lph\<rparr> = zero_Packet" by (simp add: LpL3_Empty_zero zero_Packet_def)
    then show ?thesis using True assms(1,2) v by (simp add: lp_wire_def Decode_tlv Packet_UnmarshalTLV_def)
  next
    case False
    have items: "list_all tlv_ok (lp_items lph @ [(TtLpPayload, tlv_bytes t v)])"
      by (rule tlvs_ok) (use assms(3) in \<open>auto simp: lp_value_def lp_items_def\<close>)
    have zero: "Lp zero_Packet = zero_LpL3" "p_Fragment (zero_Packet\<lparr>Lp := lph\<rparr>) = None"
      by (simp_all add: zero_Packet_def)
    have "decodeValue reg self zero_Packet (lp_value lph t v) = decodeL3 reg self (zero_Packet\<lparr>Lp := lph\<rparr>) t v"
      unfolding decodeValue_def lp_value_def decodeElements_tlvs [OF items] elems_of_append forRange_append
        Packet_step_header [OF zero(1)] andthen.simps Packet_step_payload [OF zero(2) assms(1) v]
      by (cases "decodeL3 reg self (zero_Packet\<lparr>Lp := lph\<rparr>) t v") (simp_all add: new_fragment_def)
    then show ?thesis
      using False assms(3) by (simp add: lp_wire_def Decode_tlv Packet_UnmarshalTLV_def)
  qed
qed

subsection \<open>Codec of the packet\<close>

text \<open>
  What a packet carries at layer 3: the NackReason the encoder puts in the header, the TLV-TYPE and
  TLV-VALUE, and what the decoder makes of them.
\<close>

definition l3_items :: "Nonce \<Rightarrow> Packet \<Rightarrow> (u8 \<times> u32 \<times> bytes) option" where
  "l3_items nn pkt =
     (case p_Interest pkt of
        Some interest \<Rightarrow> Some (NackNone, TtInterest, interest_value nn interest)
      | None \<Rightarrow>
          (case p_Data pkt of
             Some data \<Rightarrow> Some (NackNone, TtData, data_value data)
           | None \<Rightarrow>
               (case p_Nack pkt of
                  Some nack \<Rightarrow> Some (n_Reason nack, TtInterest, interest_value nn (n_Interest nack))
                | None \<Rightarrow> None)))"

definition l3_ok :: "(u32 \<Rightarrow> bool) \<Rightarrow> Nonce \<Rightarrow> Packet \<Rightarrow> bool" where
  "l3_ok reg nn pkt =
     (case p_Interest pkt of
        Some interest \<Rightarrow> interest_ok reg nn interest \<and> digest_ok interest
      | None \<Rightarrow>
          (case p_Data pkt of
             Some data \<Rightarrow> data_ok reg data
           | None \<Rightarrow>
               (case p_Nack pkt of
                  Some nack \<Rightarrow> n_Reason nack \<noteq> NackNone \<and> interest_ok reg nn (n_Interest nack)
                    \<and> digest_ok (n_Interest nack)
                | None \<Rightarrow> False)))"

definition packet_ok :: "(u32 \<Rightarrow> bool) \<Rightarrow> Nonce \<Rightarrow> Packet \<Rightarrow> bool" where
  "packet_ok reg nn pkt \<longleftrightarrow> p_Fragment pkt = None \<and> l3_ok reg nn pkt
     \<and> (case l3_items nn pkt of
          Some (reason, t, v) \<Rightarrow> slice_ok (lp_value ((Lp pkt)\<lparr>NackReason := reason\<rparr>) t v)
        | None \<Rightarrow> True)"

definition packet_view :: "Nonce \<Rightarrow> nat \<Rightarrow> Packet \<Rightarrow> Packet" where
  "packet_view nn self pkt =
     (case l3_items nn pkt of
        None \<Rightarrow> zero_Packet
      | Some (reason, t, v) \<Rightarrow>
          zero_Packet\<lparr>Lp := (Lp pkt)\<lparr>NackReason := reason\<rparr>, l3type := t, l3value := v,
            p_Interest := map_option (\<lambda>i. (interest_view nn i)\<lparr>i_packet := Some self\<rparr>) (p_Interest pkt),
            p_Data := (if p_Interest pkt = None
                       then map_option (\<lambda>d. (data_view d)\<lparr>d_packet := Some self\<rparr>) (p_Data pkt) else None),
            p_Nack := (if p_Interest pkt = None \<and> p_Data pkt = None
                       then map_option (\<lambda>n. \<lparr>n_packet = Some self, n_Reason = n_Reason n,
                              n_Interest = interest_view nn (n_Interest n)\<rparr>) (p_Nack pkt) else None)\<rparr>)"

lemma packet_okE:
  assumes "packet_ok reg nn pkt"
  obtains reason t v where "l3_items nn pkt = Some (reason, t, v)" "t \<noteq> 0" "t \<noteq> TtLpPacket"
    "slice_ok (lp_value ((Lp pkt)\<lparr>NackReason := reason\<rparr>) t v)"
    "encodeL3 nn pkt = (pkt\<lparr>l3digest := None, Lp := (Lp pkt)\<lparr>NackReason := reason\<rparr>\<rparr>,
       Ok (tlvs (lp_items ((Lp pkt)\<lparr>NackReason := reason\<rparr>)), tlv_bytes t v))"
    "\<And>self. decodeL3 reg self (zero_Packet\<lparr>Lp := (Lp pkt)\<lparr>NackReason := reason\<rparr>\<rparr>) t v = Ok (packet_view nn self pkt)"
proof -
  consider (Interest) i where "p_Interest pkt = Some i"
    | (Data) d where "p_Interest pkt = None" "p_Data pkt = Some d"
    | (Nack) n where "p_Interest pkt = None" "p_Data pkt = None" "p_Nack pkt = Some n"
    using assms by (fastforce simp: packet_ok_def l3_ok_def split: option.splits)
  then show thesis
  proof cases
    case Interest
    then have ok: "interest_ok reg nn i \<and> digest_ok i" using assms by (simp add: packet_ok_def l3_ok_def)
    show thesis
      by (rule that [of NackNone TtInterest "interest_value nn i"])
        (use assms Interest interest_codec.enc_field [OF ok] interest_codec.unmarshal_val [OF ok] in
          \<open>simp_all add: packet_ok_def l3_items_def encodeL3_def l3fielder_def EncodeFrom_encs Encode_encs encs_LpL3
             decodeL3_def packet_view_def zero_Packet_def\<close>)
  next
    case Data
    then have ok: "data_ok reg d" using assms by (simp add: packet_ok_def l3_ok_def)
    show thesis
      by (rule that [of NackNone TtData "data_value d"])
        (use assms Data data_codec.enc_field [OF ok] data_codec.unmarshal_val [OF ok] in
          \<open>simp_all add: packet_ok_def l3_items_def encodeL3_def l3fielder_def EncodeFrom_encs Encode_encs encs_LpL3
             decodeL3_def packet_view_def zero_Packet_def\<close>)
  next
    case Nack
    then have ok: "interest_ok reg nn (n_Interest n) \<and> digest_ok (n_Interest n)" and "n_Reason n \<noteq> NackNone"
      using assms by (simp_all add: packet_ok_def l3_ok_def)
    then show thesis
      by (intro that [of "n_Reason n" TtInterest "interest_value nn (n_Interest n)"])
        (use assms Nack interest_codec.enc_field [OF ok] interest_codec.unmarshal_val [OF ok] in
          \<open>simp_all add: packet_ok_def l3_items_def encodeL3_def l3fielder_def EncodeFrom_encs Encode_encs encs_LpL3
             decodeL3_def packet_view_def zero_Packet_def\<close>)
  qed
qed

lemma Packet_Field_wire:
  assumes "p_Fragment pkt = None" and "encodeL3 nn pkt = (pkt', Ok (tlvs (lp_items lph), tlv_bytes t v))"
  shows "enc (snd (Packet_Field nn pkt)) = Ok (lp_wire lph t v)"
  using assms lp_items_Nil [of lph] by (simp add: Packet_Field_def lp_wire_def lp_value_def)

subsection \<open>Evolvability\<close>

interpretation lp_loop:
  evolvable "Packet_step reg self"
    "\<lambda>t. t \<in> {TtLpSeqNum, TtFragIndex, TtFragCount, TtPitToken, TtNack, TtCongestionMark, TtLpPayload}"
    lpIsCritical for reg self
  by unfold_locales
    (auto simp: Packet_step_def UnmarshalNNI_def Element_Length_def)

interpretation nack_loop: evolvable NackReason_step "\<lambda>t. t = TtNackReason" lpIsCritical
  by unfold_locales (auto simp: NackReason_step_def UnmarshalNNI_def)

interpretation metainfo_loop:
  evolvable MetaInfo_step "\<lambda>t. t \<in> {TtContentType, TtFreshnessPeriod, TtFinalBlock}" is_critical
  by unfold_locales (auto simp: MetaInfo_step_def UnmarshalNNI_def IsCriticalType_is_critical)

subsection \<open>Properties\<close>

text \<open>
  C11 (Packet_roundtrip). A Packet that holds an Interest, a Data or a Nack encodes, bare when its
  link-layer header is empty and in an LpPacket otherwise, and decodes to the same packet: the same PIT
  token and congestion mark, the Nack reason of a Nack and none for the others, and the Interest, Data or
  Nack with its back pointer set.
\<close>

theorem Packet_roundtrip:
  assumes "packet_ok reg nn pkt"
  shows "andthen (Encode [snd (Packet_Field nn pkt)]) (\<lambda>w. Decode w (Packet_UnmarshalTLV reg self))
    = Ok (packet_view nn self pkt)"
proof -
  from assms obtain reason t v where t: "t \<noteq> 0" "t \<noteq> TtLpPacket"
    and s: "slice_ok (lp_value ((Lp pkt)\<lparr>NackReason := reason\<rparr>) t v)"
    and e: "encodeL3 nn pkt = (pkt\<lparr>l3digest := None, Lp := (Lp pkt)\<lparr>NackReason := reason\<rparr>\<rparr>,
       Ok (tlvs (lp_items ((Lp pkt)\<lparr>NackReason := reason\<rparr>)), tlv_bytes t v))"
    and d: "decodeL3 reg self (zero_Packet\<lparr>Lp := (Lp pkt)\<lparr>NackReason := reason\<rparr>\<rparr>) t v = Ok (packet_view nn self pkt)"
    by (rule packet_okE) blast
  have "p_Fragment pkt = None" using assms by (simp add: packet_ok_def)
  then show ?thesis
    using Packet_Field_wire [OF _ e] Packet_decode_wire [OF t s, of reg self] d by (simp add: Encode_encs)
qed

theorem Packet_roundtrip_witness:
  "let nack = zero_Packet\<lparr>Lp := \<lparr>PitToken = [0xA0, 0xA1], NackReason = 0, CongMark = 1\<rparr>,
         p_Nack := Some \<lparr>n_packet = None, n_Reason = NackNoRoute, n_Interest = sample_Interest\<rparr>\<rparr>
   in andthen (Encode [snd (Packet_Field (0, 0, 0, 0) nack)])
        (\<lambda>w. Decode w (Packet_UnmarshalTLV (\<lambda>_. False) 9)) = Ok (packet_view (0, 0, 0, 0) 9 nack)
      \<and> p_Nack (packet_view (0, 0, 0, 0) 9 nack)
        = Some \<lparr>n_packet = Some 9, n_Reason = NackNoRoute, n_Interest = sample_Interest\<rparr>"
proof -
  let ?nack = "zero_Packet\<lparr>Lp := \<lparr>PitToken = [0xA0, 0xA1], NackReason = 0, CongMark = 1\<rparr>,
         p_Nack := Some \<lparr>n_packet = None, n_Reason = NackNoRoute, n_Interest = sample_Interest\<rparr>\<rparr>"
  have len: "length (interest_value (0, 0, 0, 0) sample_Interest) = 19"
    by (simp add: interest_value_def interest_items_def sample_Interest_def zero_Interest_def has_lifetime_def
        DefaultInterestLifetime_def Millisecond_def params_items_def name_value_def items_def length_simps)
  then have ok: "interest_ok (\<lambda>_. False) (0, 0, 0, 0) sample_Interest"
    using name_ok_sample
    by (simp add: interest_ok_def sample_Interest_def zero_Interest_def has_lifetime_def
        DefaultInterestLifetime_def MinInterestLifetime_def Millisecond_def fh_ok_def fh_value_def items_def
        siginfo_opt_ok_def slice_ok_def)
  have "digest_ok sample_Interest"
    by (simp add: digest_ok_def params_items_def sample_Interest_def zero_Interest_def)
  with ok len have p: "packet_ok (\<lambda>_. False) (0, 0, 0, 0) ?nack"
    by (simp add: packet_ok_def l3_ok_def l3_items_def zero_Packet_def lp_value_def lp_items_def length_simps)
  have "interest_view (0, 0, 0, 0) sample_Interest = sample_Interest"
    by (simp add: interest_view_def sample_Interest_def zero_Interest_def has_lifetime_def nonce_of_def
        Nonce_IsZero_def DefaultInterestLifetime_def Millisecond_def)
  with Packet_roundtrip [OF p, of 9] show ?thesis
    unfolding Let_def by (simp add: packet_view_def l3_items_def zero_Packet_def)
qed

text \<open>
  Lp_header_evolves. Fields of an LpPacket that the decoder does not know are ignored when their
  TLV-TYPE is in the range reserved for ignorable link-layer fields, wherever they stand; a packet with any
  other unknown field is rejected.
\<close>

theorem Lp_header_evolves:
  assumes "list_all tlv_ok xs"
    and "known = (\<lambda>t. t \<in> {TtLpSeqNum, TtFragIndex, TtFragCount, TtPitToken, TtNack, TtCongestionMark, TtLpPayload})"
  shows "((\<forall>(t, v)\<in>set xs. known t \<or> \<not> lpIsCritical t) \<longrightarrow>
      Packet_UnmarshalTLV reg self TtLpPacket (tlvs xs)
        = Packet_UnmarshalTLV reg self TtLpPacket (tlvs (filter (\<lambda>(t, v). known t) xs)))
    \<and> ((\<exists>(t, v)\<in>set xs. \<not> known t \<and> lpIsCritical t) \<longrightarrow>
      (\<forall>pkt. Packet_UnmarshalTLV reg self TtLpPacket (tlvs xs) \<noteq> Ok pkt))"
proof (intro conjI impI allI notI)
  let ?ys = "filter (\<lambda>(t, v). known t) xs"
  have ys: "list_all tlv_ok ?ys" using assms(1) by (auto simp: list_all_iff)
  assume "\<forall>(t, v)\<in>set xs. known t \<or> \<not> lpIsCritical t"
  then have "forRange (Packet_step reg self) s (elems_of xs []) = forRange (Packet_step reg self) s (elems_of ?ys [])" for s
    unfolding assms(2) by (rule lp_loop.forRange_known)
  then have "decodeElements (Packet_step reg self) s (tlvs xs) = decodeElements (Packet_step reg self) s (tlvs ?ys)" for s
    by (simp only: decodeElements_tlvs [OF assms(1)] decodeElements_tlvs [OF ys])
  then show "Packet_UnmarshalTLV reg self TtLpPacket (tlvs xs) = Packet_UnmarshalTLV reg self TtLpPacket (tlvs ?ys)"
    by (simp add: Packet_UnmarshalTLV_def decodeValue_def)
next
  fix pkt
  assume "\<exists>(t, v)\<in>set xs. \<not> known t \<and> lpIsCritical t"
  then obtain t v where t: "(t, v) \<in> set xs" "\<not> known t" "lpIsCritical t" by auto
  assume "Packet_UnmarshalTLV reg self TtLpPacket (tlvs xs) = Ok pkt"
  then obtain r where r: "forRange (Packet_step reg self) (zero_Packet, new_fragment) (elems_of xs []) = Ok r"
    by (auto simp: Packet_UnmarshalTLV_def decodeValue_def decodeElements_tlvs [OF assms(1)])
  have "\<exists>de\<in>set (elems_of xs []). Type de = t" using t(1) by (induction xs) auto
  then show False using lp_loop.forRange_critical [OF r] t(2,3) assms(2) by blast
qed

theorem Lp_header_evolves_witness:
  "Packet_UnmarshalTLV (\<lambda>_. False) 0 TtLpPacket (tlvs [(TtPitToken, [1]), (804, [9])])
     = Packet_UnmarshalTLV (\<lambda>_. False) 0 TtLpPacket (tlvs [(TtPitToken, [1])])
   \<and> (\<forall>pkt. Packet_UnmarshalTLV (\<lambda>_. False) 0 TtLpPacket (tlvs [(TtPitToken, [1]), (805, [9])]) \<noteq> Ok pkt)"
proof -
  have "list_all tlv_ok [(TtPitToken, [1]), (804, [9])]" "list_all tlv_ok [(TtPitToken, [1]), (805, [9])]"
    by (simp_all add: slice_ok_def)
  from this [THEN Lp_header_evolves [OF _ refl, of _ "\<lambda>_. False" 0]] show ?thesis
    by (simp add: lpIsCritical_def)
qed

end
