(* ===== verification/Lp_Fragment.thy ===== *)
theory Lp_Fragment
  imports Ndn_Packet
begin

text \<open>
  Fragmentation (\<open>LpFragmenter\<close> of \<open>ndn/lp.go\<close>): the pieces a packet is cut in, their wire form and its
  size. The random first sequence number of \<open>NewLpFragmenter\<close> is an argument.
\<close>

subsection \<open>LpFragmenter\<close>

record LpFragmenter =
  nextSeqNum :: u64
  room :: int

definition NewLpFragmenter :: "u64 \<Rightarrow> int \<Rightarrow> LpFragmenter" where
  "NewLpFragmenter rand mtu = \<lparr>nextSeqNum = rand, room = mtu - fragmentOverhead\<rparr>"

text \<open>The loop that cuts the payload from \<open>offset\<close> on in pieces of \<open>room\<close> bytes.\<close>

function cut_payload :: "nat \<Rightarrow> bytes \<Rightarrow> nat \<Rightarrow> bytes list" where
  "cut_payload r payload offset =
     (if offset < length payload \<and> r > 0 then
        (let nextOffset = min (offset + r) (length payload)
         in take (nextOffset - offset) (drop offset payload) # cut_payload r payload nextOffset)
      else [])"
  by pat_completeness auto
termination by (relation "measure (\<lambda>(r, p, offset). length p - offset)") auto

declare cut_payload.simps [simp del]

definition frag_packet :: "LpL3 \<Rightarrow> bytes \<Rightarrow> bytes \<Rightarrow> Packet" where
  "frag_packet lph header payload =
     zero_Packet\<lparr>Lp := lph, p_Fragment := Some \<lparr>SeqNum = 0, FragIndex = 0, FragCount = 0, f_header = header,
        f_payload = Some payload\<rparr>\<rparr>"

definition number_frags :: "u64 \<Rightarrow> Packet list \<Rightarrow> Packet list" where
  "number_frags seq frags =
     map (\<lambda>(i, frag). frag\<lparr>p_Fragment := map_option (\<lambda>f. f\<lparr>SeqNum := seq + of_nat i, FragIndex := int i,
            FragCount := int (length frags)\<rparr>) (p_Fragment frag)\<rparr>)
       (zip [0 ..< length frags] frags)"

text \<open>Fragment changes the packet (through \<open>encodeL3\<close>) and the fragmenter.\<close>

definition Fragment ::
    "Nonce \<Rightarrow> LpFragmenter \<Rightarrow> Packet \<Rightarrow> (LpFragmenter \<times> Packet) \<times> Packet list outcome" where
  "Fragment newNonce fragmenter full =
     (case encodeL3 newNonce full of
        (full, r) \<Rightarrow>
          onOk (fragmenter, full) r (\<lambda>(header, payload).
            let sizeofFirstFragment = room fragmenter - int (length header);
                sizeofPayload = int (length payload)
            in if sizeofFirstFragment > sizeofPayload then ((fragmenter, full), Ok [full])
               else if sizeofFirstFragment \<le> 0 then ((fragmenter, full), Fail ErrFragment)
               else
                 let first = frag_packet (Lp full) header (take (nat sizeofFirstFragment) payload);
                     rest = map (frag_packet zero_LpL3 [])
                       (cut_payload (nat (room fragmenter)) payload (nat sizeofFirstFragment));
                     frags = first # rest
                 in ((fragmenter\<lparr>nextSeqNum := nextSeqNum fragmenter + of_nat (length frags)\<rparr>, full),
                     Ok (number_frags (nextSeqNum fragmenter) frags))))"

subsection \<open>Cutting\<close>

lemma cut_payload_unfold:
  "off < length p \<and> r > 0 \<Longrightarrow> cut_payload r p off
     = take (min (off + r) (length p) - off) (drop off p) # cut_payload r p (min (off + r) (length p))"
  "\<not> (off < length p \<and> r > 0) \<Longrightarrow> cut_payload r p off = []"
  using cut_payload.simps [of r p off, unfolded Let_def]
  by (rule trans, simp only: if_True if_False simp_thms)+

lemma cut_payload_concat: "r > 0 \<Longrightarrow> concat (cut_payload r p off) = drop off p"
proof (induction r p off rule: cut_payload.induct)
  case (1 r p off)
  show ?case
  proof (cases "off < length p \<and> r > 0")
    case True
    let ?next = "min (off + r) (length p)"
    have "off \<le> ?next" using True by simp
    then have "drop ?next p = drop (?next - off) (drop off p)" by simp
    then have "take (?next - off) (drop off p) @ drop ?next p = drop off p"
      by (simp only: append_take_drop_id)
    then show ?thesis
      using "1.IH" [OF True refl "1.prems"] unfolding cut_payload_unfold(1) [OF True] by (simp only: concat.simps)
  next
    case False
    then show ?thesis using "1.prems" unfolding cut_payload_unfold(2) [OF False] by simp
  qed
qed

lemma cut_payload_pieces: "piece \<in> set (cut_payload r p off) \<Longrightarrow> piece \<noteq> [] \<and> length piece \<le> r"
proof (induction r p off rule: cut_payload.induct)
  case (1 r p off)
  let ?next = "min (off + r) (length p)"
  have c: "off < length p \<and> r > 0"
    using "1.prems" cut_payload_unfold(2) [of off p r] by (cases "off < length p \<and> r > 0") simp_all
  have "piece = take (?next - off) (drop off p) \<or> piece \<in> set (cut_payload r p ?next)"
    using "1.prems" unfolding cut_payload_unfold(1) [OF c] by (simp only: list.set insert_iff)
  then show ?case
  proof
    assume "piece = take (?next - off) (drop off p)"
    then show ?thesis using c by auto
  next
    assume "piece \<in> set (cut_payload r p ?next)"
    then show ?thesis by (rule "1.IH" [OF c refl])
  qed
qed

text \<open>The fragments of one message: the pieces of the payload, the header on the first.\<close>

definition frag_of :: "u64 \<Rightarrow> bytes list \<Rightarrow> nat \<Rightarrow> LpFragment" where
  "frag_of seq pieces i =
     \<lparr>SeqNum = seq + of_nat i, FragIndex = int i, FragCount = int (length pieces), f_header = [],
      f_payload = Some (pieces ! i)\<rparr>"

lemma frag_of_simps [simp]:
  "SeqNum (frag_of seq pieces i) = seq + of_nat i" "FragIndex (frag_of seq pieces i) = int i"
  "FragCount (frag_of seq pieces i) = int (length pieces)"
  by (simp_all add: frag_of_def)

definition lp_of :: "LpL3 \<Rightarrow> nat \<Rightarrow> LpL3" where
  "lp_of lph i = (if i = 0 then lph else zero_LpL3)"

subsection \<open>Fragments on the wire\<close>

definition frag_items :: "LpL3 \<Rightarrow> u64 \<Rightarrow> bytes list \<Rightarrow> nat \<Rightarrow> (u32 \<times> bytes) list" where
  "frag_items lph seq pieces i =
     [(TtLpSeqNum, be_bytes 8 (seq + of_nat i)), (TtFragIndex, NNI_Encode (of_nat i) []),
      (TtFragCount, NNI_Encode (of_nat (length pieces)) [])]
     @ lp_items lph @ [(TtLpPayload, pieces ! i)]"

definition wire_frag :: "LpL3 \<Rightarrow> u64 \<Rightarrow> bytes list \<Rightarrow> nat \<Rightarrow> Packet" where
  "wire_frag lph seq pieces i = zero_Packet\<lparr>Lp := lp_of lph i, p_Fragment :=
     Some (frag_of seq pieces i\<lparr>f_header := tlvs (lp_items (lp_of lph i))\<rparr>)\<rparr>"

lemma of_int_small [simp]: "(of_int (int i) :: u64) = of_nat i"
  by simp

lemma uint_of_nat_small: "i < 2 ^ 31 \<Longrightarrow> uint (of_nat i :: u64) = int i \<and> \<not> 0x7FFFFFFF < (of_nat i :: u64)"
proof -
  assume i: "i < 2 ^ 31"
  then have "unat (of_nat i :: u64) = i" by (simp add: unat_of_nat take_bit_nat_eq_self)
  moreover from this have "uint (of_nat i :: u64) = int i" by (simp only: uint_nat)
  ultimately show ?thesis using i by (simp add: word_less_nat_alt)
qed

lemma enc_wire_frag:
  "i < length pieces \<Longrightarrow>
   enc (snd (Packet_Field nn (wire_frag lph seq pieces i)))
     = Ok (tlv_bytes TtLpPacket (tlvs (frag_items (lp_of lph i) seq pieces i)))"
  by (simp add: Packet_Field_def wire_frag_def LpFragment_Field_def frag_of_def frag_items_def nil_bytes_def)

lemma Packet_step_numbers:
  assumes "i < length pieces" "length pieces < 2 ^ 31" "length pieces > 1"
  shows "forRange (Packet_step reg self) (zero_Packet, new_fragment)
      (elems_of [(TtLpSeqNum, be_bytes 8 (seq + of_nat i)), (TtFragIndex, NNI_Encode (of_nat i) []),
      (TtFragCount, NNI_Encode (of_nat (length pieces)) [])] tail)
    = (let f = frag_of seq pieces i\<lparr>f_payload := None\<rparr> in Ok (zero_Packet\<lparr>p_Fragment := Some f\<rparr>, f))"
proof -
  have "i < 2 ^ 31" using assms by simp
  moreover have "be_word (be_bytes 8 (seq + of_nat i)) = seq + of_nat i"
    by (simp only: be_word_be_bytes) (rule take_bit_word_eq_self, simp)
  ultimately show ?thesis
    using uint_of_nat_small uint_of_nat_small [OF assms(2)] assms(3)
    by (simp add: Packet_step_def Element_Length_def setFragment_def zero_Packet_def new_fragment_def
        frag_of_def Let_def)
qed

lemma Packet_step_frag_payload:
  "p_Fragment pkt = Some f \<Longrightarrow>
   forRange (Packet_step reg self) (pkt, g) (elems_of [(TtLpPayload, v)] tail)
     = Ok (pkt\<lparr>p_Fragment := Some (f\<lparr>f_payload := Some v\<rparr>)\<rparr>, f\<lparr>f_payload := Some v\<rparr>)"
  by (simp add: Packet_step_def decodePayload_def)

lemma wire_frag_decode:
  assumes "i < length pieces" "length pieces < 2 ^ 31" "length pieces > 1"
    and "slice_ok (tlvs (frag_items (lp_of lph i) seq pieces i))"
  shows "Decode (tlv_bytes TtLpPacket (tlvs (frag_items (lp_of lph i) seq pieces i))) (Packet_UnmarshalTLV reg self)
    = Ok (zero_Packet\<lparr>Lp := lp_of lph i, p_Fragment := Some (frag_of seq pieces i)\<rparr>)"
proof -
  let ?l = "lp_of lph i" and ?f = "frag_of seq pieces i\<lparr>f_payload := None\<rparr>"
  let ?xs = "frag_items ?l seq pieces i"
  have ok: "list_all tlv_ok ?xs"
    by (rule tlvs_ok [OF assms(4)]) (auto simp: frag_items_def lp_items_def)
  have lp: "Lp (zero_Packet\<lparr>p_Fragment := Some ?f\<rparr>) = zero_LpL3" by (simp add: zero_Packet_def)
  have fr: "p_Fragment (zero_Packet\<lparr>p_Fragment := Some ?f, Lp := ?l\<rparr>) = Some ?f" by simp
  have "forRange (Packet_step reg self) (zero_Packet, new_fragment) (elems_of ?xs [])
    = Ok (zero_Packet\<lparr>Lp := ?l, p_Fragment := Some (frag_of seq pieces i)\<rparr>, frag_of seq pieces i)"
    unfolding frag_items_def elems_of_append [of "_ # _ # _ # []"] forRange_append
      Packet_step_numbers [OF assms(1-3)] Let_def andthen.simps elems_of_append [of "lp_items ?l"]
      Packet_step_header [OF lp] Packet_step_frag_payload [OF fr]
    by (simp add: frag_of_def zero_Packet_def)
  then have "decodeValue reg self zero_Packet (tlvs ?xs)
      = Ok (zero_Packet\<lparr>Lp := ?l, p_Fragment := Some (frag_of seq pieces i)\<rparr>)"
    unfolding decodeValue_def decodeElements_tlvs [OF ok] using assms(1) by simp
  then show ?thesis using assms(4) by (simp add: Decode_tlv Packet_UnmarshalTLV_def)
qed

subsection \<open>What the fragmenter produces\<close>

definition pieces_of :: "LpFragmenter \<Rightarrow> bytes \<Rightarrow> bytes \<Rightarrow> bytes list" where
  "pieces_of fragmenter header payload =
     (let size0 = nat (room fragmenter - int (length header))
      in take size0 payload # cut_payload (nat (room fragmenter)) payload size0)"

lemma pieces_of_props:
  assumes "0 < room fragmenter - int (length header)"
  shows "concat (pieces_of fragmenter header payload) = payload"
    and "length (pieces_of fragmenter header payload ! 0) + length header \<le> nat (room fragmenter)"
    and "i < length (pieces_of fragmenter header payload) \<Longrightarrow>
      length (pieces_of fragmenter header payload ! i) \<le> nat (room fragmenter)"
proof -
  let ?p = "pieces_of fragmenter header payload"
  have r: "nat (room fragmenter) > 0" using assms by simp
  show "concat ?p = payload" by (simp add: pieces_of_def Let_def cut_payload_concat [OF r])
  show first: "length (?p ! 0) + length header \<le> nat (room fragmenter)" using assms by (simp add: pieces_of_def Let_def)
  show "length (?p ! i) \<le> nat (room fragmenter)" if "i < length ?p"
  proof (cases i)
    case 0
    then show ?thesis using first by simp
  next
    case (Suc j)
    then have "?p ! i \<in> set (cut_payload (nat (room fragmenter)) payload (nat (room fragmenter - int (length header))))"
      using that by (simp add: pieces_of_def Let_def)
    then show ?thesis using cut_payload_pieces by blast
  qed
qed

lemma piece_room:
  assumes "0 < room fragmenter - int (length (tlvs (lp_items lph)))"
    and "i < length (pieces_of fragmenter (tlvs (lp_items lph)) payload)"
  shows "length (pieces_of fragmenter (tlvs (lp_items lph)) payload ! i) + length (tlvs (lp_items (lp_of lph i)))
    \<le> nat (room fragmenter)"
proof (cases "i = 0")
  case True
  then show ?thesis using pieces_of_props(2) [OF assms(1), of payload] by (simp add: lp_of_def)
next
  case False
  then have "tlvs (lp_items (lp_of lph i)) = []" by (simp add: lp_of_def lp_items_def zero_LpL3_def)
  then show ?thesis using pieces_of_props(3) [OF assms] by simp
qed

lemma number_frags_pieces:
  assumes "pieces = p # ps"
  shows "number_frags seq (frag_packet lph (tlvs (lp_items lph)) p # map (frag_packet zero_LpL3 []) ps)
    = map (wire_frag lph seq pieces) [0 ..< length pieces]"
proof (rule nth_equalityI)
  have nil: "lp_items zero_LpL3 = []" by (simp add: lp_items_def zero_LpL3_def)
  fix i
  assume "i < length (number_frags seq (frag_packet lph (tlvs (lp_items lph)) p # map (frag_packet zero_LpL3 []) ps))"
  then have i: "i < length pieces" by (simp add: number_frags_def assms)
  then show "number_frags seq (frag_packet lph (tlvs (lp_items lph)) p # map (frag_packet zero_LpL3 []) ps) ! i
      = map (wire_frag lph seq pieces) [0 ..< length pieces] ! i"
    by (cases i)
      (simp_all add: number_frags_def wire_frag_def frag_packet_def frag_of_def lp_of_def assms nil zero_Packet_def
        nth_append del: upt_Suc)
qed (simp add: number_frags_def assms)

lemma Fragment_cases:
  assumes "encodeL3 nn full = (full', Ok (tlvs (lp_items lph), payload))" and "Lp full' = lph"
    and "Fragment nn fragmenter full = (s, Ok frags)"
  shows "frags = [full'] \<and> int (length (tlvs (lp_items lph)) + length payload) < room fragmenter
    \<or> (0 < room fragmenter - int (length (tlvs (lp_items lph)))
       \<and> frags = map (wire_frag lph (nextSeqNum fragmenter) (pieces_of fragmenter (tlvs (lp_items lph)) payload))
           [0 ..< length (pieces_of fragmenter (tlvs (lp_items lph)) payload)])"
proof -
  let ?h = "tlvs (lp_items lph)"
  let ?size = "room fragmenter - int (length ?h)"
  consider "?size > int (length payload)" | "?size \<le> int (length payload)" "?size \<le> 0"
    | "?size \<le> int (length payload)" "?size > 0" by linarith
  then show ?thesis
  proof cases
    case 1
    then show ?thesis using assms by (simp add: Fragment_def Let_def)
  next
    case 2
    then show ?thesis using assms by (simp add: Fragment_def Let_def)
  next
    case 3
    have "frags = number_frags (nextSeqNum fragmenter) (frag_packet lph ?h (take (nat ?size) payload)
        # map (frag_packet zero_LpL3 []) (cut_payload (nat (room fragmenter)) payload (nat ?size)))"
      using assms 3 by (simp add: Fragment_def Let_def)
    then show ?thesis
      using 3 number_frags_pieces [OF pieces_of_def [unfolded Let_def, of fragmenter ?h payload]] by simp
  qed
qed

subsection \<open>Sizes\<close>

lemma NNI_Size_le: "NNI_Size n \<le> 8" "unat n < 65536 \<Longrightarrow> NNI_Size n \<le> 2"
  by (auto simp: NNI_Size_def word_le_nat_alt)

lemma VarNum_Size_le: "VarNum_Size n \<le> 9" "unat n < 65536 \<Longrightarrow> VarNum_Size n \<le> 3"
  by (auto simp: VarNum_Size_def word_le_nat_alt word_less_nat_alt)

lemma length_frag_items:
  "length (tlvs (frag_items lph seq pieces i)) =
     10 + (2 + NNI_Size (of_nat i)) + (2 + NNI_Size (of_nat (length pieces))) + length (tlvs (lp_items lph))
     + (1 + VarNum_Size (of_nat (length (pieces ! i))) + length (pieces ! i))"
proof -
  have "VarNum_Size (of_nat (NNI_Size n)) = 1" for n
    using NNI_Size_le(1) [of n] by (auto simp: VarNum_Size_def NNI_Size_def)
  then show ?thesis
    by (simp add: frag_items_def length_tlv_bytes Element_Size_def Element_Length_def)
      (simp add: VarNum_Size_def)
qed

lemma frag_items_slice_ok:
  "length (pieces ! i) + length (tlvs (lp_items lph)) < 2 ^ 62 \<Longrightarrow> slice_ok (tlvs (frag_items lph seq pieces i))"
  using NNI_Size_le(1) [of "of_nat i"] NNI_Size_le(1) [of "of_nat (length pieces)"]
    VarNum_Size_le(1) [of "of_nat (length (pieces ! i))"]
  by (simp add: slice_ok_def length_frag_items)

lemma unat_of_nat_le: "unat (of_nat n :: u64) \<le> n"
  by (simp add: unat_of_nat take_bit_nat_eq_self_iff take_bit_nat_less_eq_self)

lemma length_wire_frag:
  assumes "length pieces < 65536" "i < length pieces" "length (pieces ! i) + length (tlvs (lp_items lph)) < 65514"
  shows "length (tlv_bytes TtLpPacket (tlvs (frag_items lph seq pieces i)))
    \<le> length (pieces ! i) + length (tlvs (lp_items lph)) + 26"
proof -
  have n: "NNI_Size (of_nat i) \<le> 2" "NNI_Size (of_nat (length pieces)) \<le> 2"
    using assms(1,2) by (auto intro!: NNI_Size_le(2) intro: le_less_trans [OF unat_of_nat_le])
  have v: "VarNum_Size (of_nat (length (pieces ! i))) \<le> 3"
    using assms(3) by (intro VarNum_Size_le(2) le_less_trans [OF unat_of_nat_le]) simp
  have len: "length (tlvs (frag_items lph seq pieces i)) \<le> length (pieces ! i) + length (tlvs (lp_items lph)) + 22"
    unfolding length_frag_items using n v by simp
  then have "VarNum_Size (of_nat (length (tlvs (frag_items lph seq pieces i)))) \<le> 3"
    using assms(3) by (intro VarNum_Size_le(2) le_less_trans [OF unat_of_nat_le]) simp
  moreover have "VarNum_Size (ucast TtLpPacket) = 1" by (simp add: VarNum_Size_def)
  ultimately show ?thesis
    using len unfolding length_tlv_bytes by (simp only: Element_Size_def Element_Length_def Element.simps)
qed

lemma length_lp_wire:
  assumes "length (tlvs (lp_items lph)) + length (tlv_bytes t v) < 65514"
  shows "length (lp_wire lph t v) \<le> length (tlvs (lp_items lph)) + length (tlv_bytes t v) + 8"
proof (cases "LpL3_Empty lph")
  case True
  then show ?thesis by (simp add: lp_wire_def)
next
  case False
  have "VarNum_Size (of_nat (length (tlv_bytes t v))) \<le> 3"
    using assms by (intro VarNum_Size_le(2) le_less_trans [OF unat_of_nat_le]) simp
  moreover have "length (lp_value lph t v) = length (tlvs (lp_items lph))
      + (1 + VarNum_Size (of_nat (length (tlv_bytes t v))) + length (tlv_bytes t v))"
    unfolding lp_value_def
    by (simp only: tlvs_simps length_append length_tlv_bytes [of TtLpPayload] Element_Size_def Element_Length_def
        Element.simps) (simp add: VarNum_Size_def)
  ultimately have len: "length (lp_value lph t v) \<le> length (tlvs (lp_items lph)) + length (tlv_bytes t v) + 4" by simp
  then have "VarNum_Size (of_nat (length (lp_value lph t v))) \<le> 3"
    using assms by (intro VarNum_Size_le(2) le_less_trans [OF unat_of_nat_le]) simp
  moreover have "VarNum_Size (ucast TtLpPacket) = 1" by (simp add: VarNum_Size_def)
  ultimately have "length (tlv_bytes TtLpPacket (lp_value lph t v)) \<le> length (lp_value lph t v) + 4"
    unfolding length_tlv_bytes by (simp only: Element_Size_def Element_Length_def Element.simps)
  then show ?thesis using False len by (simp add: lp_wire_def)
qed

lemma encodeL3_again:
  assumes "encodeL3 nn pkt = (pkt', Ok r)"
  shows "encodeL3 nn pkt' = (pkt', Ok r)" "p_Fragment pkt' = p_Fragment pkt"
proof -
  from assms obtain f where f: "l3fielder nn pkt = Some (pkt', f)"
    by (auto simp: encodeL3_def onOk_Ok_iff split: option.splits prod.splits)
  then have "l3fielder nn pkt' = Some (pkt', f)" and "p_Fragment pkt' = p_Fragment pkt"
    by (auto simp: l3fielder_def split: option.splits)
  with f assms show "encodeL3 nn pkt' = (pkt', Ok r)" "p_Fragment pkt' = p_Fragment pkt"
    by (simp_all add: encodeL3_def)
qed

text \<open>A packet sent as a frame and decoded by the receiver.\<close>

definition over_wire :: "(u32 \<Rightarrow> bool) \<Rightarrow> Nonce \<Rightarrow> nat \<Rightarrow> Packet \<Rightarrow> Packet outcome" where
  "over_wire reg nn self pkt =
     andthen (Encode [snd (Packet_Field nn pkt)]) (\<lambda>w. Decode w (Packet_UnmarshalTLV reg self))"

lemma over_wire_frag:
  assumes "0 < room fragmenter - int (length (tlvs (lp_items lph)))" "room fragmenter < 2 ^ 62"
    and "pieces = pieces_of fragmenter (tlvs (lp_items lph)) payload"
    and "i < length pieces" "length pieces < 2 ^ 31" "length pieces \<ge> 2"
  shows "over_wire reg nn self (wire_frag lph seq pieces i)
    = Ok (zero_Packet\<lparr>Lp := lp_of lph i, p_Fragment := Some (frag_of seq pieces i)\<rparr>)"
proof -
  have "length (pieces ! i) + length (tlvs (lp_items (lp_of lph i))) \<le> nat (room fragmenter)"
    using piece_room [OF assms(1)] assms(3,4) by simp
  then have "length (pieces ! i) + length (tlvs (lp_items (lp_of lph i))) < 2 ^ 62" using assms(2) by simp
  from frag_items_slice_ok [OF this]
  have "Decode (tlv_bytes TtLpPacket (tlvs (frag_items (lp_of lph i) seq pieces i))) (Packet_UnmarshalTLV reg self)
      = Ok (zero_Packet\<lparr>Lp := lp_of lph i, p_Fragment := Some (frag_of seq pieces i)\<rparr>)"
    using assms(4-6) by (intro wire_frag_decode) simp_all
  then show ?thesis
    by (simp only: over_wire_def Encode_encs encs_simps enc_wire_frag [OF assms(4)] andthen.simps append_Nil2)
qed

subsection \<open>Properties\<close>

text \<open>
  C25 (Fragment_fits_mtu). Every frame that the fragmenter returns for a packet, split or not, encodes to at
  most the MTU, when the MTU is at most 65535 and the packet is split in fewer than 65536 pieces: the
  constant \<open>fragmentOverhead\<close> is enough.
\<close>

theorem Fragment_fits_mtu:
  assumes "packet_ok reg nn full" and "Fragment nn (NewLpFragmenter rand mtu) full = (s, Ok frags)"
    and "mtu \<le> 65535" "length frags < 65536" and "frag \<in> set frags"
  shows "\<exists>w. Encode [snd (Packet_Field nn frag)] = Ok w \<and> int (length w) \<le> mtu"
proof -
  from assms(1) obtain reason t v where
    e: "encodeL3 nn full = (full\<lparr>l3digest := None, Lp := (Lp full)\<lparr>NackReason := reason\<rparr>\<rparr>,
       Ok (tlvs (lp_items ((Lp full)\<lparr>NackReason := reason\<rparr>)), tlv_bytes t v))"
    by (rule packet_okE) blast
  let ?lph = "(Lp full)\<lparr>NackReason := reason\<rparr>" and ?fr = "NewLpFragmenter rand mtu"
  let ?h = "tlvs (lp_items ?lph)" and ?full = "full\<lparr>l3digest := None, Lp := (Lp full)\<lparr>NackReason := reason\<rparr>\<rparr>"
  let ?p = "pieces_of ?fr ?h (tlv_bytes t v)"
  have room: "room ?fr = mtu - 26" by (simp add: NewLpFragmenter_def fragmentOverhead_def)
  from Fragment_cases [OF e _ assms(2)] consider
      (whole) "frags = [?full]" "int (length ?h + length (tlv_bytes t v)) < room ?fr"
    | (split) "0 < room ?fr - int (length ?h)" "frags = map (wire_frag ?lph (nextSeqNum ?fr) ?p) [0 ..< length ?p]"
    by auto
  then show ?thesis
  proof cases
    case whole
    have "p_Fragment ?full = None" using assms(1) by (simp add: packet_ok_def)
    then have "enc (snd (Packet_Field nn ?full)) = Ok (lp_wire ?lph t v)"
      using Packet_Field_wire [OF _ encodeL3_again(1) [OF e]] by simp
    then show ?thesis
      using whole assms(3,5) length_lp_wire [of ?lph t v] by (auto simp: Encode_encs room)
  next
    case split
    then obtain i where i: "i < length ?p" "frag = wire_frag ?lph (nextSeqNum ?fr) ?p i" using assms(5) by auto
    have len: "length (?p ! i) + length (tlvs (lp_items (lp_of ?lph i))) \<le> nat (mtu - 26)"
      using piece_room [OF split(1) i(1)] by (simp only: room)
    have n: "length ?p < 65536" using assms(4) split(2) by simp
    have "length (?p ! i) + length (tlvs (lp_items (lp_of ?lph i))) < 65514" using len assms(3) by linarith
    from length_wire_frag [OF n i(1) this, of "nextSeqNum ?fr"] len split(1) room
    have "int (length (tlv_bytes TtLpPacket (tlvs (frag_items (lp_of ?lph i) (nextSeqNum ?fr) ?p i)))) \<le> mtu" by linarith
    then show ?thesis using enc_wire_frag [OF i(1), of nn ?lph "nextSeqNum ?fr"] unfolding i(2) Encode_encs by simp
  qed
qed

definition sample_Packet :: Packet where
  "sample_Packet = zero_Packet\<lparr>p_Data := Some (sample_Data\<lparr>d_SigValue := []\<rparr>)\<rparr>"

lemma length_sample_Data: "length (data_value (sample_Data\<lparr>d_SigValue := []\<rparr>)) = 25"
  using zero_SigInfo_ok
  by (simp add: data_value_def sample_Data_def zero_Data_def signed_items_def meta_items_def NameComponent_Valid_def
      isValidNameComponentType_def siginfo_value_def name_value_def items_def Millisecond_def length_simps)

lemma sample_Packet_ok: "packet_ok (\<lambda>_. False) (0, 0, 0, 0) sample_Packet"
  using sample_Data_ok [of "[]"] length_sample_Data
  by (simp add: packet_ok_def l3_ok_def l3_items_def sample_Packet_def zero_Packet_def zero_LpL3_def lp_value_def
      lp_items_def length_simps)

lemma sample_Fragment:
  "\<exists>s frags. Fragment (0, 0, 0, 0) (NewLpFragmenter 7 46) sample_Packet = (s, Ok frags) \<and> length frags = 2"
proof -
  let ?w = "tlv_bytes TtData (data_value (sample_Data\<lparr>d_SigValue := []\<rparr>))"
  have len: "length ?w = 27" using length_sample_Data by (simp add: length_simps)
  have enc: "encodeL3 (0, 0, 0, 0) sample_Packet = (sample_Packet, Ok ([], ?w))"
    using data_codec.enc_field [OF sample_Data_ok [of "[]" "\<lambda>_. False"]]
    by (simp add: encodeL3_def l3fielder_def sample_Packet_def zero_Packet_def zero_LpL3_def EncodeFrom_encs Encode_encs
        encs_LpL3 lp_items_def)
  have "cut_payload 20 ?w 20 = [drop 20 ?w]"
    using cut_payload_unfold(1) [of 20 ?w 20] cut_payload_unfold(2) [of 27 ?w 20] len by simp
  then show ?thesis
    using len by (simp add: Fragment_def enc NewLpFragmenter_def fragmentOverhead_def Let_def number_frags_def)
qed

theorem Fragment_fits_mtu_witness:
  "\<exists>s frags. Fragment (0, 0, 0, 0) (NewLpFragmenter 7 46) sample_Packet = (s, Ok frags) \<and> length frags = 2
     \<and> (\<exists>w. Encode [snd (Packet_Field (0, 0, 0, 0) (frags ! 1))] = Ok w \<and> int (length w) \<le> 46)"
proof -
  obtain s frags where f: "Fragment (0, 0, 0, 0) (NewLpFragmenter 7 46) sample_Packet = (s, Ok frags)" "length frags = 2"
    using sample_Fragment by blast
  moreover have "frags ! 1 \<in> set frags" using f(2) by simp
  ultimately show ?thesis using Fragment_fits_mtu [OF sample_Packet_ok f(1), of "frags ! 1"] by auto
qed

end
