(* ===== verification/Lp_Reassembly.thy ===== *)
theory Lp_Reassembly
  imports Lp_Fragment
begin

text \<open>
  Reassembly (\<open>LpReassembler\<close> of \<open>ndn/lp.go\<close>). The LRU cache of the reassembler is the third-party package
  \<open>simplelru\<close>: its three operations are arguments, and \<open>lru_laws\<close> states what its documentation promises.
  The cache holds pointers, so the partial packets are in a memory beside it.
\<close>

subsection \<open>lpPartialPacket\<close>

record lpPartialPacket =
  lpl3 :: LpL3
  buffer :: "bytes option list"
  accepted :: nat

definition zero_Partial :: lpPartialPacket where
  "zero_Partial = \<lparr>lpl3 = zero_LpL3, buffer = [], accepted = 0\<rparr>"

text \<open>An index outside the buffer panics.\<close>

definition acceptOne :: "lpPartialPacket \<Rightarrow> LpL3 \<Rightarrow> LpFragment \<Rightarrow> lpPartialPacket outcome" where
  "acceptOne pp lph frag =
     (let pp = (if FragIndex frag = 0 then pp\<lparr>lpl3 := lph\<rparr> else pp) in
      if FragIndex frag < 0 \<or> FragIndex frag \<ge> int (length (buffer pp)) then Panic
      else Ok (pp\<lparr>buffer := (buffer pp)[nat (FragIndex frag) := f_payload frag],
                  accepted := accepted pp + 1\<rparr>))"

definition reassemble :: "(u32 \<Rightarrow> bool) \<Rightarrow> nat \<Rightarrow> lpPartialPacket \<Rightarrow> Packet outcome" where
  "reassemble reg self pp =
     decodePayload reg self (zero_Packet\<lparr>Lp := lpl3 pp\<rparr>) (concat (map nil_bytes (buffer pp)))"

text \<open>The results are \<open>full\<close> (None for nil), \<open>discard\<close> and the error as an outcome. A negative
  \<open>FragCount\<close> makes \<open>make\<close> panic.\<close>

definition Partial_Accept ::
    "(u32 \<Rightarrow> bool) \<Rightarrow> nat \<Rightarrow> lpPartialPacket \<Rightarrow> LpL3 \<Rightarrow> LpFragment
      \<Rightarrow> lpPartialPacket \<times> bool \<times> Packet option outcome" where
  "Partial_Accept reg self pp lph frag =
     (if accepted pp = 0 then
        (if FragCount frag < 0 then (pp, False, Panic)
         else case acceptOne (pp\<lparr>buffer := replicate (nat (FragCount frag)) None\<rparr>) lph frag of
             Ok pp \<Rightarrow> (pp, False, Ok None)
           | Fail e \<Rightarrow> (pp, False, Fail e)
           | Panic \<Rightarrow> (pp, False, Panic))
      else if FragCount frag \<noteq> int (length (buffer pp)) then (pp, True, Fail ErrFragment)
      else if FragIndex frag < 0 \<or> FragIndex frag \<ge> int (length (buffer pp)) then (pp, False, Panic)
      else if buffer pp ! nat (FragIndex frag) \<noteq> None then (pp, False, Fail ErrFragment)
      else case acceptOne pp lph frag of
          Ok pp \<Rightarrow>
            if accepted pp = length (buffer pp)
            then (pp, True, andthen (reassemble reg self pp) (\<lambda>full. Ok (Some full)))
            else (pp, False, Ok None)
        | Fail e \<Rightarrow> (pp, False, Fail e)
        | Panic \<Rightarrow> (pp, False, Panic))"

subsection \<open>LpReassembler\<close>

record 'lru LpReassembler =
  pms :: 'lru
  partials :: "lpPartialPacket list"

record 'lru simplelru =
  Get :: "'lru \<Rightarrow> u64 \<Rightarrow> 'lru \<times> nat option"
  Add :: "'lru \<Rightarrow> u64 \<Rightarrow> nat \<Rightarrow> 'lru"
  Remove :: "'lru \<Rightarrow> u64 \<Rightarrow> 'lru"

text \<open>\<open>newLRU\<close> is \<open>simplelru.NewLRU\<close>.\<close>

definition NewLpReassembler :: "(int \<Rightarrow> 'lru) \<Rightarrow> int \<Rightarrow> 'lru LpReassembler" where
  "NewLpReassembler newLRU capacity = \<lparr>pms = newLRU capacity, partials = []\<rparr>"

text \<open>\<open>self\<close> is the address of the Packet that \<open>reassemble\<close> allocates.\<close>

definition Reassembler_Accept ::
    "'lru simplelru \<Rightarrow> (u32 \<Rightarrow> bool) \<Rightarrow> nat \<Rightarrow> 'lru LpReassembler \<Rightarrow> LpL3 \<Rightarrow> LpFragment
      \<Rightarrow> 'lru LpReassembler \<times> Packet option outcome" where
  "Reassembler_Accept lru reg self reass lph frag =
     (let seq0 = SeqNum frag - of_int (FragIndex frag);
          (l, pp) = Get lru (pms reass) seq0;
          (l, mem, pp) =
            (case pp of
               Some a \<Rightarrow> (l, partials reass, a)
             | None \<Rightarrow> (Add lru l seq0 (length (partials reass)), partials reass @ [zero_Partial],
                         length (partials reass)));
          (p, discard, r) = Partial_Accept reg self (mem ! pp) lph frag;
          l = (if discard then Remove lru l seq0 else l)
      in (\<lparr>pms = l, partials = mem[pp := p]\<rparr>, r))"

subsection \<open>Partial packets\<close>

definition partial_of :: "LpL3 \<Rightarrow> bytes list \<Rightarrow> nat set \<Rightarrow> lpPartialPacket" where
  "partial_of lph pieces S =
     \<lparr>lpl3 = (if 0 \<in> S then lph else zero_LpL3),
      buffer = map (\<lambda>i. if i \<in> S then Some (pieces ! i) else None) [0 ..< length pieces],
      accepted = card S\<rparr>"

definition final_of :: "(u32 \<Rightarrow> bool) \<Rightarrow> nat \<Rightarrow> LpL3 \<Rightarrow> bytes list \<Rightarrow> Packet option outcome" where
  "final_of reg self lph pieces =
     andthen (decodePayload reg self (zero_Packet\<lparr>Lp := lph\<rparr>) (concat pieces)) (\<lambda>full. Ok (Some full))"

lemma acceptOne_frag:
  assumes "i < length pieces" and "finite S" and "i \<notin> S"
    and "pp = partial_of lph pieces S \<or> S = {} \<and> pp = zero_Partial\<lparr>buffer := replicate (length pieces) None\<rparr>"
  shows "acceptOne pp (lp_of lph i) (frag_of seq pieces i) = Ok (partial_of lph pieces (insert i S))"
proof -
  have "pp = partial_of lph pieces S"
    using assms(4) by (auto simp: partial_of_def zero_Partial_def map_replicate_const)
  moreover have "(map (\<lambda>i. if i \<in> S then Some (pieces ! i) else None) [0 ..< length pieces])[i := Some (pieces ! i)]
      = map (\<lambda>j. if j \<in> insert i S then Some (pieces ! j) else None) [0 ..< length pieces]"
    using assms(1) by (intro nth_equalityI) (auto simp: nth_list_update)
  ultimately show ?thesis
    using assms(1-3) by (auto simp: acceptOne_def partial_of_def frag_of_def lp_of_def Let_def)
qed

lemma Partial_Accept_first:
  assumes "i < length pieces"
  shows "Partial_Accept reg self zero_Partial (lp_of lph i) (frag_of seq pieces i)
    = (partial_of lph pieces {i}, False, Ok None)"
  using acceptOne_frag [of i pieces "{}" "zero_Partial\<lparr>buffer := replicate (length pieces) None\<rparr>" lph seq] assms
  by (simp add: Partial_Accept_def zero_Partial_def frag_of_def)

lemma Partial_Accept_next:
  assumes "i < length pieces" "finite S" "i \<notin> S" "S \<noteq> {}" "S \<subseteq> {..< length pieces}"
  shows "Partial_Accept reg self (partial_of lph pieces S) (lp_of lph i) (frag_of seq pieces i)
    = (partial_of lph pieces (insert i S),
       if card (insert i S) = length pieces then (True, final_of reg self lph pieces) else (False, Ok None))"
proof -
  have acc: "acceptOne (partial_of lph pieces S) (lp_of lph i) (frag_of seq pieces i)
      = Ok (partial_of lph pieces (insert i S))"
    using assms by (intro acceptOne_frag) auto
  have fields: "accepted (partial_of lph pieces S) \<noteq> 0"
    "length (buffer (partial_of lph pieces S')) = length pieces"
    "buffer (partial_of lph pieces S) ! i = None"
    "accepted (partial_of lph pieces (insert i S)) = card (insert i S)" for S'
    using assms by (auto simp: partial_of_def)
  have "andthen (reassemble reg self (partial_of lph pieces (insert i S))) (\<lambda>full. Ok (Some full))
      = final_of reg self lph pieces" if "card (insert i S) = length pieces"
  proof -
    have all: "insert i S = {..< length pieces}"
      using assms that by (intro card_subset_eq) auto
    have "length pieces > 0" using assms(1) by (cases pieces) auto
    then have "partial_of lph pieces (insert i S)
        = \<lparr>lpl3 = lph, buffer = map Some pieces, accepted = length pieces\<rparr>"
      unfolding all by (auto simp: partial_of_def intro: nth_equalityI)
    then show ?thesis by (simp add: reassemble_def final_of_def nil_bytes_def comp_def)
  qed
  then show ?thesis
    using assms(1) unfolding Partial_Accept_def acc by (simp add: fields)
qed

subsection \<open>Runs of one message\<close>

text \<open>
  One entry of the cache on its own: None before the first fragment and after a discard. \<open>run_partial\<close>
  lists the results of a sequence of fragments.
\<close>

definition entry_Accept ::
    "(u32 \<Rightarrow> bool) \<Rightarrow> nat \<Rightarrow> lpPartialPacket option \<Rightarrow> LpL3 \<times> LpFragment
      \<Rightarrow> lpPartialPacket option \<times> Packet option outcome" where
  "entry_Accept reg self e = (\<lambda>(lph, frag).
     case Partial_Accept reg self (case e of None \<Rightarrow> zero_Partial | Some pp \<Rightarrow> pp) lph frag of
       (pp, discard, r) \<Rightarrow> (if discard then None else Some pp, r))"

fun run_entry ::
    "(u32 \<Rightarrow> bool) \<Rightarrow> nat \<Rightarrow> lpPartialPacket option \<Rightarrow> (LpL3 \<times> LpFragment) list \<Rightarrow> Packet option outcome list" where
  "run_entry reg self e [] = []"
| "run_entry reg self e (x # xs) =
     (case entry_Accept reg self e x of (e', r) \<Rightarrow> r # run_entry reg self e' xs)"

definition message :: "LpL3 \<Rightarrow> u64 \<Rightarrow> bytes list \<Rightarrow> nat list \<Rightarrow> (LpL3 \<times> LpFragment) list" where
  "message lph seq pieces order = map (\<lambda>i. (lp_of lph i, frag_of seq pieces i)) order"

lemma run_entry_rest:
  assumes "distinct order" "set order = {..< length pieces} - S" "S \<noteq> {}" "S \<subseteq> {..< length pieces}" "order \<noteq> []"
  shows "run_entry reg self (Some (partial_of lph pieces S)) (message lph seq pieces order)
    = replicate (length order - 1) (Ok None) @ [final_of reg self lph pieces]"
  using assms
proof (induction order arbitrary: S)
  case (Cons i order)
  let ?S = "insert i S"
  have fin: "finite S" using Cons.prems(4) finite_subset by blast
  have i: "i < length pieces" "i \<notin> S" using Cons.prems(2) by auto
  have S: "?S \<subseteq> {..< length pieces}" using i Cons.prems(4) by auto
  have rest: "set order = {..< length pieces} - ?S" using Cons.prems(1,2) by auto
  have "card ?S = length pieces \<longleftrightarrow> order = []"
  proof
    assume "card ?S = length pieces"
    then have "?S = {..< length pieces}" using S by (intro card_subset_eq) auto
    then show "order = []" using rest by simp
  next
    assume "order = []"
    then have "?S = {..< length pieces}" using rest S by auto
    then show "card ?S = length pieces" by simp
  qed
  moreover have "entry_Accept reg self (Some (partial_of lph pieces S)) (lp_of lph i, frag_of seq pieces i)
      = (if card ?S = length pieces then (None, final_of reg self lph pieces)
         else (Some (partial_of lph pieces ?S), Ok None))"
    using Partial_Accept_next [OF i(1) fin i(2) Cons.prems(3,4), of reg self lph seq] by (simp add: entry_Accept_def)
  ultimately show ?case
    using Cons.IH [of ?S] Cons.prems(1) rest S by (cases order) (simp_all add: message_def)
qed simp

lemma run_entry_message:
  assumes "distinct order" "set order = {..< length pieces}" "length pieces \<ge> 2"
  shows "run_entry reg self None (message lph seq pieces order)
    = replicate (length pieces - 1) (Ok None) @ [final_of reg self lph pieces]"
proof -
  have len: "length order = length pieces" using assms(1,2) distinct_card by fastforce
  then obtain i rest where order: "order = i # rest" using assms(3) by (cases order) auto
  have "i \<in> set order" by (simp add: order)
  then have i: "i < length pieces" unfolding assms(2) by simp
  have "set rest = set order - {i}" using assms(1) by (simp add: order)
  then have rest: "set rest = {..< length pieces} - {i}" unfolding assms(2) .
  have dist: "distinct rest" using assms(1) by (simp add: order)
  have ne: "rest \<noteq> []" using assms(3) len by (auto simp: order)
  have "entry_Accept reg self None (lp_of lph i, frag_of seq pieces i) = (Some (partial_of lph pieces {i}), Ok None)"
    using Partial_Accept_first [OF i, of reg self lph seq] by (simp add: entry_Accept_def)
  moreover have "length pieces - 1 = Suc (length rest - 1)" using len ne by (cases rest) (simp_all add: order)
  moreover have "run_entry reg self (Some (partial_of lph pieces {i})) (message lph seq pieces rest)
      = replicate (length rest - 1) (Ok None) @ [final_of reg self lph pieces]"
    by (rule run_entry_rest [OF dist rest _ _ ne]) (use i in simp_all)
  ultimately show ?thesis by (simp add: order message_def)
qed

subsection \<open>The cache of partial packets as a map\<close>

definition seq0 :: "LpFragment \<Rightarrow> u64" where
  "seq0 frag = SeqNum frag - of_int (FragIndex frag)"

text \<open>
  What \<open>simplelru\<close> promises: \<open>Get\<close> finds what is in the cache and only changes the recency order,
  \<open>Remove\<close> deletes a key, and \<open>Add\<close> of a new key evicts nothing while there is room.
\<close>

definition lru_laws :: "'lru simplelru \<Rightarrow> ('lru \<Rightarrow> u64 \<Rightarrow> nat option) \<Rightarrow> nat \<Rightarrow> bool" where
  "lru_laws lru contents capacity \<longleftrightarrow>
     (\<forall>l k. contents (fst (Get lru l k)) = contents l \<and> snd (Get lru l k) = contents l k)
   \<and> (\<forall>l k. contents (Remove lru l k) = (contents l)(k := None))
   \<and> (\<forall>l k v. contents l k = None \<and> finite (dom (contents l)) \<and> card (dom (contents l)) < capacity
        \<longrightarrow> contents (Add lru l k v) = (contents l)(k \<mapsto> v))"

text \<open>The pointers in the cache are allocated and not shared.\<close>

definition reass_inv :: "('lru \<Rightarrow> u64 \<Rightarrow> nat option) \<Rightarrow> 'lru LpReassembler \<Rightarrow> bool" where
  "reass_inv contents reass \<longleftrightarrow> finite (dom (contents (pms reass)))
     \<and> (\<forall>k a. contents (pms reass) k = Some a \<longrightarrow> a < length (partials reass))
     \<and> (\<forall>k k' a. contents (pms reass) k = Some a \<and> contents (pms reass) k' = Some a \<longrightarrow> k = k')"

definition reass_map :: "('lru \<Rightarrow> u64 \<Rightarrow> nat option) \<Rightarrow> 'lru LpReassembler \<Rightarrow> u64 \<Rightarrow> lpPartialPacket option" where
  "reass_map contents reass k = map_option (\<lambda>a. partials reass ! a) (contents (pms reass) k)"

definition map_Accept ::
    "(u32 \<Rightarrow> bool) \<Rightarrow> nat \<Rightarrow> (u64 \<Rightarrow> lpPartialPacket option) \<Rightarrow> LpL3 \<times> LpFragment
      \<Rightarrow> (u64 \<Rightarrow> lpPartialPacket option) \<times> Packet option outcome" where
  "map_Accept reg self m x =
     (case entry_Accept reg self (m (seq0 (snd x))) x of (e, r) \<Rightarrow> (m(seq0 (snd x) := e), r))"

lemma reass_map_update:
  assumes "reass_inv contents reass" "contents (pms reass) k = Some a"
  shows "reass_map contents \<lparr>pms = pms reass, partials = (partials reass)[a := p]\<rparr>
    = (reass_map contents reass)(k \<mapsto> p)"
proof
  fix k'
  have "a < length (partials reass)" using assms by (auto simp: reass_inv_def)
  moreover have "contents (pms reass) k' \<noteq> Some a" if "k' \<noteq> k"
    using assms that by (auto simp: reass_inv_def)
  ultimately show "reass_map contents \<lparr>pms = pms reass, partials = (partials reass)[a := p]\<rparr> k'
      = ((reass_map contents reass)(k \<mapsto> p)) k'"
    using assms(2)
    by (cases "contents (pms reass) k'") (auto simp: reass_map_def nth_list_update)
qed

text \<open>Taking the entry of a fragment, allocating it when it is new.\<close>

definition lookup_entry :: "'lru simplelru \<Rightarrow> 'lru LpReassembler \<Rightarrow> u64 \<Rightarrow> 'lru LpReassembler \<times> nat" where
  "lookup_entry lru reass k =
     (case Get lru (pms reass) k of
        (l, Some a) \<Rightarrow> (\<lparr>pms = l, partials = partials reass\<rparr>, a)
      | (l, None) \<Rightarrow> (\<lparr>pms = Add lru l k (length (partials reass)), partials = partials reass @ [zero_Partial]\<rparr>,
                      length (partials reass)))"

lemma Reassembler_Accept_lookup:
  "Reassembler_Accept lru reg self reass lph frag =
     (case lookup_entry lru reass (seq0 frag) of (reass1, a) \<Rightarrow>
        case Partial_Accept reg self (partials reass1 ! a) lph frag of (p, discard, r) \<Rightarrow>
          (\<lparr>pms = (if discard then Remove lru (pms reass1) (seq0 frag) else pms reass1),
            partials = (partials reass1)[a := p]\<rparr>, r))"
proof -
  obtain l g where "Get lru (pms reass) (SeqNum frag - of_int (FragIndex frag)) = (l, g)" by fastforce
  then show ?thesis
    by (cases g) (simp_all add: Reassembler_Accept_def lookup_entry_def seq0_def Let_def split: prod.split)
qed

lemma lookup_entry_map:
  assumes laws: "lru_laws lru contents capacity" and inv: "reass_inv contents reass"
    and room: "contents (pms reass) k \<noteq> None \<or> card (dom (contents (pms reass))) < capacity"
    and l: "lookup_entry lru reass k = (reass1, a)"
  shows "reass_inv contents reass1 \<and> contents (pms reass1) k = Some a
    \<and> reass_map contents reass1 = (reass_map contents reass)
        (k \<mapsto> case reass_map contents reass k of None \<Rightarrow> zero_Partial | Some pp \<Rightarrow> pp)"
proof -
  obtain l' g where g: "Get lru (pms reass) k = (l', g)" by (cases "Get lru (pms reass) k")
  then have get: "contents l' = contents (pms reass)" "g = contents (pms reass) k"
    using laws by (auto simp: lru_laws_def dest: spec [of _ "pms reass"] elim!: allE [of _ k])
  show ?thesis
  proof (cases g)
    case (Some b)
    then have r1: "reass1 = \<lparr>pms = l', partials = partials reass\<rparr>" "a = b"
      using l g by (auto simp: lookup_entry_def)
    then have "reass_map contents reass1 = reass_map contents reass" by (simp add: reass_map_def fun_eq_iff get(1))
    then show ?thesis
      using r1 Some get inv by (auto simp: reass_inv_def reass_map_def)
  next
    case None
    let ?n = "length (partials reass)"
    have add: "contents (Add lru l' k ?n) = (contents (pms reass))(k \<mapsto> ?n)"
      using laws None get room inv unfolding lru_laws_def reass_inv_def by force
    have r1: "reass1 = \<lparr>pms = Add lru l' k ?n, partials = partials reass @ [zero_Partial]\<rparr>" "a = ?n"
      using l g None by (auto simp: lookup_entry_def)
    have lt: "\<forall>k a. contents (pms reass) k = Some a \<longrightarrow> a < ?n" using inv by (simp add: reass_inv_def)
    then have "reass_inv contents reass1" using inv by (auto simp: r1 add reass_inv_def less_SucI split: if_splits)
    moreover have "reass_map contents reass1 = (reass_map contents reass)(k \<mapsto> zero_Partial)"
    proof
      fix k'
      show "reass_map contents reass1 k' = ((reass_map contents reass)(k \<mapsto> zero_Partial)) k'"
        using lt by (cases "contents (pms reass) k'") (auto simp: r1 add reass_map_def nth_append)
    qed
    ultimately show ?thesis
      using None get by (simp add: r1 add reass_map_def)
  qed
qed

lemma Reassembler_refines_map:
  assumes laws: "lru_laws lru contents capacity" and inv: "reass_inv contents reass"
    and room: "contents (pms reass) (seq0 frag) \<noteq> None \<or> card (dom (contents (pms reass))) < capacity"
    and acc: "Reassembler_Accept lru reg self reass lph frag = (reass', r)"
  shows "reass_inv contents reass' \<and> map_Accept reg self (reass_map contents reass) (lph, frag)
    = (reass_map contents reass', r)"
proof -
  let ?k = "seq0 frag" and ?m = "reass_map contents reass"
  obtain reass1 a where l: "lookup_entry lru reass ?k = (reass1, a)" by fastforce
  let ?pp = "case ?m ?k of None \<Rightarrow> zero_Partial | Some pp \<Rightarrow> pp"
  have inv1: "reass_inv contents reass1" and a: "contents (pms reass1) ?k = Some a"
    and m1: "reass_map contents reass1 = ?m(?k \<mapsto> ?pp)"
    using lookup_entry_map [OF laws inv room l] by auto
  have pp: "partials reass1 ! a = ?pp" using m1 [THEN fun_cong, of ?k] a by (simp add: reass_map_def)
  obtain p discard where p: "Partial_Accept reg self ?pp lph frag = (p, discard, r)"
    and r': "reass' = \<lparr>pms = (if discard then Remove lru (pms reass1) ?k else pms reass1),
            partials = (partials reass1)[a := p]\<rparr>"
    using acc by (auto simp: Reassembler_Accept_lookup l pp split: prod.splits)
  have upd: "reass_map contents \<lparr>pms = pms reass1, partials = (partials reass1)[a := p]\<rparr> = ?m(?k \<mapsto> p)"
    using reass_map_update [OF inv1 a, of p] m1 by simp
  have rem: "contents (Remove lru (pms reass1) ?k) = (contents (pms reass1))(?k := None)"
    using laws by (simp add: lru_laws_def)
  have "reass_inv contents reass'"
    using inv1 by (auto simp: r' rem reass_inv_def)
  moreover have "reass_map contents reass' = ?m(?k := if discard then None else Some p)"
  proof (cases discard)
    case True
    then have "reass_map contents reass' k' = (?m(?k \<mapsto> p)) k'" if "k' \<noteq> ?k" for k'
      using upd [THEN fun_cong, of k'] that by (simp add: r' rem reass_map_def)
    moreover have "reass_map contents reass' ?k = None" using True by (simp add: r' rem reass_map_def)
    ultimately show ?thesis using True by (auto simp: fun_eq_iff)
  next
    case False
    then show ?thesis using upd by (simp add: r')
  qed
  ultimately show ?thesis by (simp add: map_Accept_def entry_Accept_def p)
qed

text \<open>Sequences of fragments, of any messages.\<close>

fun run_map ::
    "(u32 \<Rightarrow> bool) \<Rightarrow> nat \<Rightarrow> (u64 \<Rightarrow> lpPartialPacket option) \<Rightarrow> (LpL3 \<times> LpFragment) list
      \<Rightarrow> Packet option outcome list" where
  "run_map reg self m [] = []"
| "run_map reg self m (x # xs) = (case map_Accept reg self m x of (m', r) \<Rightarrow> r # run_map reg self m' xs)"

fun run_reass ::
    "'lru simplelru \<Rightarrow> (u32 \<Rightarrow> bool) \<Rightarrow> nat \<Rightarrow> 'lru LpReassembler \<Rightarrow> (LpL3 \<times> LpFragment) list
      \<Rightarrow> Packet option outcome list" where
  "run_reass lru reg self reass [] = []"
| "run_reass lru reg self reass (x # xs) =
     (case Reassembler_Accept lru reg self reass (fst x) (snd x) of
        (reass', r) \<Rightarrow> r # run_reass lru reg self reass' xs)"

definition of_seq0 :: "u64 \<Rightarrow> LpL3 \<times> LpFragment \<Rightarrow> bool" where
  "of_seq0 k x \<longleftrightarrow> seq0 (snd x) = k"

text \<open>The results that a message gets do not depend on the other messages.\<close>

lemma run_map_interleaved:
  "map snd (filter (\<lambda>(x, r). of_seq0 k x) (zip xs (run_map reg self m xs)))
     = run_entry reg self (m k) (filter (of_seq0 k) xs)"
  by (induction xs arbitrary: m) (auto simp: map_Accept_def of_seq0_def split: prod.split)

lemma run_reass_map:
  assumes "lru_laws lru contents capacity" "finite K" "card K \<le> capacity"
    and "reass_inv contents reass" "dom (contents (pms reass)) \<subseteq> K" "\<forall>x\<in>set xs. seq0 (snd x) \<in> K"
  shows "run_reass lru reg self reass xs = run_map reg self (reass_map contents reass) xs"
  using assms(4-6)
proof (induction xs arbitrary: reass)
  case (Cons x xs)
  let ?k = "seq0 (snd x)" and ?d = "dom (contents (pms reass))"
  have "?d \<subset> K" if "contents (pms reass) ?k = None" using Cons.prems(2,3) that by auto
  then have room: "contents (pms reass) ?k \<noteq> None \<or> card ?d < capacity"
    using psubset_card_mono [OF assms(2)] assms(3) by (meson order_less_le_trans)
  obtain reass' r where acc: "Reassembler_Accept lru reg self reass (fst x) (snd x) = (reass', r)" by fastforce
  from Reassembler_refines_map [OF assms(1) Cons.prems(1) room acc]
  have inv': "reass_inv contents reass'"
    and m': "map_Accept reg self (reass_map contents reass) x = (reass_map contents reass', r)" by simp_all
  have dom: "dom (contents (pms s)) = dom (reass_map contents s)" for s by (auto simp: reass_map_def)
  obtain e where "(reass_map contents reass)(?k := e) = reass_map contents reass'"
    using m' by (auto simp: map_Accept_def split: prod.splits)
  from this [symmetric] have "reass_map contents reass' = (reass_map contents reass)(?k := e)" .
  then have "dom (reass_map contents reass') \<subseteq> insert ?k (dom (reass_map contents reass))" by auto
  then have "dom (contents (pms reass')) \<subseteq> K" using Cons.prems(2,3) unfolding dom by auto
  with Cons.IH [OF inv'] Cons.prems(3) acc m' show ?case by simp
qed simp

subsection \<open>Properties\<close>

lemma seq0_frag_of [simp]: "seq0 (frag_of seq pieces i) = seq"
  by (simp add: seq0_def)

lemma filter_message: "filter (of_seq0 seq) (message lph seq pieces order) = message lph seq pieces order"
  by (auto simp: message_def of_seq0_def filter_id_conv)

lemma run_reass_fresh:
  assumes "lru_laws lru contents capacity" "contents (pms reass) = Map.empty" "card (seq0 ` snd ` set xs) \<le> capacity"
  shows "run_reass lru reg self reass xs = run_map reg self Map.empty xs"
proof -
  have "reass_inv contents reass" using assms(2) by (simp add: reass_inv_def)
  then have "run_reass lru reg self reass xs = run_map reg self (reass_map contents reass) xs"
    using assms(2,3) by (intro run_reass_map [OF assms(1), of "seq0 ` snd ` set xs"]) auto
  moreover have "reass_map contents reass = Map.empty" using assms(2) by (simp add: reass_map_def fun_eq_iff)
  ultimately show ?thesis by simp
qed

lemma run_map_one:
  "\<forall>x\<in>set xs. of_seq0 k x \<Longrightarrow> run_map reg self m xs = run_entry reg self (m k) xs"
  by (induction xs arbitrary: m) (auto simp: map_Accept_def of_seq0_def split: prod.split)

lemma run_reass_message:
  assumes "lru_laws lru contents capacity" "capacity \<ge> 1" "contents (pms reass) = Map.empty"
    and "distinct order" "set order = {..< length pieces}" "length pieces \<ge> 2"
  shows "run_reass lru reg self reass (message lph seq pieces order)
    = replicate (length pieces - 1) (Ok None) @ [final_of reg self lph pieces]"
proof -
  let ?m = "message lph seq pieces order"
  have "seq0 ` snd ` set ?m \<subseteq> {seq}" by (auto simp: message_def)
  then have "card (seq0 ` snd ` set ?m) \<le> card {seq}" by (intro card_mono) simp_all
  then have "card (seq0 ` snd ` set ?m) \<le> capacity" using assms(2) by simp
  from run_reass_fresh [OF assms(1,3) this] run_map_one [of ?m seq reg self Map.empty]
  show ?thesis using run_entry_message [OF assms(4-6)] by (simp add: message_def of_seq0_def)
qed

lemma final_of_packet:
  assumes "concat pieces = tlv_bytes t v" "t \<noteq> 0" "slice_ok (tlv_bytes t v)"
  shows "final_of reg self lph pieces
    = andthen (decodeL3 reg self (zero_Packet\<lparr>Lp := lph\<rparr>) t v) (\<lambda>full. Ok (Some full))"
  using DecodingBuffer_Element_tlv [OF assms(2) slice_ok_tlv_value [OF assms(3)], where rest = "[]"] assms(1)
  by (simp add: final_of_def decodePayload_def zero_Packet_def andthen_assoc)

lemma fragments_reassemble:
  assumes "packet_ok reg nn full" and "Fragment nn fragmenter full = (s, Ok frags)"
    and "length frags \<ge> 2" "length frags < 2 ^ 31" "room fragmenter < 2 ^ 62"
    and "distinct order" "set order = {..< length frags}"
    and "lru_laws lru contents capacity" "capacity \<ge> 1" "contents (pms reass) = Map.empty"
  shows "\<exists>arrived. map (\<lambda>i. over_wire reg nn self (frags ! i)) order = map Ok arrived
    \<and> (\<forall>pkt\<in>set arrived. p_Fragment pkt \<noteq> None)
    \<and> run_reass lru reg self reass (map (\<lambda>pkt. (Lp pkt, the (p_Fragment pkt))) arrived)
      = replicate (length frags - 1) (Ok None) @ [Ok (Some (packet_view nn self full))]"
proof -
  from assms(1) obtain reason t v where t: "t \<noteq> 0" "t \<noteq> TtLpPacket"
    and sl: "slice_ok (lp_value ((Lp full)\<lparr>NackReason := reason\<rparr>) t v)"
    and e: "encodeL3 nn full = (full\<lparr>l3digest := None, Lp := (Lp full)\<lparr>NackReason := reason\<rparr>\<rparr>,
       Ok (tlvs (lp_items ((Lp full)\<lparr>NackReason := reason\<rparr>)), tlv_bytes t v))"
    and d: "decodeL3 reg self (zero_Packet\<lparr>Lp := (Lp full)\<lparr>NackReason := reason\<rparr>\<rparr>) t v = Ok (packet_view nn self full)"
    by (rule packet_okE) blast
  define lph where "lph = (Lp full)\<lparr>NackReason := reason\<rparr>"
  define pieces where "pieces = pieces_of fragmenter (tlvs (lp_items lph)) (tlv_bytes t v)"
  let ?pkt = "\<lambda>i. zero_Packet\<lparr>Lp := lp_of lph i, p_Fragment := Some (frag_of (nextSeqNum fragmenter) pieces i)\<rparr>"
  from Fragment_cases [OF e _ assms(2), folded lph_def] assms(3)
  have room: "0 < room fragmenter - int (length (tlvs (lp_items lph)))"
    and frags: "frags = map (wire_frag lph (nextSeqNum fragmenter) pieces) [0 ..< length pieces]"
    by (auto simp: lph_def pieces_def)
  have n: "length frags = length pieces" by (simp add: frags)
  have "over_wire reg nn self (frags ! i) = Ok (?pkt i)" if "i < length pieces" for i
    using over_wire_frag [OF room assms(5) pieces_def that] assms(3,4) that by (simp add: frags)
  then have wire: "map (\<lambda>i. over_wire reg nn self (frags ! i)) order = map Ok (map ?pkt order)"
    using assms(7) n by simp
  have "slice_ok (tlv_bytes t v)"
    using sl by (simp add: lp_value_def slice_ok_def length_tlv_bytes Element_Size_def Element_Length_def)
  then have final: "final_of reg self lph pieces = Ok (Some (packet_view nn self full))"
    using final_of_packet [OF _ t(1), of pieces v reg self lph] pieces_of_props(1) [OF room, of "tlv_bytes t v"] d
    by (simp add: pieces_def lph_def)
  have "map (\<lambda>pkt. (Lp pkt, the (p_Fragment pkt))) (map ?pkt order) = message lph (nextSeqNum fragmenter) pieces order"
    by (simp add: message_def)
  with run_reass_message [OF assms(8-10,6), of pieces reg self lph] assms(3,7) n final
  have "run_reass lru reg self reass (map (\<lambda>pkt. (Lp pkt, the (p_Fragment pkt))) (map ?pkt order))
      = replicate (length frags - 1) (Ok None) @ [Ok (Some (packet_view nn self full))]" by simp
  moreover have "\<forall>pkt\<in>set (map ?pkt order). p_Fragment pkt \<noteq> None" by simp
  ultimately show ?thesis using wire by blast
qed

text \<open>
  C5 (Fragment_reassembles). A packet that the fragmenter splits is what the reassembler returns: when
  every fragment is sent, and arrives once, in any order, a reassembler with room for one message returns
  nothing for the fragments before the last and the packet for the last one.
\<close>

theorem Fragment_reassembles:
  assumes "packet_ok reg nn full" and "Fragment nn fragmenter full = (s, Ok frags)"
    and "length frags \<ge> 2" "length frags < 2 ^ 31" "room fragmenter < 2 ^ 62"
    and "distinct order" "set order = {..< length frags}"
    and "lru_laws lru contents capacity" "capacity \<ge> 1" "contents (pms reass) = Map.empty"
  shows "\<exists>arrived. map (\<lambda>i. over_wire reg nn self (frags ! i)) order = map Ok arrived
    \<and> run_reass lru reg self reass (map (\<lambda>pkt. (Lp pkt, the (p_Fragment pkt))) arrived)
      = replicate (length frags - 1) (Ok None) @ [Ok (Some (packet_view nn self full))]"
  using fragments_reassemble [OF assms] by blast

text \<open>An instance of the cache laws: an association list that never evicts.\<close>

definition list_lru :: "(u64 \<times> nat) list simplelru" where
  "list_lru = \<lparr>Get = (\<lambda>l k. (l, map_of l k)), Add = (\<lambda>l k v. (k, v) # l),
     Remove = (\<lambda>l k. filter (\<lambda>(k', v). k' \<noteq> k) l)\<rparr>"

lemma list_lru_laws: "lru_laws list_lru map_of capacity"
proof -
  have "map_of (filter (\<lambda>(k', v). k' \<noteq> k) l) = (map_of l)(k := None)" for l :: "(u64 \<times> nat) list" and k
    by (induction l) auto
  then show ?thesis by (simp add: lru_laws_def list_lru_def)
qed

theorem Fragment_reassembles_witness:
  "\<exists>s frags arrived. Fragment (0, 0, 0, 0) (NewLpFragmenter 7 46) sample_Packet = (s, Ok frags)
     \<and> map (\<lambda>i. over_wire (\<lambda>_. False) (0, 0, 0, 0) 3 (frags ! i)) [1, 0] = map Ok arrived
     \<and> run_reass list_lru (\<lambda>_. False) 3 \<lparr>pms = [], partials = []\<rparr> (map (\<lambda>pkt. (Lp pkt, the (p_Fragment pkt))) arrived)
       = [Ok None, Ok (Some (packet_view (0, 0, 0, 0) 3 sample_Packet))]"
proof -
  obtain s frags where f: "Fragment (0, 0, 0, 0) (NewLpFragmenter 7 46) sample_Packet = (s, Ok frags)"
    and n: "length frags = 2" using sample_Fragment by blast
  have "set [1, 0] = {..< length frags}" by (auto simp: n)
  from Fragment_reassembles [OF sample_Packet_ok f _ _ _ _ this list_lru_laws [of 1], of "\<lparr>pms = [], partials = []\<rparr>" 3] f
  show ?thesis by (auto simp: n NewLpFragmenter_def fragmentOverhead_def)
qed

text \<open>
  Reassembly_interleaved. With room in the cache for every message whose fragments are mixed in the
  input, the results of the fragments of one message are those of its fragments alone: nothing until the
  last of them, in whatever order, then the decoded concatenation of the pieces.
\<close>

theorem Reassembly_interleaved:
  assumes "lru_laws lru contents capacity" "contents (pms reass) = Map.empty"
    and "card (seq0 ` snd ` set xs) \<le> capacity"
    and "filter (of_seq0 seq) xs = message lph seq pieces order"
    and "distinct order" "set order = {..< length pieces}" "length pieces \<ge> 2"
  shows "map snd (filter (\<lambda>(x, r). of_seq0 seq x) (zip xs (run_reass lru reg self reass xs)))
    = replicate (length pieces - 1) (Ok None) @
        [andthen (decodePayload reg self (zero_Packet\<lparr>Lp := lph\<rparr>) (concat pieces)) (\<lambda>full. Ok (Some full))]"
  using run_map_interleaved [of seq xs reg self Map.empty] run_entry_message [OF assms(5-7)]
  by (simp add: run_reass_fresh [OF assms(1-3)] assms(4) final_of_def)

theorem Reassembly_interleaved_witness:
  "let p = [[6, 1], [0]]; other = (zero_LpL3, frag_of 50 [[1], [2], [3]] 2);
       xs = [(zero_LpL3, frag_of 10 p 1), other, (zero_LpL3, frag_of 10 p 0)]
   in map snd (filter (\<lambda>(x, r). of_seq0 10 x)
        (zip xs (run_reass list_lru (\<lambda>_. False) 3 \<lparr>pms = [], partials = []\<rparr> xs)))
      = [Ok None, andthen (decodePayload (\<lambda>_. False) 3 (zero_Packet\<lparr>Lp := zero_LpL3\<rparr>) [6, 1, 0]) (\<lambda>full. Ok (Some full))]"
proof -
  let ?p = "[[6, 1], [0]] :: bytes list"
  let ?other = "(zero_LpL3, frag_of 50 [[1], [2], [3]] 2)"
  let ?xs = "[(zero_LpL3, frag_of 10 ?p 1), ?other, (zero_LpL3, frag_of 10 ?p 0)]"
  have "filter (of_seq0 10) ?xs = message zero_LpL3 10 ?p [1, 0]"
    by (simp add: of_seq0_def message_def lp_of_def)
  moreover have "card (seq0 ` snd ` set ?xs) \<le> 2" by (simp add: card_insert_if)
  moreover have "set [1, 0] = {..< length ?p}" by auto
  ultimately show ?thesis
    using Reassembly_interleaved [OF list_lru_laws [of 2], of "\<lparr>pms = [], partials = []\<rparr>" ?xs 10 zero_LpL3 ?p "[1, 0]"]
    unfolding Let_def by simp
qed

text \<open>
  Reassembler_refines_partial_map. The reassembler, an LRU cache of pointers into memory, refines a
  map from message numbers to partial packets: while there is room, \<open>Accept\<close> does to the map what accepting
  the fragment on the entry of its message does, gives the same result, and keeps the pointers allocated
  and unshared.
\<close>

theorem Reassembler_refines_partial_map:
  assumes "lru_laws lru contents capacity" and "reass_inv contents reass"
    and "contents (pms reass) (seq0 frag) \<noteq> None \<or> card (dom (contents (pms reass))) < capacity"
    and "Reassembler_Accept lru reg self reass lph frag = (reass', r)"
  shows "reass_inv contents reass'
    \<and> map_Accept reg self (reass_map contents reass) (lph, frag) = (reass_map contents reass', r)"
  by (rule Reassembler_refines_map [OF assms])

theorem Reassembler_refines_partial_map_witness:
  "\<exists>reass' r. Reassembler_Accept list_lru (\<lambda>_. False) 3 \<lparr>pms = [], partials = []\<rparr> zero_LpL3 (frag_of 10 [[1], [2]] 0)
      = (reass', r)
     \<and> reass_inv map_of reass'
     \<and> map_Accept (\<lambda>_. False) 3 (reass_map map_of \<lparr>pms = [], partials = []\<rparr>) (zero_LpL3, frag_of 10 [[1], [2]] 0)
       = (reass_map map_of reass', r)"
proof -
  let ?e = "\<lparr>pms = [], partials = []\<rparr> :: (u64 \<times> nat) list LpReassembler"
  obtain reass' r where
    acc: "Reassembler_Accept list_lru (\<lambda>_. False) 3 ?e zero_LpL3 (frag_of 10 [[1], [2]] 0) = (reass', r)"
    by fastforce
  have "reass_inv map_of ?e" by (simp add: reass_inv_def)
  from Reassembler_refines_partial_map [OF list_lru_laws [of 1] this _ acc] acc show ?thesis by simp
qed

end
