(* ===== verification/Ndn_Make.thy ===== *)
theory Ndn_Make
  imports Ndn_Packet
begin

text \<open>
  The functions that follow the pointer from an Interest, Data or Nack to its Packet: \<open>MakeInterest\<close>,
  \<open>MakeData\<close>, \<open>MakeNack\<close>, the \<open>ToPacket\<close> methods, and \<open>ComputeDigest\<close>, \<open>FullName\<close> and \<open>CanSatisfy\<close>
  (\<open>ndn/interest.go\<close>, \<open>ndn/data.go\<close>, \<open>ndn/nack.go\<close>). The packets live in a store, a list indexed by address.
  The variadic arguments of the Make functions are datatypes with one constructor per accepted Go type; an
  argument of any other type panics. \<open>return interest\<close> copies the named result, while the Packet keeps
  pointing at the original, which is why the store holds its own value.
\<close>

type_synonym store = "Packet list"

definition new_packet :: "Packet \<Rightarrow> store \<Rightarrow> nat \<times> store" where
  "new_packet pkt st = (length st, st @ [pkt])"

subsection \<open>Interest\<close>

datatype InterestArg =
    IString bytes | IName Name | ICanBePrefix | IMustBeFresh | IForwardingHint ForwardingHint | INonce Nonce
  | IDuration Duration | IHopLimit HopLimit | IBytes bytes | ILpL3 LpL3 | IOther

definition MakeInterest_step :: "Interest \<times> LpL3 \<Rightarrow> InterestArg \<Rightarrow> (Interest \<times> LpL3) outcome" where
  "MakeInterest_step = (\<lambda>(interest, lp) arg.
     case arg of
       IString a \<Rightarrow> andthen (ParseName a) (\<lambda>n. Ok (interest\<lparr>i_Name := n\<rparr>, lp))
     | IName a \<Rightarrow> Ok (interest\<lparr>i_Name := a\<rparr>, lp)
     | ICanBePrefix \<Rightarrow> Ok (interest\<lparr>i_CanBePrefix := True\<rparr>, lp)
     | IMustBeFresh \<Rightarrow> Ok (interest\<lparr>i_MustBeFresh := True\<rparr>, lp)
     | IForwardingHint a \<Rightarrow> Ok (interest\<lparr>i_ForwardingHint := a\<rparr>, lp)
     | INonce a \<Rightarrow> Ok (interest\<lparr>i_Nonce := a\<rparr>, lp)
     | IDuration a \<Rightarrow> Ok (interest\<lparr>i_Lifetime := a\<rparr>, lp)
     | IHopLimit a \<Rightarrow> Ok (interest\<lparr>i_HopLimit := a\<rparr>, lp)
     | IBytes a \<Rightarrow> Ok (interest\<lparr>i_AppParameters := a\<rparr>, lp)
     | ILpL3 a \<Rightarrow> Ok (interest, inheritFrom lp a)
     | IOther \<Rightarrow> Panic)"

definition MakeInterest :: "InterestArg list \<Rightarrow> store \<Rightarrow> (Interest \<times> store) outcome" where
  "MakeInterest args st =
     andthen (forRange MakeInterest_step (zero_Interest\<lparr>i_packet := Some (length st)\<rparr>, zero_LpL3) args)
       (\<lambda>(interest, lp). Ok (interest, snd (new_packet (zero_Packet\<lparr>Lp := lp, p_Interest := Some interest\<rparr>) st)))"

definition Interest_ToPacket :: "Interest \<Rightarrow> store \<Rightarrow> nat \<times> store" where
  "Interest_ToPacket interest st =
     (case i_packet interest of
        Some a \<Rightarrow> (a, st)
      | None \<Rightarrow> new_packet (zero_Packet\<lparr>p_Interest := Some (interest\<lparr>i_packet := Some (length st)\<rparr>)\<rparr>) st)"

subsection \<open>Data\<close>

datatype DataArg =
    DString bytes | DName Name | DContentType ContentType | DDuration Duration | DFinalBlock NameComponent
  | DFinalBlockFlag | DBytes bytes | DLpL3 LpL3 | DInterest Interest | DOther

definition MakeData_interest :: "store \<Rightarrow> Data \<times> LpL3 \<Rightarrow> Interest \<Rightarrow> Data \<times> LpL3" where
  "MakeData_interest st = (\<lambda>(data, lp) a.
     let data = data\<lparr>d_Name := i_Name a\<rparr>;
         data = (if i_MustBeFresh a then data\<lparr>d_Freshness := 1 * Millisecond\<rparr> else data)
     in (data, case i_packet a of Some ipkt \<Rightarrow> inheritFrom lp (Lp (st ! ipkt)) | None \<Rightarrow> lp))"

definition MakeData_step ::
    "store \<Rightarrow> (Data \<times> LpL3) \<times> bool \<Rightarrow> DataArg \<Rightarrow> ((Data \<times> LpL3) \<times> bool) outcome" where
  "MakeData_step st = (\<lambda>((data, lp), hasFinalBlockFlag) arg.
     case arg of
       DString a \<Rightarrow> andthen (ParseName a) (\<lambda>n. Ok ((data\<lparr>d_Name := n\<rparr>, lp), hasFinalBlockFlag))
     | DName a \<Rightarrow> Ok ((data\<lparr>d_Name := a\<rparr>, lp), hasFinalBlockFlag)
     | DContentType a \<Rightarrow> Ok ((data\<lparr>d_ContentType := a\<rparr>, lp), hasFinalBlockFlag)
     | DDuration a \<Rightarrow> Ok ((data\<lparr>d_Freshness := a\<rparr>, lp), hasFinalBlockFlag)
     | DFinalBlock a \<Rightarrow> Ok ((data\<lparr>d_FinalBlock := a\<rparr>, lp), hasFinalBlockFlag)
     | DFinalBlockFlag \<Rightarrow> Ok ((data, lp), True)
     | DBytes a \<Rightarrow> Ok ((data\<lparr>d_Content := a\<rparr>, lp), hasFinalBlockFlag)
     | DLpL3 a \<Rightarrow> Ok ((data, inheritFrom lp a), hasFinalBlockFlag)
     | DInterest a \<Rightarrow> Ok (MakeData_interest st (data, lp) a, hasFinalBlockFlag)
     | DOther \<Rightarrow> Panic)"

definition MakeData :: "DataArg list \<Rightarrow> store \<Rightarrow> (Data \<times> store) outcome" where
  "MakeData args st =
     andthen (forRange (MakeData_step st) ((zero_Data\<lparr>d_packet := Some (length st)\<rparr>, zero_LpL3), False) args)
       (\<lambda>((data, lp), hasFinalBlockFlag).
          let data = (if hasFinalBlockFlag \<and> length (d_Name data) > 0
                      then data\<lparr>d_FinalBlock := Name_Get (d_Name data) (- 1)\<rparr> else data)
          in Ok (data, snd (new_packet (zero_Packet\<lparr>Lp := lp, p_Data := Some data\<rparr>) st)))"

definition Data_ToPacket :: "Data \<Rightarrow> store \<Rightarrow> nat \<times> store" where
  "Data_ToPacket data st =
     (case d_packet data of
        Some a \<Rightarrow> (a, st)
      | None \<Rightarrow> new_packet (zero_Packet\<lparr>p_Data := Some (data\<lparr>d_packet := Some (length st)\<rparr>)\<rparr>) st)"

text \<open>A nil digest is None. When the encoding fails, the assignment has already cleared \<open>l3value\<close>.\<close>

definition ComputeDigest :: "Data \<Rightarrow> store \<Rightarrow> bytes option \<times> store" where
  "ComputeDigest data st =
     (let (a, st) = (case d_packet data of
            Some a \<Rightarrow> (a, st)
          | None \<Rightarrow> new_packet (zero_Packet\<lparr>p_Data := Some (data\<lparr>d_packet := Some (length st)\<rparr>)\<rparr>) st);
          pkt = st ! a;
          r = (if l3type pkt \<noteq> TtData
               then andthen (EncodeValueOnly (Data_Field data)) (\<lambda>v. Ok (pkt\<lparr>l3value := v, l3type := TtData\<rparr>))
               else Ok pkt)
      in case r of
           Ok pkt \<Rightarrow>
             (case l3digest pkt of
                Some digest \<Rightarrow> (Some digest, st[a := pkt])
              | None \<Rightarrow>
                  (case Encode [TLVBytes TtData (l3value pkt)] of
                     Ok wire \<Rightarrow> (Some (Sum256 wire), st[a := pkt\<lparr>l3digest := Some (Sum256 wire)\<rparr>])
                   | _ \<Rightarrow> (None, st[a := pkt])))
         | _ \<Rightarrow> (None, st[a := pkt\<lparr>l3value := []\<rparr>]))"

definition FullName :: "Data \<Rightarrow> store \<Rightarrow> Name \<times> store" where
  "FullName data st =
     (case ComputeDigest data st of
        (digest, st) \<Rightarrow>
          (d_Name data @ [MakeNameComponent TtImplicitSha256DigestComponent (nil_bytes digest)], st))"

definition CanSatisfy :: "Data \<Rightarrow> Interest \<Rightarrow> store \<Rightarrow> bool \<times> store" where
  "CanSatisfy data interest st =
     (if length (i_Name interest) = 0 then (False, st)
      else if i_MustBeFresh interest \<and> d_Freshness data \<le> 0 then (False, st)
      else if Type (i_Name interest ! (length (i_Name interest) - 1)) = TtImplicitSha256DigestComponent then
        (case FullName data st of (fullName, st) \<Rightarrow> (Name_Equal (i_Name interest) fullName, st))
      else if i_CanBePrefix interest then (Name_IsPrefixOf (i_Name interest) (d_Name data), st)
      else (Name_Equal (i_Name interest) (d_Name data), st))"

text \<open>\<open>VerifyWith\<close> reads the packet of the Data.\<close>

definition Data_Verify_in :: "store \<Rightarrow> Data \<Rightarrow> verifier \<Rightarrow> unit outcome" where
  "Data_Verify_in st data verifier =
     Data_VerifyWith data (map_option (\<lambda>a. l3value (st ! a)) (d_packet data)) verifier"

subsection \<open>Nack\<close>

datatype NackArg = NReason u8 | NInt int | NInterest Interest | NLpL3 LpL3 | NOther

definition MakeNack_step :: "store \<Rightarrow> Nack \<times> LpL3 \<Rightarrow> NackArg \<Rightarrow> (Nack \<times> LpL3) outcome" where
  "MakeNack_step st = (\<lambda>(nack, lp) arg.
     case arg of
       NReason a \<Rightarrow> Ok (nack\<lparr>n_Reason := a\<rparr>, lp)
     | NInt a \<Rightarrow> Ok (nack\<lparr>n_Reason := of_int a\<rparr>, lp)
     | NInterest a \<Rightarrow>
         Ok (nack\<lparr>n_Interest := a\<lparr>i_packet := None\<rparr>\<rparr>,
             case i_packet a of Some ipkt \<Rightarrow> inheritFrom lp (Lp (st ! ipkt)) | None \<Rightarrow> lp)
     | NLpL3 a \<Rightarrow> Ok (nack, inheritFrom lp a)
     | NOther \<Rightarrow> Panic)"

definition MakeNack :: "NackArg list \<Rightarrow> store \<Rightarrow> (Nack \<times> store) outcome" where
  "MakeNack args st =
     andthen (forRange (MakeNack_step st)
         (\<lparr>n_packet = Some (length st), n_Reason = NackUnspecified, n_Interest = zero_Interest\<rparr>, zero_LpL3) args)
       (\<lambda>(nack, lp). Ok (nack, snd (new_packet (zero_Packet\<lparr>Lp := lp, p_Nack := Some nack\<rparr>) st)))"

definition Nack_ToPacket :: "Nack \<Rightarrow> store \<Rightarrow> nat \<times> store" where
  "Nack_ToPacket nack st =
     (case n_packet nack of
        Some a \<Rightarrow> (a, st)
      | None \<Rightarrow> new_packet (zero_Packet\<lparr>p_Nack := Some (nack\<lparr>n_packet := Some (length st)\<rparr>)\<rparr>) st)"

subsection \<open>Digests\<close>

lemma ComputeDigest_decoded:
  assumes "d_packet data = Some a" "a < length st" "l3type (st ! a) = TtData" "l3digest (st ! a) = None"
  shows "ComputeDigest data st =
    (Some (Sum256 (tlv_bytes TtData (l3value (st ! a)))),
     st[a := (st ! a)\<lparr>l3digest := Some (Sum256 (tlv_bytes TtData (l3value (st ! a))))\<rparr>])"
  using assms by (simp add: ComputeDigest_def Encode_encs Let_def)

lemma ComputeDigest_cached:
  assumes "d_packet data = Some a" "a < length st" "l3type (st ! a) = TtData" "l3digest (st ! a) = Some h"
  shows "ComputeDigest data st = (Some h, st)"
  using assms by (simp add: ComputeDigest_def)

lemma new_packet_nth [simp]: "snd (new_packet pkt st) ! length st = pkt" "length st < length (snd (new_packet pkt st))"
  by (simp_all add: new_packet_def)

lemma MakeData_packet:
  assumes "MakeData args st = Ok (data, st')"
  shows "d_packet data = Some (length st) \<and> length st < length st' \<and> p_Data (st' ! length st) = Some data
    \<and> l3type (st' ! length st) = 0 \<and> l3digest (st' ! length st) = None"
proof -
  from assms obtain s flag where
    loop: "forRange (MakeData_step st) ((zero_Data\<lparr>d_packet := Some (length st)\<rparr>, zero_LpL3), False) args = Ok (s, flag)"
    and res: "(data, st') = (let d = (if flag \<and> length (d_Name (fst s)) > 0
        then (fst s)\<lparr>d_FinalBlock := Name_Get (d_Name (fst s)) (- 1)\<rparr> else fst s)
        in (d, snd (new_packet (zero_Packet\<lparr>Lp := snd s, p_Data := Some d\<rparr>) st)))"
    by (auto simp: MakeData_def Let_def)
  have "d_packet (fst (fst (s, flag))) = Some (length st)"
    by (rule forRange_invariant [OF loop, where P = "\<lambda>x. d_packet (fst (fst x)) = Some (length st)"])
      (auto simp: MakeData_step_def MakeData_interest_def Let_def split: DataArg.splits)
  then show ?thesis using res by (auto simp: Let_def zero_Packet_def split: if_splits)
qed

lemma MakeInterest_packet:
  assumes "MakeInterest args st = Ok (interest, st')"
  shows "i_packet interest = Some (length st) \<and> length st < length st' \<and> p_Interest (st' ! length st) = Some interest"
proof -
  from assms obtain lp where
    loop: "forRange MakeInterest_step (zero_Interest\<lparr>i_packet := Some (length st)\<rparr>, zero_LpL3) args = Ok (interest, lp)"
    and res: "st' = snd (new_packet (zero_Packet\<lparr>Lp := lp, p_Interest := Some interest\<rparr>) st)"
    by (auto simp: MakeInterest_def)
  have "i_packet (fst (interest, lp)) = Some (length st)"
    by (rule forRange_invariant [OF loop, where P = "\<lambda>x. i_packet (fst x) = Some (length st)"])
      (auto simp: MakeInterest_step_def split: InterestArg.splits)
  then show ?thesis by (simp add: res)
qed

lemma Data_SignWith_packet: "Data_SignWith data signer = (data', Ok ()) \<Longrightarrow> d_packet data' = d_packet data"
  by (erule Data_SignWith_Ok) simp

lemma UpdateParamsDigest_packet [simp]: "i_packet (UpdateParamsDigest interest) = i_packet interest"
  by (simp add: UpdateParamsDigest_def Let_def split: prod.split)

lemma Interest_SignWith_packet:
  "Interest_SignWith interest signer = (interest', Ok ()) \<Longrightarrow> i_packet interest' = i_packet interest"
  by (erule Interest_SignWith_Ok) simp

subsection \<open>Properties\<close>

text \<open>
  FullName_names_wire. The full name of a Data that was decoded from a packet is its name followed by
  the SHA-256 digest of the packet's Data element; asking again gives the same name, and an Interest for a
  name that ends with an implicit digest is satisfied exactly when it is this one and freshness allows.
\<close>

theorem FullName_names_wire:
  assumes "d_packet data = Some a" "a < length st" "l3type (st ! a) = TtData" "l3digest (st ! a) = None"
    and "FullName data st = (fullName, st')"
    and "i_Name interest \<noteq> []" "Type (last (i_Name interest)) = TtImplicitSha256DigestComponent"
  shows "fullName = d_Name data @
      [\<lparr>Type = TtImplicitSha256DigestComponent, Value = Sum256 (tlv_bytes TtData (l3value (st ! a)))\<rparr>]
    \<and> FullName data st' = (fullName, st')
    \<and> CanSatisfy data interest st' =
        ((i_MustBeFresh interest \<longrightarrow> d_Freshness data > 0) \<and> i_Name interest = fullName, st')"
proof -
  let ?h = "Sum256 (tlv_bytes TtData (l3value (st ! a)))"
  have st': "st' = st[a := (st ! a)\<lparr>l3digest := Some ?h\<rparr>]"
    and full: "fullName = d_Name data @ [\<lparr>Type = TtImplicitSha256DigestComponent, Value = ?h\<rparr>]"
    using assms(5) ComputeDigest_decoded [OF assms(1-4)]
    by (simp_all add: FullName_def MakeNameComponent_def nil_bytes_def)
  have "ComputeDigest data st' = (Some ?h, st')"
    by (rule ComputeDigest_cached [OF assms(1)]) (simp_all add: st' assms(2,3) del: TtData_def)
  then have again: "FullName data st' = (fullName, st')"
    by (simp add: FullName_def full MakeNameComponent_def nil_bytes_def)
  have "i_Name interest ! (length (i_Name interest) - 1) = last (i_Name interest)"
    using assms(6) by (simp add: last_conv_nth)
  then show ?thesis using full again assms(6,7) by (auto simp: CanSatisfy_def)
qed

theorem FullName_names_wire_witness:
  "let data = sample_Data\<lparr>d_packet := Some 0\<rparr>; st = [zero_Packet\<lparr>l3type := TtData, l3value := [1]\<rparr>];
       (fullName, st') = FullName data st
   in fullName = [\<lparr>Type = 8, Value = [0x41]\<rparr>,
        \<lparr>Type = TtImplicitSha256DigestComponent, Value = Sum256 (tlv_bytes TtData [1])\<rparr>]
      \<and> CanSatisfy data (zero_Interest\<lparr>i_Name := fullName, i_MustBeFresh := True\<rparr>) st' = (True, st')"
proof -
  let ?d = "sample_Data\<lparr>d_packet := Some 0\<rparr>" and ?st = "[zero_Packet\<lparr>l3type := TtData, l3value := [1]\<rparr>]"
  obtain fullName st' where f: "FullName ?d ?st = (fullName, st')" by fastforce
  have st: "d_packet ?d = Some 0" "0 < length ?st" "l3type (?st ! 0) = TtData" "l3digest (?st ! 0) = None"
    by (simp_all add: zero_Packet_def)
  let ?c = "\<lparr>Type = TtImplicitSha256DigestComponent, Value = Sum256 (tlv_bytes TtData [1])\<rparr>"
  let ?i = "zero_Interest\<lparr>i_Name := [\<lparr>Type = 8, Value = [0x41]\<rparr>, ?c], i_MustBeFresh := True\<rparr>"
  have "fullName = [\<lparr>Type = 8, Value = [0x41]\<rparr>, ?c]" "CanSatisfy ?d ?i st' = (True, st')"
    using FullName_names_wire [OF st f, of ?i] by (simp_all add: sample_Data_def Millisecond_def)
  then show ?thesis unfolding Let_def f by simp
qed

text \<open>
  Reply_satisfies_interest. A Data made in reply to an Interest, with some content and no other
  argument, satisfies that Interest when its name is not empty and carries no implicit digest, and its
  packet has the PIT token and the congestion mark of the Interest's packet and no Nack.
\<close>

theorem Reply_satisfies_interest:
  assumes "i_packet interest = Some a" "a < length st" "i_Name interest \<noteq> []"
    and "Type (last (i_Name interest)) \<noteq> TtImplicitSha256DigestComponent"
  shows "\<exists>data st'. MakeData [DInterest interest, DBytes content] st = Ok (data, st')
    \<and> fst (CanSatisfy data interest st') \<and> d_Content data = content
    \<and> (let lp = Lp (st' ! fst (Data_ToPacket data st')) in PitToken lp = PitToken (Lp (st ! a))
        \<and> CongMark lp = CongMark (Lp (st ! a)) \<and> NackReason lp = NackNone)"
proof -
  have "i_Name interest ! (length (i_Name interest) - 1) = last (i_Name interest)"
    using assms(3) by (simp add: last_conv_nth)
  then show ?thesis
    using assms
    by (simp add: MakeData_def MakeData_step_def MakeData_interest_def Let_def CanSatisfy_def Data_ToPacket_def
        zero_Packet_def zero_LpL3_def zero_Data_def inheritFrom_def new_packet_def Millisecond_def)
qed

theorem Reply_satisfies_interest_witness:
  "\<exists>data st'. MakeData [DInterest (sample_Interest\<lparr>i_packet := Some 0\<rparr>), DBytes [7]]
      [zero_Packet\<lparr>Lp := \<lparr>PitToken = [0xA0], NackReason = 0, CongMark = 1\<rparr>\<rparr>] = Ok (data, st')
    \<and> fst (CanSatisfy data (sample_Interest\<lparr>i_packet := Some 0\<rparr>) st')"
  using Reply_satisfies_interest [of "sample_Interest\<lparr>i_packet := Some 0\<rparr>" 0
      "[zero_Packet\<lparr>Lp := \<lparr>PitToken = [0xA0], NackReason = 0, CongMark = 1\<rparr>\<rparr>]" "[7]"]
  by (auto simp: sample_Interest_def)

text \<open>
  C26 (Made_packet_misses_signature). Signing a Data made by \<open>MakeData\<close>, or an Interest made by
  \<open>MakeInterest\<close>, does not reach the packet that \<open>ToPacket\<close> then returns: the packet holds the Data or
  Interest as it was before signing.
\<close>

theorem Made_packet_misses_signature:
  "(MakeData dargs st = Ok (data, st') \<and> Data_SignWith data signer = (data', Ok ()) \<longrightarrow>
      p_Data (snd (Data_ToPacket data' st') ! fst (Data_ToPacket data' st')) = Some data)
   \<and> (MakeInterest iargs st = Ok (interest, st') \<and> Interest_SignWith interest signer = (interest', Ok ()) \<longrightarrow>
      p_Interest (snd (Interest_ToPacket interest' st') ! fst (Interest_ToPacket interest' st')) = Some interest)"
  using MakeData_packet [of dargs st data st'] MakeInterest_packet [of iargs st interest st']
    Data_SignWith_packet [of data signer data'] Interest_SignWith_packet [of interest signer interest']
  by (auto simp: Data_ToPacket_def Interest_ToPacket_def)

definition made_Data :: Data where
  "made_Data = zero_Data\<lparr>d_packet := Some 0, d_Name := [\<lparr>Type = 8, Value = [0x41]\<rparr>]\<rparr>"

lemma made_Data:
  "MakeData [DName [\<lparr>Type = 8, Value = [0x41]\<rparr>]] [] = Ok (made_Data, [zero_Packet\<lparr>p_Data := Some made_Data\<rparr>])"
  "data_ok (\<lambda>_. False) made_Data"
proof -
  show "MakeData [DName [\<lparr>Type = 8, Value = [0x41]\<rparr>]] [] = Ok (made_Data, [zero_Packet\<lparr>p_Data := Some made_Data\<rparr>])"
    by (simp add: MakeData_def MakeData_step_def made_Data_def new_packet_def zero_Packet_def Let_def)
  have "siginfo_items newNullSigInfo = [(TtSigType, NNI_Encode 0xC8 [])]"
    by (simp add: newNullSigInfo_def siginfo_items_def KeyLocator_Empty_def items_def)
  then show "data_ok (\<lambda>_. False) made_Data"
    using name_ok_sample
    by (simp add: data_ok_def made_Data_def zero_Data_def siginfo_opt_ok_def data_value_def signed_items_def
        meta_items_def NameComponent_Valid_def isValidNameComponentType_def siginfo_value_def name_value_def items_def
        invalidComponent_def length_simps)
qed

theorem Made_packet_misses_signature_witness:
  "\<exists>data st' data'. MakeData [DName [\<lparr>Type = 8, Value = [0x41]\<rparr>]] [] = Ok (data, st')
     \<and> Data_SignWith data digestSigner = (data', Ok ()) \<and> d_SigInfo data' \<noteq> None
     \<and> map_option d_SigInfo (p_Data (snd (Data_ToPacket data' st') ! fst (Data_ToPacket data' st'))) = Some None"
proof -
  let ?si = "newNullSigInfo\<lparr>si_Type := SigSha256, si_KeyLocator := zero_KeyLocator\<rparr>"
  have si: "siginfo_opt_ok (\<lambda>_. False) (Some ?si)"
    using zero_SigInfo_ok(1) [of "\<lambda>_. False"] by (simp add: siginfo_opt_ok_def newNullSigInfo_def)
  have "name_ok (d_Name made_Data)" using made_Data(2) by (simp add: data_ok_def)
  with si obtain portion where p: "Data_encodeSignedPortion (made_Data\<lparr>d_SigInfo := Some ?si\<rparr>) = Ok portion"
    using Data_encodeSignedPortion_items [of "made_Data\<lparr>d_SigInfo := Some ?si\<rparr>" "\<lambda>_. False"] by auto
  then have sign: "Data_SignWith made_Data digestSigner
      = (made_Data\<lparr>d_SigInfo := Some ?si, d_SigValue := Sum256 portion\<rparr>, Ok ())"
    by (simp add: Data_SignWith_def digestSigner_def made_Data_def zero_Data_def Let_def)
  have "d_SigInfo made_Data = None" by (simp add: made_Data_def zero_Data_def)
  then show ?thesis
    using Made_packet_misses_signature [of _ _ made_Data _ digestSigner "made_Data\<lparr>d_SigInfo := Some ?si, d_SigValue := Sum256 portion\<rparr>"]
      made_Data(1) sign by fastforce
qed

text \<open>
  Made_digest_is_cached. The comment of \<open>ComputeDigest\<close> says that the digest of a constructed Data is
  that of its current encoding and is not cached. For a Data made by \<open>MakeData\<close> the first call caches: a
  later call, after the Data was signed or changed in any other way, returns the first digest again.
\<close>

theorem Made_digest_is_cached:
  assumes "MakeData args st = Ok (data, st')" and "ComputeDigest data st' = (Some h, st'')"
    and "d_packet data' = d_packet data"
  shows "ComputeDigest data' st'' = (Some h, st'')"
proof -
  note made = MakeData_packet [OF assms(1)]
  from assms(2) made have "length st < length st''" "l3type (st'' ! length st) = TtData" "l3digest (st'' ! length st) = Some h"
    by (auto simp: ComputeDigest_def Let_def split: outcome.splits)
  then show ?thesis using made assms(3) by (intro ComputeDigest_cached) auto
qed

theorem Made_digest_is_cached_witness:
  "\<exists>data st' h st''. MakeData [DName [\<lparr>Type = 8, Value = [0x41]\<rparr>]] [] = Ok (data, st')
     \<and> ComputeDigest data st' = (Some h, st'') \<and> ComputeDigest (data\<lparr>d_Content := [1, 2, 3]\<rparr>) st'' = (Some h, st'')"
proof -
  have "EncodeValueOnly (Data_Field made_Data) = Ok (data_value made_Data)"
    using Data_encodeSignedPortion_items [of made_Data "\<lambda>_. False"] made_Data(2)
    by (simp add: Data_Field_def data_ok_def data_value_def)
  then obtain h st'' where "ComputeDigest made_Data [zero_Packet\<lparr>p_Data := Some made_Data\<rparr>] = (Some h, st'')"
    by (simp add: ComputeDigest_def Let_def made_Data_def zero_Packet_def Encode_encs)
  with Made_digest_is_cached [OF made_Data(1) this, of "made_Data\<lparr>d_Content := [1, 2, 3]\<rparr>"] made_Data(1)
  show ?thesis by auto
qed

end
