(* ===== verification/L3_Face.thy ===== *)
theory L3_Face
  imports Lp_Reassembly Ndn_Make
begin

text \<open>
  Network layer faces (\<open>ndn/l3/face.go\<close>, \<open>transport.go\<close>, \<open>transport-base.go\<close>). A face is a sending loop,
  which turns layer 3 packets into frames of at most the MTU of the transport, and a receiving loop, which
  decodes frames and reassembles packets. The bodies of the loops are functions of what they take from their
  channel; what they put on a channel is part of their result. The largest of two integers, from another
  package, is a parameter.
\<close>

subsection \<open>Transport\<close>

definition DefaultTransportRxQueueSize :: int where
  "DefaultTransportRxQueueSize = 64"

definition DefaultTransportTxQueueSize :: int where
  "DefaultTransportTxQueueSize = 64"

record TransportQueueConfig =
  RxQueueSize :: int
  TxQueueSize :: int

definition ApplyTransportQueueConfigDefaults :: "TransportQueueConfig \<Rightarrow> TransportQueueConfig" where
  "ApplyTransportQueueConfigDefaults cfg =
     (let cfg = (if RxQueueSize cfg \<le> 0 then cfg\<lparr>RxQueueSize := DefaultTransportRxQueueSize\<rparr> else cfg)
      in if TxQueueSize cfg \<le> 0 then cfg\<lparr>TxQueueSize := DefaultTransportTxQueueSize\<rparr> else cfg)"

datatype TransportState = TransportUp | TransportDown | TransportClosed

text \<open>The channels are given by their buffer sizes.\<close>

record TransportBase =
  tb_mtu :: int
  tb_rx :: int
  tb_tx :: int
  tb_state :: TransportState

definition NewTransportBase :: "TransportQueueConfig \<Rightarrow> int \<Rightarrow> TransportBase" where
  "NewTransportBase cfg mtu =
     (let cfg = ApplyTransportQueueConfigDefaults cfg
      in \<lparr>tb_mtu = mtu, tb_rx = RxQueueSize cfg, tb_tx = TxQueueSize cfg, tb_state = TransportUp\<rparr>)"

text \<open>The second result is the state that the emitter passes to the callbacks, if any.\<close>

definition SetState :: "TransportBase \<Rightarrow> TransportState \<Rightarrow> TransportBase \<times> TransportState option" where
  "SetState b st = (if tb_state b = st then (b, None) else (b\<lparr>tb_state := st\<rparr>, Some st))"

subsection \<open>L3Packet\<close>

text \<open>The dynamic types of the interface \<open>L3Packet\<close>; a \<open>*Packet\<close> is an address.\<close>

datatype L3Packet = L3Ptr nat | L3Interest Interest | L3Data Data | L3Nack Nack

definition ToPacket :: "L3Packet \<Rightarrow> store \<Rightarrow> nat \<times> store" where
  "ToPacket p st =
     (case p of
        L3Ptr a \<Rightarrow> (a, st)
      | L3Interest interest \<Rightarrow> Interest_ToPacket interest st
      | L3Data data \<Rightarrow> Data_ToPacket data st
      | L3Nack nack \<Rightarrow> Nack_ToPacket nack st)"

subsection \<open>Face\<close>

definition MinReassemblerCapacity :: int where
  "MinReassemblerCapacity = 16"

record FaceConfig =
  ReassemblerCapacity :: int

definition FaceConfig_applyDefaults :: "(int \<Rightarrow> int \<Rightarrow> int) \<Rightarrow> FaceConfig \<Rightarrow> FaceConfig" where
  "FaceConfig_applyDefaults maxInt cfg =
     cfg\<lparr>ReassemblerCapacity := maxInt (ReassemblerCapacity cfg) MinReassemblerCapacity\<rparr>"

record 'lru face =
  fragmenter :: "LpFragmenter option"
  reassembler :: "'lru LpReassembler"

text \<open>\<open>mtu\<close> is the MTU of the transport, \<open>rand\<close> the first sequence number.\<close>

definition NewFace :: "(int \<Rightarrow> int \<Rightarrow> int) \<Rightarrow> (int \<Rightarrow> 'lru) \<Rightarrow> u64 \<Rightarrow> int \<Rightarrow> FaceConfig \<Rightarrow> 'lru face" where
  "NewFace maxInt newLRU rand mtu cfg =
     (let cfg = FaceConfig_applyDefaults maxInt cfg
      in \<lparr>fragmenter = (if mtu > 0 then Some (NewLpFragmenter rand mtu) else None),
          reassembler = NewLpReassembler newLRU (ReassemblerCapacity cfg)\<rparr>)"

text \<open>The body of \<open>face.rxLoop\<close>, and the loop on a list of frames with the packets it passes on.\<close>

definition rxLoop_step ::
    "'lru simplelru \<Rightarrow> (u32 \<Rightarrow> bool) \<Rightarrow> nat \<Rightarrow> 'lru face \<times> Packet list \<Rightarrow> bytes \<Rightarrow> ('lru face \<times> Packet list) outcome"
  where
  "rxLoop_step lru reg self = (\<lambda>(f, rx) wire.
     case Decode wire (Packet_UnmarshalTLV reg self) of
       Panic \<Rightarrow> Panic
     | Fail e \<Rightarrow> Ok (f, rx)
     | Ok pkt \<Rightarrow>
         (case p_Fragment pkt of
            None \<Rightarrow> Ok (f, rx @ [pkt])
          | Some frag \<Rightarrow>
              (case Reassembler_Accept lru reg self (reassembler f) (Lp pkt) frag of
                 (reass, Panic) \<Rightarrow> Panic
               | (reass, Fail e) \<Rightarrow> Ok (f\<lparr>reassembler := reass\<rparr>, rx)
               | (reass, Ok None) \<Rightarrow> Ok (f\<lparr>reassembler := reass\<rparr>, rx)
               | (reass, Ok (Some full)) \<Rightarrow> Ok (f\<lparr>reassembler := reass\<rparr>, rx @ [full]))))"

definition face_rxLoop ::
    "'lru simplelru \<Rightarrow> (u32 \<Rightarrow> bool) \<Rightarrow> nat \<Rightarrow> 'lru face \<Rightarrow> bytes list \<Rightarrow> ('lru face \<times> Packet list) outcome" where
  "face_rxLoop lru reg self f wires = forRange (rxLoop_step lru reg self) (f, []) wires"

definition txFrames :: "Nonce \<Rightarrow> bytes list \<Rightarrow> Packet list \<Rightarrow> bytes list outcome" where
  "txFrames newNonce =
     forRange (\<lambda>transportTx frame.
       case EncodeFrom [snd (Packet_Field newNonce frame)] of
         Ok wire \<Rightarrow> Ok (transportTx @ [wire])
       | Fail e \<Rightarrow> Ok transportTx
       | Panic \<Rightarrow> Panic)"

text \<open>
  The body of \<open>face.txLoop\<close>. \<open>Fragment\<close> and the encoder each draw a nonce for an Interest that has none.
  Encoding changes the packet in memory; a packet that the fragmenter returns unsplit is encoded twice, and
  the second time changes nothing more.
\<close>

definition txLoop_step ::
    "Nonce \<Rightarrow> Nonce \<Rightarrow> 'lru face \<Rightarrow> store \<Rightarrow> L3Packet \<Rightarrow> ('lru face \<times> store) \<times> bytes list outcome" where
  "txLoop_step nonce1 nonce2 f st l3packet =
     (let (a, st) = ToPacket l3packet st; pkt = st ! a in
      case fragmenter f of
        None \<Rightarrow> ((f, st[a := fst (Packet_Field nonce2 pkt)]), txFrames nonce2 [] [pkt])
      | Some fr \<Rightarrow>
          (case Fragment nonce1 fr pkt of
             ((fr, pkt), Ok frags) \<Rightarrow> ((f\<lparr>fragmenter := Some fr\<rparr>, st[a := pkt]), txFrames nonce2 [] frags)
           | ((fr, pkt), Fail e) \<Rightarrow> ((f\<lparr>fragmenter := Some fr\<rparr>, st[a := pkt]), Ok [])
           | ((fr, pkt), Panic) \<Rightarrow> ((f\<lparr>fragmenter := Some fr\<rparr>, st[a := pkt]), Panic)))"

subsection \<open>The second encoding\<close>

lemma Packet_Field_again:
  assumes "encodeL3 nn pkt = (pkt', Ok r)" "p_Fragment pkt = None"
  shows "fst (Packet_Field nn' pkt') = pkt'"
proof -
  obtain f where f: "l3fielder nn pkt = Some (pkt', f)"
    using assms(1) by (auto simp: encodeL3_def onOk_Ok_iff split: option.splits prod.splits)
  then obtain f' where "l3fielder nn' pkt' = Some (pkt', f')"
    by (auto simp: l3fielder_def split: option.splits)
  then have "fst (encodeL3 nn' pkt') = pkt'"
    by (cases "EncodeFrom [f']"; cases "Encode (LpL3_encode (Lp pkt'))") (simp_all add: encodeL3_def)
  moreover have "p_Fragment pkt' = None" using encodeL3_again(2) [OF assms(1)] assms(2) by simp
  ultimately show ?thesis by (auto simp: Packet_Field_def split: outcome.splits prod.splits)
qed

subsection \<open>Delivery\<close>

text \<open>The unsplit packet, and the packet sent in one fragment.\<close>

lemma over_wire_packet:
  assumes "packet_ok reg nn pkt"
  shows "over_wire reg nn self pkt = Ok (packet_view nn self pkt)"
proof -
  from assms obtain reason t v where t: "t \<noteq> 0" "t \<noteq> TtLpPacket"
    and s: "slice_ok (lp_value ((Lp pkt)\<lparr>NackReason := reason\<rparr>) t v)"
    and e: "encodeL3 nn pkt = (pkt\<lparr>l3digest := None, Lp := (Lp pkt)\<lparr>NackReason := reason\<rparr>\<rparr>,
       Ok (tlvs (lp_items ((Lp pkt)\<lparr>NackReason := reason\<rparr>)), tlv_bytes t v))"
    and d: "decodeL3 reg self (zero_Packet\<lparr>Lp := (Lp pkt)\<lparr>NackReason := reason\<rparr>\<rparr>) t v = Ok (packet_view nn self pkt)"
    by (rule packet_okE) blast
  have "p_Fragment pkt = None" using assms by (simp add: packet_ok_def)
  then show ?thesis
    using Packet_Field_wire [OF _ e] Packet_decode_wire [OF t s, of reg self] d by (simp add: over_wire_def Encode_encs)
qed

lemma Packet_step_one:
  "forRange (Packet_step reg self) (zero_Packet, new_fragment)
      (elems_of [(TtLpSeqNum, be_bytes 8 seq), (TtFragIndex, NNI_Encode 0 []), (TtFragCount, NNI_Encode 1 [])] tail)
    = Ok (zero_Packet, new_fragment\<lparr>SeqNum := seq\<rparr>)"
proof -
  have "be_word (be_bytes 8 seq) = seq"
    by (simp only: be_word_be_bytes) (rule take_bit_word_eq_self, simp)
  then show ?thesis
    by (simp add: Packet_step_def Element_Length_def setFragment_def zero_Packet_def new_fragment_def Let_def)
qed

lemma over_wire_one:
  assumes "t \<noteq> 0" "slice_ok (tlvs (frag_items lph seq [tlv_bytes t v] 0))"
    and "decodeL3 reg self (zero_Packet\<lparr>Lp := lph\<rparr>) t v = Ok pkt"
  shows "over_wire reg nn self (wire_frag lph seq [tlv_bytes t v] 0) = Ok pkt"
proof -
  let ?xs = "frag_items lph seq [tlv_bytes t v] 0" and ?f = "new_fragment\<lparr>SeqNum := seq\<rparr>"
  have ok: "list_all tlv_ok ?xs"
    by (rule tlvs_ok [OF assms(2)]) (auto simp: frag_items_def lp_items_def)
  have "slice_ok (tlv_bytes t v)"
    using assms(2) by (simp add: frag_items_def slice_ok_def length_tlv_bytes Element_Size_def Element_Length_def)
  then have v: "slice_ok v" by (rule slice_ok_tlv_value)
  have zero: "Lp zero_Packet = zero_LpL3" "p_Fragment (zero_Packet\<lparr>Lp := lph\<rparr>) = None"
    by (simp_all add: zero_Packet_def)
  have items: "?xs = [(TtLpSeqNum, be_bytes 8 seq), (TtFragIndex, NNI_Encode 0 []), (TtFragCount, NNI_Encode 1 [])]
      @ lp_items lph @ [(TtLpPayload, tlv_bytes t v)]"
    by (simp add: frag_items_def)
  have "forRange (Packet_step reg self) (zero_Packet, new_fragment) (elems_of ?xs []) = Ok (pkt, ?f)"
    unfolding items elems_of_append forRange_append
    by (simp only: Packet_step_one Packet_step_header [OF zero(1)] Packet_step_payload [OF zero(2) assms(1) v]
        assms(3) andthen.simps)
  then have "decodeValue reg self zero_Packet (tlvs ?xs) = Ok pkt"
    unfolding decodeValue_def decodeElements_tlvs [OF ok] by (simp add: new_fragment_def)
  moreover have "lp_of lph 0 = lph" by (simp add: lp_of_def)
  ultimately show ?thesis
    using enc_wire_frag [of 0 "[tlv_bytes t v]" nn lph seq] assms(2)
    by (simp add: over_wire_def Encode_encs Decode_tlv Packet_UnmarshalTLV_def)
qed

text \<open>What the receiving loop passes on.\<close>

lemma rxLoop_packet:
  "Decode w (Packet_UnmarshalTLV reg self) = Ok pkt \<Longrightarrow> p_Fragment pkt = None \<Longrightarrow>
   face_rxLoop lru reg self f [w] = Ok (f, [pkt])"
  by (simp add: face_rxLoop_def rxLoop_step_def)

primrec somes :: "'a option list \<Rightarrow> 'a list" where
  "somes [] = []"
| "somes (r # rs) = (case r of None \<Rightarrow> somes rs | Some x \<Rightarrow> x # somes rs)"

lemma somes_last [simp]: "somes (replicate n None @ [Some x]) = [x]"
  by (induction n) simp_all

lemma rxLoop_frags:
  assumes "map (\<lambda>w. Decode w (Packet_UnmarshalTLV reg self)) ws = map Ok arrived"
    and "\<forall>pkt\<in>set arrived. p_Fragment pkt \<noteq> None"
    and "run_reass lru reg self (reassembler f) (map (\<lambda>pkt. (Lp pkt, the (p_Fragment pkt))) arrived) = map Ok rs"
  shows "\<exists>f'. forRange (rxLoop_step lru reg self) (f, rx) ws = Ok (f', rx @ somes rs)"
  using assms
proof (induction ws arbitrary: f rx arrived rs)
  case Nil
  then show ?case by simp
next
  case (Cons w ws)
  then obtain pkt arr frag where a: "arrived = pkt # arr" and d: "Decode w (Packet_UnmarshalTLV reg self) = Ok pkt"
    and frag: "p_Fragment pkt = Some frag" by (cases arrived) auto
  obtain reass r where acc: "Reassembler_Accept lru reg self (reassembler f) (Lp pkt) frag = (reass, r)" by fastforce
  with Cons.prems(3) a frag obtain r' rs' where rs: "rs = r' # rs'" "r = Ok r'"
    "run_reass lru reg self reass (map (\<lambda>pkt. (Lp pkt, the (p_Fragment pkt))) arr) = map Ok rs'"
    by auto
  have "rxLoop_step lru reg self (f, rx) w = Ok (f\<lparr>reassembler := reass\<rparr>, rx @ somes [r'])"
    by (cases r') (simp_all add: rxLoop_step_def d frag acc rs(2))
  moreover have "somes rs = somes [r'] @ somes rs'"
    by (cases r') (simp_all add: rs(1))
  ultimately show ?case
    using Cons.IH [of arr "f\<lparr>reassembler := reass\<rparr>" rs' "rx @ somes [r']"] Cons.prems(1,2) a rs(3)
    by simp
qed

text \<open>The sending loop. A header with a PIT token of at most 32 octets takes less than 49.\<close>

lemma length_header: "length (PitToken lph) \<le> 32 \<Longrightarrow> length (tlvs (lp_items lph)) \<le> 48"
proof -
  assume len: "length (PitToken lph) \<le> 32"
  then have "(of_nat (length (PitToken lph)) :: u64) < 0xFD"
    using unat_of_nat_le [of "length (PitToken lph)"] by (simp add: word_less_nat_alt)
  with len show ?thesis
    by (simp add: lp_items_def length_tlv_bytes Element_Size_def Element_Length_def VarNum_Size_def NNI_Encode_def)
qed

lemma txFrames_Ok:
  "\<forall>frame\<in>set frames. Encode [snd (Packet_Field nn frame)] = Ok (w frame) \<Longrightarrow>
   txFrames nn acc frames = Ok (acc @ map w frames)"
  by (induction frames arbitrary: acc) (simp_all add: txFrames_def EncodeFrom_encs Encode_encs)

text \<open>Frames that the receiving loop turns into one packet, whatever the order in which they arrive.\<close>

definition delivers ::
    "'lru simplelru \<Rightarrow> (u32 \<Rightarrow> bool) \<Rightarrow> nat \<Rightarrow> 'lru face \<Rightarrow> bytes list \<Rightarrow> Packet \<Rightarrow> bool" where
  "delivers lru reg self g wires pkt \<longleftrightarrow>
     (\<forall>order. distinct order \<and> set order = {..< length wires} \<longrightarrow>
        (\<exists>g'. face_rxLoop lru reg self g (map (nth wires) order) = Ok (g', [pkt])))"

lemma delivers_one:
  "Decode w (Packet_UnmarshalTLV reg self) = Ok pkt \<Longrightarrow> p_Fragment pkt = None \<Longrightarrow> delivers lru reg self g [w] pkt"
proof -
  assume d: "Decode w (Packet_UnmarshalTLV reg self) = Ok pkt" "p_Fragment pkt = None"
  have one: "order = [0]" if "distinct order" "set order = {..< length [w]}" for order
  proof -
    have set: "set order = {0}" using that(2) by (simp add: lessThan_Suc)
    then have "length order = Suc 0" using distinct_card [OF that(1)] by simp
    then obtain i where "order = [i]" by (metis length_0_conv length_Suc_conv)
    with set show ?thesis by simp
  qed
  have "\<exists>g'. face_rxLoop lru reg self g (map (nth [w]) order) = Ok (g', [pkt])"
    if "distinct order" "set order = {..< length [w]}" for order
    using rxLoop_packet [OF d, of lru g] by (simp add: one [OF that])
  then show ?thesis unfolding delivers_def by blast
qed

lemma over_wire_sent:
  "over_wire reg nn self pkt = Ok pkt' \<Longrightarrow>
   \<exists>w. Encode [snd (Packet_Field nn pkt)] = Ok w \<and> Decode w (Packet_UnmarshalTLV reg self) = Ok pkt'"
  by (auto simp: over_wire_def andthen_Ok_iff)

lemma packet_view_Fragment [simp]: "p_Fragment (packet_view nn self pkt) = None"
  by (simp add: packet_view_def zero_Packet_def split: option.split)

lemma sent_one:
  assumes "over_wire reg nn self frame = Ok (packet_view nn' self pkt)"
  shows "\<exists>wires. txFrames nn [] [frame] = Ok wires \<and> delivers lru reg self g wires (packet_view nn' self pkt)"
proof -
  obtain w where w: "Encode [snd (Packet_Field nn frame)] = Ok w"
    "Decode w (Packet_UnmarshalTLV reg self) = Ok (packet_view nn' self pkt)"
    using over_wire_sent [OF assms] by blast
  have "txFrames nn [] [frame] = Ok [w]" using w(1) txFrames_Ok [of "[frame]" nn "\<lambda>_. w" "[]"] by simp
  then show ?thesis using delivers_one [OF w(2) packet_view_Fragment] by blast
qed

lemma encoded_packet_ok:
  assumes "encodeL3 nn pkt = (pkt', Ok r)" "packet_ok reg nn' pkt"
  shows "packet_ok reg nn' pkt'" "packet_view nn' self pkt' = packet_view nn' self pkt"
proof -
  obtain f where "l3fielder nn pkt = Some (pkt', f)"
    using assms(1) by (auto simp: encodeL3_def onOk_Ok_iff split: option.splits prod.splits)
  then obtain reason where p: "pkt' = pkt\<lparr>l3digest := None, Lp := (Lp pkt)\<lparr>NackReason := reason\<rparr>\<rparr>"
    by (auto simp: l3fielder_def split: option.splits)
  then have same: "p_Fragment pkt' = p_Fragment pkt" "p_Interest pkt' = p_Interest pkt" "p_Data pkt' = p_Data pkt"
      "p_Nack pkt' = p_Nack pkt" "(Lp pkt')\<lparr>NackReason := r\<rparr> = (Lp pkt)\<lparr>NackReason := r\<rparr>" for r
    by simp_all
  show "packet_ok reg nn' pkt'" "packet_view nn' self pkt' = packet_view nn' self pkt"
    using assms(2) unfolding packet_ok_def packet_view_def l3_items_def l3_ok_def same by blast+
qed

lemma Fragment_progress:
  assumes "encodeL3 nn pkt = (pkt', Ok (header, payload))" "int (length header) < room fr"
  shows "\<exists>s frags. Fragment nn fr pkt = (s, Ok frags)"
  using assms by (auto simp: Fragment_def Let_def)

lemma split_delivery:
  assumes "packet_ok reg nn pkt" and "Fragment nn fr pkt = (s, Ok frags)" and "room fr < 2 ^ 62"
    and "length frags \<ge> 2" "length frags < 2 ^ 31"
    and "\<forall>frame\<in>set frags. p_Fragment frame \<noteq> None"
    and "lru_laws lru contents capacity" "capacity \<ge> 1" "contents (pms (reassembler g)) = Map.empty"
  shows "\<exists>wires. txFrames nn' [] frags = Ok wires \<and> delivers lru reg self g wires (packet_view nn self pkt)"
proof -
  let ?n = "length frags"
  have pf: "Packet_Field nn' frame = Packet_Field nn frame" if "frame \<in> set frags" for frame
    using assms(6) that by (auto simp: Packet_Field_def)
  note fr = fragments_reassemble [OF assms(1,2,4,5,3) _ _ assms(7-9), where self = self]
  from fr [of "[0 ..< ?n]"] obtain arrived where
    arr: "map (\<lambda>i. over_wire reg nn self (frags ! i)) [0 ..< ?n] = map Ok arrived"
    by (auto simp: atLeast0LessThan)
  then have len: "length arrived = ?n" by (metis length_map length_upt diff_zero)
  have "\<exists>w. Encode [snd (Packet_Field nn' frame)] = Ok w" if "frame \<in> set frags" for frame
  proof -
    from that obtain i where i: "i < ?n" "frame = frags ! i" by (metis in_set_conv_nth)
    then have "over_wire reg nn self frame = Ok (arrived ! i)"
      using arg_cong [OF arr, of "\<lambda>l. l ! i"] len by simp
    moreover note pf [OF that]
    ultimately show ?thesis using over_wire_sent [of reg nn self frame] by auto
  qed
  then obtain w where w: "\<forall>frame\<in>set frags. Encode [snd (Packet_Field nn' frame)] = Ok (w frame)" by metis
  have ow: "over_wire reg nn self (frags ! i) = Decode (map w frags ! i) (Packet_UnmarshalTLV reg self)" if "i < ?n" for i
  proof -
    have "Encode [snd (Packet_Field nn (frags ! i))] = Ok (w (frags ! i))" using w that pf by (metis nth_mem)
    then show ?thesis using that by (simp add: over_wire_def)
  qed
  have "\<exists>g'. face_rxLoop lru reg self g (map (nth (map w frags)) order) = Ok (g', [packet_view nn self pkt])"
    if o: "distinct order" "set order = {..< ?n}" for order
  proof -
    from fr [OF o] obtain arr where a: "map (\<lambda>i. over_wire reg nn self (frags ! i)) order = map Ok arr"
      "\<forall>pkt\<in>set arr. p_Fragment pkt \<noteq> None"
      and "run_reass lru reg self (reassembler g) (map (\<lambda>pkt. (Lp pkt, the (p_Fragment pkt))) arr)
        = replicate (?n - 1) (Ok None) @ [Ok (Some (packet_view nn self pkt))]" by blast
    then have run: "run_reass lru reg self (reassembler g) (map (\<lambda>pkt. (Lp pkt, the (p_Fragment pkt))) arr)
        = map Ok (replicate (?n - 1) None @ [Some (packet_view nn self pkt)])" by simp
    have "map (\<lambda>i. Decode (map w frags ! i) (Packet_UnmarshalTLV reg self)) order
        = map (\<lambda>i. over_wire reg nn self (frags ! i)) order"
      by (rule map_cong [OF refl]) (use o(2) ow in auto)
    then have "map (\<lambda>w. Decode w (Packet_UnmarshalTLV reg self)) (map (nth (map w frags)) order) = map Ok arr"
      using a(1) by (simp only: map_map comp_def)
    from rxLoop_frags [OF this a(2) run, of "[]"] show ?thesis by (simp add: face_rxLoop_def)
  qed
  then show ?thesis using txFrames_Ok [OF w] by (auto simp: delivers_def)
qed

lemma one_piece_delivery:
  assumes "t \<noteq> 0" "decodeL3 reg self (zero_Packet\<lparr>Lp := lph\<rparr>) t v = Ok (packet_view nn self pkt)"
    and "0 < room fr - int (length (tlvs (lp_items lph)))" "room fr < 2 ^ 62"
    and "pieces = pieces_of fr (tlvs (lp_items lph)) (tlv_bytes t v)" "length pieces = 1"
  shows "\<exists>wires. txFrames nn' [] (map (wire_frag lph seq pieces) [0 ..< length pieces]) = Ok wires
    \<and> delivers lru reg self g wires (packet_view nn self pkt)"
proof -
  have p: "pieces = [tlv_bytes t v]"
    using pieces_of_props(1) [OF assms(3), of "tlv_bytes t v", folded assms(5)] assms(6) by (cases pieces) auto
  have "length (tlv_bytes t v) + length (tlvs (lp_items lph)) \<le> nat (room fr)"
    using piece_room [OF assms(3), of 0 "tlv_bytes t v", folded assms(5)] by (simp add: p lp_of_def)
  then have "length ([tlv_bytes t v] ! 0) + length (tlvs (lp_items lph)) < 2 ^ 62" using assms(4) by simp
  from over_wire_one [OF assms(1) frag_items_slice_ok [OF this] assms(2)]
  have "over_wire reg nn' self (wire_frag lph seq [tlv_bytes t v] 0) = Ok (packet_view nn self pkt)" .
  from sent_one [OF this] show ?thesis by (simp add: p)
qed

lemma fragmented_delivery:
  assumes ok: "packet_ok reg nonce1 pkt" "packet_ok reg nonce2 pkt" and pit: "length (PitToken (Lp pkt)) \<le> 32"
    and room: "49 \<le> room fr" "room fr < 2 ^ 62"
    and lru: "lru_laws lru contents capacity" "capacity \<ge> 1" "contents (pms (reassembler g)) = Map.empty"
  shows "\<exists>s frags. Fragment nonce1 fr pkt = (s, Ok frags) \<and> (length frags < 2 ^ 31 \<longrightarrow>
    (\<exists>wires nn. txFrames nonce2 [] frags = Ok wires \<and> nn \<in> {nonce1, nonce2}
       \<and> delivers lru reg self g wires (packet_view nn self pkt)))"
proof -
  from ok(1) obtain reason t v where t: "t \<noteq> 0"
    and e: "encodeL3 nonce1 pkt = (pkt\<lparr>l3digest := None, Lp := (Lp pkt)\<lparr>NackReason := reason\<rparr>\<rparr>,
       Ok (tlvs (lp_items ((Lp pkt)\<lparr>NackReason := reason\<rparr>)), tlv_bytes t v))"
    and d: "decodeL3 reg self (zero_Packet\<lparr>Lp := (Lp pkt)\<lparr>NackReason := reason\<rparr>\<rparr>) t v
        = Ok (packet_view nonce1 self pkt)"
    by (rule packet_okE) blast
  define lph where "lph = (Lp pkt)\<lparr>NackReason := reason\<rparr>"
  define pkt' where "pkt' = pkt\<lparr>l3digest := None, Lp := lph\<rparr>"
  define pieces where "pieces = pieces_of fr (tlvs (lp_items lph)) (tlv_bytes t v)"
  have head: "int (length (tlvs (lp_items lph))) < room fr"
    using length_header [of lph] pit room(1) by (simp add: lph_def)
  note e = e [folded lph_def, folded pkt'_def] and d = d [folded lph_def]
  from Fragment_progress [OF e head] obtain s frags where f: "Fragment nonce1 fr pkt = (s, Ok frags)" by blast
  have "\<exists>wires nn. txFrames nonce2 [] frags = Ok wires \<and> nn \<in> {nonce1, nonce2}
      \<and> delivers lru reg self g wires (packet_view nn self pkt)" if n: "length frags < 2 ^ 31"
  proof -
    consider "frags = [pkt']" | "0 < room fr - int (length (tlvs (lp_items lph)))"
        "frags = map (wire_frag lph (nextSeqNum fr) pieces) [0 ..< length pieces]"
      using Fragment_cases [OF e _ f] by (auto simp: pkt'_def pieces_def)
    then show ?thesis
    proof cases
      case 1
      from over_wire_packet [OF encoded_packet_ok(1) [OF e ok(2)], of self]
      have "over_wire reg nonce2 self pkt' = Ok (packet_view nonce2 self pkt)"
        by (simp only: encoded_packet_ok(2) [OF e ok(2)])
      from sent_one [OF this] show ?thesis unfolding 1 by blast
    next
      case 2
      have len: "length frags = length pieces" "length pieces \<ge> 1"
        by (simp_all add: 2(2) pieces_def pieces_of_def Let_def)
      have "\<forall>frame\<in>set frags. p_Fragment frame \<noteq> None" by (auto simp: 2(2) wire_frag_def)
      note split = split_delivery [OF ok(1) f room(2) _ n this lru, of nonce2 self]
      show ?thesis
      proof (cases "length pieces = 1")
        case True
        from one_piece_delivery [OF t d 2(1) room(2) pieces_def True] show ?thesis unfolding 2(2) by blast
      next
        case False
        then have "2 \<le> length frags" using len by simp
        from split [OF this] show ?thesis by blast
      qed
    qed
  qed
  then show ?thesis using f by blast
qed

subsection \<open>Properties\<close>

text \<open>
  C13 (Face_delivers). Two faces joined by a transport. Take a packet whose PIT token has at most the 32
  octets of NDNLPv2, and a sending face without fragmentation or with an MTU of 75 or more (\<open>room\<close> is the
  MTU less the 26 octets of \<open>fragmentOverhead\<close>). The sending loop produces frames, and the receiving loop of a
  face with no partial packets, given these frames in any order, passes on exactly the packet: with the nonce
  drawn by one of the two encodings if it is an Interest that had none.
\<close>

theorem Face_delivers:
  assumes "ToPacket p st = (a, st')"
    and "packet_ok reg nonce1 (st' ! a)" "packet_ok reg nonce2 (st' ! a)" "length (PitToken (Lp (st' ! a))) \<le> 32"
    and "case fragmenter f of None \<Rightarrow> True | Some fr \<Rightarrow> 49 \<le> room fr \<and> room fr < 2 ^ 62
       \<and> (\<forall>s frags. Fragment nonce1 fr (st' ! a) = (s, Ok frags) \<longrightarrow> length frags < 2 ^ 31)"
    and "lru_laws lru contents capacity" "capacity \<ge> 1" "contents (pms (reassembler g)) = Map.empty"
  shows "\<exists>s wires nn. txLoop_step nonce1 nonce2 f st p = (s, Ok wires) \<and> nn \<in> {nonce1, nonce2}
    \<and> (\<forall>order. distinct order \<and> set order = {..< length wires} \<longrightarrow>
         (\<exists>g'. face_rxLoop lru reg self g (map (nth wires) order) = Ok (g', [packet_view nn self (st' ! a)])))"
proof (cases "fragmenter f")
  case None
  from sent_one [OF over_wire_packet [OF assms(3)]] obtain wires where
    w: "txFrames nonce2 [] [st' ! a] = Ok wires" "delivers lru reg self g wires (packet_view nonce2 self (st' ! a))"
    by blast
  have "txLoop_step nonce1 nonce2 f st p = ((f, st'[a := fst (Packet_Field nonce2 (st' ! a))]), Ok wires)"
    by (simp add: txLoop_step_def assms(1) None w(1))
  then show ?thesis using w(2) unfolding delivers_def by blast
next
  case (Some fr)
  with assms(5) have room: "49 \<le> room fr" "room fr < 2 ^ 62" by simp_all
  from fragmented_delivery [OF assms(2-4) room assms(6-8), of self] obtain fr' pkt frags where
    f: "Fragment nonce1 fr (st' ! a) = ((fr', pkt), Ok frags)"
    and d: "length frags < 2 ^ 31 \<longrightarrow> (\<exists>wires nn. txFrames nonce2 [] frags = Ok wires \<and> nn \<in> {nonce1, nonce2}
       \<and> delivers lru reg self g wires (packet_view nn self (st' ! a)))" by fast
  have "length frags < 2 ^ 31" using assms(5) f by (simp add: Some)
  with d obtain wires nn where w: "txFrames nonce2 [] frags = Ok wires" "nn \<in> {nonce1, nonce2}"
    "delivers lru reg self g wires (packet_view nn self (st' ! a))" by blast
  have "txLoop_step nonce1 nonce2 f st p = ((f\<lparr>fragmenter := Some fr'\<rparr>, st'[a := pkt]), Ok wires)"
    by (simp add: txLoop_step_def assms(1) Some f w(1))
  then show ?thesis using w(2,3) unfolding delivers_def by blast
qed

theorem Face_delivers_witness:
  "let f = NewFace max (\<lambda>_. []) 7 1400 \<lparr>ReassemblerCapacity = 0\<rparr>; nn = (0, 0, 0, 0)
   in \<exists>s wires. txLoop_step nn nn f [sample_Packet] (L3Ptr 0) = (s, Ok wires)
     \<and> (\<forall>order. distinct order \<and> set order = {..< length wires} \<longrightarrow>
          (\<exists>g'. face_rxLoop list_lru (\<lambda>_. False) 3 f (map (nth wires) order)
             = Ok (g', [packet_view nn 3 sample_Packet])))"
proof -
  let ?f = "NewFace max (\<lambda>_. []) 7 1400 \<lparr>ReassemblerCapacity = 0\<rparr> :: (u64 \<times> nat) list face"
  let ?fr = "NewLpFragmenter 7 1400" and ?nn = "(0, 0, 0, 0) :: Nonce"
  let ?w = "tlv_bytes TtData (data_value (sample_Data\<lparr>d_SigValue := []\<rparr>))"
  have len: "length ?w = 27" using length_sample_Data by (simp add: length_simps)
  have "encodeL3 ?nn sample_Packet = (sample_Packet, Ok ([], ?w))"
    using data_codec.enc_field [OF sample_Data_ok [of "[]" "\<lambda>_. False"]]
    by (simp add: encodeL3_def l3fielder_def sample_Packet_def zero_Packet_def zero_LpL3_def EncodeFrom_encs Encode_encs
        encs_LpL3 lp_items_def)
  then have frag: "Fragment ?nn ?fr sample_Packet = ((?fr, sample_Packet), Ok [sample_Packet])"
    using len by (simp add: Fragment_def NewLpFragmenter_def fragmentOverhead_def)
  have f: "fragmenter ?f = Some ?fr" "pms (reassembler ?f) = []"
    by (simp_all add: NewFace_def NewLpReassembler_def)
  have "length (PitToken (Lp ([sample_Packet] ! 0))) \<le> 32"
    by (simp add: sample_Packet_def zero_Packet_def zero_LpL3_def)
  moreover have "ToPacket (L3Ptr 0) [sample_Packet] = (0, [sample_Packet])" by (simp add: ToPacket_def)
  moreover have "packet_ok (\<lambda>_. False) ?nn ([sample_Packet] ! 0)" using sample_Packet_ok by simp
  moreover have "case fragmenter ?f of None \<Rightarrow> True | Some fr \<Rightarrow> 49 \<le> room fr \<and> room fr < 2 ^ 62
       \<and> (\<forall>s frags. Fragment ?nn fr ([sample_Packet] ! 0) = (s, Ok frags) \<longrightarrow> length frags < 2 ^ 31)"
    by (simp add: f(1) frag) (simp add: NewLpFragmenter_def fragmentOverhead_def)
  ultimately show ?thesis
    using Face_delivers [of "L3Ptr 0" "[sample_Packet]" 0 "[sample_Packet]" "\<lambda>_. False" ?nn ?nn ?f list_lru map_of 1 ?f 3]
      list_lru_laws [of 1] by (simp add: f(2) Let_def)
qed

end
