(* ===== verification/L3_Forwarder.thy ===== *)
theory L3_Forwarder
  imports L3_Face "HOL-Library.AList" "HOL-Library.Multiset"
begin

text \<open>
  The logical forwarding plane (\<open>ndn/l3/forwarder.go\<close>, \<open>fwface.go\<close>, \<open>readvertise.go\<close>). Objects of type
  \<open>fwFace\<close> are addressed by their position in \<open>fw_mem\<close>; the Go maps are association lists with distinct keys,
  and the order in which a loop ranges over a map is a parameter. Commands and received packets are handled
  one at a time by \<open>forwarder.loop\<close>, so a run is a sequence of events. What is sent on the \<open>tx\<close> channel of a
  face is appended to \<open>f_tx\<close>; the calls to readvertise destinations, each in a goroutine of its own, are
  appended to \<open>fw_log\<close> in the order in which they are started. The multimap, of another package, is a
  parameter, and so are the random numbers.
\<close>

subsection \<open>PIT tokens\<close>

definition tokenSize :: nat where
  "tokenSize = 4"

definition tokenInsertID :: "bytes \<Rightarrow> u32 \<Rightarrow> bytes" where
  "tokenInsertID oldToken fid =
     [byte_at (ucast fid) 0, byte_at (ucast fid) 8, byte_at (ucast fid) 16, byte_at (ucast fid) 24] @ oldToken"

definition tokenStripID :: "bytes \<Rightarrow> u32 \<times> bytes" where
  "tokenStripID token =
     (if length token < tokenSize then (0, [])
      else (ucast (be_word (rev (take 4 token)) :: u64), drop tokenSize token))"

subsection \<open>State\<close>

definition MaxFwFaces :: nat where
  "MaxFwFaces = 2 ^ 23"

definition ErrMaxFwFaces :: error where
  "ErrMaxFwFaces = ErrOther ''too many FwFaces''"

record fwFace =
  f_id :: u32
  f_open :: bool
  f_tx :: "Packet list"
  f_routes :: "(bytes \<times> Name) list"
  f_announcements :: "(bytes \<times> Name) list"

datatype readvertise = Advertise nat Name | Withdraw nat Name

record 'mm forwarder =
  fw_mem :: "fwFace list"
  fw_faces :: "(u32 \<times> nat) list"
  fw_announcements :: 'mm
  fw_readvertise :: "nat list"
  fw_log :: "readvertise list"

record 'mm multimap =
  mm_ContainsKey :: "'mm \<Rightarrow> bytes \<Rightarrow> bool"
  mm_Put :: "'mm \<Rightarrow> bytes \<Rightarrow> nat \<Rightarrow> 'mm"
  mm_Remove :: "'mm \<Rightarrow> bytes \<Rightarrow> nat \<Rightarrow> 'mm"

text \<open>\<open>newMM\<close> is what \<open>setmultimap.New\<close> returns.\<close>

definition NewForwarder :: "'mm \<Rightarrow> 'mm forwarder" where
  "NewForwarder newMM =
     \<lparr>fw_mem = [], fw_faces = [], fw_announcements = newMM, fw_readvertise = [], fw_log = []\<rparr>"

text \<open>The key of a name in the maps: its encoding, whose error is ignored, so that it is empty then.\<close>

definition nameS :: "Name \<Rightarrow> bytes" where
  "nameS name = (case Name_MarshalBinary name of Ok nameV \<Rightarrow> nameV | _ \<Rightarrow> [])"

definition set_face :: "nat \<Rightarrow> fwFace \<Rightarrow> 'mm forwarder \<Rightarrow> 'mm forwarder" where
  "set_face a f fw = fw\<lparr>fw_mem := (fw_mem fw)[a := f]\<rparr>"

subsection \<open>Routes and announcements\<close>

definition AddRoute :: "nat \<Rightarrow> Name \<Rightarrow> 'mm forwarder \<Rightarrow> 'mm forwarder" where
  "AddRoute a name fw =
     (let f = fw_mem fw ! a in set_face a (f\<lparr>f_routes := AList.update (nameS name) name (f_routes f)\<rparr>) fw)"

definition RemoveRoute :: "nat \<Rightarrow> Name \<Rightarrow> 'mm forwarder \<Rightarrow> 'mm forwarder" where
  "RemoveRoute a name fw =
     (let f = fw_mem fw ! a in set_face a (f\<lparr>f_routes := AList.delete (nameS name) (f_routes f)\<rparr>) fw)"

text \<open>The loop over the routes, in the order in which the map yields them.\<close>

fun lpm_loop :: "Name \<Rightarrow> (bytes \<times> Name) list \<Rightarrow> int" where
  "lpm_loop query [] = -1"
| "lpm_loop query ((k, name) # routes) =
     (if Name_IsPrefixOf name query then int (length name) else lpm_loop query routes)"

definition lpmRoute :: "((bytes \<times> Name) list \<Rightarrow> (bytes \<times> Name) list) \<Rightarrow> fwFace \<Rightarrow> Name \<Rightarrow> int" where
  "lpmRoute rangeR f query = lpm_loop query (rangeR (f_routes f))"

definition AddAnnouncement :: "'mm multimap \<Rightarrow> nat \<Rightarrow> Name \<Rightarrow> 'mm forwarder \<Rightarrow> 'mm forwarder" where
  "AddAnnouncement mm a name fw =
     (let f = fw_mem fw ! a;
          fw = set_face a (f\<lparr>f_announcements := AList.update (nameS name) name (f_announcements f)\<rparr>) fw;
          fw = (if \<not> mm_ContainsKey mm (fw_announcements fw) (nameS name)
                then fw\<lparr>fw_log := fw_log fw @ map (\<lambda>dest. Advertise dest name) (fw_readvertise fw)\<rparr>
                else fw)
      in fw\<lparr>fw_announcements := mm_Put mm (fw_announcements fw) (nameS name) a\<rparr>)"

definition removeAnnouncementImpl ::
    "'mm multimap \<Rightarrow> nat \<Rightarrow> Name \<Rightarrow> bytes \<Rightarrow> 'mm forwarder \<Rightarrow> 'mm forwarder" where
  "removeAnnouncementImpl mm a name key fw =
     (let f = fw_mem fw ! a;
          fw = set_face a (f\<lparr>f_announcements := AList.delete key (f_announcements f)\<rparr>) fw;
          fw = fw\<lparr>fw_announcements := mm_Remove mm (fw_announcements fw) key a\<rparr>
      in if \<not> mm_ContainsKey mm (fw_announcements fw) key
         then fw\<lparr>fw_log := fw_log fw @ map (\<lambda>dest. Withdraw dest name) (fw_readvertise fw)\<rparr>
         else fw)"

definition RemoveAnnouncement :: "'mm multimap \<Rightarrow> nat \<Rightarrow> Name \<Rightarrow> 'mm forwarder \<Rightarrow> 'mm forwarder" where
  "RemoveAnnouncement mm a name fw = removeAnnouncementImpl mm a name (nameS name) fw"

text \<open>Closing the channel of a face that is closed panics.\<close>

definition Close :: "'mm multimap \<Rightarrow> nat \<Rightarrow> 'mm forwarder \<Rightarrow> 'mm forwarder outcome" where
  "Close mm a fw =
     (let f = fw_mem fw ! a;
          fw = fold (\<lambda>(key, name). removeAnnouncementImpl mm a name key) (f_announcements f) fw;
          fw = fw\<lparr>fw_faces := AList.delete (f_id f) (fw_faces fw)\<rparr>;
          f = fw_mem fw ! a
      in if f_open f then Ok (set_face a (f\<lparr>f_open := False\<rparr>) fw) else Panic)"

subsection \<open>Faces and destinations\<close>

text \<open>
  The loop that draws an identifier, on the list of the numbers that the generator returns: None when they
  run out and the loop goes on.
\<close>

fun draw_id :: "(u32 \<times> nat) list \<Rightarrow> u32 \<Rightarrow> u32 list \<Rightarrow> u32 option" where
  "draw_id faces fid draws =
     (if fid = 0 \<or> map_of faces fid \<noteq> None
      then (case draws of [] \<Rightarrow> None | r # rs \<Rightarrow> draw_id faces r rs)
      else Some fid)"

declare draw_id.simps [simp del]

definition AddFace :: "u32 list \<Rightarrow> 'mm forwarder \<Rightarrow> ('mm forwarder \<times> nat outcome) option" where
  "AddFace draws fw =
     (let a = length (fw_mem fw);
          f = \<lparr>f_id = 0, f_open = True, f_tx = [], f_routes = [], f_announcements = []\<rparr>
      in if length (fw_faces fw) \<ge> MaxFwFaces then Some (fw, Fail ErrMaxFwFaces)
         else (case draw_id (fw_faces fw) (f_id f) draws of
                 None \<Rightarrow> None
               | Some fid \<Rightarrow>
                   Some (fw\<lparr>fw_mem := fw_mem fw @ [f\<lparr>f_id := fid\<rparr>],
                            fw_faces := AList.update fid a (fw_faces fw)\<rparr>, Ok a)))"

definition AddReadvertiseDestination :: "nat \<Rightarrow> 'mm forwarder \<Rightarrow> 'mm forwarder" where
  "AddReadvertiseDestination dest fw =
     (if dest \<in> set (fw_readvertise fw) then fw else fw\<lparr>fw_readvertise := fw_readvertise fw @ [dest]\<rparr>)"

definition RemoveReadvertiseDestination :: "nat \<Rightarrow> 'mm forwarder \<Rightarrow> 'mm forwarder" where
  "RemoveReadvertiseDestination dest fw =
     (if dest \<notin> set (fw_readvertise fw) then fw
      else fw\<lparr>fw_readvertise := filter (\<lambda>d. d \<noteq> dest) (fw_readvertise fw)\<rparr>)"

subsection \<open>Forwarding\<close>

text \<open>Sending on a closed channel panics.\<close>

definition fw_send :: "Packet \<Rightarrow> 'mm forwarder \<Rightarrow> nat \<Rightarrow> 'mm forwarder outcome" where
  "fw_send pkt fw a =
     (let f = fw_mem fw ! a in if f_open f then Ok (set_face a (f\<lparr>f_tx := f_tx f @ [pkt]\<rparr>) fw) else Panic)"

text \<open>The body of \<open>fwFace.rxLoop\<close>: None for a packet that is not passed to the forwarder.\<close>

definition fwFace_rx :: "fwFace \<Rightarrow> Packet \<Rightarrow> Packet option" where
  "fwFace_rx f pkt =
     (if p_Interest pkt \<noteq> None then Some (pkt\<lparr>Lp := (Lp pkt)\<lparr>PitToken := tokenInsertID (PitToken (Lp pkt)) (f_id f)\<rparr>\<rparr>)
      else if p_Data pkt \<noteq> None \<or> p_Nack pkt \<noteq> None then Some pkt
      else None)"

definition nexthops_step ::
    "((bytes \<times> Name) list \<Rightarrow> (bytes \<times> Name) list) \<Rightarrow> fwFace list \<Rightarrow> nat \<Rightarrow> Name
      \<Rightarrow> u32 \<times> nat \<Rightarrow> int \<times> nat list \<Rightarrow> int \<times> nat list" where
  "nexthops_step rangeR mem rxFace query = (\<lambda>(fid, f) (lpmLen, nexthops).
     if rxFace = f then (lpmLen, nexthops)
     else
       let matchLen = lpmRoute rangeR (mem ! f) query in
       if matchLen > lpmLen then (matchLen, [f])
       else if matchLen = lpmLen then (lpmLen, nexthops @ [f])
       else (lpmLen, nexthops))"

definition nexthops ::
    "((bytes \<times> Name) list \<Rightarrow> (bytes \<times> Name) list) \<Rightarrow> ((u32 \<times> nat) list \<Rightarrow> (u32 \<times> nat) list)
      \<Rightarrow> nat \<Rightarrow> Name \<Rightarrow> 'mm forwarder \<Rightarrow> nat list" where
  "nexthops rangeR rangeF rxFace query fw =
     snd (fold (nexthops_step rangeR (fw_mem fw) rxFace query) (rangeF (fw_faces fw)) (0, []))"

definition forwardInterest ::
    "((bytes \<times> Name) list \<Rightarrow> (bytes \<times> Name) list) \<Rightarrow> ((u32 \<times> nat) list \<Rightarrow> (u32 \<times> nat) list)
      \<Rightarrow> nat \<Rightarrow> Packet \<Rightarrow> Interest \<Rightarrow> 'mm forwarder \<Rightarrow> 'mm forwarder outcome" where
  "forwardInterest rangeR rangeF rxFace pkt interest fw =
     forRange (fw_send pkt) fw (nexthops rangeR rangeF rxFace (i_Name interest) fw)"

definition forwardDataNack :: "Packet \<Rightarrow> 'mm forwarder \<Rightarrow> 'mm forwarder outcome" where
  "forwardDataNack pkt fw =
     (let (fid, token) = tokenStripID (PitToken (Lp pkt)); pkt = pkt\<lparr>Lp := (Lp pkt)\<lparr>PitToken := token\<rparr>\<rparr>
      in case map_of (fw_faces fw) fid of None \<Rightarrow> Ok fw | Some f \<Rightarrow> fw_send pkt fw f)"

definition fw_loop_rx ::
    "((bytes \<times> Name) list \<Rightarrow> (bytes \<times> Name) list) \<Rightarrow> ((u32 \<times> nat) list \<Rightarrow> (u32 \<times> nat) list)
      \<Rightarrow> nat \<Rightarrow> Packet \<Rightarrow> 'mm forwarder \<Rightarrow> 'mm forwarder outcome" where
  "fw_loop_rx rangeR rangeF rxFace pkt fw =
     (case p_Interest pkt of
        Some interest \<Rightarrow> forwardInterest rangeR rangeF rxFace pkt interest fw
      | None \<Rightarrow> if p_Data pkt \<noteq> None \<or> p_Nack pkt \<noteq> None then forwardDataNack pkt fw else Ok fw)"

text \<open>What happens to the forwarder: a call of its interface, or a packet received on a face.\<close>

datatype fw_event =
    EvAddFace "u32 list"
  | EvAddRoute nat Name
  | EvRemoveRoute nat Name
  | EvAddAnnouncement nat Name
  | EvRemoveAnnouncement nat Name
  | EvClose nat
  | EvAddDest nat
  | EvRemoveDest nat
  | EvRx nat Packet

definition fw_exec ::
    "'mm multimap \<Rightarrow> ((bytes \<times> Name) list \<Rightarrow> (bytes \<times> Name) list) \<Rightarrow> ((u32 \<times> nat) list \<Rightarrow> (u32 \<times> nat) list)
      \<Rightarrow> 'mm forwarder \<Rightarrow> fw_event \<Rightarrow> 'mm forwarder outcome" where
  "fw_exec mm rangeR rangeF fw ev =
     (case ev of
        EvAddFace draws \<Rightarrow> (case AddFace draws fw of None \<Rightarrow> Ok fw | Some (fw, _) \<Rightarrow> Ok fw)
      | EvAddRoute a name \<Rightarrow> Ok (AddRoute a name fw)
      | EvRemoveRoute a name \<Rightarrow> Ok (RemoveRoute a name fw)
      | EvAddAnnouncement a name \<Rightarrow> Ok (AddAnnouncement mm a name fw)
      | EvRemoveAnnouncement a name \<Rightarrow> Ok (RemoveAnnouncement mm a name fw)
      | EvClose a \<Rightarrow> Close mm a fw
      | EvAddDest dest \<Rightarrow> Ok (AddReadvertiseDestination dest fw)
      | EvRemoveDest dest \<Rightarrow> Ok (RemoveReadvertiseDestination dest fw)
      | EvRx a pkt \<Rightarrow>
          (case fwFace_rx (fw_mem fw ! a) pkt of
             None \<Rightarrow> Ok fw
           | Some pkt \<Rightarrow> fw_loop_rx rangeR rangeF a pkt fw))"

subsection \<open>Runs and invariants\<close>

text \<open>What \<open>setmultimap\<close> promises: a set of pairs of a key and a value.\<close>

definition mm_laws :: "'mm multimap \<Rightarrow> ('mm \<Rightarrow> (bytes \<times> nat) set) \<Rightarrow> bool" where
  "mm_laws mm contents \<longleftrightarrow>
     (\<forall>m k. mm_ContainsKey mm m k \<longleftrightarrow> k \<in> fst ` contents m)
   \<and> (\<forall>m k v. contents (mm_Put mm m k v) = insert (k, v) (contents m))
   \<and> (\<forall>m k v. contents (mm_Remove mm m k v) = contents m - {(k, v)})"

text \<open>
  A call on a face uses a pointer that \<open>AddFace\<close> returned, and a face is closed once. A run is a sequence of
  such events, each handled without a panic.
\<close>

definition fw_ev_ok :: "'mm forwarder \<Rightarrow> fw_event \<Rightarrow> bool" where
  "fw_ev_ok fw ev =
     (case ev of
        EvAddRoute a name \<Rightarrow> a < length (fw_mem fw)
      | EvRemoveRoute a name \<Rightarrow> a < length (fw_mem fw)
      | EvAddAnnouncement a name \<Rightarrow> a < length (fw_mem fw)
      | EvRemoveAnnouncement a name \<Rightarrow> a < length (fw_mem fw)
      | EvClose a \<Rightarrow> a < length (fw_mem fw) \<and> f_open (fw_mem fw ! a)
      | EvRx a pkt \<Rightarrow> a < length (fw_mem fw)
      | _ \<Rightarrow> True)"

inductive fw_run ::
    "'mm multimap \<Rightarrow> ((bytes \<times> Name) list \<Rightarrow> (bytes \<times> Name) list) \<Rightarrow> ((u32 \<times> nat) list \<Rightarrow> (u32 \<times> nat) list)
      \<Rightarrow> 'mm forwarder \<Rightarrow> fw_event list \<Rightarrow> 'mm forwarder \<Rightarrow> bool"
  for mm rangeR rangeF fw where
  fw_run_Nil: "fw_run mm rangeR rangeF fw [] fw"
| fw_run_step: "fw_run mm rangeR rangeF fw evs fw1 \<Longrightarrow> fw_ev_ok fw1 ev \<Longrightarrow>
    fw_exec mm rangeR rangeF fw1 ev = Ok fw2 \<Longrightarrow> fw_run mm rangeR rangeF fw (evs @ [ev]) fw2"

text \<open>The map of faces holds the open faces under their identifiers, which are not zero.\<close>

definition faces_ok :: "'mm forwarder \<Rightarrow> bool" where
  "faces_ok fw \<longleftrightarrow> distinct (map fst (fw_faces fw)) \<and> length (fw_faces fw) \<le> MaxFwFaces
     \<and> map_of (fw_faces fw) 0 = None
     \<and> (\<forall>i a. map_of (fw_faces fw) i = Some a \<longleftrightarrow>
          a < length (fw_mem fw) \<and> f_open (fw_mem fw ! a) \<and> f_id (fw_mem fw ! a) = i)"

text \<open>The multimap holds the announcements of all faces, each under the key of its name.\<close>

definition keys_ok :: "(bytes \<times> Name) list \<Rightarrow> bool" where
  "keys_ok al \<longleftrightarrow> list_all (\<lambda>(k, name). k = nameS name) al"

definition ann_ok :: "('mm \<Rightarrow> (bytes \<times> nat) set) \<Rightarrow> 'mm forwarder \<Rightarrow> bool" where
  "ann_ok contents fw \<longleftrightarrow>
     (\<forall>k a. (k, a) \<in> contents (fw_announcements fw) \<longleftrightarrow>
        a < length (fw_mem fw) \<and> k \<in> fst ` set (f_announcements (fw_mem fw ! a)))
   \<and> (\<forall>a < length (fw_mem fw). keys_ok (f_announcements (fw_mem fw ! a)))"

text \<open>Changing the other parts of a face keeps both.\<close>

lemma set_face_simps [simp]:
  "fw_mem (set_face a f fw) = (fw_mem fw)[a := f]" "fw_faces (set_face a f fw) = fw_faces fw"
  "fw_announcements (set_face a f fw) = fw_announcements fw" "fw_readvertise (set_face a f fw) = fw_readvertise fw"
  "fw_log (set_face a f fw) = fw_log fw"
  by (simp_all add: set_face_def)

lemma faces_ok_set_face:
  assumes "faces_ok fw" "f_id f = f_id (fw_mem fw ! a)" "f_open f = f_open (fw_mem fw ! a)"
  shows "faces_ok (set_face a f fw)"
proof -
  have "f_id ((fw_mem fw)[a := f] ! b) = f_id (fw_mem fw ! b) \<and> f_open ((fw_mem fw)[a := f] ! b) = f_open (fw_mem fw ! b)"
    for b using assms(2,3) by (cases "a = b"; cases "a < length (fw_mem fw)") (simp_all add: list_update_beyond)
  then show ?thesis using assms(1) by (simp add: faces_ok_def)
qed

lemma ann_ok_set_face:
  assumes "ann_ok contents fw" "f_announcements f = f_announcements (fw_mem fw ! a)"
  shows "ann_ok contents (set_face a f fw)"
proof -
  have "f_announcements ((fw_mem fw)[a := f] ! b) = f_announcements (fw_mem fw ! b)" for b
    using assms(2) by (cases "a = b"; cases "a < length (fw_mem fw)") (simp_all add: list_update_beyond)
  then show ?thesis using assms(1) by (simp add: ann_ok_def)
qed

lemma faces_ok_cong:
  "fw_mem fw' = fw_mem fw \<Longrightarrow> fw_faces fw' = fw_faces fw \<Longrightarrow> faces_ok fw \<Longrightarrow> faces_ok fw'"
  by (simp add: faces_ok_def)

lemma ann_ok_cong:
  "fw_mem fw' = fw_mem fw \<Longrightarrow> fw_announcements fw' = fw_announcements fw \<Longrightarrow> ann_ok contents fw \<Longrightarrow> ann_ok contents fw'"
  by (simp add: ann_ok_def)

lemma keys_update [simp]: "fst ` set (AList.update k v al) = insert k (fst ` set al)"
  by (induction al) auto

lemma keys_delete [simp]: "fst ` set (AList.delete k al) = fst ` set al - {k}"
  by (auto simp: AList.delete_eq image_iff)

lemma keys_ok_update: "keys_ok al \<Longrightarrow> keys_ok (AList.update (nameS name) name al)"
  by (induction al) (simp_all add: keys_ok_def split: prod.splits)

lemma keys_ok_delete: "keys_ok al \<Longrightarrow> keys_ok (AList.delete k al)"
  by (induction al) (simp_all add: keys_ok_def split: prod.splits)

lemma ann_ok_update:
  assumes "ann_ok contents fw" "fw_mem fw' = (fw_mem fw)[a := f]" "a < length (fw_mem fw)"
    and "\<And>k b. (k, b) \<in> contents (fw_announcements fw') \<longleftrightarrow>
      (if b = a then k \<in> fst ` set (f_announcements f) else (k, b) \<in> contents (fw_announcements fw))"
    and "keys_ok (f_announcements f)"
  shows "ann_ok contents fw'"
proof -
  have nth: "(fw_mem fw)[a := f] ! b = (if b = a then f else fw_mem fw ! b)" for b
    using assms(3) by simp
  show ?thesis using assms(1,3,5) by (simp add: ann_ok_def assms(2,4) nth)
qed

lemma AddAnnouncement_simps:
  "fw_mem (AddAnnouncement mm a name fw) = (fw_mem fw)[a := (fw_mem fw ! a)\<lparr>f_announcements :=
     AList.update (nameS name) name (f_announcements (fw_mem fw ! a))\<rparr>]"
  "fw_faces (AddAnnouncement mm a name fw) = fw_faces fw"
  "fw_readvertise (AddAnnouncement mm a name fw) = fw_readvertise fw"
  "fw_announcements (AddAnnouncement mm a name fw) = mm_Put mm (fw_announcements fw) (nameS name) a"
  by (simp_all add: AddAnnouncement_def Let_def)

lemma AddAnnouncement_ok:
  assumes "mm_laws mm contents" "a < length (fw_mem fw)" "ann_ok contents fw" "faces_ok fw"
  shows "ann_ok contents (AddAnnouncement mm a name fw)" "faces_ok (AddAnnouncement mm a name fw)"
proof -
  let ?f = "(fw_mem fw ! a)\<lparr>f_announcements := AList.update (nameS name) name (f_announcements (fw_mem fw ! a))\<rparr>"
  let ?fw = "AddAnnouncement mm a name fw"
  show "faces_ok ?fw"
    by (rule faces_ok_cong [OF _ _ faces_ok_set_face [OF assms(4), of ?f a]]) (simp_all add: AddAnnouncement_simps)
  have "keys_ok (f_announcements ?f)" using assms(2,3) by (simp add: ann_ok_def keys_ok_update)
  then show "ann_ok contents ?fw"
    using assms(1-3)
    by (intro ann_ok_update [OF assms(3) AddAnnouncement_simps(1) assms(2)])
      (simp_all add: AddAnnouncement_simps mm_laws_def ann_ok_def)
qed

lemma removeAnnouncementImpl_simps:
  "fw_mem (removeAnnouncementImpl mm a name key fw) = (fw_mem fw)[a := (fw_mem fw ! a)\<lparr>f_announcements :=
     AList.delete key (f_announcements (fw_mem fw ! a))\<rparr>]"
  "fw_faces (removeAnnouncementImpl mm a name key fw) = fw_faces fw"
  "fw_readvertise (removeAnnouncementImpl mm a name key fw) = fw_readvertise fw"
  "fw_announcements (removeAnnouncementImpl mm a name key fw) = mm_Remove mm (fw_announcements fw) key a"
  by (simp_all add: removeAnnouncementImpl_def Let_def)

lemma removeAnnouncementImpl_ok:
  assumes "mm_laws mm contents" "a < length (fw_mem fw)" "ann_ok contents fw" "faces_ok fw"
  shows "ann_ok contents (removeAnnouncementImpl mm a name key fw)"
    "faces_ok (removeAnnouncementImpl mm a name key fw)"
proof -
  let ?fw = "removeAnnouncementImpl mm a name key fw"
  let ?f = "(fw_mem fw ! a)\<lparr>f_announcements := AList.delete key (f_announcements (fw_mem fw ! a))\<rparr>"
  show "faces_ok ?fw"
    by (rule faces_ok_cong [OF _ _ faces_ok_set_face [OF assms(4), of ?f a]]) (simp_all add: removeAnnouncementImpl_simps)
  have "keys_ok (f_announcements ?f)" using assms(2,3) by (simp add: ann_ok_def keys_ok_delete)
  then show "ann_ok contents ?fw"
    using assms(1-3)
    by (intro ann_ok_update [OF assms(3) removeAnnouncementImpl_simps(1) assms(2)])
      (auto simp: removeAnnouncementImpl_simps mm_laws_def ann_ok_def)
qed

text \<open>Closing a face.\<close>

lemma faces_ok_iff:
  "faces_ok fw \<Longrightarrow> map_of (fw_faces fw) i = Some a \<longleftrightarrow>
     a < length (fw_mem fw) \<and> f_open (fw_mem fw ! a) \<and> f_id (fw_mem fw ! a) = i"
  by (simp add: faces_ok_def)

lemma face_unique:
  assumes "faces_ok fw" "a < length (fw_mem fw)" "f_open (fw_mem fw ! a)" "b < length (fw_mem fw)" "f_open (fw_mem fw ! b)"
    and "f_id (fw_mem fw ! a) = f_id (fw_mem fw ! b)"
  shows "a = b"
proof -
  have "map_of (fw_faces fw) (f_id (fw_mem fw ! b)) = Some a"
    by (rule iffD2 [OF faces_ok_iff [OF assms(1)]]) (rule conjI [OF assms(2) conjI [OF assms(3,6)]])
  moreover have "map_of (fw_faces fw) (f_id (fw_mem fw ! b)) = Some b"
    by (rule iffD2 [OF faces_ok_iff [OF assms(1)]]) (rule conjI [OF assms(4) conjI [OF assms(5) refl]])
  ultimately show ?thesis by (metis option.inject)
qed

lemma remove_all_ok:
  assumes "mm_laws mm contents" "a < length (fw_mem fw)" "ann_ok contents fw" "faces_ok fw"
    and "fw' = fold (\<lambda>(key, name). removeAnnouncementImpl mm a name key) xs fw"
  shows "ann_ok contents fw' \<and> faces_ok fw' \<and> length (fw_mem fw') = length (fw_mem fw) \<and> fw_faces fw' = fw_faces fw
    \<and> map f_id (fw_mem fw') = map f_id (fw_mem fw) \<and> map f_open (fw_mem fw') = map f_open (fw_mem fw)"
  using assms(2-5)
proof (induction xs arbitrary: fw)
  case (Cons x xs)
  obtain key name where x: "x = (key, name)" by fastforce
  let ?fw = "removeAnnouncementImpl mm a name key fw"
  have "map f_id (fw_mem ?fw) = map f_id (fw_mem fw)" "map f_open (fw_mem ?fw) = map f_open (fw_mem fw)"
    using Cons.prems(1) by (simp_all add: removeAnnouncementImpl_simps map_update list_update_same_conv)
  then show ?case
    using Cons.IH [of ?fw] removeAnnouncementImpl_ok [OF assms(1) Cons.prems(1-3)] Cons.prems
    by (simp add: x removeAnnouncementImpl_simps)
qed simp

lemma Close_ok:
  assumes "mm_laws mm contents" "a < length (fw_mem fw)" "ann_ok contents fw" "faces_ok fw" "f_open (fw_mem fw ! a)"
  obtains fw' where "Close mm a fw = Ok fw'" "ann_ok contents fw'" "faces_ok fw'"
    "map f_id (fw_mem fw') = map f_id (fw_mem fw)"
proof -
  define f where "f = fw_mem fw ! a"
  define fw1 where "fw1 = fold (\<lambda>(key, name). removeAnnouncementImpl mm a name key) (f_announcements f) fw"
  define f1 where "f1 = fw_mem fw1 ! a"
  define fw2 where "fw2 = set_face a (f1\<lparr>f_open := False\<rparr>) (fw1\<lparr>fw_faces := AList.delete (f_id f) (fw_faces fw1)\<rparr>)"
  from remove_all_ok [OF assms(1-4) fw1_def] have ok: "ann_ok contents fw1" "faces_ok fw1"
    and len: "length (fw_mem fw1) = length (fw_mem fw)"
    and ids: "map f_id (fw_mem fw1) = map f_id (fw_mem fw)" "map f_open (fw_mem fw1) = map f_open (fw_mem fw)" by simp_all
  have f1: "f_open f1" "f_id f1 = f_id f"
    using arg_cong [OF ids(1), of "\<lambda>l. l ! a"] arg_cong [OF ids(2), of "\<lambda>l. l ! a"] assms(2,5) len
    by (simp_all add: f1_def f_def)
  have cl: "Close mm a fw = Ok fw2"
    using f1(1) by (simp add: Close_def Let_def fw2_def fw1_def f1_def f_def)
  have "ann_ok contents (fw1\<lparr>fw_faces := AList.delete (f_id f) (fw_faces fw1)\<rparr>)"
    by (rule ann_ok_cong [OF _ _ ok(1)]) simp_all
  then have ann: "ann_ok contents fw2" unfolding fw2_def by (rule ann_ok_set_face) (simp add: f1_def)
  have nth: "fw_mem fw2 ! b = (if b = a then f1\<lparr>f_open := False\<rparr> else fw_mem fw1 ! b)" for b
    using assms(2) len by (simp add: fw2_def)
  have faces: "map_of (fw_faces fw2) = (map_of (fw_faces fw1))(f_id f := None)"
    by (simp add: fw2_def AList.delete_conv')
  have len2: "length (fw_mem fw2) = length (fw_mem fw1)" by (simp add: fw2_def)
  have a1: "a < length (fw_mem fw1)" using assms(2) len by simp
  have "map_of (fw_faces fw2) i = Some b \<longleftrightarrow>
      b < length (fw_mem fw2) \<and> f_open (fw_mem fw2 ! b) \<and> f_id (fw_mem fw2 ! b) = i" for i b
  proof (cases "b = a")
    case True
    then show ?thesis using f1(2) by (simp add: faces nth faces_ok_iff [OF ok(2)] f1_def)
  next
    case False
    then have "\<not> (b < length (fw_mem fw1) \<and> f_open (fw_mem fw1 ! b) \<and> f_id (fw_mem fw1 ! b) = f_id f)"
      using face_unique [OF ok(2) a1, of b] f1 unfolding f1_def by metis
    then show ?thesis using False by (auto simp: faces nth faces_ok_iff [OF ok(2)] len2)
  qed
  moreover have "length (fw_faces fw2) \<le> MaxFwFaces"
    using ok(2) AList.length_delete_le [of "f_id f" "fw_faces fw1"] by (simp add: fw2_def faces_ok_def)
  moreover have "distinct (map fst (fw_faces fw2))" using ok(2) by (simp add: fw2_def faces_ok_def distinct_delete)
  moreover have "map_of (fw_faces fw2) 0 = None" using ok(2) by (simp add: faces faces_ok_def)
  ultimately have "faces_ok fw2" by (simp only: faces_ok_def) blast
  moreover have "map f_id (fw_mem fw2) = map f_id (fw_mem fw)"
    using assms(2) len ids(1) f1(2) by (simp add: fw2_def map_update f_def list_update_same_conv)
  ultimately show thesis using that cl ann by blast
qed

text \<open>Adding a face.\<close>

lemma draw_id_simps:
  "draw_id faces i [] = (if i = 0 \<or> map_of faces i \<noteq> None then None else Some i)"
  "draw_id faces i (r # rs) = (if i = 0 \<or> map_of faces i \<noteq> None then draw_id faces r rs else Some i)"
  by (simp_all add: draw_id.simps)

lemma draw_id_Some: "draw_id faces i draws = Some i' \<Longrightarrow> i' \<noteq> 0 \<and> map_of faces i' = None"
  by (induction draws arbitrary: i) (auto simp: draw_id_simps split: if_splits)

lemma draw_id_returns:
  "r \<in> set draws \<Longrightarrow> r \<noteq> 0 \<Longrightarrow> map_of faces r = None \<Longrightarrow> \<exists>i'. draw_id faces i draws = Some i'"
proof (induction draws arbitrary: i)
  case (Cons d draws)
  then show ?case by (cases "d = r"; cases draws) (auto simp: draw_id_simps)
qed simp

lemma length_update_new: "map_of al k = None \<Longrightarrow> length (AList.update k v al) = Suc (length al)"
  by (induction al) (auto split: if_splits)

lemma AddFace_ok:
  assumes "AddFace draws fw = Some (fw', r)" "faces_ok fw" "ann_ok contents fw"
  shows "faces_ok fw'" "ann_ok contents fw'" "\<forall>a < length (fw_mem fw). fw_mem fw' ! a = fw_mem fw ! a"
    "length (fw_mem fw) \<le> length (fw_mem fw')"
proof -
  consider "fw' = fw" | i where "length (fw_faces fw) < MaxFwFaces" "draw_id (fw_faces fw) 0 draws = Some i"
      "fw' = fw\<lparr>fw_mem := fw_mem fw @ [\<lparr>f_id = i, f_open = True, f_tx = [], f_routes = [], f_announcements = []\<rparr>],
         fw_faces := AList.update i (length (fw_mem fw)) (fw_faces fw)\<rparr>"
    using assms(1) by (auto simp: AddFace_def Let_def not_le split: if_splits option.splits)
  then have "faces_ok fw' \<and> ann_ok contents fw' \<and> (\<forall>a < length (fw_mem fw). fw_mem fw' ! a = fw_mem fw ! a)
    \<and> length (fw_mem fw) \<le> length (fw_mem fw')"
  proof cases
    case 2
    from draw_id_Some [OF 2(2)] have i: "i \<noteq> 0" "map_of (fw_faces fw) i = None" by simp_all
    have len: "length (fw_faces fw') \<le> MaxFwFaces"
      using 2(1) length_update_new [OF i(2)] by (simp add: 2(3))
    have faces: "map_of (fw_faces fw') = (map_of (fw_faces fw))(i \<mapsto> length (fw_mem fw))"
      by (simp add: 2(3) AList.update_conv')
    have "map_of (fw_faces fw') j = Some b \<longleftrightarrow>
        b < length (fw_mem fw') \<and> f_open (fw_mem fw' ! b) \<and> f_id (fw_mem fw' ! b) = j" for j b
    proof (cases "b = length (fw_mem fw)")
      case True
      then show ?thesis using assms(2) i(2) unfolding faces by (auto simp: 2(3) faces_ok_def)
    next
      case False
      then have b: "b < length (fw_mem fw') \<longleftrightarrow> b < length (fw_mem fw)" by (auto simp: 2(3))
      have "b < length (fw_mem fw) \<Longrightarrow> fw_mem fw' ! b = fw_mem fw ! b" by (simp add: 2(3) nth_append)
      moreover have "map_of (fw_faces fw) j = Some b \<longleftrightarrow>
          b < length (fw_mem fw) \<and> f_open (fw_mem fw ! b) \<and> f_id (fw_mem fw ! b) = j"
        by (rule faces_ok_iff [OF assms(2)])
      ultimately show ?thesis using False i(2) unfolding faces b by auto
    qed
    then have "faces_ok fw'"
      using assms(2) i(1) len unfolding faces_ok_def faces by (simp add: 2(3) distinct_update)
    moreover have "ann_ok contents fw'"
      using assms(3) unfolding ann_ok_def by (auto simp: 2(3) nth_append keys_ok_def less_Suc_eq)
    ultimately show ?thesis by (simp add: 2(3) nth_append)
  qed (use assms(2,3) in simp)
  then show "faces_ok fw'" "ann_ok contents fw'" "\<forall>a < length (fw_mem fw). fw_mem fw' ! a = fw_mem fw ! a"
    "length (fw_mem fw) \<le> length (fw_mem fw')" by simp_all
qed

text \<open>Sending.\<close>

definition sent :: "Packet \<Rightarrow> nat list \<Rightarrow> fwFace list \<Rightarrow> fwFace list" where
  "sent pkt ns mem = map (\<lambda>b. (mem ! b)\<lparr>f_tx := f_tx (mem ! b) @ replicate (count_list ns b) pkt\<rparr>) [0 ..< length mem]"

lemma sent_simps [simp]:
  "length (sent pkt ns mem) = length mem"
  "b < length mem \<Longrightarrow> sent pkt ns mem ! b = (mem ! b)\<lparr>f_tx := f_tx (mem ! b) @ replicate (count_list ns b) pkt\<rparr>"
  by (simp_all add: sent_def)

lemma sent_Cons:
  assumes "b < length mem"
  shows "sent pkt ns (mem[b := (mem ! b)\<lparr>f_tx := f_tx (mem ! b) @ [pkt]\<rparr>]) = sent pkt (b # ns) mem"
  using assms by (intro nth_equalityI) (auto simp: nth_list_update)

lemma forRange_send:
  assumes "\<forall>b\<in>set ns. b < length (fw_mem fw) \<and> f_open (fw_mem fw ! b)"
  shows "forRange (fw_send pkt) fw ns = Ok (fw\<lparr>fw_mem := sent pkt ns (fw_mem fw)\<rparr>)"
  using assms
proof (induction ns arbitrary: fw)
  case Nil
  have "sent pkt [] (fw_mem fw) = fw_mem fw" by (rule nth_equalityI) simp_all
  then show ?case by simp
next
  case (Cons b ns)
  let ?f = "(fw_mem fw ! b)\<lparr>f_tx := f_tx (fw_mem fw ! b) @ [pkt]\<rparr>"
  have b: "b < length (fw_mem fw)" "f_open (fw_mem fw ! b)" using Cons.prems by simp_all
  have "\<forall>c\<in>set ns. c < length (fw_mem (set_face b ?f fw)) \<and> f_open (fw_mem (set_face b ?f fw) ! c)"
    using Cons.prems b by (auto simp: nth_list_update)
  from Cons.IH [OF this] b sent_Cons [OF b(1), of pkt ns] show ?case
    by (simp add: fw_send_def Let_def set_face_def)
qed

lemma sent_ok:
  assumes "faces_ok fw" "ann_ok contents fw"
  shows "faces_ok (fw\<lparr>fw_mem := sent pkt ns (fw_mem fw)\<rparr>)" "ann_ok contents (fw\<lparr>fw_mem := sent pkt ns (fw_mem fw)\<rparr>)"
  using assms by (simp_all add: faces_ok_def ann_ok_def cong: conj_cong)

lemma nexthops_step_set:
  "set (snd (fold (nexthops_step rangeR mem rx q) xs (l, ns))) \<subseteq> set ns \<union> {f. f \<noteq> rx \<and> f \<in> snd ` set xs}"
proof (induction xs arbitrary: l ns)
  case (Cons x xs)
  obtain i f where x: "x = (i, f)" by fastforce
  obtain l' ns' where step: "nexthops_step rangeR mem rx q x (l, ns) = (l', ns')" by fastforce
  then have "set ns' \<subseteq> set ns \<union> {g. g \<noteq> rx \<and> g = f}"
    by (auto simp: nexthops_step_def x Let_def split: if_splits)
  then show ?case using Cons.IH [of l' ns'] step x by auto
qed simp

lemma nexthops_open:
  assumes "faces_ok fw" "visits_all rangeF" "b \<in> set (nexthops rangeR rangeF rx q fw)"
  shows "b < length (fw_mem fw)" "f_open (fw_mem fw ! b)" "b \<noteq> rx"
proof -
  have "b \<noteq> rx \<and> b \<in> snd ` set (fw_faces fw)"
    using visits_all_set [OF assms(2)] assms(3) nexthops_step_set [of rangeR "fw_mem fw" rx q "rangeF (fw_faces fw)" 0 "[]"]
    by (auto simp: nexthops_def)
  then obtain i where i: "(i, b) \<in> set (fw_faces fw)" and "b \<noteq> rx" by auto
  then have "map_of (fw_faces fw) i = Some b" using assms(1) by (simp add: faces_ok_def)
  then show "b < length (fw_mem fw)" "f_open (fw_mem fw ! b)" "b \<noteq> rx" using \<open>b \<noteq> rx\<close> faces_ok_iff [OF assms(1)] by blast+
qed

lemma forwardInterest_sent:
  assumes "faces_ok fw" "visits_all rangeF"
  shows "forwardInterest rangeR rangeF rx pkt interest fw
    = Ok (fw\<lparr>fw_mem := sent pkt (nexthops rangeR rangeF rx (i_Name interest) fw) (fw_mem fw)\<rparr>)"
  unfolding forwardInterest_def using nexthops_open [OF assms] by (intro forRange_send) blast

lemma forwardDataNack_sent:
  assumes "faces_ok fw" "tokenStripID (PitToken (Lp pkt)) = (i, token)"
  shows "forwardDataNack pkt fw = Ok (case map_of (fw_faces fw) i of None \<Rightarrow> fw
    | Some f \<Rightarrow> fw\<lparr>fw_mem := sent (pkt\<lparr>Lp := (Lp pkt)\<lparr>PitToken := token\<rparr>\<rparr>) [f] (fw_mem fw)\<rparr>)"
proof (cases "map_of (fw_faces fw) i")
  case None
  then show ?thesis by (simp add: forwardDataNack_def assms(2))
next
  case (Some f)
  then have "f < length (fw_mem fw) \<and> f_open (fw_mem fw ! f)" using faces_ok_iff [OF assms(1)] by blast
  then show ?thesis
    using forRange_send [of "[f]" fw "pkt\<lparr>Lp := (Lp pkt)\<lparr>PitToken := token\<rparr>\<rparr>"] Some
    by (cases "fw_send (pkt\<lparr>Lp := (Lp pkt)\<lparr>PitToken := token\<rparr>\<rparr>) fw f")
      (simp_all add: forwardDataNack_def assms(2))
qed

lemma fw_rx_ok:
  assumes "faces_ok fw" "ann_ok contents fw" "visits_all rangeF"
  obtains pkt' ns where "fw_exec mm rangeR rangeF fw (EvRx a pkt) = Ok (fw\<lparr>fw_mem := sent pkt' ns (fw_mem fw)\<rparr>)"
proof -
  have none: "fw = fw\<lparr>fw_mem := sent pkt' [] (fw_mem fw)\<rparr>" for pkt'
  proof -
    have "sent pkt' [] (fw_mem fw) = fw_mem fw" by (rule nth_equalityI) simp_all
    then show ?thesis by simp
  qed
  have dn: "\<exists>pkt' ns. forwardDataNack p fw = Ok (fw\<lparr>fw_mem := sent pkt' ns (fw_mem fw)\<rparr>)" for p
  proof -
    obtain i token where t: "tokenStripID (PitToken (Lp p)) = (i, token)" by fastforce
    show ?thesis
      using forwardDataNack_sent [OF assms(1) t] none by (cases "map_of (fw_faces fw) i") (simp, metis, auto)
  qed
  have "\<exists>pkt' ns. fw_exec mm rangeR rangeF fw (EvRx a pkt) = Ok (fw\<lparr>fw_mem := sent pkt' ns (fw_mem fw)\<rparr>)"
  proof (cases "fwFace_rx (fw_mem fw ! a) pkt")
    case None
    then show ?thesis using none by (simp add: fw_exec_def) metis
  next
    case (Some p)
    then have "fw_exec mm rangeR rangeF fw (EvRx a pkt) = fw_loop_rx rangeR rangeF a p fw" by (simp add: fw_exec_def)
    moreover have "\<exists>pkt' ns. fw_loop_rx rangeR rangeF a p fw = Ok (fw\<lparr>fw_mem := sent pkt' ns (fw_mem fw)\<rparr>)"
      using forwardInterest_sent [OF assms(1,3)] dn [of p] none
      by (cases "p_Interest p"; cases "p_Data p \<noteq> None \<or> p_Nack p \<noteq> None") (simp_all add: fw_loop_rx_def, (metis | blast)+)
    ultimately show ?thesis by simp
  qed
  then show thesis using that by blast
qed

text \<open>Every event keeps the invariants and the identifiers of the faces, without a panic.\<close>

definition keeps_ids :: "'mm forwarder \<Rightarrow> 'mm forwarder \<Rightarrow> bool" where
  "keeps_ids fw fw' \<longleftrightarrow> length (fw_mem fw) \<le> length (fw_mem fw')
     \<and> (\<forall>a < length (fw_mem fw). f_id (fw_mem fw' ! a) = f_id (fw_mem fw ! a))"

lemma keeps_ids_map: "map f_id (fw_mem fw') = map f_id (fw_mem fw) \<Longrightarrow> keeps_ids fw fw'"
  unfolding keeps_ids_def by (metis length_map nth_map order_refl)

lemma keeps_ids_set_face: "f_id f = f_id (fw_mem fw ! a) \<Longrightarrow> keeps_ids fw (set_face a f fw)"
  by (cases "a < length (fw_mem fw)") (simp_all add: keeps_ids_def nth_list_update list_update_beyond)

lemma keeps_ids_trans: "keeps_ids fw fw1 \<Longrightarrow> keeps_ids fw1 fw2 \<Longrightarrow> keeps_ids fw fw2"
  by (auto simp: keeps_ids_def)

lemma readvertise_update [simp]:
  "faces_ok (fw\<lparr>fw_readvertise := ds\<rparr>) = faces_ok fw" "ann_ok contents (fw\<lparr>fw_readvertise := ds\<rparr>) = ann_ok contents fw"
  by (simp_all only: faces_ok_def ann_ok_def forwarder.simps) simp_all

lemma fw_exec_ok:
  assumes "mm_laws mm contents" "visits_all rangeF" "faces_ok fw" "ann_ok contents fw" "fw_ev_ok fw ev"
  shows "\<exists>fw'. fw_exec mm rangeR rangeF fw ev = Ok fw' \<and> faces_ok fw' \<and> ann_ok contents fw' \<and> keeps_ids fw fw'"
proof (cases ev)
  case (EvAddFace draws)
  then show ?thesis
  proof (cases "AddFace draws fw")
    case None
    then show ?thesis using assms(3,4) EvAddFace by (simp add: fw_exec_def keeps_ids_def)
  next
    case (Some p)
    then obtain fw' r where p: "AddFace draws fw = Some (fw', r)" by (cases p) simp
    then show ?thesis using AddFace_ok [OF p assms(3,4)] EvAddFace by (simp add: fw_exec_def keeps_ids_def)
  qed
next
  case (EvAddRoute a name)
  then show ?thesis using assms(3,4)
    by (simp add: fw_exec_def AddRoute_def Let_def faces_ok_set_face ann_ok_set_face keeps_ids_set_face)
next
  case (EvRemoveRoute a name)
  then show ?thesis using assms(3,4)
    by (simp add: fw_exec_def RemoveRoute_def Let_def faces_ok_set_face ann_ok_set_face keeps_ids_set_face)
next
  case (EvAddAnnouncement a name)
  then have a: "a < length (fw_mem fw)" using assms(5) by (simp add: fw_ev_ok_def)
  then have "keeps_ids fw (AddAnnouncement mm a name fw)"
    by (intro keeps_ids_map) (simp add: AddAnnouncement_simps map_update list_update_same_conv)
  then show ?thesis using AddAnnouncement_ok [OF assms(1) a assms(4,3)] EvAddAnnouncement by (simp add: fw_exec_def)
next
  case (EvRemoveAnnouncement a name)
  then have a: "a < length (fw_mem fw)" using assms(5) by (simp add: fw_ev_ok_def)
  then have "keeps_ids fw (RemoveAnnouncement mm a name fw)"
    by (intro keeps_ids_map) (simp add: RemoveAnnouncement_def removeAnnouncementImpl_simps map_update list_update_same_conv)
  then show ?thesis
    using removeAnnouncementImpl_ok [OF assms(1) a assms(4,3)] EvRemoveAnnouncement
    by (simp add: fw_exec_def RemoveAnnouncement_def)
next
  case (EvClose a)
  then have a: "a < length (fw_mem fw)" "f_open (fw_mem fw ! a)" using assms(5) by (simp_all add: fw_ev_ok_def)
  from Close_ok [OF assms(1) a(1) assms(4,3) a(2)] obtain fw' where "Close mm a fw = Ok fw'" "ann_ok contents fw'"
    "faces_ok fw'" "map f_id (fw_mem fw') = map f_id (fw_mem fw)" by blast
  then show ?thesis using EvClose by (simp add: fw_exec_def keeps_ids_map)
next
  case (EvAddDest dest)
  then show ?thesis
    using assms(3,4) by (simp add: fw_exec_def AddReadvertiseDestination_def keeps_ids_def)
next
  case (EvRemoveDest dest)
  then show ?thesis
    using assms(3,4) by (simp add: fw_exec_def RemoveReadvertiseDestination_def keeps_ids_def)
next
  case (EvRx a pkt)
  from fw_rx_ok [OF assms(3,4,2)] obtain pkt' ns where
    "fw_exec mm rangeR rangeF fw (EvRx a pkt) = Ok (fw\<lparr>fw_mem := sent pkt' ns (fw_mem fw)\<rparr>)" by blast
  then show ?thesis using sent_ok [OF assms(3,4)] EvRx by (simp add: keeps_ids_def)
qed

lemma fw_run_ok:
  assumes "fw_run mm rangeR rangeF fw evs fw'" "mm_laws mm contents" "visits_all rangeF" "faces_ok fw" "ann_ok contents fw"
  shows "faces_ok fw' \<and> ann_ok contents fw' \<and> keeps_ids fw fw'"
  using assms
proof (induction rule: fw_run.induct)
  case fw_run_Nil
  then show ?case by (simp add: keeps_ids_def)
next
  case (fw_run_step evs fw1 ev fw2)
  then show ?case using fw_exec_ok [of mm contents rangeF fw1 ev rangeR] keeps_ids_trans [of fw fw1 fw2] by auto
qed

lemma NewForwarder_ok: "contents newMM = {} \<Longrightarrow> faces_ok (NewForwarder newMM) \<and> ann_ok contents (NewForwarder newMM)"
  by (simp add: faces_ok_def ann_ok_def NewForwarder_def)

subsection \<open>Tokens and next hops\<close>

lemma tokenStrip_Insert: "tokenStripID (tokenInsertID token i) = (i, token)"
proof -
  have "be_word [byte_at (ucast i) 24, byte_at (ucast i) 16, byte_at (ucast i) 8, byte_at (ucast i) 0]
      = (take_bit 32 (ucast i) :: u64)"
    using be_word_be_bytes [of 4 "ucast i"] by (simp add: numeral_eq_Suc)
  moreover have "ucast (take_bit 32 (ucast i :: u64)) = i"
    by (rule bit_word_eqI) (auto simp: bit_simps)
  ultimately show ?thesis by (simp add: tokenStripID_def tokenInsertID_def tokenSize_def)
qed

lemma fold_max_ge: "(l :: int) \<le> fold max xs l"
  by (simp flip: Max.set_eq_fold)

lemma nexthops_fold:
  fixes rangeR mem q rx
  defines "m \<equiv> \<lambda>f. lpmRoute rangeR (mem ! f) q"
  defines "L \<equiv> \<lambda>xs l. fold max (map m (filter (\<lambda>f. f \<noteq> rx) (map snd xs))) (l :: int)"
  shows "fold (nexthops_step rangeR mem rx q) xs (l, ns)
    = (L xs l, (if L xs l = l then ns else []) @ filter (\<lambda>f. f \<noteq> rx \<and> m f = L xs l) (map snd xs))"
proof (induction xs arbitrary: l ns)
  case (Cons x xs)
  obtain i f where x: "x = (i, f)" by fastforce
  show ?case
  proof (cases "f = rx")
    case True
    then show ?thesis using Cons.IH [of l ns] by (simp add: x nexthops_step_def L_def)
  next
    case False
    then have L: "L (x # xs) l = L xs (max (m f) l)" by (simp add: L_def x)
    have ge: "max (m f) l \<le> L xs (max (m f) l)" unfolding L_def by (rule fold_max_ge)
    consider "m f > l" | "m f = l" | "m f < l" by linarith
    then show ?thesis
    proof cases
      case 1
      then have "nexthops_step rangeR mem rx q x (l, ns) = (m f, [f])"
        using False by (simp add: nexthops_step_def x m_def Let_def)
      then show ?thesis using Cons.IH [of "m f" "[f]"] 1 False ge L by (auto simp: x)
    next
      case 2
      then have "nexthops_step rangeR mem rx q x (l, ns) = (l, ns @ [f])"
        using False by (simp add: nexthops_step_def x m_def Let_def)
      then show ?thesis using Cons.IH [of l "ns @ [f]"] 2 False ge L by (auto simp: x)
    next
      case 3
      then have "nexthops_step rangeR mem rx q x (l, ns) = (l, ns)"
        using False by (simp add: nexthops_step_def x m_def Let_def)
      then show ?thesis using Cons.IH [of l ns] 3 False ge L by (auto simp: x)
    qed
  qed
qed (simp add: L_def)

text \<open>The faces to forward to are those with the longest match among the others.\<close>

lemma nexthops_iff:
  fixes rangeR fw q
  defines "m \<equiv> \<lambda>f. lpmRoute rangeR (fw_mem fw ! f) q"
  assumes "visits_all rangeF"
  shows "f \<in> set (nexthops rangeR rangeF rx q fw) \<longleftrightarrow>
    f \<noteq> rx \<and> f \<in> snd ` set (fw_faces fw) \<and> 0 \<le> m f
    \<and> (\<forall>g \<in> snd ` set (fw_faces fw). g \<noteq> rx \<longrightarrow> m g \<le> m f)"
proof -
  define others where "others = {g \<in> snd ` set (fw_faces fw). g \<noteq> rx}"
  let ?L = "Max (insert 0 (m ` others))"
  have "set (map m (filter (\<lambda>f. f \<noteq> rx) (map snd (rangeF (fw_faces fw))))) = m ` others"
    by (auto simp: others_def visits_all_set [OF assms(2)])
  then have L: "fold max (map m (filter (\<lambda>f. f \<noteq> rx) (map snd (rangeF (fw_faces fw))))) 0 = ?L"
    by (simp only: Max.set_eq_fold [symmetric] list.set)
  have "set (nexthops rangeR rangeF rx q fw) = {f \<in> others. m f = ?L}"
    unfolding nexthops_def nexthops_fold [of rangeR "fw_mem fw" rx q "rangeF (fw_faces fw)" 0 "[]", folded m_def] L
    by (auto simp: others_def visits_all_set [OF assms(2)] m_def)
  moreover have "finite others" by (simp add: others_def)
  then have "m f = ?L \<longleftrightarrow> 0 \<le> m f \<and> (\<forall>g\<in>others. m g \<le> m f)" if "f \<in> others"
    using that by (auto intro!: Max_eqI [symmetric])
  ultimately show ?thesis by (auto simp: others_def)
qed

lemma nexthops_distinct:
  assumes "faces_ok fw" "visits_all rangeF"
  shows "distinct (nexthops rangeR rangeF rx q fw)"
proof -
  have dk: "distinct (map fst (fw_faces fw))" using assms(1) by (simp add: faces_ok_def)
  have "i = j" if "(i, b) \<in> set (fw_faces fw)" "(j, b) \<in> set (fw_faces fw)" for i j b
    using map_of_is_SomeI [OF dk that(1)] map_of_is_SomeI [OF dk that(2)] faces_ok_iff [OF assms(1)] by metis
  then have "inj_on snd (set (fw_faces fw))" by (intro inj_onI) (metis prod.collapse)
  moreover have "distinct (rangeF (fw_faces fw))"
    using dk assms(2) mset_eq_imp_distinct_iff [of "rangeF (fw_faces fw)" "fw_faces fw"]
    by (simp add: distinct_map visits_all_def)
  ultimately have "distinct (map snd (rangeF (fw_faces fw)))"
    by (simp add: distinct_map visits_all_set [OF assms(2)])
  then show ?thesis by (simp add: nexthops_def nexthops_fold)
qed

lemma sent_distinct:
  assumes "distinct ns" "b < length mem"
  shows "sent pkt ns mem ! b = (if b \<in> set ns then (mem ! b)\<lparr>f_tx := f_tx (mem ! b) @ [pkt]\<rparr> else mem ! b)"
proof -
  have "count_list ns b = (if b \<in> set ns then 1 else 0)" using assms(1) by (induction ns) auto
  then show ?thesis using assms(2) by simp
qed

lemma open_faces: "faces_ok fw \<Longrightarrow> b \<in> snd ` set (fw_faces fw) \<longleftrightarrow> b < length (fw_mem fw) \<and> f_open (fw_mem fw ! b)"
proof -
  assume ok: "faces_ok fw"
  then have "distinct (map fst (fw_faces fw))" by (simp add: faces_ok_def)
  then have "b \<in> snd ` set (fw_faces fw) \<longleftrightarrow> (\<exists>i. map_of (fw_faces fw) i = Some b)"
    by (auto intro!: rev_image_eqI)
  then show ?thesis using faces_ok_iff [OF ok] by blast
qed

text \<open>The longest of the routes that match, and what the code takes for it.\<close>

definition longest_match :: "fwFace \<Rightarrow> Name \<Rightarrow> int" where
  "longest_match f q = Max (insert (-1) ((\<lambda>n. int (length n)) ` {n \<in> snd ` set (f_routes f). prefix n q}))"

lemma lpm_loop_cases:
  "(\<exists>n \<in> snd ` set routes. prefix n q \<and> lpm_loop q routes = int (length n))
   \<or> (\<forall>n \<in> snd ` set routes. \<not> prefix n q) \<and> lpm_loop q routes = -1"
  by (induction q routes rule: lpm_loop.induct) auto

lemma lpmRoute_longest:
  assumes "visits_all rangeR"
    and "\<forall>n \<in> snd ` set (f_routes f). \<forall>n' \<in> snd ` set (f_routes f). prefix n q \<and> prefix n' q \<longrightarrow> length n = length n'"
  shows "lpmRoute rangeR f q = longest_match f q"
  using lpm_loop_cases [of "rangeR (f_routes f)" q] unfolding visits_all_set [OF assms(1)]
proof
  assume "\<exists>n \<in> snd ` set (f_routes f). prefix n q \<and> lpm_loop q (rangeR (f_routes f)) = int (length n)"
  then obtain n where n: "n \<in> snd ` set (f_routes f)" "prefix n q" "lpm_loop q (rangeR (f_routes f)) = int (length n)"
    by blast
  have "longest_match f q = int (length n)"
    unfolding longest_match_def
  proof (rule Max_eqI)
    fix y assume "y \<in> insert (-1) ((\<lambda>n. int (length n)) ` {n \<in> snd ` set (f_routes f). prefix n q})"
    then consider "y = -1" | n' where "n' \<in> snd ` set (f_routes f)" "prefix n' q" "y = int (length n')" by blast
    then show "y \<le> int (length n)"
    proof cases
      case 2
      then have "length n' = length n" using assms(2) n(1,2) by blast
      with 2 show ?thesis by simp
    qed simp
  next
    show "finite (insert (-1) ((\<lambda>n. int (length n)) ` {n \<in> snd ` set (f_routes f). prefix n q}))" by simp
    show "int (length n) \<in> insert (-1) ((\<lambda>n. int (length n)) ` {n \<in> snd ` set (f_routes f). prefix n q})"
      using n(1,2) by blast
  qed
  then show ?thesis using n(3) by (simp add: lpmRoute_def)
next
  assume none: "(\<forall>n \<in> snd ` set (f_routes f). \<not> prefix n q) \<and> lpm_loop q (rangeR (f_routes f)) = -1"
  then have no: "{n \<in> snd ` set (f_routes f). prefix n q} = {}" by blast
  show ?thesis using none unfolding lpmRoute_def longest_match_def no by simp
qed

subsection \<open>Readvertise\<close>

text \<open>Whether a destination was last told to advertise or to withdraw a name.\<close>

definition advertised_upd :: "nat \<Rightarrow> bytes \<Rightarrow> readvertise \<Rightarrow> bool \<Rightarrow> bool" where
  "advertised_upd d k e b =
     (case e of
        Advertise dest name \<Rightarrow> if dest = d \<and> nameS name = k then True else b
      | Withdraw dest name \<Rightarrow> if dest = d \<and> nameS name = k then False else b)"

definition advertised :: "nat \<Rightarrow> bytes \<Rightarrow> readvertise list \<Rightarrow> bool" where
  "advertised d k log = fold (advertised_upd d k) log False"

lemma advertised_more:
  "d \<in> set ds \<Longrightarrow> advertised d k (log @ map (\<lambda>dest. Advertise dest name) ds)
     = (if nameS name = k then True else advertised d k log)"
  "d \<in> set ds \<Longrightarrow> advertised d k (log @ map (\<lambda>dest. Withdraw dest name) ds)
     = (if nameS name = k then False else advertised d k log)"
proof -
  have adv: "fold (advertised_upd d k) (map (\<lambda>dest. Advertise dest name) ds) b
      = (if d \<in> set ds \<and> nameS name = k then True else b)" for b
    by (induction ds arbitrary: b) (auto simp: advertised_upd_def)
  have wd: "fold (advertised_upd d k) (map (\<lambda>dest. Withdraw dest name) ds) b
      = (if d \<in> set ds \<and> nameS name = k then False else b)" for b
    by (induction ds arbitrary: b) (auto simp: advertised_upd_def)
  show "d \<in> set ds \<Longrightarrow> advertised d k (log @ map (\<lambda>dest. Advertise dest name) ds)
     = (if nameS name = k then True else advertised d k log)"
    "d \<in> set ds \<Longrightarrow> advertised d k (log @ map (\<lambda>dest. Withdraw dest name) ds)
     = (if nameS name = k then False else advertised d k log)"
    by (simp_all add: advertised_def adv wd)
qed

definition in_sync :: "('mm \<Rightarrow> (bytes \<times> nat) set) \<Rightarrow> 'mm forwarder \<Rightarrow> bool" where
  "in_sync contents fw \<longleftrightarrow>
     (\<forall>d \<in> set (fw_readvertise fw). \<forall>k. advertised d k (fw_log fw) = (k \<in> fst ` contents (fw_announcements fw)))"

lemma AddAnnouncement_sync:
  assumes "mm_laws mm contents" "in_sync contents fw"
  shows "in_sync contents (AddAnnouncement mm a name fw)"
proof -
  have mm: "mm_ContainsKey mm m k = (k \<in> fst ` contents m)" "contents (mm_Put mm m k v) = insert (k, v) (contents m)"
    for m k v using assms(1) by (simp_all add: mm_laws_def)
  have "fw_log (AddAnnouncement mm a name fw) = (if nameS name \<in> fst ` contents (fw_announcements fw) then fw_log fw
      else fw_log fw @ map (\<lambda>dest. Advertise dest name) (fw_readvertise fw))"
    by (simp add: AddAnnouncement_def Let_def mm)
  then show ?thesis
    using assms(2) by (auto simp: in_sync_def AddAnnouncement_simps mm advertised_more)
qed

lemma removeAnnouncementImpl_sync:
  assumes "mm_laws mm contents" "in_sync contents fw" "key = nameS name"
  shows "in_sync contents (removeAnnouncementImpl mm a name key fw)"
proof -
  let ?C = "contents (fw_announcements fw) - {(key, a)}"
  have mm: "mm_ContainsKey mm m k = (k \<in> fst ` contents m)" "contents (mm_Remove mm m k v) = contents m - {(k, v)}"
    for m k v using assms(1) by (simp_all add: mm_laws_def)
  have log: "fw_log (removeAnnouncementImpl mm a name key fw) = (if key \<in> fst ` ?C then fw_log fw
      else fw_log fw @ map (\<lambda>dest. Withdraw dest name) (fw_readvertise fw))"
    by (simp add: removeAnnouncementImpl_def Let_def mm)
  have keys: "k \<in> fst ` ?C \<longleftrightarrow> k \<in> fst ` contents (fw_announcements fw)" if "k \<noteq> key" for k
    using that by (auto simp: image_iff)
  have "advertised d k (fw_log (removeAnnouncementImpl mm a name key fw)) = (k \<in> fst ` ?C)"
    if d: "d \<in> set (fw_readvertise fw)" for d k
  proof (cases "k = key")
    case True
    then have "k \<in> fst ` ?C \<Longrightarrow> k \<in> fst ` contents (fw_announcements fw)" by (metis Diff_subset image_mono subsetD)
    then show ?thesis using assms(2) d True unfolding log in_sync_def by (simp add: advertised_more(2) [OF d] assms(3))
  next
    case False
    then show ?thesis
      using assms(2) d keys [OF False] unfolding log in_sync_def by (simp add: advertised_more(2) [OF d] assms(3))
  qed
  then show ?thesis by (simp add: in_sync_def removeAnnouncementImpl_simps mm)
qed

lemma remove_all_sync:
  "mm_laws mm contents \<Longrightarrow> in_sync contents fw \<Longrightarrow> keys_ok xs \<Longrightarrow>
   in_sync contents (fold (\<lambda>(key, name). removeAnnouncementImpl mm a name key) xs fw)"
  by (induction xs arbitrary: fw) (auto simp: keys_ok_def intro: removeAnnouncementImpl_sync)

inductive_cases fw_run_snocE: "fw_run mm rangeR rangeF fw (evs @ [ev]) fw'"

definition changes_dest :: "fw_event \<Rightarrow> bool" where
  "changes_dest ev = (case ev of EvAddDest d \<Rightarrow> True | EvRemoveDest d \<Rightarrow> True | _ \<Rightarrow> False)"

lemma in_sync_cong:
  "fw_readvertise fw' = fw_readvertise fw \<Longrightarrow> fw_log fw' = fw_log fw \<Longrightarrow> fw_announcements fw' = fw_announcements fw \<Longrightarrow>
   in_sync contents fw' = in_sync contents fw"
  by (simp add: in_sync_def)

lemma remove_all_readvertise:
  "fw_readvertise (fold (\<lambda>(key, name). removeAnnouncementImpl mm a name key) xs fw) = fw_readvertise fw"
  by (induction xs arbitrary: fw) (auto simp: removeAnnouncementImpl_simps)

lemma fw_exec_sync:
  assumes "mm_laws mm contents" "visits_all rangeF" "faces_ok fw" "ann_ok contents fw" "fw_ev_ok fw ev"
    and "fw_exec mm rangeR rangeF fw ev = Ok fw'" "\<not> changes_dest ev" "in_sync contents fw"
  shows "in_sync contents fw' \<and> fw_readvertise fw' = fw_readvertise fw"
proof (cases ev)
  case (EvAddFace draws)
  then have "fw_readvertise fw' = fw_readvertise fw" "fw_log fw' = fw_log fw" "fw_announcements fw' = fw_announcements fw"
    using assms(6) by (auto simp: fw_exec_def AddFace_def Let_def split: option.splits if_splits)
  then show ?thesis using assms(8) in_sync_cong [of fw' fw] by simp
next
  case (EvAddRoute a name)
  then show ?thesis using assms(6,8) in_sync_cong [of fw' fw] by (auto simp: fw_exec_def AddRoute_def Let_def)
next
  case (EvRemoveRoute a name)
  then show ?thesis using assms(6,8) in_sync_cong [of fw' fw] by (auto simp: fw_exec_def RemoveRoute_def Let_def)
next
  case (EvAddAnnouncement a name)
  then show ?thesis
    using assms(6) AddAnnouncement_sync [OF assms(1,8)] by (auto simp: fw_exec_def AddAnnouncement_simps)
next
  case (EvRemoveAnnouncement a name)
  then show ?thesis using assms(6) removeAnnouncementImpl_sync [OF assms(1,8) refl]
    by (auto simp: fw_exec_def RemoveAnnouncement_def removeAnnouncementImpl_simps)
next
  case (EvClose a)
  let ?fw = "fold (\<lambda>(key, name). removeAnnouncementImpl mm a name key) (f_announcements (fw_mem fw ! a)) fw"
  have "a < length (fw_mem fw)" using assms(5) EvClose by (simp add: fw_ev_ok_def)
  then have "keys_ok (f_announcements (fw_mem fw ! a))" using assms(4) by (simp add: ann_ok_def)
  from remove_all_sync [OF assms(1,8) this, of a] have "in_sync contents ?fw" .
  moreover have "fw_readvertise fw' = fw_readvertise ?fw" "fw_log fw' = fw_log ?fw" "fw_announcements fw' = fw_announcements ?fw"
    using assms(6) EvClose by (auto simp: fw_exec_def Close_def Let_def split: if_splits)
  ultimately show ?thesis using in_sync_cong [of fw' ?fw] by (simp add: remove_all_readvertise)
next
  case (EvRx a pkt)
  from fw_rx_ok [OF assms(3,4,2)] obtain pkt' ns where
    "fw_exec mm rangeR rangeF fw (EvRx a pkt) = Ok (fw\<lparr>fw_mem := sent pkt' ns (fw_mem fw)\<rparr>)" by blast
  then show ?thesis using assms(6,8) EvRx in_sync_cong [of fw' fw] by auto
qed (use assms(7) in \<open>simp_all add: changes_dest_def\<close>)

lemma add_dests:
  assumes "fw_run mm rangeR rangeF (NewForwarder newMM) (map EvAddDest dests) fw"
  shows "fw = (NewForwarder newMM)\<lparr>fw_readvertise := fw_readvertise fw\<rparr> \<and> set (fw_readvertise fw) = set dests"
  using assms
proof (induction dests arbitrary: fw rule: rev_induct)
  case Nil
  then show ?case by (auto elim: fw_run.cases simp: NewForwarder_def)
next
  case (snoc d dests)
  from snoc.prems obtain fw1 where "fw_run mm rangeR rangeF (NewForwarder newMM) (map EvAddDest dests) fw1"
    and e: "fw_exec mm rangeR rangeF fw1 (EvAddDest d) = Ok fw" by (auto elim: fw_run_snocE)
  from snoc.IH [OF this(1)] obtain ds where fw1: "fw1 = (NewForwarder newMM)\<lparr>fw_readvertise := ds\<rparr>" "set ds = set dests"
    by (metis forwarder.select_convs(4) forwarder.surjective forwarder.update_convs(4))
  show ?case using e by (auto simp: fw1 NewForwarder_def fw_exec_def AddReadvertiseDestination_def split: if_splits)
qed

subsection \<open>Properties\<close>


text \<open>An instance of the multimap laws, and a forwarder with two faces, a route and an announcement.\<close>

definition list_mm :: "(bytes \<times> nat) list multimap" where
  "list_mm = \<lparr>mm_ContainsKey = (\<lambda>m k. list_ex (\<lambda>p. fst p = k) m), mm_Put = (\<lambda>m k v. (k, v) # m),
     mm_Remove = (\<lambda>m k v. filter (\<lambda>p. p \<noteq> (k, v)) m)\<rparr>"

lemma list_mm_laws: "mm_laws list_mm set"
  by (auto simp: mm_laws_def list_mm_def list_ex_iff image_iff)

definition sample_fw :: "(bytes \<times> nat) list forwarder" where
  "sample_fw = \<lparr>
     fw_mem = [\<lparr>f_id = 7, f_open = True, f_tx = [], f_routes = [], f_announcements = []\<rparr>,
               \<lparr>f_id = 9, f_open = True, f_tx = [], f_routes = [([], [])], f_announcements = [([], [])]\<rparr>],
     fw_faces = [(7, 0), (9, 1)], fw_announcements = [([], 1)], fw_readvertise = [5], fw_log = [Advertise 5 []]\<rparr>"

lemma nameS_Nil [simp]: "nameS [] = []"
  by (simp add: nameS_def Name_MarshalBinary_def Name_Field_def)

lemma fw_run_eval:
  "forRange (\<lambda>fw ev. if fw_ev_ok fw ev then fw_exec mm rangeR rangeF fw ev else Panic) fw evs = Ok fw' \<Longrightarrow>
   fw_run mm rangeR rangeF fw evs fw'"
proof (induction evs arbitrary: fw' rule: rev_induct)
  case (snoc ev evs)
  then show ?case by (auto intro: fw_run_step split: if_splits)
qed (simp add: fw_run_Nil)

lemma sample_run:
  "fw_run list_mm rangeR rangeF (NewForwarder [])
     [EvAddFace [7], EvAddFace [0, 7, 9], EvAddDest 5, EvAddRoute 1 [], EvAddAnnouncement 1 []] sample_fw"
  by (rule fw_run_eval)
    (simp add: NewForwarder_def fw_ev_ok_def fw_exec_def AddFace_def MaxFwFaces_def draw_id_simps
      AddReadvertiseDestination_def AddRoute_def AddAnnouncement_def Let_def set_face_def list_mm_def sample_fw_def)


lemma fw_exec_Interest:
  assumes "faces_ok fw" "visits_all rangeF" "p_Interest pkt = Some interest"
  shows "fw_exec mm rangeR rangeF fw (EvRx a pkt) = Ok (fw\<lparr>fw_mem :=
    sent (pkt\<lparr>Lp := (Lp pkt)\<lparr>PitToken := tokenInsertID (PitToken (Lp pkt)) (f_id (fw_mem fw ! a))\<rparr>\<rparr>)
      (nexthops rangeR rangeF a (i_Name interest) fw) (fw_mem fw)\<rparr>)"
  using forwardInterest_sent [OF assms(1,2)] by (simp add: fw_exec_def fwFace_rx_def fw_loop_rx_def assms(3))

text \<open>
  C6 (Interest_to_longest_match). An Interest received on a face is sent once, with the identifier of that face
  before its PIT token, to each open face other than it whose longest matching route is the longest of all,
  and to no other face, provided that no face has two matching routes of different lengths.
\<close>

theorem Interest_to_longest_match:
  assumes "mm_laws mm contents" "contents newMM = {}" "visits_all rangeR" "visits_all rangeF"
    and "fw_run mm rangeR rangeF (NewForwarder newMM) evs fw" and "p_Interest pkt = Some interest"
    and "\<forall>f \<in> set (fw_mem fw). \<forall>n \<in> snd ` set (f_routes f). \<forall>n' \<in> snd ` set (f_routes f).
      prefix n (i_Name interest) \<and> prefix n' (i_Name interest) \<longrightarrow> length n = length n'"
  shows "\<exists>fw'. fw_exec mm rangeR rangeF fw (EvRx a pkt) = Ok fw' \<and> length (fw_mem fw') = length (fw_mem fw)
    \<and> (\<forall>b < length (fw_mem fw). fw_mem fw' ! b =
         (if b \<noteq> a \<and> f_open (fw_mem fw ! b) \<and> 0 \<le> longest_match (fw_mem fw ! b) (i_Name interest)
             \<and> (\<forall>c < length (fw_mem fw). c \<noteq> a \<and> f_open (fw_mem fw ! c) \<longrightarrow>
                  longest_match (fw_mem fw ! c) (i_Name interest) \<le> longest_match (fw_mem fw ! b) (i_Name interest))
          then (fw_mem fw ! b)\<lparr>f_tx := f_tx (fw_mem fw ! b) @ [pkt\<lparr>Lp := (Lp pkt)\<lparr>PitToken :=
             tokenInsertID (PitToken (Lp pkt)) (f_id (fw_mem fw ! a))\<rparr>\<rparr>]\<rparr>
          else fw_mem fw ! b))"
proof -
  let ?m = "\<lambda>b. longest_match (fw_mem fw ! b) (i_Name interest)" and ?q = "i_Name interest"
  have ok: "faces_ok fw" using fw_run_ok [OF assms(5,1,4)] NewForwarder_ok [of contents newMM] assms(2) by blast
  have m: "lpmRoute rangeR (fw_mem fw ! b) ?q = ?m b" if "b \<in> snd ` set (fw_faces fw)" for b
  proof -
    have "fw_mem fw ! b \<in> set (fw_mem fw)" using that open_faces [OF ok] by simp
    from lpmRoute_longest [OF assms(3) bspec [OF assms(7) this]] show ?thesis .
  qed
  have "b \<in> set (nexthops rangeR rangeF a ?q fw) \<longleftrightarrow> b \<noteq> a \<and> f_open (fw_mem fw ! b) \<and> 0 \<le> ?m b
      \<and> (\<forall>c < length (fw_mem fw). c \<noteq> a \<and> f_open (fw_mem fw ! c) \<longrightarrow> ?m c \<le> ?m b)"
    if "b < length (fw_mem fw)" for b
    unfolding nexthops_iff [OF assms(4)] using m that open_faces [OF ok] by (metis (no_types, lifting))
  then show ?thesis
    unfolding fw_exec_Interest [OF ok assms(4,6)] using sent_distinct [OF nexthops_distinct [OF ok assms(4)]] by simp
qed

theorem Interest_to_longest_match_witness:
  "\<exists>fw'. fw_exec list_mm rev rev sample_fw (EvRx 0 (zero_Packet\<lparr>p_Interest := Some sample_Interest\<rparr>)) = Ok fw'
     \<and> f_tx (fw_mem fw' ! 1) = [zero_Packet\<lparr>p_Interest := Some sample_Interest, Lp := zero_LpL3\<lparr>PitToken := [7, 0, 0, 0]\<rparr>\<rparr>]
     \<and> f_tx (fw_mem fw' ! 0) = []"
proof -
  let ?pkt = "zero_Packet\<lparr>p_Interest := Some sample_Interest\<rparr>"
  have lm: "longest_match (fw_mem sample_fw ! 1) n = 0" "longest_match (fw_mem sample_fw ! 0) n = -1" for n
    by (simp_all add: longest_match_def sample_fw_def)
  have all: "(\<forall>b < 2. P b) \<longleftrightarrow> P 0 \<and> P (1 :: nat)" for P by (auto simp: less_2_cases_iff)
  have "\<forall>f \<in> set (fw_mem sample_fw). \<forall>n \<in> snd ` set (f_routes f). \<forall>n' \<in> snd ` set (f_routes f).
      prefix n (i_Name sample_Interest) \<and> prefix n' (i_Name sample_Interest) \<longrightarrow> length n = length n'"
    by (simp add: sample_fw_def)
  from Interest_to_longest_match [OF list_mm_laws _ _ _ sample_run _ this, of rev rev ?pkt 0]
  obtain fw' where "fw_exec list_mm rev rev sample_fw (EvRx 0 ?pkt) = Ok fw'"
    and "\<forall>b < length (fw_mem sample_fw). fw_mem fw' ! b =
         (if b \<noteq> 0 \<and> f_open (fw_mem sample_fw ! b) \<and> 0 \<le> longest_match (fw_mem sample_fw ! b) (i_Name sample_Interest)
             \<and> (\<forall>c < length (fw_mem sample_fw). c \<noteq> 0 \<and> f_open (fw_mem sample_fw ! c) \<longrightarrow>
                  longest_match (fw_mem sample_fw ! c) (i_Name sample_Interest)
                    \<le> longest_match (fw_mem sample_fw ! b) (i_Name sample_Interest))
          then (fw_mem sample_fw ! b)\<lparr>f_tx := f_tx (fw_mem sample_fw ! b) @ [?pkt\<lparr>Lp := (Lp ?pkt)\<lparr>PitToken :=
             tokenInsertID (PitToken (Lp ?pkt)) (f_id (fw_mem sample_fw ! 0))\<rparr>\<rparr>]\<rparr>
          else fw_mem sample_fw ! b)"
    by (auto simp: visits_all_def)
  moreover have "length (fw_mem sample_fw) = 2" by (simp add: sample_fw_def)
  ultimately show ?thesis
    unfolding all by (simp add: all lm) (simp add: sample_fw_def tokenInsertID_def zero_Packet_def zero_LpL3_def byte_at_def longest_match_def)
qed

text \<open>
  C7 (Data_returns_to_consumer). The forwarder has no pending Interest table; the PIT token carries the way
  back. When an Interest received on face \<open>a\<close> is sent to a face \<open>b\<close>, and later, after any events that leave \<open>a\<close>
  open, a Data or Nack with the token of the sent packet is received on any face, then it is sent to \<open>a\<close> alone,
  with the token that the Interest had when it was received.
\<close>

theorem Data_returns_to_consumer:
  assumes "mm_laws mm contents" "contents newMM = {}" "visits_all rangeF"
    and "fw_run mm rangeR rangeF (NewForwarder newMM) evs fw" "a < length (fw_mem fw)"
    and "p_Interest pkt = Some interest" "fw_exec mm rangeR rangeF fw (EvRx a pkt) = Ok fw1"
    and "b < length (fw_mem fw)" "fw_mem fw1 ! b \<noteq> fw_mem fw ! b"
    and "fw_run mm rangeR rangeF fw1 evs' fw2" "f_open (fw_mem fw2 ! a)"
    and "p_Interest reply = None" "p_Data reply \<noteq> None \<or> p_Nack reply \<noteq> None"
    and "PitToken (Lp reply) = PitToken (Lp (last (f_tx (fw_mem fw1 ! b))))"
  shows "\<exists>fw3. fw_exec mm rangeR rangeF fw2 (EvRx c reply) = Ok fw3 \<and> length (fw_mem fw3) = length (fw_mem fw2)
    \<and> (\<forall>d < length (fw_mem fw2). fw_mem fw3 ! d =
         (if d = a then (fw_mem fw2 ! a)\<lparr>f_tx := f_tx (fw_mem fw2 ! a) @
              [reply\<lparr>Lp := (Lp reply)\<lparr>PitToken := PitToken (Lp pkt)\<rparr>\<rparr>]\<rparr>
          else fw_mem fw2 ! d))"
proof -
  let ?pkt = "pkt\<lparr>Lp := (Lp pkt)\<lparr>PitToken := tokenInsertID (PitToken (Lp pkt)) (f_id (fw_mem fw ! a))\<rparr>\<rparr>"
  let ?reply = "reply\<lparr>Lp := (Lp reply)\<lparr>PitToken := PitToken (Lp pkt)\<rparr>\<rparr>"
  have ok: "faces_ok fw" "ann_ok contents fw"
    using fw_run_ok [OF assms(4,1,3)] NewForwarder_ok [of contents newMM] assms(2) by blast+
  have fw1: "fw1 = fw\<lparr>fw_mem := sent ?pkt (nexthops rangeR rangeF a (i_Name interest) fw) (fw_mem fw)\<rparr>"
    using assms(7) unfolding fw_exec_Interest [OF ok(1) assms(3,6)] by simp
  have "last (f_tx (fw_mem fw1 ! b)) = ?pkt"
    using assms(8,9) sent_distinct [OF nexthops_distinct [OF ok(1) assms(3)] assms(8)] unfolding fw1
    by (auto split: if_splits)
  with assms(14) have token: "tokenStripID (PitToken (Lp reply)) = (f_id (fw_mem fw ! a), PitToken (Lp pkt))"
    by (simp add: tokenStrip_Insert)
  have "faces_ok fw1" "ann_ok contents fw1" using sent_ok [OF ok] by (simp_all add: fw1)
  with fw_run_ok [OF assms(10,1,3)] have ok2: "faces_ok fw2" and ids: "keeps_ids fw1 fw2" by blast+
  have a: "a < length (fw_mem fw2)" "f_id (fw_mem fw2 ! a) = f_id (fw_mem fw ! a)"
    using ids assms(5) by (simp_all add: keeps_ids_def fw1)
  then have "map_of (fw_faces fw2) (f_id (fw_mem fw ! a)) = Some a"
    using faces_ok_iff [OF ok2] assms(11) by blast
  then have "fw_exec mm rangeR rangeF fw2 (EvRx c reply) = Ok (fw2\<lparr>fw_mem := sent ?reply [a] (fw_mem fw2)\<rparr>)"
    using forwardDataNack_sent [OF ok2 token] assms(12,13) by (auto simp: fw_exec_def fwFace_rx_def fw_loop_rx_def)
  then show ?thesis using sent_distinct [of "[a]"] a(1) by simp
qed

theorem Data_returns_to_consumer_witness:
  "\<exists>fw1 fw3. fw_exec list_mm id id sample_fw (EvRx 0 (zero_Packet\<lparr>p_Interest := Some sample_Interest\<rparr>)) = Ok fw1
     \<and> fw_exec list_mm id id fw1 (EvRx 1 (zero_Packet\<lparr>Lp := zero_LpL3\<lparr>PitToken := [7, 0, 0, 0]\<rparr>, p_Data := Some sample_Data\<rparr>)) = Ok fw3
     \<and> fw_mem fw3 ! 0 = (fw_mem fw1 ! 0)\<lparr>f_tx := f_tx (fw_mem fw1 ! 0) @ [zero_Packet\<lparr>p_Data := Some sample_Data\<rparr>]\<rparr>"
proof -
  let ?pkt = "zero_Packet\<lparr>p_Interest := Some sample_Interest\<rparr>"
  let ?reply = "zero_Packet\<lparr>Lp := zero_LpL3\<lparr>PitToken := [7, 0, 0, 0]\<rparr>, p_Data := Some sample_Data\<rparr>"
  obtain fw1 where e: "fw_exec list_mm id id sample_fw (EvRx 0 ?pkt) = Ok fw1"
    and m: "fw_mem fw1 = [fw_mem sample_fw ! 0, (fw_mem sample_fw ! 1)\<lparr>f_tx :=
        [?pkt\<lparr>Lp := zero_LpL3\<lparr>PitToken := [7, 0, 0, 0]\<rparr>\<rparr>]\<rparr>]"
    by (simp add: fw_exec_def fwFace_rx_def fw_loop_rx_def forwardInterest_def nexthops_def nexthops_step_def
        lpmRoute_def sample_fw_def fw_send_def set_face_def tokenInsertID_def byte_at_def zero_Packet_def zero_LpL3_def)
  have pre: "0 < length (fw_mem sample_fw)" "1 < length (fw_mem sample_fw)" "fw_mem fw1 ! 1 \<noteq> fw_mem sample_fw ! 1"
      "f_open (fw_mem fw1 ! 0)" "p_Interest ?pkt = Some sample_Interest" "0 < length (fw_mem fw1)"
      "PitToken (Lp ?reply) = PitToken (Lp (last (f_tx (fw_mem fw1 ! 1))))" "visits_all id"
    by (simp_all add: m sample_fw_def visits_all_def)
  have reply: "p_Interest ?reply = None" "p_Data ?reply \<noteq> None \<or> p_Nack ?reply \<noteq> None"
      "?reply\<lparr>Lp := (Lp ?reply)\<lparr>PitToken := PitToken (Lp ?pkt)\<rparr>\<rparr> = zero_Packet\<lparr>p_Data := Some sample_Data\<rparr>"
    by (simp_all add: zero_Packet_def zero_LpL3_def)
  from Data_returns_to_consumer [OF list_mm_laws _ pre(8) sample_run pre(1,5) e pre(2,3) fw_run_Nil pre(4) reply(1,2) pre(7)]
  obtain fw3 where "fw_exec list_mm id id fw1 (EvRx 1 ?reply) = Ok fw3"
    "\<forall>d < length (fw_mem fw1). fw_mem fw3 ! d = (if d = 0 then (fw_mem fw1 ! 0)\<lparr>f_tx := f_tx (fw_mem fw1 ! 0) @
        [zero_Packet\<lparr>p_Data := Some sample_Data\<rparr>]\<rparr> else fw_mem fw1 ! d)"
    unfolding reply(3) by (metis empty_set)
  then show ?thesis using e pre(6) by metis
qed



text \<open>
  C28 (Longest_match_depends_on_map_order). \<open>lpmRoute\<close> returns at the first route that matches, in the order in
  which the Go map yields the routes, and not the longest. An Interest for \<open>/A/B\<close> in a forwarder where one
  face has the routes \<open>/\<close> and \<open>/A/B\<close> and another has \<open>/A\<close> goes to the one or to the other, depending on
  that order, which the language leaves open.
\<close>

definition comp_A :: NameComponent where
  "comp_A = \<lparr>Type = 8, Value = [0x41]\<rparr>"

definition comp_B :: NameComponent where
  "comp_B = \<lparr>Type = 8, Value = [0x42]\<rparr>"

definition three_faces :: "unit forwarder" where
  "three_faces = \<lparr>fw_mem = map (\<lambda>i. \<lparr>f_id = i, f_open = True, f_tx = [], f_routes = [], f_announcements = []\<rparr>) [1, 2, 3],
     fw_faces = [(1, 0), (2, 1), (3, 2)], fw_announcements = (), fw_readvertise = [], fw_log = []\<rparr>"


text \<open>
  C27 (AddFace_fresh_id). Below the limit, \<open>AddFace\<close> returns as soon as the generator yields a number that is
  neither zero nor in use, and gives the face a fresh identifier; at the limit it fails and changes nothing.
  The loop can always end: a free number exists.
\<close>

theorem AddFace_fresh_id:
  assumes "mm_laws mm contents" "contents newMM = {}" "visits_all rangeF"
    and "fw_run mm rangeR rangeF (NewForwarder newMM) evs fw"
  shows "(length (fw_faces fw) \<ge> 2 ^ 23 \<longrightarrow> AddFace draws fw = Some (fw, Fail ErrMaxFwFaces))
    \<and> (length (fw_faces fw) < 2 ^ 23 \<longrightarrow> (\<exists>i. i \<noteq> 0 \<and> map_of (fw_faces fw) i = None))
    \<and> (length (fw_faces fw) < 2 ^ 23 \<and> i \<in> set draws \<and> i \<noteq> 0 \<and> map_of (fw_faces fw) i = None \<longrightarrow>
        (\<exists>fw' a. AddFace draws fw = Some (fw', Ok a) \<and> a \<notin> snd ` set (fw_faces fw)
           \<and> f_id (fw_mem fw' ! a) \<noteq> 0 \<and> map_of (fw_faces fw) (f_id (fw_mem fw' ! a)) = None
           \<and> map_of (fw_faces fw') = (map_of (fw_faces fw))(f_id (fw_mem fw' ! a) \<mapsto> a)))"
proof (intro conjI impI)
  have ok: "faces_ok fw" using fw_run_ok [OF assms(4,1,3)] NewForwarder_ok [of contents newMM] assms(2) by blast
  show "AddFace draws fw = Some (fw, Fail ErrMaxFwFaces)" if "length (fw_faces fw) \<ge> 2 ^ 23"
    using that by (simp add: AddFace_def MaxFwFaces_def)
  show "\<exists>i. i \<noteq> 0 \<and> map_of (fw_faces fw) i = None" if "length (fw_faces fw) < 2 ^ 23"
  proof (rule ccontr)
    assume "\<nexists>i. i \<noteq> 0 \<and> map_of (fw_faces fw) i = None"
    then have "UNIV \<subseteq> insert 0 (fst ` set (fw_faces fw))" by (metis insertCI map_of_eq_None_iff subsetI)
    from card_mono [OF _ this] have "CARD(u32) \<le> card (insert 0 (fst ` set (fw_faces fw)))" by simp
    also have "\<dots> \<le> Suc (length (fw_faces fw))"
      using card_length [of "map fst (fw_faces fw)"] by (simp add: card_insert_if)
    finally show False using that by (simp add: card_word)
  qed
  assume i: "length (fw_faces fw) < 2 ^ 23 \<and> i \<in> set draws \<and> i \<noteq> 0 \<and> map_of (fw_faces fw) i = None"
  then obtain j where j: "draw_id (fw_faces fw) 0 draws = Some j" using draw_id_returns by blast
  have "length (fw_mem fw) \<notin> snd ` set (fw_faces fw)" using open_faces [OF ok] by simp
  with i j draw_id_Some [OF j] show "\<exists>fw' a. AddFace draws fw = Some (fw', Ok a) \<and> a \<notin> snd ` set (fw_faces fw)
      \<and> f_id (fw_mem fw' ! a) \<noteq> 0 \<and> map_of (fw_faces fw) (f_id (fw_mem fw' ! a)) = None
      \<and> map_of (fw_faces fw') = (map_of (fw_faces fw))(f_id (fw_mem fw' ! a) \<mapsto> a)"
    by (simp add: AddFace_def MaxFwFaces_def Let_def AList.update_conv')
qed

theorem AddFace_fresh_id_witness:
  "\<exists>fw' a. AddFace [0, 9, 8] sample_fw = Some (fw', Ok a) \<and> f_id (fw_mem fw' ! a) \<noteq> 0
     \<and> map_of (fw_faces sample_fw) (f_id (fw_mem fw' ! a)) = None"
proof -
  have "length (fw_faces sample_fw) < 2 ^ 23" "map_of (fw_faces sample_fw) 8 = None" by (simp_all add: sample_fw_def)
  then show ?thesis
    using AddFace_fresh_id [OF list_mm_laws _ _ sample_run [of id id], where i = 8 and draws = "[0, 9, 8]"]
    by (auto simp: visits_all_def)
qed

end
