(* ===== verification/Ndni_Name.thy ===== *)
theory Ndni_Name
  imports Ndn_Name
begin

text \<open>
  Names in the C data plane (\<open>csrc/ndni/name.h\<close>, \<open>csrc/ndni/name.c\<close>) and their Go wrappers
  (\<open>ndni/name.go\<close>). An \<open>LName\<close> is a pointer and a \<open>uint16_t\<close> length; here it is the
  string of bytes. Positions within it stay below 65536, so they are natural numbers. SipHash is vendored code:
  the model takes any digest function \<open>sip\<close>, and a hashing context is the string written so far. The
  lemmas show that the parser agrees with the Go encoder of names.
\<close>

subsection \<open>LName\<close>

text \<open>The position and the number are output parameters; they are written on failing paths too.\<close>

definition LName_ParseVarNum :: "bytes \<Rightarrow> nat \<Rightarrow> nat \<Rightarrow> nat \<Rightarrow> bool \<times> nat \<times> nat" where
  "LName_ParseVarNum name pos n minTail =
     (if pos + 1 + minTail > length name then (False, pos, n)
      else let n = unat (name ! pos); pos = pos + 1 in
        if n < 0xFD then (True, pos, n)
        else if n > 0xFD \<or> pos + 2 + minTail > length name then (False, pos, n)
        else (True, pos + 2, 256 * unat (name ! pos) + unat (name ! (pos + 1))))"

definition LName_Component :: "bytes \<Rightarrow> nat \<times> nat \<times> nat \<Rightarrow> bool \<times> nat \<times> nat \<times> nat" where
  "LName_Component name = (\<lambda>(pos, type, len).
     case LName_ParseVarNum name pos type 1 of (ok, pos, type) \<Rightarrow>
       if \<not> ok \<or> type = 0 then (False, pos, type, len)
       else case LName_ParseVarNum name pos len 0 of (ok, pos, len) \<Rightarrow>
         (ok \<and> pos + len \<le> length name, pos, type, len))"

lemma LName_Component_pos: "LName_Component name (pos, type, len) = (True, pos', type', len') \<Longrightarrow>
    pos < pos' \<and> pos' + len' \<le> length name"
  by (auto simp: LName_Component_def LName_ParseVarNum_def Let_def split: prod.splits if_splits)

definition LName_Equal :: "bytes \<Rightarrow> bytes \<Rightarrow> bool" where
  "LName_Equal a b \<longleftrightarrow> length a = length b \<and> take (length a) a = take (length a) b"

definition LName_IsPrefix :: "bytes \<Rightarrow> bytes \<Rightarrow> int" where
  "LName_IsPrefix a b =
     (if length a > length b \<or> take (length a) a \<noteq> take (length a) b then -1
      else int (length b) - int (length a))"

definition LName_SliceByte :: "bytes \<Rightarrow> nat \<Rightarrow> nat \<Rightarrow> bytes" where
  "LName_SliceByte name start stop = take (stop - start) (drop start name)"

text \<open>The loop of \<open>LName_Slice_\<close>: the counter, the position, and both output offsets.\<close>

function LName_Slice_loop :: "bytes \<Rightarrow> nat \<Rightarrow> nat \<Rightarrow> nat \<Rightarrow> nat \<times> nat \<times> nat \<Rightarrow> nat \<Rightarrow> nat \<Rightarrow> nat \<times> nat" where
  "LName_Slice_loop name start stop i (pos, type, len) posStart posEnd =
     (case LName_Component name (pos, type, len) of (ok, pos', type', len') \<Rightarrow>
        if \<not> ok then (posStart, posEnd)
        else let i = i + 1; pos' = pos' + len' in
          if i = start then LName_Slice_loop name start stop i (pos', type', len') pos' posEnd
          else if i = stop then (posStart, pos')
          else LName_Slice_loop name start stop i (pos', type', len') posStart posEnd)"
  by pat_completeness auto
termination
  by (relation "measure (\<lambda>(name, _, _, _, (pos, _, _), _, _). length name - pos)")
    (auto dest!: sym [THEN LName_Component_pos])

definition LName_Slice :: "bytes \<Rightarrow> nat \<Rightarrow> nat \<Rightarrow> bytes" where
  "LName_Slice name start stop =
     (case LName_Slice_loop name start stop 0 (0, 0, 0) (if start = 0 then 0 else length name) (length name) of
        (posStart, posEnd) \<Rightarrow> LName_SliceByte name posStart posEnd)"

text \<open>\<open>prefixL\<close> is an array of \<open>uint16_t\<close>; its entries are read up to the end marker.\<close>

fun LNamePrefixFilter_Find :: "bytes \<Rightarrow> u16 list \<Rightarrow> bytes \<Rightarrow> nat \<Rightarrow> int" where
  "LNamePrefixFilter_Find name [] prefixV i = -1"
| "LNamePrefixFilter_Find name (l # prefixL) prefixV i =
     (if l = 0xFFFF then -1
      else if LName_IsPrefix (take (unat l) prefixV) name \<ge> 0 then int i
      else LNamePrefixFilter_Find name prefixL (drop (unat l) prefixV) (i + 1))"

subsection \<open>PName\<close>

definition PNameCachedComponents :: nat where
  "PNameCachedComponents = 17"

definition ImplicitDigestLength :: nat where
  "ImplicitDigestLength = 32"

text \<open>\<open>firstNonGeneric\<close> is a signed bit field of 12 bits.\<close>

record PName =
  p_value :: bytes
  p_nComps :: nat
  firstNonGeneric :: int
  hasDigestComp :: bool
  compEnd :: "nat list"

definition PName_init :: "bytes \<Rightarrow> PName" where
  "PName_init l = \<lparr>p_value = l, p_nComps = 0, firstNonGeneric = -1, hasDigestComp = False,
     compEnd = replicate PNameCachedComponents 0\<rparr>"

definition PName_AddComp :: "PName \<Rightarrow> nat \<Rightarrow> nat \<Rightarrow> PName" where
  "PName_AddComp p pos type =
     (let p = (if p_nComps p < PNameCachedComponents then p\<lparr>compEnd := (compEnd p)[p_nComps p := pos]\<rparr> else p);
          p = (if type \<noteq> unat TtGenericNameComponent \<and> firstNonGeneric p < 0
               then p\<lparr>firstNonGeneric := signed_take_bit 11 (int (p_nComps p))\<rparr> else p)
      in p\<lparr>p_nComps := p_nComps p + 1\<rparr>)"

lemma PName_AddComp_value [simp]: "p_value (PName_AddComp p pos type) = p_value p"
  by (simp add: PName_AddComp_def Let_def)

function PName_Parse_loop :: "PName \<Rightarrow> nat \<times> nat \<times> nat \<Rightarrow> nat \<Rightarrow> PName \<times> (nat \<times> nat \<times> nat) \<times> nat" where
  "PName_Parse_loop p (pos, type, len) stop =
     (case LName_Component (p_value p) (pos, type, len) of (ok, pos', type', len') \<Rightarrow>
        if \<not> ok then (p, (pos', type', len'), stop)
        else PName_Parse_loop (PName_AddComp p (pos' + len') type') (pos' + len', type', len') (pos' + len'))"
  by pat_completeness auto
termination
  by (relation "measure (\<lambda>(p, (pos, _, _), _). length (p_value p) - pos)")
    (auto dest!: sym [THEN LName_Component_pos])

definition PName_Parse :: "bytes \<Rightarrow> bool \<times> PName" where
  "PName_Parse l =
     (case PName_Parse_loop (PName_init l) (0, 0, 0) 0 of (p, (pos, type, len), stop) \<Rightarrow>
        if stop \<noteq> pos then (False, p)
        else if type = unat TtImplicitSha256DigestComponent \<and> len = ImplicitDigestLength
        then (True, p\<lparr>hasDigestComp := True\<rparr>)
        else (True, p))"

definition PName_Slice :: "PName \<Rightarrow> int \<Rightarrow> int \<Rightarrow> bytes" where
  "PName_Slice p start stop =
     (let nComps = int (p_nComps p);
          start = (if start < 0 then start + nComps else start);
          start = max 0 (min start nComps);
          stop = (if stop < 0 then stop + nComps else stop);
          stop = max 0 (min stop nComps)
      in if start \<ge> stop then []
         else if nat stop > PNameCachedComponents then LName_Slice (p_value p) (nat start) (nat stop)
         else LName_SliceByte (p_value p) (if start = 0 then 0 else compEnd p ! nat (start - 1)) (compEnd p ! nat (stop - 1)))"

definition PName_GetPrefix :: "PName \<Rightarrow> int \<Rightarrow> bytes" where
  "PName_GetPrefix p n = PName_Slice p 0 n"

text \<open>The array \<open>hash_\<close>, from one hashing context to which each component is written.\<close>

fun PName_PrepareHashes :: "(bytes \<Rightarrow> u64) \<Rightarrow> bytes \<Rightarrow> nat \<Rightarrow> bytes \<Rightarrow> nat list \<Rightarrow> u64 list" where
  "PName_PrepareHashes sip value pos h [] = []"
| "PName_PrepareHashes sip value pos h (c # comps) =
     (let h = h @ LName_SliceByte value pos c in sip h # PName_PrepareHashes sip value c h comps)"

definition PName_ComputePrefixHash :: "(bytes \<Rightarrow> u64) \<Rightarrow> PName \<Rightarrow> nat \<Rightarrow> u64 outcome" where
  "PName_ComputePrefixHash sip p i =
     (if i > p_nComps p then Panic
      else if i = 0 then Ok (sip [])
      else if i > PNameCachedComponents then Ok (sip (PName_GetPrefix p (int i)))
      else Ok (PName_PrepareHashes sip (p_value p) 0 [] (take (min (p_nComps p) PNameCachedComponents) (compEnd p)) ! (i - 1)))"

text \<open>\<open>NewPName\<close> ignores the error of \<open>MarshalBinary\<close> and converts the length to \<open>uint16_t\<close>.\<close>

definition NewPName :: "Name \<Rightarrow> PName outcome" where
  "NewPName name =
     (let val = (if length name > 0 then (case Name_MarshalBinary name of Ok v \<Rightarrow> v | _ \<Rightarrow> []) else []);
          lname = take (length val mod 65536) val
      in case PName_Parse lname of (ok, p) \<Rightarrow> if ok then Ok p else Panic)"

text \<open>The builder of the vectors that \<open>LNamePrefixFilter_Find\<close> reads.\<close>

record LNamePrefixFilterBuilder =
  prefixL :: "u16 list"
  prefixV :: bytes
  b_index :: nat
  b_offset :: nat

definition LNamePrefixFilterBuilder_Append :: "LNamePrefixFilterBuilder \<Rightarrow> Name \<Rightarrow> LNamePrefixFilterBuilder outcome" where
  "LNamePrefixFilterBuilder_Append b name =
     (if b_index b = length (prefixL b) then Fail (ErrOther ''prefixL is full'')
      else let nameV = (case Name_MarshalBinary name of Ok v \<Rightarrow> v | _ \<Rightarrow> []); nameL = length nameV in
        if b_offset b + nameL > length (prefixV b) then Fail (ErrOther ''prefixV is full'')
        else Ok \<lparr>prefixL = (prefixL b)[b_index b := of_nat nameL],
                 prefixV = take (b_offset b) (prefixV b) @ nameV @ drop (b_offset b + nameL) (prefixV b),
                 b_index = b_index b + 1, b_offset = b_offset b + nameL\<rparr>)"

definition NewLNamePrefixFilterBuilder :: "nat \<Rightarrow> bytes \<Rightarrow> LNamePrefixFilterBuilder" where
  "NewLNamePrefixFilterBuilder sizeL buf =
     \<lparr>prefixL = replicate (sizeL div 2) 0xFFFF, prefixV = buf, b_index = 0, b_offset = 0\<rparr>"

subsection \<open>The parser agrees with the encoder\<close>

declare PName_Parse_loop.simps [simp del] LName_Slice_loop.simps [simp del]

lemma unat_byte_at: "unat (byte_at n k) = unat n div 2 ^ k mod 256"
  by (simp add: byte_at_def unsigned_ucast_eq unat_drop_bit_eq drop_bit_nat_def take_bit_nat_def)

lemma ParseVarNum_Encode:
  assumes "n \<le> 0xFFFF" "minTail \<le> length rest"
  shows "LName_ParseVarNum (pre @ VarNum_Encode n [] @ rest) (length pre) x minTail
    = (True, length pre + VarNum_Size n, unat n)"
proof -
  have l: "unat n \<le> 0xFFFF" using assms(1) by (simp add: word_le_nat_alt)
  show ?thesis
  proof (cases "n < 0xFD")
    case True
    then have "unat n < 0xFD" by (simp add: word_less_nat_alt)
    then show ?thesis using True assms(2)
      by (simp add: LName_ParseVarNum_def VarNum_Encode_def VarNum_Size_def nth_append unat_byte_at)
  next
    case False
    have "unat n div 256 < 256" using l by (simp add: less_mult_imp_div_less)
    then have "256 * (unat n div 256 mod 256) + unat n mod 256 = unat n" by simp
    then show ?thesis using False assms
      by (simp add: LName_ParseVarNum_def VarNum_Encode_def VarNum_Size_def nth_append unat_byte_at Let_def)
  qed
qed

lemma comp_type_range:
  assumes "comp_ok c"
  shows "ucast (Type c) \<le> (0xFFFF :: u64)" "unat (ucast (Type c) :: u64) = unat (Type c)" "unat (Type c) \<noteq> 0"
proof -
  have t: "Type c \<noteq> 0" "unat (Type c) \<le> 65535"
    using assms by (auto simp: comp_ok_def NameComponent_Valid_def isValidNameComponentType_def word_le_nat_alt)
  show u: "unat (ucast (Type c) :: u64) = unat (Type c)"
    using unsigned_less [of "Type c", where ?'a = nat] by (simp add: unsigned_ucast_eq take_bit_nat_eq_self)
  show "ucast (Type c) \<le> (0xFFFF :: u64)" using t(2) by (simp add: word_le_nat_alt u)
  show "unat (Type c) \<noteq> 0" using t(1) by (simp add: unat_eq_0)
qed

lemma LName_Component_tlv:
  assumes "comp_ok c" "length (Value c) < 65536"
  shows "LName_Component (pre @ tlv_bytes (Type c) (Value c) @ rest) (length pre, x, y)
    = (True, length pre + length (tlv_bytes (Type c) (Value c)) - length (Value c), unat (Type c), length (Value c))"
proof -
  let ?t = "ucast (Type c) :: u64" and ?l = "of_nat (length (Value c)) :: u64"
  note t = comp_type_range [OF assms(1)]
  have u: "unat ?l = length (Value c)" using assms(1) of_nat_length_word(1) [of "Value c"] by (simp add: comp_ok_def)
  then have l: "?l \<le> 0xFFFF" using assms(2) by (simp add: word_le_nat_alt)
  have "LName_ParseVarNum (pre @ VarNum_Encode ?t [] @ VarNum_Encode ?l [] @ Value c @ rest) (length pre) x 1
      = (True, length pre + VarNum_Size ?t, unat (Type c))"
    using ParseVarNum_Encode [OF t(1), of 1 "VarNum_Encode ?l [] @ Value c @ rest" pre x] t(2)
    by (simp add: VarNum_Size_def split: if_splits)
  moreover have "LName_ParseVarNum (pre @ VarNum_Encode ?t [] @ VarNum_Encode ?l [] @ Value c @ rest)
      (length pre + VarNum_Size ?t) y 0 = (True, length pre + VarNum_Size ?t + VarNum_Size ?l, length (Value c))"
    using ParseVarNum_Encode [OF l, of 0 "Value c @ rest" "pre @ VarNum_Encode ?t []" y] u by simp
  ultimately show ?thesis using t(3) by (simp add: LName_Component_def tlv_bytes_def)
qed

lemma length_Value_tlv: "length (Value c) \<le> length (tlv_bytes (Type c) (Value c))"
  by (simp add: tlv_bytes_def)

lemma name_value_simps [simp]:
  "name_value [] = []" "name_value (c # name) = tlv_bytes (Type c) (Value c) @ name_value name"
  "name_value (a @ b) = name_value a @ name_value b"
  by (simp_all add: name_value_def items_def)

lemma name_value_take: "take (length (name_value (take n name))) (name_value name) = name_value (take n name)"
  by (metis append_eq_conv_conj append_take_drop_id name_value_simps(3))

text \<open>The parser stops at the end of the name, or one octet before the end of the buffer.\<close>

lemma LName_Component_end: "length tail \<le> 1 \<Longrightarrow> LName_Component (val @ tail) (length val, x, y) = (False, length val, x, y)"
  by (simp add: LName_Component_def LName_ParseVarNum_def)

definition comps_known :: "PName \<Rightarrow> Name \<Rightarrow> bool" where
  "comps_known p name \<longleftrightarrow> p_nComps p = length name \<and> length (compEnd p) = PNameCachedComponents
     \<and> (\<forall>i < min PNameCachedComponents (length name). compEnd p ! i = length (name_value (take (Suc i) name)))"

lemma comps_known_AddComp:
  assumes "comps_known p pre"
  shows "comps_known (PName_AddComp p (length (name_value (pre @ [c]))) type) (pre @ [c])"
  using assms by (auto simp: comps_known_def PName_AddComp_def Let_def nth_list_update less_Suc_eq take_Suc_conv_app_nth)

lemma PName_Parse_loop_value:
  assumes "list_all comp_ok name" "length (name_value name) < 65536" "length tail \<le> 1"
    and "p_value p = name_value pre @ name_value name @ tail" "comps_known p pre"
  shows "\<exists>p'. PName_Parse_loop p (length (name_value pre), x, y) (length (name_value pre))
      = (p', (length (name_value (pre @ name)),
          if name = [] then (x, y) else (unat (Type (last name)), length (Value (last name)))), length (name_value (pre @ name)))
    \<and> p_value p' = p_value p \<and> comps_known p' (pre @ name)"
  using assms
proof (induction name arbitrary: pre p x y)
  case Nil
  then show ?case by (auto simp: PName_Parse_loop.simps LName_Component_end)
next
  case (Cons c name)
  let ?p = "PName_AddComp p (length (name_value (pre @ [c]))) (unat (Type c))"
  have "length (Value c) < 65536" using Cons.prems(2) by (simp add: tlv_bytes_def)
  then have "PName_Parse_loop p (length (name_value pre), x, y) (length (name_value pre))
      = PName_Parse_loop ?p (length (name_value (pre @ [c])), unat (Type c), length (Value c)) (length (name_value (pre @ [c])))"
    using Cons.prems(1,4) length_Value_tlv [of c]
    by (subst PName_Parse_loop.simps) (simp add: LName_Component_tlv)
  moreover have "comps_known ?p (pre @ [c])" by (rule comps_known_AddComp [OF Cons.prems(5)])
  ultimately show ?case
    using Cons.IH [of ?p "pre @ [c]" "unat (Type c)" "length (Value c)"] Cons.prems by auto
qed

lemma PName_Parse_value:
  assumes "list_all comp_ok name" "length (name_value name) < 65536" "length tail \<le> 1"
  shows "\<exists>p. PName_Parse (name_value name @ tail) = (True, p) \<and> p_value p = name_value name @ tail \<and> comps_known p name
    \<and> (hasDigestComp p \<longleftrightarrow> name \<noteq> [] \<and> Type (last name) = TtImplicitSha256DigestComponent
        \<and> length (Value (last name)) = ImplicitDigestLength)"
proof -
  let ?p0 = "PName_init (name_value name @ tail)"
  have 1: "comps_known ?p0 []" "p_value ?p0 = name_value [] @ name_value name @ tail"
    by (simp_all add: comps_known_def PName_init_def)
  from PName_Parse_loop_value [OF assms 1(2,1), of 0 0] obtain p' where p:
    "PName_Parse_loop ?p0 (0, 0, 0) 0 = (p', (length (name_value name),
       if name = [] then (0, 0) else (unat (Type (last name)), length (Value (last name)))), length (name_value name))"
    "p_value p' = name_value name @ tail" "comps_known p' name" by (auto simp: PName_init_def)
  have "hasDigestComp (PName_AddComp q x y) = hasDigestComp q" for q x y by (simp add: PName_AddComp_def Let_def)
  then have "hasDigestComp (fst (PName_Parse_loop q (x, y, z) w)) = hasDigestComp q" for q x y z w
    by (induction q "(x, y, z)" w arbitrary: x y z rule: PName_Parse_loop.induct)
      (subst PName_Parse_loop.simps, auto split: prod.split)
  from this [of ?p0 0 0 0 0] have d: "\<not> hasDigestComp p'" unfolding p(1) by (simp add: PName_init_def)
  have "unat (Type (last name)) = 1 \<longleftrightarrow> Type (last name) = 1" by (metis unsigned_1 unsigned_word_eqI)
  then show ?thesis using p d by (auto simp: PName_Parse_def comps_known_def ImplicitDigestLength_def)
qed

lemma LName_Slice_loop_value:
  assumes "list_all comp_ok name" "length (name_value name) < 65536" "length pre < stop" "stop \<le> length pre + length name"
  shows "LName_Slice_loop (name_value pre @ name_value name) 0 stop (length pre) (length (name_value pre), x, y) s e
    = (s, length (name_value (take stop (pre @ name))))"
  using assms
proof (induction name arbitrary: pre x y)
  case (Cons c name)
  have "length (Value c) < 65536" using Cons.prems(2) by (simp add: tlv_bytes_def)
  then have step: "LName_Slice_loop (name_value pre @ name_value (c # name)) 0 stop (length pre) (length (name_value pre), x, y) s e
      = (if length (pre @ [c]) = stop then (s, length (name_value (pre @ [c])))
         else LName_Slice_loop (name_value (pre @ [c]) @ name_value name) 0 stop (length (pre @ [c]))
           (length (name_value (pre @ [c])), unat (Type c), length (Value c)) s e)"
    using Cons.prems(1) length_Value_tlv [of c] by (subst LName_Slice_loop.simps) (simp add: LName_Component_tlv)
  show ?case
  proof (cases "length (pre @ [c]) = stop")
    case True
    then show ?thesis unfolding step by (simp add: take_Cons' flip: True)
  next
    case False
    then show ?thesis unfolding step using Cons.IH [of "pre @ [c]" "unat (Type c)" "length (Value c)"] Cons.prems by simp
  qed
qed simp

lemma PName_GetPrefix_value:
  assumes "list_all comp_ok name" "length (name_value name) < 65536" "p_value p = name_value name @ tail"
    and "comps_known p name" "n \<le> length name" "tail = []"
  shows "PName_GetPrefix p (int n) = name_value (take n name)"
proof (cases "n = 0 \<or> n > PNameCachedComponents")
  case True
  then show ?thesis using assms LName_Slice_loop_value [of name "[]" n 0 0 0 "length (name_value name)"]
    by (auto simp: PName_GetPrefix_def PName_Slice_def comps_known_def LName_Slice_def LName_SliceByte_def name_value_take)
next
  case False
  then obtain i where i: "n = Suc i" by (cases n) auto
  then have "compEnd p ! (n - 1) = length (name_value (take n name))" using False assms(4,5) by (simp add: comps_known_def)
  then show ?thesis using False assms
    by (auto simp: PName_GetPrefix_def PName_Slice_def comps_known_def LName_SliceByte_def name_value_take nat_diff_distrib)
qed

lemma PName_PrepareHashes_take:
  assumes "sorted (pos # comps)" "i < length comps"
  shows "PName_PrepareHashes sip val pos (take pos val) comps ! i = sip (take (comps ! i) val)"
  using assms
proof (induction comps arbitrary: pos i)
  case (Cons c comps)
  then have "take pos val @ LName_SliceByte val pos c = take c val"
    by (simp add: LName_SliceByte_def flip: take_add)
  then show ?case using Cons by (cases i) (auto simp: Let_def)
qed simp

lemma PName_hash_value:
  assumes "list_all comp_ok name" "length (name_value name) < 65536" "p_value p = name_value name"
    and "comps_known p name" "n \<le> length name"
  shows "PName_ComputePrefixHash sip p n = Ok (sip (name_value (take n name)))"
proof (cases "n = 0 \<or> n > PNameCachedComponents")
  case True
  then show ?thesis using assms PName_GetPrefix_value [OF assms(1,2), of p "[]" n]
    by (auto simp: PName_ComputePrefixHash_def comps_known_def)
next
  case False
  let ?cs = "take (min (p_nComps p) PNameCachedComponents) (compEnd p)"
  have len: "length ?cs = min (length name) PNameCachedComponents" using assms(4) by (auto simp: comps_known_def)
  have cs: "?cs ! i = length (name_value (take (Suc i) name))" if "i < length ?cs" for i
    using that assms(4) unfolding len by (simp add: comps_known_def)
  have "length (name_value (take a name)) \<le> length (name_value (take b name))" if "a \<le> b" for a b
    using that by (metis name_value_simps(3) length_append le_add1 le_Suc_ex take_add)
  then have "?cs ! i \<le> ?cs ! j" if "i \<le> j" "j < length ?cs" for i j using that cs [of i] cs [of j] by simp
  then have "sorted ?cs" unfolding sorted_iff_nth_mono by blast
  then have "sorted (0 # ?cs)" by simp
  moreover have "n - 1 < length ?cs" "Suc (n - 1) = n" using False assms(5) len by auto
  ultimately have "PName_PrepareHashes sip (p_value p) 0 (take 0 (p_value p)) ?cs ! (n - 1)
      = sip (take (length (name_value (take n name))) (name_value name))"
    using PName_PrepareHashes_take [of 0 ?cs "n - 1" sip "p_value p"] cs [of "n - 1"] assms(3) by simp
  then show ?thesis using False assms(4,5) by (simp add: PName_ComputePrefixHash_def comps_known_def name_value_take)
qed

text \<open>What a well-parsed name answers.\<close>

definition PName_of :: "PName \<Rightarrow> Name \<Rightarrow> bool" where
  "PName_of p name \<longleftrightarrow> p_value p = name_value name \<and> comps_known p name \<and> list_all comp_ok name
     \<and> length (name_value name) < 65536"

lemma PName_of_simps:
  assumes "PName_of p name"
  shows "p_nComps p = length name"
    and "n \<le> length name \<Longrightarrow> PName_GetPrefix p (int n) = name_value (take n name)"
    and "n \<le> length name \<Longrightarrow> PName_ComputePrefixHash sip p n = Ok (sip (name_value (take n name)))"
    and "p_value p = name_value name"
  using assms PName_GetPrefix_value [of name p "[]" n] PName_hash_value [of name p n sip]
  by (auto simp: PName_of_def comps_known_def)

lemma NewPName_ok:
  assumes "list_all comp_ok name" "Name_Length name < 65536"
  shows "\<exists>p. NewPName name = Ok p \<and> PName_of p name \<and> (hasDigestComp p \<longleftrightarrow> name \<noteq> []
    \<and> Type (last name) = TtImplicitSha256DigestComponent \<and> length (Value (last name)) = ImplicitDigestLength)"
proof -
  have l: "length (name_value name) < 65536" using assms(2) by (simp add: length_name_value)
  have "(if length name > 0 then (case Name_MarshalBinary name of Ok v \<Rightarrow> v | _ \<Rightarrow> []) else []) = name_value name"
    using Name_MarshalBinary_ok assms(1) by (auto simp: comp_ok_def list_all_iff)
  then show ?thesis using PName_Parse_value [OF assms(1) l, of "[]"] l assms(1)
    by (auto simp: NewPName_def Let_def PName_of_def)
qed

text \<open>C29 (PName_agrees): the C parser reads back every name that the Go side encodes: it counts its components, its
  cached and its uncached path give the encoding of each prefix, the incremental and the direct path give the hash of
  that encoding, and it recognizes a final implicit digest.\<close>

theorem PName_agrees:
  assumes "list_all comp_ok name" "Name_Length name < 65536"
  shows "\<exists>p. NewPName name = Ok p \<and> p_nComps p = length name
    \<and> (\<forall>n \<le> length name. Name_MarshalBinary (take n name) = Ok (PName_GetPrefix p (int n))
         \<and> PName_ComputePrefixHash sip p n = Ok (sip (PName_GetPrefix p (int n))))
    \<and> (hasDigestComp p \<longleftrightarrow> name \<noteq> [] \<and> Type (last name) = TtImplicitSha256DigestComponent
         \<and> length (Value (last name)) = ImplicitDigestLength)"
proof -
  obtain p where p: "NewPName name = Ok p" "PName_of p name" "hasDigestComp p \<longleftrightarrow> name \<noteq> []
    \<and> Type (last name) = TtImplicitSha256DigestComponent \<and> length (Value (last name)) = ImplicitDigestLength"
    using NewPName_ok [OF assms] by blast
  have "Name_MarshalBinary (take n name) = Ok (name_value (take n name))" for n
    using assms(1) by (intro Name_MarshalBinary_ok) (metis append_take_drop_id list_all_append)
  then show ?thesis using p PName_of_simps [OF p(2)] by auto
qed

definition twenty_comps :: Name where
  "twenty_comps = replicate 20 \<lparr>Type = 8, Value = [65]\<rparr>"

lemma Name_Length_replicate: "Name_Length (replicate n c) = n * length (tlv_bytes (Type c) (Value c))"
  by (induction n) (simp_all flip: length_name_value)

lemma twenty_comps_ok: "list_all comp_ok twenty_comps" "Name_Length twenty_comps < 65536"
  by (simp_all add: twenty_comps_def comp_ok_def NameComponent_Valid_def isValidNameComponentType_def slice_ok_def
      list_all_length Name_Length_replicate tlv_bytes_def VarNum_Size_def)

theorem PName_agrees_witness:
  "\<exists>p. NewPName twenty_comps = Ok p \<and> p_nComps p = 20
    \<and> Name_MarshalBinary (take 19 twenty_comps) = Ok (PName_GetPrefix p 19) \<and> \<not> hasDigestComp p"
proof -
  obtain p where p: "NewPName twenty_comps = Ok p" "p_nComps p = length twenty_comps"
    "\<forall>n \<le> length twenty_comps. Name_MarshalBinary (take n twenty_comps) = Ok (PName_GetPrefix p (int n))"
    "hasDigestComp p \<longleftrightarrow> twenty_comps \<noteq> [] \<and> Type (last twenty_comps) = TtImplicitSha256DigestComponent
       \<and> length (Value (last twenty_comps)) = ImplicitDigestLength"
    using PName_agrees [OF twenty_comps_ok, of "\<lambda>_. 0"] by blast
  then show ?thesis using p(3) [rule_format, of 19] by (auto simp: twenty_comps_def)
qed

text \<open>C30 (PName_accepts_truncated): a buffer that ends one octet into a component is accepted as the name before it,
  although the parser means to refuse a truncated component.\<close>

theorem PName_accepts_truncated:
  assumes "list_all comp_ok name" "Name_Length name < 65536"
  shows "\<exists>p. PName_Parse (name_value name @ [b]) = (True, p) \<and> p_nComps p = length name"
  using PName_Parse_value [OF assms(1), of "[b]"] assms(2) by (auto simp: length_name_value comps_known_def)

theorem PName_accepts_truncated_witness:
  "\<exists>p. PName_Parse [8, 1, 65, 8] = (True, p) \<and> p_nComps p = 1"
  using PName_accepts_truncated [of "[\<lparr>Type = 8, Value = [65]\<rparr>]" 8]
  by (simp add: comp_ok_def NameComponent_Valid_def isValidNameComponentType_def slice_ok_def Name_Length_def
      Element_Size_def Element_Length_def VarNum_Size_def tlv_bytes_def VarNum_Encode_def byte_at_def)

subsection \<open>Prefix filters\<close>

lemma tlv_bytes_unique:
  assumes "comp_ok c" "comp_ok d" "tlv_bytes (Type c) (Value c) @ a = tlv_bytes (Type d) (Value d) @ b"
  shows "c = d \<and> a = b"
proof -
  have "Element_Decode (tlv_bytes (Type x) (Value x) @ r) = Ok (\<lparr>Type = Type x, Value = Value x\<rparr>, r)"
    if "comp_ok x" for x :: NameComponent and r using that by (simp add: comp_ok_def)
  from trans [OF sym [OF this [OF assms(1), of a, unfolded assms(3)]] this [OF assms(2), of b]] show ?thesis by simp
qed

lemma tlv_bytes_prefix:
  assumes "comp_ok c" "comp_ok d"
  shows "prefix (tlv_bytes (Type c) (Value c) @ a) (tlv_bytes (Type d) (Value d) @ b) \<longleftrightarrow> c = d \<and> prefix a b"
proof
  assume "prefix (tlv_bytes (Type c) (Value c) @ a) (tlv_bytes (Type d) (Value d) @ b)"
  then obtain zs where "tlv_bytes (Type d) (Value d) @ b = tlv_bytes (Type c) (Value c) @ (a @ zs)"
    by (auto simp: prefix_def)
  from tlv_bytes_unique [OF assms(2,1) this] show "c = d \<and> prefix a b" by simp
qed simp

lemma name_value_prefix:
  assumes "list_all comp_ok a" "list_all comp_ok b"
  shows "prefix (name_value a) (name_value b) \<longleftrightarrow> prefix a b"
  using assms
proof (induction a arbitrary: b)
  case (Cons c a)
  show ?case
  proof (cases b)
    case Nil
    then show ?thesis by (simp add: tlv_bytes_def VarNum_Encode_def)
  next
    case b: (Cons d b')
    have "prefix (name_value (c # a)) (name_value (d # b')) \<longleftrightarrow> c = d \<and> prefix (name_value a) (name_value b')"
      using Cons.prems by (simp add: tlv_bytes_prefix b)
    then show ?thesis using Cons.IH [of b'] Cons.prems unfolding b by simp
  qed
qed simp

lemma LName_IsPrefix_iff: "LName_IsPrefix a b \<ge> 0 \<longleftrightarrow> prefix a b"
proof
  assume "LName_IsPrefix a b \<ge> 0"
  then show "prefix a b" by (auto simp: LName_IsPrefix_def take_is_prefix split: if_splits) (metis take_is_prefix)
qed (auto simp: LName_IsPrefix_def prefix_def)

definition filter_name :: "Name \<Rightarrow> bool" where
  "filter_name n \<longleftrightarrow> list_all comp_ok n \<and> Name_Length n < 65535"

text \<open>The result for a list of prefixes: the index of the first one that is a prefix, or -1.\<close>

fun first_prefix :: "Name list \<Rightarrow> Name \<Rightarrow> nat \<Rightarrow> int" where
  "first_prefix [] name i = -1"
| "first_prefix (n # ns) name i = (if prefix n name then int i else first_prefix ns name (i + 1))"

lemma LNamePrefixFilter_Find_names:
  assumes "list_all filter_name ns" "list_all comp_ok name"
  shows "LNamePrefixFilter_Find (name_value name)
      (map (\<lambda>n. of_nat (Name_Length n)) ns @ replicate k 0xFFFF) (concat (map name_value ns) @ junk) i
    = first_prefix ns name i"
  using assms
proof (induction ns arbitrary: i)
  case Nil
  then show ?case by (cases k) simp_all
next
  case (Cons n ns)
  have n: "list_all comp_ok n" "Name_Length n < 65535" using Cons.prems by (simp_all add: filter_name_def)
  then have u: "unat (of_nat (Name_Length n) :: u16) = Name_Length n" by (simp add: take_bit_nat_eq_self unsigned_of_nat)
  then have "(of_nat (Name_Length n) :: u16) \<noteq> 0xFFFF" using n(2) by auto
  then show ?case using Cons u n
    by (simp add: LName_IsPrefix_iff name_value_prefix flip: length_name_value)
qed

definition builder_with :: "nat \<Rightarrow> bytes \<Rightarrow> Name list \<Rightarrow> LNamePrefixFilterBuilder" where
  "builder_with sizeL buf ns =
     \<lparr>prefixL = map (\<lambda>n. of_nat (Name_Length n)) ns @ replicate (sizeL div 2 - length ns) 0xFFFF,
      prefixV = concat (map name_value ns) @ drop (length (concat (map name_value ns))) buf,
      b_index = length ns, b_offset = length (concat (map name_value ns))\<rparr>"

lemma Append_names:
  assumes "list_all filter_name (ns @ ms)" "length (ns @ ms) \<le> sizeL div 2"
    and "length (concat (map name_value (ns @ ms))) \<le> length buf"
  shows "forRange LNamePrefixFilterBuilder_Append (builder_with sizeL buf ns) ms = Ok (builder_with sizeL buf (ns @ ms))"
  using assms
proof (induction ms arbitrary: ns)
  case (Cons m ms)
  have m: "Name_MarshalBinary m = Ok (name_value m)"
    using Cons.prems(1) by (intro Name_MarshalBinary_ok) (simp add: filter_name_def)
  obtain k where k: "sizeL div 2 - length ns = Suc k" "sizeL div 2 - Suc (length ns) = k"
    using Cons.prems(2) by (cases "sizeL div 2 - length ns") auto
  have "LNamePrefixFilterBuilder_Append (builder_with sizeL buf ns) m = Ok (builder_with sizeL buf (ns @ [m]))"
    using Cons.prems(2,3)
    by (simp add: LNamePrefixFilterBuilder_Append_def builder_with_def m k list_update_append length_name_value
        Let_def ac_simps flip: drop_drop)
  then show ?case using Cons.IH [of "ns @ [m]"] Cons.prems by simp
qed simp

lemma first_prefix_cases:
  "first_prefix ns name i = -1 \<and> list_all (\<lambda>n. \<not> prefix n name) ns
   \<or> (\<exists>j < length ns. first_prefix ns name i = int (i + j) \<and> prefix (ns ! j) name
        \<and> list_all (\<lambda>n. \<not> prefix n name) (take j ns))"
proof (induction ns arbitrary: i)
  case (Cons n ns)
  show ?case
  proof (cases "prefix n name")
    case True
    then show ?thesis by (intro disjI2 exI [of _ 0]) simp
  next
    case False
    from Cons.IH [of "i + 1"] show ?thesis
    proof (elim disjE conjE exE)
      fix j
      assume "j < length ns" "first_prefix ns name (i + 1) = int (i + 1 + j)" "prefix (ns ! j) name"
        "list_all (\<lambda>n. \<not> prefix n name) (take j ns)"
      then show ?thesis using False by (intro disjI2 exI [of _ "Suc j"]) simp
    qed (use False in simp)
  qed
qed simp

text \<open>LNamePrefixFilter_finds: when the names fit in both vectors every \<open>Append\<close> succeeds, and
  \<open>LNamePrefixFilter_Find\<close> then returns the index of the first appended name that is a prefix of its
  argument, and -1 when there is none.\<close>

theorem LNamePrefixFilter_finds:
  assumes "list_all filter_name ns" "length ns \<le> sizeL div 2" "sum_list (map Name_Length ns) \<le> length buf"
    and "list_all comp_ok name"
  shows "\<exists>b. forRange LNamePrefixFilterBuilder_Append (NewLNamePrefixFilterBuilder sizeL buf) ns = Ok b
    \<and> (LNamePrefixFilter_Find (name_value name) (prefixL b) (prefixV b) 0 = -1 \<and> list_all (\<lambda>n. \<not> prefix n name) ns
       \<or> (\<exists>j < length ns. LNamePrefixFilter_Find (name_value name) (prefixL b) (prefixV b) 0 = int j
            \<and> prefix (ns ! j) name \<and> list_all (\<lambda>n. \<not> prefix n name) (take j ns)))"
proof -
  have 0: "NewLNamePrefixFilterBuilder sizeL buf = builder_with sizeL buf []"
    by (simp add: NewLNamePrefixFilterBuilder_def builder_with_def)
  have "length (concat (map name_value ns)) = sum_list (map Name_Length ns)"
    by (simp add: length_concat comp_def length_name_value)
  then have b: "forRange LNamePrefixFilterBuilder_Append (NewLNamePrefixFilterBuilder sizeL buf) ns
      = Ok (builder_with sizeL buf ns)" using Append_names [of "[]" ns sizeL buf] assms 0 by simp
  have "LNamePrefixFilter_Find (name_value name) (prefixL (builder_with sizeL buf ns)) (prefixV (builder_with sizeL buf ns)) 0
      = first_prefix ns name 0" unfolding builder_with_def using LNamePrefixFilter_Find_names [OF assms(1,4)] by simp
  then show ?thesis using b first_prefix_cases [of ns name 0] by simp
qed

theorem LNamePrefixFilter_finds_witness:
  "\<exists>b. forRange LNamePrefixFilterBuilder_Append (NewLNamePrefixFilterBuilder 8 (replicate 20 0))
      [take 2 twenty_comps, take 1 twenty_comps] = Ok b
    \<and> LNamePrefixFilter_Find (name_value (take 1 twenty_comps)) (prefixL b) (prefixV b) 0 = 1"
proof -
  let ?c = "\<lparr>Type = 8, Value = [65]\<rparr> :: NameComponent"
  have t: "take 2 twenty_comps = [?c, ?c]" "take 1 twenty_comps = [?c]" by (simp_all add: twenty_comps_def numeral_2_eq_2)
  have c: "comp_ok ?c" by (simp add: comp_ok_def NameComponent_Valid_def isValidNameComponentType_def slice_ok_def)
  have l: "Name_Length [?c, ?c] = 6" "Name_Length [?c] = 3"
    by (simp_all add: Name_Length_def Element_Size_def Element_Length_def VarNum_Size_def)
  obtain b where b: "forRange LNamePrefixFilterBuilder_Append (NewLNamePrefixFilterBuilder 8 (replicate 20 0)) [[?c, ?c], [?c]] = Ok b"
    "LNamePrefixFilter_Find (name_value [?c]) (prefixL b) (prefixV b) 0 = -1 \<and> list_all (\<lambda>n. \<not> prefix n [?c]) [[?c, ?c], [?c]]
       \<or> (\<exists>j < length [[?c, ?c], [?c]]. LNamePrefixFilter_Find (name_value [?c]) (prefixL b) (prefixV b) 0 = int j
            \<and> prefix ([[?c, ?c], [?c]] ! j) [?c] \<and> list_all (\<lambda>n. \<not> prefix n [?c]) (take j [[?c, ?c], [?c]]))"
    using LNamePrefixFilter_finds [of "[[?c, ?c], [?c]]" 8 "replicate 20 0" "[?c]"] c l by (auto simp: filter_name_def)
  then show ?thesis unfolding t by (auto simp: less_Suc_eq)
qed

end
