(* ===== verification/Fib_Tree.thy ===== *)
theory Fib_Tree
  imports Ndn_Name "HOL-Library.AList"
begin

text \<open>
  The logical FIB: entries and update commands (\<open>container/fib/fibdef\<close>) and the name tree
  (\<open>container/fib/fibtree\<close>). A node is a tree whose children are a map, here an association list with
  distinct keys, from the encodings of name components. The Go code walks down by a loop over the name and up
  by parent pointers; here both are recursion over the name, the way up being the return. \<open>maxInt\<close> is the
  function of that name in another package.
\<close>

subsection \<open>Entries and updates\<close>

record EntryBody =
  Nexthops :: "u16 list"
  Strategy :: int

definition zero_EntryBody :: EntryBody where
  "zero_EntryBody = \<lparr>Nexthops = [], Strategy = 0\<rparr>"

definition EntryBody_Equals :: "EntryBody \<Rightarrow> EntryBody \<Rightarrow> bool" where
  "EntryBody_Equals body other =
     (if Strategy body \<noteq> Strategy other \<or> length (Nexthops body) \<noteq> length (Nexthops other) then False
      else list_all (\<lambda>i. Nexthops body ! i = Nexthops other ! i) [0 ..< length (Nexthops body)])"

record Entry =
  e_body :: EntryBody
  e_Name :: Name

definition MaxNameLength :: nat where
  "MaxNameLength = 494"

definition MaxNexthops :: nat where
  "MaxNexthops = 8"

definition ErrNameTooLong :: error where
  "ErrNameTooLong = ErrOther ''FIB entry name too long''"

definition ErrNexthops :: error where
  "ErrNexthops = ErrOther ''number of nexthops out of range''"

definition ErrStrategy :: error where
  "ErrStrategy = ErrOther ''missing strategy''"

definition Validate :: "Entry \<Rightarrow> unit outcome" where
  "Validate entry =
     (if Name_Length (e_Name entry) > MaxNameLength then Fail ErrNameTooLong
      else if length (Nexthops (e_body entry)) < 1 \<or> length (Nexthops (e_body entry)) > MaxNexthops then Fail ErrNexthops
      else if Strategy (e_body entry) = 0 then Fail ErrStrategy
      else Ok ())"

datatype UpdateAction = ActInsert | ActReplace | ActErase

record VirtUpdate =
  v_Name :: Name
  v_Action :: UpdateAction
  HasReal :: bool
  v_Height :: int

record RealUpdate =
  r_body :: EntryBody
  r_Name :: Name
  r_Action :: UpdateAction
  WithVirt :: "VirtUpdate option"

text \<open>The closure in \<open>update.revert\<close> calls \<open>Insert\<close> or \<open>Erase\<close> with captured arguments, or is nil.\<close>

datatype revert = RevertNil | RevertInsert Entry | RevertErase Name

record update =
  u_real :: "RealUpdate option"
  u_virt :: "VirtUpdate option"
  u_revert :: revert

definition no_update :: update where
  "no_update = \<lparr>u_real = None, u_virt = None, u_revert = RevertNil\<rparr>"

subsection \<open>Nodes\<close>

definition componentToString :: "NameComponent \<Rightarrow> bytes" where
  "componentToString c = (case EncodeFrom [NameComponent_Field c] of Ok compV \<Rightarrow> compV | _ \<Rightarrow> [])"

datatype node = Node (node_body: EntryBody) (node_height: int) (node_children: "(bytes \<times> node) list")

definition newNode :: node where
  "newNode = Node zero_EntryBody 0 []"

definition addChild :: "bytes \<Rightarrow> node \<Rightarrow> node \<Rightarrow> node" where
  "addChild k child n = Node (node_body n) (node_height n) (AList.update k child (node_children n))"

definition removeChild :: "bytes \<Rightarrow> node \<Rightarrow> node" where
  "removeChild k n = Node (node_body n) (node_height n) (AList.delete k (node_children n))"

definition updateHeight :: "(int \<Rightarrow> int \<Rightarrow> int) \<Rightarrow> node \<Rightarrow> node" where
  "updateHeight maxInt n =
     (let h = fold (\<lambda>(k, child) h. maxInt h (node_height child)) (node_children n) (-1)
      in Node (node_body n) (h + 1) (node_children n))"

definition isEntry :: "node \<Rightarrow> bool" where
  "isEntry n \<longleftrightarrow> length (Nexthops (node_body n)) > 0"

text \<open>The name of a node, from the strings of the components on the path to it.\<close>

definition node_name :: "bytes list \<Rightarrow> Name" where
  "node_name path = (case Name_UnmarshalBinary (concat path) of Ok name \<Rightarrow> name | _ \<Rightarrow> [])"

lemma size_child: "(k, child) \<in> set cs \<Longrightarrow> size child < Suc (size_list (size_prod (\<lambda>_. 0) size) cs)"
  by (induction cs) auto

function appendListTo :: "bytes \<Rightarrow> node \<Rightarrow> Entry list" where
  "appendListTo nameV (Node body h children) =
     (if length (Nexthops body) > 0 then [\<lparr>e_body = body, e_Name = node_name [nameV]\<rparr>] else [])
     @ concat (map (\<lambda>(k, child). appendListTo (nameV @ k) child) children)"
  by pat_completeness auto
termination
  by (relation "measure (size \<circ> snd)") (auto dest: size_child)

subsection \<open>Tree\<close>

record Tree =
  t_root :: node
  startDepth :: nat
  nNodes :: nat
  nEntries :: nat

definition Tree_New :: "nat \<Rightarrow> Tree" where
  "Tree_New depth = \<lparr>t_root = newNode, startDepth = depth, nNodes = 1, nEntries = 0\<rparr>"

text \<open>\<open>seek\<close> without insertion, and with it: then the tree with the new nodes, and their number.\<close>

fun seek :: "Name \<Rightarrow> node \<Rightarrow> node option" where
  "seek [] n = Some n"
| "seek (c # name) n =
     (case map_of (node_children n) (componentToString c) of
        None \<Rightarrow> None
      | Some child \<Rightarrow> seek name child)"

fun seek_insert :: "Name \<Rightarrow> node \<Rightarrow> node \<times> nat" where
  "seek_insert [] n = (n, 0)"
| "seek_insert (c # name) n =
     (case map_of (node_children n) (componentToString c) of
        None \<Rightarrow> (case seek_insert name newNode of (child, new) \<Rightarrow> (addChild (componentToString c) child n, Suc new))
      | Some child \<Rightarrow> (case seek_insert name child of (child, new) \<Rightarrow> (addChild (componentToString c) child n, new)))"

text \<open>Assignment of the EntryBody of the node that \<open>seek\<close> returned.\<close>

fun set_body :: "EntryBody \<Rightarrow> Name \<Rightarrow> node \<Rightarrow> node" where
  "set_body body [] n = Node body (node_height n) (node_children n)"
| "set_body body (c # name) n =
     (case map_of (node_children n) (componentToString c) of
        None \<Rightarrow> n
      | Some child \<Rightarrow> addChild (componentToString c) (set_body body name child) n)"

text \<open>The loop of \<open>Insert\<close> over the ancestors; \<open>path\<close> leads to the node.\<close>

fun raise_heights ::
    "(int \<Rightarrow> int \<Rightarrow> int) \<Rightarrow> nat \<Rightarrow> bytes list \<Rightarrow> Name \<Rightarrow> node \<Rightarrow> node \<times> VirtUpdate option" where
  "raise_heights maxInt sd path [] n = (n, None)"
| "raise_heights maxInt sd path (c # name) p =
     (case map_of (node_children p) (componentToString c) of
        None \<Rightarrow> (p, None)
      | Some child \<Rightarrow>
          (case raise_heights maxInt sd (path @ [componentToString c]) name child of
             (child, virt) \<Rightarrow>
               (let p' = updateHeight maxInt (addChild (componentToString c) child p)
                in (p', if length path = sd \<and> node_height p \<noteq> node_height p'
                        then Some \<lparr>v_Name = node_name path,
                               v_Action = (if node_height p = 0 then ActInsert else ActReplace),
                               HasReal = isEntry p', v_Height = node_height p'\<rparr>
                        else virt))))"

definition Insert :: "(int \<Rightarrow> int \<Rightarrow> int) \<Rightarrow> Entry \<Rightarrow> Tree \<Rightarrow> (Tree \<times> update) outcome" where
  "Insert maxInt entry t =
     (case Validate entry of
        Ok _ \<Rightarrow>
          (let (root, new) = seek_insert (e_Name entry) (t_root t);
               t = t\<lparr>t_root := root, nNodes := nNodes t + new\<rparr>;
               n = the (seek (e_Name entry) root)
           in if EntryBody_Equals (node_body n) (e_body entry) then Ok (t, no_update)
              else
                let real = \<lparr>r_body = e_body entry, r_Name = e_Name entry, r_Action = ActReplace, WithVirt = None\<rparr>;
                    (real, revert, t) =
                      (if isEntry n
                       then (real, RevertInsert \<lparr>e_body = node_body n, e_Name = e_Name entry\<rparr>, t)
                       else (real\<lparr>r_Action := ActInsert\<rparr>, RevertErase (e_Name entry), t\<lparr>nEntries := nEntries t + 1\<rparr>));
                    t = t\<lparr>t_root := set_body (e_body entry) (e_Name entry) (t_root t)\<rparr>
                in if length (e_Name entry) = startDepth t \<and> node_height n > 0
                   then Ok (t, \<lparr>u_real = Some (real\<lparr>WithVirt := Some \<lparr>v_Name = e_Name entry, v_Action = ActReplace,
                                   HasReal = True, v_Height = node_height n\<rparr>\<rparr>),
                               u_virt = None, u_revert = revert\<rparr>)
                   else if new > 0
                   then (case raise_heights maxInt (startDepth t) [] (e_Name entry) (t_root t) of
                           (root, virt) \<Rightarrow>
                             Ok (t\<lparr>t_root := root\<rparr>, \<lparr>u_real = Some real, u_virt = virt, u_revert = revert\<rparr>))
                   else Ok (t, \<lparr>u_real = Some real, u_virt = None, u_revert = revert\<rparr>))
      | _ \<Rightarrow> Panic)"

text \<open>
  The loop of \<open>Erase\<close> that deletes nodes upwards. The second result says whether the loop goes on at the
  parent, the third counts the deleted nodes.
\<close>

fun prune ::
    "(int \<Rightarrow> int \<Rightarrow> int) \<Rightarrow> nat \<Rightarrow> bytes list \<Rightarrow> Name \<Rightarrow> node \<Rightarrow> node \<times> bool \<times> nat \<times> VirtUpdate option" where
  "prune maxInt sd path [] n = (n, True, 0, None)"
| "prune maxInt sd path (c # name) p =
     (case map_of (node_children p) (componentToString c) of
        None \<Rightarrow> (p, False, 0, None)
      | Some child \<Rightarrow>
          (case prune maxInt sd (path @ [componentToString c]) name child of
             (child, go, k, virt) \<Rightarrow>
               if go \<and> \<not> isEntry child \<and> length (node_children child) = 0
               then
                 (let p' = updateHeight maxInt (removeChild (componentToString c) p)
                  in (p', True, Suc k,
                      if length path = sd \<and> node_height p \<noteq> node_height p'
                      then Some \<lparr>v_Name = node_name path,
                             v_Action = (if node_height p' = 0 then ActErase else ActReplace),
                             HasReal = isEntry p', v_Height = node_height p'\<rparr>
                      else virt))
               else (addChild (componentToString c) child p, False, k, virt)))"

definition Erase :: "(int \<Rightarrow> int \<Rightarrow> int) \<Rightarrow> Name \<Rightarrow> Tree \<Rightarrow> Tree \<times> update" where
  "Erase maxInt name t =
     (case seek name (t_root t) of
        None \<Rightarrow> (t, no_update)
      | Some n \<Rightarrow>
          if \<not> isEntry n then (t, no_update)
          else
            let revert = RevertInsert \<lparr>e_body = node_body n, e_Name = name\<rparr>;
                t = t\<lparr>nEntries := nEntries t - 1, t_root := set_body zero_EntryBody name (t_root t)\<rparr>;
                real = \<lparr>r_body = zero_EntryBody, r_Name = name, r_Action = ActErase, WithVirt = None\<rparr>
            in if length name = startDepth t \<and> node_height n > 0
               then (t, \<lparr>u_real = Some (real\<lparr>WithVirt := Some \<lparr>v_Name = name, v_Action = ActReplace,
                            HasReal = False, v_Height = node_height n\<rparr>\<rparr>),
                        u_virt = None, u_revert = revert\<rparr>)
               else (case prune maxInt (startDepth t) [] name (t_root t) of
                       (root, go, k, virt) \<Rightarrow>
                         (t\<lparr>t_root := root, nNodes := nNodes t - k\<rparr>,
                          \<lparr>u_real = Some real, u_virt = virt, u_revert = revert\<rparr>)))"

definition Tree_List :: "Tree \<Rightarrow> Entry list" where
  "Tree_List t = appendListTo [] (t_root t)"

definition Find :: "Name \<Rightarrow> Tree \<Rightarrow> Entry option" where
  "Find name t =
     (case seek name (t_root t) of
        None \<Rightarrow> None
      | Some n \<Rightarrow> if \<not> isEntry n then None else Some \<lparr>e_body = node_body n, e_Name = name\<rparr>)"

text \<open>\<open>update.Revert\<close> drops the update that the call returns.\<close>

definition Revert :: "(int \<Rightarrow> int \<Rightarrow> int) \<Rightarrow> revert \<Rightarrow> Tree \<Rightarrow> Tree outcome" where
  "Revert maxInt rv t =
     (case rv of
        RevertNil \<Rightarrow> Ok t
      | RevertInsert entry \<Rightarrow> andthen (Insert maxInt entry t) (\<lambda>(t, u). Ok t)
      | RevertErase name \<Rightarrow> Ok (fst (Erase maxInt name t)))"

subsection \<open>What a tree shows: entries and heights by path\<close>

fun node_at :: "bytes list \<Rightarrow> node \<Rightarrow> node option" where
  "node_at [] n = Some n"
| "node_at (k # ks) n = (case map_of (node_children n) k of None \<Rightarrow> None | Some child \<Rightarrow> node_at ks child)"

definition entry_at :: "bytes list \<Rightarrow> node \<Rightarrow> EntryBody option" where
  "entry_at ks n = (case node_at ks n of None \<Rightarrow> None | Some m \<Rightarrow> if isEntry m then Some (node_body m) else None)"

definition height_at :: "bytes list \<Rightarrow> node \<Rightarrow> int" where
  "height_at ks n = (case node_at ks n of None \<Rightarrow> 0 | Some m \<Rightarrow> node_height m)"

abbreviation keys :: "Name \<Rightarrow> bytes list" where
  "keys name \<equiv> map componentToString name"

lemma seek_node_at: "seek name n = node_at (keys name) n"
  by (induction name n rule: seek.induct) (simp_all split: option.split)

lemma addChild_simps [simp]:
  "node_body (addChild k c n) = node_body n" "node_height (addChild k c n) = node_height n"
  "node_children (addChild k c n) = AList.update k c (node_children n)" "isEntry (addChild k c n) = isEntry n"
  by (simp_all add: addChild_def isEntry_def)

lemma removeChild_simps [simp]:
  "node_body (removeChild k n) = node_body n" "node_height (removeChild k n) = node_height n"
  "node_children (removeChild k n) = AList.delete k (node_children n)" "isEntry (removeChild k n) = isEntry n"
  by (simp_all add: removeChild_def isEntry_def)

lemma updateHeight_simps [simp]:
  "node_body (updateHeight mx n) = node_body n" "node_children (updateHeight mx n) = node_children n"
  "isEntry (updateHeight mx n) = isEntry n"
  by (simp_all add: updateHeight_def isEntry_def)

lemma newNode_simps [simp]:
  "node_body newNode = zero_EntryBody" "node_height newNode = 0" "node_children newNode = []" "\<not> isEntry newNode"
  by (simp_all add: newNode_def isEntry_def zero_EntryBody_def)

lemma entry_at_simps [simp]:
  "entry_at [] n = (if isEntry n then Some (node_body n) else None)"
  "entry_at (k # ks) n = (case map_of (node_children n) k of None \<Rightarrow> None | Some child \<Rightarrow> entry_at ks child)"
  by (simp_all add: entry_at_def split: option.split)

lemma height_at_simps [simp]:
  "height_at [] n = node_height n"
  "height_at (k # ks) n = (case map_of (node_children n) k of None \<Rightarrow> 0 | Some child \<Rightarrow> height_at ks child)"
  by (simp_all add: height_at_def split: option.split)

lemma map_of_update [simp]: "map_of (AList.update k v al) k' = (if k' = k then Some v else map_of al k')"
  by (simp add: AList.update_conv')

lemma map_of_delete [simp]: "map_of (AList.delete k al) k' = (if k' = k then None else map_of al k')"
  by (simp add: AList.delete_conv')

lemma EntryBody_Equals_iff [simp]: "EntryBody_Equals a b \<longleftrightarrow> a = b"
  by (cases a; cases b) (auto simp: EntryBody_Equals_def list_all_iff intro: nth_equalityI)

text \<open>What each part of the operations does to them.\<close>

lemma seek_insert_at:
  assumes "seek_insert name n = (n', new)"
  shows "entry_at q n' = entry_at q n" "height_at q n' = height_at q n" "node_at (keys name) n' \<noteq> None"
    "new = 0 \<longleftrightarrow> node_at (keys name) n \<noteq> None" "entry_at (keys name) n = entry_at (keys name) n'"
    "height_at (keys name) n' = height_at (keys name) n" "isEntry n' = isEntry n" "node_height n' = node_height n"
proof -
  have new: "entry_at q newNode = None" "height_at q newNode = 0" for q by (cases q; simp)+
  have "(\<forall>q. entry_at q n' = entry_at q n \<and> height_at q n' = height_at q n) \<and> node_at (keys name) n' \<noteq> None
      \<and> (new = 0 \<longleftrightarrow> node_at (keys name) n \<noteq> None) \<and> isEntry n' = isEntry n \<and> node_height n' = node_height n"
    using assms
  proof (induction name n arbitrary: n' new rule: seek_insert.induct)
    case (2 c name n)
    show ?case
    proof (cases "map_of (node_children n) (componentToString c)")
      case None
      obtain child m where r: "seek_insert name newNode = (child, m)" by fastforce
      have n': "n' = addChild (componentToString c) child n" "new = Suc m" using 2(3) None r by simp_all
      have IH: "\<forall>q. entry_at q child = None \<and> height_at q child = 0" "node_at (keys name) child \<noteq> None"
        using 2(1) [OF None r] new by simp_all
      have "entry_at q n' = entry_at q n \<and> height_at q n' = height_at q n" for q
        using IH None n' by (cases q) auto
      then show ?thesis using IH n' None by simp
    next
      case (Some ch)
      obtain child m where r: "seek_insert name ch = (child, m)" by fastforce
      have n': "n' = addChild (componentToString c) child n" "new = m" using 2(3) Some r by simp_all
      have IH: "\<forall>q. entry_at q child = entry_at q ch \<and> height_at q child = height_at q ch"
          "node_at (keys name) child \<noteq> None" "m = 0 \<longleftrightarrow> node_at (keys name) ch \<noteq> None"
        using 2(2) [OF Some r] by simp_all
      have "entry_at q n' = entry_at q n \<and> height_at q n' = height_at q n" for q
        using IH Some n' by (cases q) auto
      then show ?thesis using IH n' Some by simp
    qed
  qed simp
  then show "entry_at q n' = entry_at q n" "height_at q n' = height_at q n" "node_at (keys name) n' \<noteq> None"
    "new = 0 \<longleftrightarrow> node_at (keys name) n \<noteq> None" "entry_at (keys name) n = entry_at (keys name) n'"
    "height_at (keys name) n' = height_at (keys name) n" "isEntry n' = isEntry n" "node_height n' = node_height n"
    by simp_all
qed

lemma set_body_at:
  assumes "node_at (keys name) n \<noteq> None"
  shows "entry_at q (set_body b name n)
      = (if q = keys name then (if length (Nexthops b) > 0 then Some b else None) else entry_at q n)"
    "height_at q (set_body b name n) = height_at q n"
    "node_at (keys name) (set_body b name n) \<noteq> None"
  using assms
proof (induction name arbitrary: n q)
  case Nil
  {
    case 1
    then show ?case by (cases q) (simp_all add: isEntry_def)
  next
    case 2
    then show ?case by (cases q) simp_all
  next
    case 3
    then show ?case by simp
  }
next
  case (Cons c name)
  {
    case 1
    then show ?case using Cons.IH(1) by (cases q) (auto split: option.splits)
  next
    case 2
    then show ?case using Cons.IH(2) by (cases q) (auto split: option.splits)
  next
    case 3
    then show ?case using Cons.IH(3) by (auto split: option.splits)
  }
qed

text \<open>The virtual entry command that goes with a change of height at the start depth.\<close>

definition virt_of :: "(int \<Rightarrow> int \<Rightarrow> UpdateAction) \<Rightarrow> bytes list \<Rightarrow> int \<Rightarrow> int \<Rightarrow> bool \<Rightarrow> VirtUpdate option" where
  "virt_of act path old new real =
     (if old = new then None
      else Some \<lparr>v_Name = node_name path, v_Action = act old new, HasReal = real, v_Height = new\<rparr>)"

definition act_insert :: "int \<Rightarrow> int \<Rightarrow> UpdateAction" where
  "act_insert old new = (if old = 0 then ActInsert else ActReplace)"

definition act_erase :: "int \<Rightarrow> int \<Rightarrow> UpdateAction" where
  "act_erase old new = (if new = 0 then ActErase else ActReplace)"

lemma raise_heights_at:
  assumes "raise_heights mx sd path name n = (n', virt)" "node_at (keys name) n \<noteq> None"
  shows "entry_at q n' = entry_at q n" "node_at q n' = None \<longleftrightarrow> node_at q n = None"
    "length path \<le> sd \<Longrightarrow> length q = sd - length path \<Longrightarrow> q \<noteq> take (sd - length path) (keys name) \<Longrightarrow>
      height_at q n' = height_at q n"
    "length path \<le> sd \<Longrightarrow> virt = (let q = take (sd - length path) (keys name) in
      if sd - length path < length name then virt_of act_insert (path @ q) (height_at q n) (height_at q n') (entry_at q n' \<noteq> None)
      else None)"
    "length name \<le> sd - length path \<Longrightarrow> length path \<le> sd \<Longrightarrow> length q = sd - length path \<Longrightarrow> height_at q n' = height_at q n"
    "length path > sd \<Longrightarrow> virt = None"
proof -
  have "(\<forall>q. entry_at q n' = entry_at q n \<and> (node_at q n' = None \<longleftrightarrow> node_at q n = None))
    \<and> (length path \<le> sd \<longrightarrow> (\<forall>q. length q = sd - length path \<and>
         (q \<noteq> take (sd - length path) (keys name) \<or> length name \<le> sd - length path) \<longrightarrow> height_at q n' = height_at q n))
    \<and> virt = (if length path \<le> sd \<and> sd - length path < length name
        then (let q = take (sd - length path) (keys name) in
          virt_of act_insert (path @ q) (height_at q n) (height_at q n') (entry_at q n' \<noteq> None)) else None)"
    using assms
  proof (induction name arbitrary: n n' virt path)
    case (Cons c name)
    let ?k = "componentToString c"
    from Cons.prems(2) obtain ch where ch: "map_of (node_children n) ?k = Some ch" "node_at (keys name) ch \<noteq> None"
      by (auto split: option.splits)
    obtain ch' v where r: "raise_heights mx sd (path @ [?k]) name ch = (ch', v)" by fastforce
    note IH = Cons.IH [OF r ch(2)]
    define p' where "p' = updateHeight mx (addChild ?k ch' n)"
    let ?virt = "if length path = sd \<and> node_height n \<noteq> node_height p'
        then Some \<lparr>v_Name = node_name path, v_Action = (if node_height n = 0 then ActInsert else ActReplace),
               HasReal = isEntry p', v_Height = node_height p'\<rparr> else v"
    have "raise_heights mx sd path (c # name) n = (p', ?virt)" by (simp add: ch(1) r p'_def Let_def)
    from trans [OF Cons.prems(1) [symmetric] this] have n': "n' = p'" and virt: "virt = ?virt" by (simp_all only: prod.inject)
    have e: "entry_at q n' = entry_at q n \<and> (node_at q n' = None \<longleftrightarrow> node_at q n = None)" for q
      using IH ch(1) by (cases q) (auto simp: n' p'_def)
    have h: "height_at q n' = height_at q n" if "length path \<le> sd" "length q = sd - length path"
        "q \<noteq> take (sd - length path) (keys (c # name)) \<or> length (c # name) \<le> sd - length path" for q
    proof (cases q)
      case Nil
      then show ?thesis using that by auto
    next
      case (Cons x xs)
      define d where "d = sd - length (path @ [?k])"
      have l: "length (path @ [?k]) \<le> sd" "length xs = d" and sd: "sd - length path = Suc d"
        using that(1,2) Cons by (simp_all add: d_def)
      have "x \<noteq> ?k \<or> xs \<noteq> take d (keys name) \<or> length name \<le> d"
        using that(3) unfolding sd Cons list.map take_Suc_Cons list.inject list.size by linarith
      then have "height_at xs ch' = height_at xs ch" if "x = ?k" using IH l that unfolding d_def by blast
      then show ?thesis using ch(1) by (simp add: n' p'_def Cons)
    qed
    have v: "virt = (if length path \<le> sd \<and> sd - length path < length (c # name)
        then (let q = take (sd - length path) (keys (c # name)) in
          virt_of act_insert (path @ q) (height_at q n) (height_at q n') (entry_at q n' \<noteq> None)) else None)"
    proof (cases "length path < sd")
      case True
      then obtain d where d: "sd - length path = Suc d" "sd - Suc (length path) = d" by (cases "sd - length path") auto
      have "virt = v" using True virt by simp
      then show ?thesis using IH True ch(1) by (simp add: d n' p'_def Let_def)
    next
      case False
      have "v = None" using IH False by simp
      then show ?thesis using False virt by (simp add: n' virt_of_def act_insert_def)
    qed
    show ?case using e h v by blast
  qed simp
  then show "entry_at q n' = entry_at q n" "node_at q n' = None \<longleftrightarrow> node_at q n = None"
    "length path \<le> sd \<Longrightarrow> length q = sd - length path \<Longrightarrow> q \<noteq> take (sd - length path) (keys name) \<Longrightarrow>
      height_at q n' = height_at q n"
    "length path \<le> sd \<Longrightarrow> virt = (let q = take (sd - length path) (keys name) in
      if sd - length path < length name then virt_of act_insert (path @ q) (height_at q n) (height_at q n') (entry_at q n' \<noteq> None)
      else None)"
    "length name \<le> sd - length path \<Longrightarrow> length path \<le> sd \<Longrightarrow> length q = sd - length path \<Longrightarrow> height_at q n' = height_at q n"
    "length path > sd \<Longrightarrow> virt = None"
    by (simp_all add: Let_def)
qed

subsection \<open>Well-formed trees\<close>

text \<open>
  Heights bound the depth of the subtree: they may be larger than it, since \<open>Erase\<close> stops updating them at
  the first ancestor that it keeps, but the height of a node is zero exactly when it has no children.
\<close>

definition local_ok :: "node \<Rightarrow> bool" where
  "local_ok m \<longleftrightarrow> distinct (map fst (node_children m)) \<and> (node_children m = [] \<longrightarrow> node_height m = 0) \<and> 0 \<le> node_height m
     \<and> (\<forall>k c. map_of (node_children m) k = Some c \<longrightarrow> node_height c < node_height m)"

definition node_ok :: "node \<Rightarrow> bool" where
  "node_ok n \<longleftrightarrow> (\<forall>q m. node_at q n = Some m \<longrightarrow> local_ok m)"

lemma node_ok_iff: "node_ok n \<longleftrightarrow> local_ok n \<and> (\<forall>k c. map_of (node_children n) k = Some c \<longrightarrow> node_ok c)"
proof
  assume ok: "node_ok n"
  have "local_ok n" using ok [unfolded node_ok_def, rule_format, of "[]"] by simp
  moreover have "node_ok c" if "map_of (node_children n) k = Some c" for k c
    unfolding node_ok_def using ok [unfolded node_ok_def, rule_format, of "k # _"] that by simp
  ultimately show "local_ok n \<and> (\<forall>k c. map_of (node_children n) k = Some c \<longrightarrow> node_ok c)" by blast
next
  assume *: "local_ok n \<and> (\<forall>k c. map_of (node_children n) k = Some c \<longrightarrow> node_ok c)"
  have "local_ok m" if "node_at q n = Some m" for q m
  proof (cases q)
    case Nil
    then show ?thesis using * that by simp
  next
    case (Cons k ks)
    then show ?thesis using * that by (auto simp: node_ok_def split: option.splits)
  qed
  then show "node_ok n" by (simp add: node_ok_def)
qed

lemma node_ok_newNode: "node_ok newNode"
  by (subst node_ok_iff) (simp add: local_ok_def)

lemma height_bounds: "node_ok n \<Longrightarrow> node_at q n = Some m \<Longrightarrow> int (length q) \<le> node_height n"
proof (induction q arbitrary: n)
  case Nil
  then show ?case by (simp add: node_ok_iff [of n] local_ok_def)
next
  case (Cons k q)
  then obtain c where c: "map_of (node_children n) k = Some c" "node_at q c = Some m" by (auto split: option.splits)
  then have "int (length q) \<le> node_height c" "node_height c < node_height n"
    using Cons.IH Cons.prems(1) by (simp_all add: node_ok_iff [of n] local_ok_def)
  then show ?case by simp
qed

text \<open>\<open>updateHeight\<close> makes a node well-formed when its children are.\<close>

lemma height_fold:
  "fold (\<lambda>(k, child) h. max h (node_height child)) cs h0 = Max (insert h0 (node_height ` snd ` set cs))"
proof -
  have "fold (\<lambda>(k, child) h. max h (node_height child)) cs h0 = fold max (map (\<lambda>x. node_height (snd x)) cs) h0"
    by (induction cs arbitrary: h0) (auto simp: max.commute)
  also have "\<dots> = Max (insert h0 (set (map (\<lambda>x. node_height (snd x)) cs)))"
    by (simp only: Max.set_eq_fold [symmetric] list.set)
  also have "set (map (\<lambda>x. node_height (snd x)) cs) = node_height ` snd ` set cs" by (simp add: image_image)
  finally show ?thesis .
qed

lemma height_updateHeight:
  "node_height (updateHeight max n) = Max (insert (-1) (node_height ` snd ` set (node_children n))) + 1"
  by (simp add: updateHeight_def height_fold)

lemma height_updateHeight_gt:
  "map_of (node_children n) k = Some c \<Longrightarrow> node_height c < node_height (updateHeight max n)"
proof -
  assume "map_of (node_children n) k = Some c"
  then have "(k, c) \<in> set (node_children n)" by (rule map_of_SomeD)
  then have "node_height c \<in> insert (-1) (node_height ` snd ` set (node_children n))" by force
  then have "node_height c \<le> Max (insert (-1) (node_height ` snd ` set (node_children n)))" by (intro Max_ge) simp_all
  then show ?thesis by (simp add: height_updateHeight)
qed

lemma updateHeight_ok:
  assumes "distinct (map fst (node_children n))" "\<And>k c. map_of (node_children n) k = Some c \<Longrightarrow> node_ok c"
  shows "node_ok (updateHeight max n)"
proof -
  have "-1 \<le> Max (insert (-1) (node_height ` snd ` set (node_children n)))" by (intro Max_ge) simp_all
  then have "0 \<le> node_height (updateHeight max n)" unfolding height_updateHeight by linarith
  moreover have "node_children n = [] \<Longrightarrow> node_height (updateHeight max n) = 0" by (simp add: height_updateHeight)
  ultimately have "local_ok (updateHeight max n)"
    using assms(1) height_updateHeight_gt by (simp add: local_ok_def)
  then show ?thesis using assms(2) by (simp add: node_ok_iff [of "updateHeight max n"])
qed

lemma updateHeight_le:
  assumes "local_ok p" "\<And>k c. map_of (node_children n) k = Some c \<Longrightarrow> map_of (node_children p) k = Some c"
    and "distinct (map fst (node_children n))"
  shows "node_height (updateHeight max n) \<le> node_height p"
proof -
  have "node_height c < node_height p" if "(k, c) \<in> set (node_children n)" for k c
    using assms(1) assms(2) [OF map_of_is_SomeI [OF assms(3) that]] by (simp add: local_ok_def)
  then have "\<forall>h \<in> insert (-1) (node_height ` snd ` set (node_children n)). h < node_height p"
    using assms(1) by (auto simp: local_ok_def)
  then have "Max (insert (-1) (node_height ` snd ` set (node_children n))) < node_height p" by (subst Max_less_iff) simp_all
  then show ?thesis unfolding height_updateHeight by linarith
qed

text \<open>What \<open>Insert\<close> does to the nodes on the path.\<close>

lemma seek_insert_old: "node_at (keys name) n \<noteq> None \<Longrightarrow> seek_insert name n = (n, 0)"
proof (induction name arbitrary: n)
  case (Cons c name)
  have same: "AList.update k v al = al" if "map_of al k = Some v" for k v and al :: "(bytes \<times> node) list"
    using that by (induction al) (auto split: if_splits)
  from Cons show ?case
    by (cases n) (auto simp: addChild_def same split: option.splits)
qed simp

definition inserted :: "nat \<Rightarrow> bytes list \<Rightarrow> EntryBody \<Rightarrow> Name \<Rightarrow> node \<Rightarrow> node" where
  "inserted sd path b name n = fst (raise_heights max sd path name (set_body b name (fst (seek_insert name n))))"

lemma inserted_simps:
  "inserted sd path b [] n = Node b (node_height n) (node_children n)"
  "inserted sd path b (c # name) n = updateHeight max (addChild (componentToString c)
     (inserted sd (path @ [componentToString c]) b name
        (case map_of (node_children n) (componentToString c) of None \<Rightarrow> newNode | Some child \<Rightarrow> child)) n)"
  by (auto simp: inserted_def addChild_def Let_def update_last split: option.split prod.split)

lemma inserted_ok: "node_ok n \<Longrightarrow> node_ok (inserted sd path b name n)"
proof (induction name arbitrary: n path)
  case Nil
  then show ?case by (subst node_ok_iff) (simp add: inserted_simps node_ok_iff [of n] local_ok_def)
next
  case (Cons c name)
  let ?k = "componentToString c"
  let ?ch = "case map_of (node_children n) ?k of None \<Rightarrow> newNode | Some child \<Rightarrow> child"
  have n: "distinct (map fst (node_children n))" "\<And>k c. map_of (node_children n) k = Some c \<Longrightarrow> node_ok c"
    using Cons.prems by (simp_all add: node_ok_iff [of n] local_ok_def)
  then have "node_ok ?ch" by (simp add: node_ok_newNode split: option.split)
  from Cons.IH [OF this] n show ?case
    unfolding inserted_simps by (intro updateHeight_ok) (auto simp: distinct_update split: if_splits)
qed

text \<open>The paths of nodes that have neither an entry nor children are in a given set.\<close>

definition dead_only :: "bytes list set \<Rightarrow> node \<Rightarrow> bool" where
  "dead_only S n \<longleftrightarrow> (\<forall>q m. node_at q n = Some m \<and> \<not> isEntry m \<and> node_children m = [] \<longrightarrow> q \<in> S)"

lemma dead_only_iff:
  "dead_only S n \<longleftrightarrow> (isEntry n \<or> node_children n \<noteq> [] \<or> [] \<in> S)
     \<and> (\<forall>k c. map_of (node_children n) k = Some c \<longrightarrow> dead_only {q. k # q \<in> S} c)" (is "_ \<longleftrightarrow> ?R")
proof
  assume d: "dead_only S n"
  have "isEntry n \<or> node_children n \<noteq> [] \<or> [] \<in> S" using d [unfolded dead_only_def, rule_format, of "[]" n] by auto
  moreover have "dead_only {q. k # q \<in> S} c" if "map_of (node_children n) k = Some c" for k c
    unfolding dead_only_def using d [unfolded dead_only_def, rule_format, of "k # _"] that by auto
  ultimately show ?R by blast
next
  assume r: ?R
  have "q \<in> S" if q: "node_at q n = Some m" "\<not> isEntry m" "node_children m = []" for q m
  proof (cases q)
    case Nil
    then show ?thesis using r q by auto
  next
    case (Cons k ks)
    with q(1) obtain c where c: "map_of (node_children n) k = Some c" "node_at ks c = Some m" by (auto split: option.splits)
    then have "dead_only {q. k # q \<in> S} c" using r by blast
    then have "ks \<in> {q. k # q \<in> S}" using c(2) q(2,3) unfolding dead_only_def by blast
    then show ?thesis using Cons by simp
  qed
  then show "dead_only S n" by (auto simp: dead_only_def)
qed

lemma dead_only_mono: "dead_only S n \<Longrightarrow> S \<subseteq> T \<Longrightarrow> dead_only T n"
  by (auto simp: dead_only_def)

lemma dead_only_child: "dead_only S n \<Longrightarrow> map_of (node_children n) k = Some c \<Longrightarrow> dead_only {q. k # q \<in> S} c"
  by (simp add: dead_only_iff [of S n])

lemma dead_only_empty: "dead_only {} n \<longleftrightarrow> (isEntry n \<or> node_children n \<noteq> []) \<and> dead_only {[]} n"
  by (simp add: dead_only_iff [of "{}" n] dead_only_iff [of "{[]}" n])

lemma inserted_dead: "length (Nexthops b) > 0 \<Longrightarrow> dead_only {[]} n \<Longrightarrow> dead_only {} (inserted sd path b name n)"
proof (induction name arbitrary: n path)
  case Nil
  then show ?case
    unfolding inserted_simps by (subst dead_only_iff) (simp add: dead_only_iff [of "{[]}" n] isEntry_def)
next
  case (Cons c name)
  let ?k = "componentToString c"
  let ?ch = "case map_of (node_children n) ?k of None \<Rightarrow> newNode | Some child \<Rightarrow> child"
  have "dead_only {[]} newNode" by (simp add: dead_only_iff [of _ newNode])
  then have "dead_only {[]} ?ch"
    using dead_only_child [OF Cons.prems(2)] dead_only_mono [of "{}"] by (auto split: option.split)
  from Cons.IH [OF Cons.prems(1) this] have IH: "dead_only {} (inserted sd path b name ?ch)" for path .
  have "dead_only {} child" if "map_of (node_children n) k = Some child" for k child
    using dead_only_child [OF Cons.prems(2) that] by simp
  moreover have "AList.update ?k x (node_children n) \<noteq> []" for x by (simp add: update_nonempty)
  ultimately show ?case
    using IH by (subst dead_only_iff) (simp add: inserted_simps)
qed

lemma set_body_node_at:
  "node_at q (set_body b name n) = Some m \<Longrightarrow>
   \<exists>m0. node_at q n = Some m0 \<and> (q \<noteq> keys name \<longrightarrow> isEntry m = isEntry m0) \<and> (node_children m = [] \<longleftrightarrow> node_children m0 = [])"
proof (induction name arbitrary: q n m)
  case Nil
  then show ?case by (cases q) auto
next
  case (Cons c name)
  show ?case
  proof (cases "map_of (node_children n) (componentToString c)")
    case None
    then show ?thesis using Cons.prems by simp
  next
    case (Some ch)
    then show ?thesis
      using Cons.prems Cons.IH [of _ ch] by (cases q) (auto simp: update_nonempty split: if_splits option.splits)
  qed
qed

lemma set_body_dead: "dead_only {[]} n \<Longrightarrow> dead_only {[], keys name} (set_body b name n)"
  unfolding dead_only_def using set_body_node_at by (metis insertCI singletonD)

text \<open>What \<open>Erase\<close> does to them.\<close>

lemma set_body_ok: "node_ok n \<Longrightarrow> node_ok (set_body b name n) \<and> node_height (set_body b name n) = node_height n"
proof (induction name arbitrary: n)
  case Nil
  then show ?case by (subst node_ok_iff) (simp add: node_ok_iff [of n] local_ok_def)
next
  case (Cons c name)
  show ?case
  proof (cases "map_of (node_children n) (componentToString c)")
    case None
    then show ?thesis using Cons.prems by simp
  next
    case (Some ch)
    then have "node_ok ch" using Cons.prems by (simp add: node_ok_iff [of n])
    from Cons.IH [OF this] Cons.prems Some show ?thesis
      by (subst node_ok_iff) (auto simp: node_ok_iff [of n] local_ok_def distinct_update update_nonempty split: if_splits)
  qed
qed

lemma prune_step:
  assumes "prune mx sd path (c # name) p = (p', go, k, virt)" "map_of (node_children p) (componentToString c) = Some ch"
    and "prune mx sd (path @ [componentToString c]) name ch = (ch', go', k', virt')"
  obtains (remove) "go'" "\<not> isEntry ch'" "node_children ch' = []" "go" "k = Suc k'"
      "p' = updateHeight mx (removeChild (componentToString c) p)"
      "virt = (if length path = sd \<and> node_height p \<noteq> node_height p' then Some \<lparr>v_Name = node_name path,
         v_Action = (if node_height p' = 0 then ActErase else ActReplace), HasReal = isEntry p', v_Height = node_height p'\<rparr>
         else virt')"
  | (keep) "\<not> go' \<or> isEntry ch' \<or> node_children ch' \<noteq> []" "\<not> go" "k = k'" "virt = virt'"
      "p' = addChild (componentToString c) ch' p"
proof (cases "go' \<and> \<not> isEntry ch' \<and> length (node_children ch') = 0")
  case True
  let ?p = "updateHeight mx (removeChild (componentToString c) p)"
  have "prune mx sd path (c # name) p = (?p, True, Suc k',
      if length path = sd \<and> node_height p \<noteq> node_height ?p then Some \<lparr>v_Name = node_name path,
         v_Action = (if node_height ?p = 0 then ActErase else ActReplace), HasReal = isEntry ?p, v_Height = node_height ?p\<rparr>
         else virt')"
    using True by (simp add: assms(2,3) Let_def)
  from trans [OF assms(1) [symmetric] this] have "p' = ?p" "go" "k = Suc k'"
    "virt = (if length path = sd \<and> node_height p \<noteq> node_height ?p then Some \<lparr>v_Name = node_name path,
         v_Action = (if node_height ?p = 0 then ActErase else ActReplace), HasReal = isEntry ?p, v_Height = node_height ?p\<rparr>
         else virt')"
    by (simp_all only: prod.inject)
  with True show thesis by (intro remove) simp_all
next
  case False
  then have "prune mx sd path (c # name) p = (addChild (componentToString c) ch' p, False, k', virt')"
    by (auto simp add: assms(2,3))
  from trans [OF assms(1) [symmetric] this] have "p' = addChild (componentToString c) ch' p" "\<not> go" "k = k'" "virt = virt'"
    by (simp_all only: prod.inject) simp
  with False show thesis by (intro keep) auto
qed

lemma prune_ok:
  assumes "prune max sd path name n = (n', go, k, virt)" "node_at (keys name) n \<noteq> None" "node_ok n"
  shows "node_ok n' \<and> node_height n' \<le> node_height n \<and> (\<forall>q. entry_at q n' = entry_at q n)"
  using assms
proof (induction name arbitrary: path n n' go k virt)
  case (Cons c name)
  let ?k = "componentToString c"
  from Cons.prems(2) obtain ch where ch: "map_of (node_children n) ?k = Some ch" "node_at (keys name) ch \<noteq> None"
    by (auto split: option.splits)
  obtain ch' go' k' v' where r: "prune max sd (path @ [?k]) name ch = (ch', go', k', v')" by (rule prod_cases4)
  have n: "local_ok n" "\<And>k c. map_of (node_children n) k = Some c \<Longrightarrow> node_ok c"
    using Cons.prems(3) by (simp_all add: node_ok_iff [of n])
  from Cons.IH [OF r ch(2) n(2) [OF ch(1)]] have IH: "node_ok ch'" "node_height ch' \<le> node_height ch"
    "\<And>q. entry_at q ch' = entry_at q ch" by simp_all
  from Cons.prems(1) ch(1) r show ?case
  proof (cases rule: prune_step)
    case remove
    have "entry_at q ch = None" for q
    proof -
      have "entry_at q ch' = None" using remove(2,3) by (cases q) simp_all
      then show ?thesis using IH(3) by simp
    qed
    then have "entry_at q n' = entry_at q n" for q using ch(1) remove(6) by (cases q) (simp_all split: option.split)
    moreover have "node_ok n'"
      unfolding remove(6) using n by (intro updateHeight_ok) (auto simp: local_ok_def distinct_delete split: if_splits)
    moreover have "node_height n' \<le> node_height n"
      unfolding remove(6) using n(1)
      by (intro updateHeight_le [OF n(1)]) (auto simp: local_ok_def distinct_delete split: if_splits)
    ultimately show ?thesis by blast
  next
    case keep
    have "entry_at q n' = entry_at q n" for q using ch(1) keep(5) IH(3) by (cases q) (simp_all split: option.split)
    moreover have "node_ok n'"
      unfolding keep(5) using n IH(1,2) ch(1)
      by (subst node_ok_iff) (fastforce simp: local_ok_def distinct_update update_nonempty split: if_splits)
    ultimately show ?thesis by (simp add: keep(5))
  qed
qed auto

lemma prune_dead:
  assumes "prune max sd path name n = (n', go, k, virt)" "node_at (keys name) n \<noteq> None"
    and "dead_only (insert (keys name) S) n" "S \<subseteq> {[]}"
  shows "dead_only {[]} n' \<and> (\<not> go \<longrightarrow> dead_only {} n')"
  using assms
proof (induction name arbitrary: path n n' go k virt S)
  case Nil
  then show ?case by (auto intro: dead_only_mono)
next
  case (Cons c name)
  let ?k = "componentToString c"
  from Cons.prems(2) obtain ch where ch: "map_of (node_children n) ?k = Some ch" "node_at (keys name) ch \<noteq> None"
    by (auto split: option.splits)
  obtain ch' go' k' v' where r: "prune max sd (path @ [?k]) name ch = (ch', go', k', v')" by (rule prod_cases4)
  have "{q. ?k # q \<in> insert (keys (c # name)) S} = {keys name}" using Cons.prems(4) by auto
  with dead_only_child [OF Cons.prems(3) ch(1)] have "dead_only {keys name} ch" by simp
  with Cons.IH [OF r ch(2), of "{}"] have IH: "dead_only {[]} ch'" "\<not> go' \<Longrightarrow> dead_only {} ch'" by simp_all
  have others: "dead_only {} d" if "map_of (node_children n) k = Some d" "k \<noteq> ?k" for k d
  proof -
    have none: "{q. k # q \<in> insert (keys (c # name)) S} = {}" using Cons.prems(4) that(2) by auto
    show ?thesis using dead_only_child [OF Cons.prems(3) that(1)] unfolding none .
  qed
  from Cons.prems(1) ch(1) r show ?case
  proof (cases rule: prune_step)
    case remove
    then show ?thesis using others by (subst dead_only_iff) (auto split: if_splits)
  next
    case keep
    have "dead_only {} ch'" using keep(1) IH by (auto simp: dead_only_empty)
    then have "dead_only {} n'"
      unfolding keep(5) using others by (subst dead_only_iff) (auto simp: update_nonempty split: if_splits)
    then show ?thesis using dead_only_mono by blast
  qed
qed

lemma prune_virt:
  assumes "prune max sd path name n = (n', go, k, virt)" "node_at (keys name) n \<noteq> None" "node_ok n"
  shows "(length path \<le> sd \<longrightarrow> (\<forall>q. length q = sd - length path \<and>
         (q \<noteq> take (sd - length path) (keys name) \<or> length name \<le> sd - length path) \<longrightarrow> height_at q n' = height_at q n))
    \<and> virt = (if length path \<le> sd \<and> sd - length path < length name
        then (let q = take (sd - length path) (keys name) in
          virt_of act_erase (path @ q) (height_at q n) (height_at q n') (entry_at q n' \<noteq> None)) else None)"
  using assms
proof (induction name arbitrary: path n n' go k virt)
  case (Cons c name)
  let ?k = "componentToString c"
  from Cons.prems(2) obtain ch where ch: "map_of (node_children n) ?k = Some ch" "node_at (keys name) ch \<noteq> None"
    by (auto split: option.splits)
  obtain ch' go' k' v' where r: "prune max sd (path @ [?k]) name ch = (ch', go', k', v')" by (rule prod_cases4)
  have chok: "node_ok ch" using Cons.prems(3) ch(1) by (simp add: node_ok_iff [of n])
  note IH = Cons.IH [OF r ch(2) chok]
  have ok': "node_ok ch'" "\<And>q. entry_at q ch' = entry_at q ch" using prune_ok [OF r ch(2) chok] by simp_all
  have n'ch: "height_at (k # q) n' = (if k = ?k then height_at q ch' else height_at (k # q) n)" for k q
    using Cons.prems(1) ch(1) r
  proof (cases rule: prune_step)
    case remove
    have "height_at q ch' = 0" using ok'(1) remove(3) by (cases q) (simp_all add: node_ok_iff [of ch'] local_ok_def)
    then show ?thesis by (simp add: remove(6))
  qed simp
  have e: "entry_at q n' = entry_at q n" for q using prune_ok [OF Cons.prems] by simp
  have h: "height_at q n' = height_at q n" if "length path \<le> sd" "length q = sd - length path"
      "q \<noteq> take (sd - length path) (keys (c # name)) \<or> length (c # name) \<le> sd - length path" for q
  proof (cases q)
    case Nil
    then show ?thesis using that by auto
  next
    case (Cons x xs)
    define d where "d = sd - length (path @ [?k])"
    have l: "length (path @ [?k]) \<le> sd" "length xs = d" and sd: "sd - length path = Suc d"
      using that(1,2) Cons by (simp_all add: d_def)
    have "x \<noteq> ?k \<or> xs \<noteq> take d (keys name) \<or> length name \<le> d"
      using that(3) unfolding sd Cons list.map take_Suc_Cons list.inject list.size by linarith
    then have "height_at xs ch' = height_at xs ch" if "x = ?k" using IH l that unfolding d_def by blast
    then show ?thesis using ch(1) unfolding Cons n'ch by simp
  qed
  have v: "virt = (if length path \<le> sd \<and> sd - length path < length (c # name)
      then (let q = take (sd - length path) (keys (c # name)) in
        virt_of act_erase (path @ q) (height_at q n) (height_at q n') (entry_at q n' \<noteq> None)) else None)"
  proof (cases "length path < sd")
    case True
    then obtain d where d: "sd - length path = Suc d" "sd - Suc (length path) = d" by (cases "sd - length path") auto
    have "virt = v'" using Cons.prems(1) ch(1) r by (cases rule: prune_step) (use True in auto)
    then show ?thesis using IH True ch(1) ok'(2) e by (simp add: d n'ch Let_def del: height_at_simps(2)) simp
  next
    case False
    then have "v' = None" using IH by simp
    from Cons.prems(1) ch(1) r show ?thesis
    proof (cases rule: prune_step)
      case remove
      then show ?thesis using False \<open>v' = None\<close> by (simp add: virt_of_def act_erase_def)
    next
      case keep
      then show ?thesis using False \<open>v' = None\<close> by (simp add: virt_of_def)
    qed
  qed
  show ?case using h v by blast
qed simp

subsection \<open>Counting nodes and entries\<close>

function tree_sum :: "(EntryBody \<Rightarrow> nat) \<Rightarrow> node \<Rightarrow> nat" where
  "tree_sum f (Node body h children) = f body + sum_list (map (\<lambda>(k, child). tree_sum f child) children)"
  by pat_completeness auto
termination
  by (relation "measure (size \<circ> snd)") (auto dest: size_child)

definition children_sum :: "(EntryBody \<Rightarrow> nat) \<Rightarrow> (bytes \<times> node) list \<Rightarrow> nat" where
  "children_sum f cs = sum_list (map (\<lambda>(k, child). tree_sum f child) cs)"

lemma tree_sum_eq: "tree_sum f n = f (node_body n) + children_sum f (node_children n)"
  by (cases n) (simp add: children_sum_def)

lemma children_sum_new: "map_of cs k = None \<Longrightarrow> children_sum f (AList.update k c cs) = children_sum f cs + tree_sum f c"
  by (induction cs) (auto simp: children_sum_def split: if_splits)

lemma children_sum_old:
  "map_of cs k = Some c0 \<Longrightarrow> children_sum f (AList.update k c cs) + tree_sum f c0 = children_sum f cs + tree_sum f c"
  by (induction cs) (auto simp: children_sum_def split: if_splits)

lemma children_sum_delete:
  "distinct (map fst cs) \<Longrightarrow> map_of cs k = Some c0 \<Longrightarrow> children_sum f (AList.delete k cs) + tree_sum f c0 = children_sum f cs"
proof (induction cs)
  case (Cons x cs)
  obtain k1 c1 where x: "x = (k1, c1)" by fastforce
  show ?case
  proof (cases "k1 = k")
    case True
    then have "map_of cs k = None" using Cons.prems(1) by (simp add: x map_of_eq_None_iff)
    then have "AList.delete k cs = cs" by (simp add: delete_idem map_of_eq_None_iff)
    then show ?thesis using Cons.prems(2) True by (simp add: x children_sum_def)
  next
    case False
    then show ?thesis using Cons by (simp add: x children_sum_def)
  qed
qed simp

lemma tree_sum_addChild:
  "map_of (node_children n) k = None \<Longrightarrow> tree_sum f (addChild k c n) = tree_sum f n + tree_sum f c"
  "map_of (node_children n) k = Some c0 \<Longrightarrow> tree_sum f (addChild k c n) + tree_sum f c0 = tree_sum f n + tree_sum f c"
  using children_sum_old [of "node_children n" k c0 f c] by (simp_all add: tree_sum_eq children_sum_new)

lemma tree_sum_updateHeight: "tree_sum f (updateHeight mx n) = tree_sum f n"
  by (simp add: tree_sum_eq)

lemma tree_sum_seek_insert:
  "seek_insert name n = (n', new) \<Longrightarrow> tree_sum f n' = tree_sum f n + new * f zero_EntryBody"
proof (induction name n arbitrary: n' new rule: seek_insert.induct)
  case (2 c name n)
  show ?case
  proof (cases "map_of (node_children n) (componentToString c)")
    case None
    then show ?thesis using 2 by (auto simp: tree_sum_addChild(1) tree_sum_eq [of f newNode] children_sum_def split: prod.splits)
  next
    case (Some ch)
    obtain ch' m where r: "seek_insert name ch = (ch', m)" by fastforce
    then show ?thesis
      using 2(2) [OF Some r] 2(3) Some tree_sum_addChild(2) [OF Some, of f ch'] by simp
  qed
qed simp

lemma tree_sum_set_body:
  "node_at (keys name) n = Some m \<Longrightarrow> tree_sum f (set_body b name n) + f (node_body m) = tree_sum f n + f b"
proof (induction name arbitrary: n)
  case Nil
  then show ?case by (simp add: tree_sum_eq [of f m] children_sum_def)
next
  case (Cons c name)
  then obtain ch where ch: "map_of (node_children n) (componentToString c) = Some ch" "node_at (keys name) ch = Some m"
    by (auto split: option.splits)
  show ?case using Cons.IH [OF ch(2)] tree_sum_addChild(2) [OF ch(1), of f "set_body b name ch"] ch(1) by simp
qed

lemma tree_sum_raise: "raise_heights mx sd path name n = (n', virt) \<Longrightarrow> tree_sum f n' = tree_sum f n"
proof (induction name arbitrary: n n' virt path)
  case (Cons c name)
  show ?case
  proof (cases "map_of (node_children n) (componentToString c)")
    case None
    then show ?thesis using Cons.prems by simp
  next
    case (Some ch)
    obtain ch' v where r: "raise_heights mx sd (path @ [componentToString c]) name ch = (ch', v)" by fastforce
    have "n' = updateHeight mx (addChild (componentToString c) ch' n)" using Cons.prems Some r by (simp add: Let_def)
    then show ?thesis using Cons.IH [OF r] tree_sum_addChild(2) [OF Some, of f ch'] by (simp add: tree_sum_updateHeight)
  qed
qed simp

lemma tree_sum_prune:
  assumes "prune max sd path name n = (n', go, k, virt)" "node_at (keys name) n \<noteq> None" "node_ok n"
    and "\<And>b. length (Nexthops b) = 0 \<Longrightarrow> f b = f zero_EntryBody"
  shows "tree_sum f n' + k * f zero_EntryBody = tree_sum f n"
  using assms(1-3)
proof (induction name arbitrary: path n n' go k virt)
  case (Cons c name)
  let ?k = "componentToString c"
  from Cons.prems(2) obtain ch where ch: "map_of (node_children n) ?k = Some ch" "node_at (keys name) ch \<noteq> None"
    by (auto split: option.splits)
  obtain ch' go' k' v' where r: "prune max sd (path @ [?k]) name ch = (ch', go', k', v')" by (rule prod_cases4)
  have "node_ok ch" and d: "distinct (map fst (node_children n))"
    using Cons.prems(3) ch(1) by (simp_all add: node_ok_iff [of n] local_ok_def)
  from Cons.IH [OF r ch(2) this(1)] have IH: "tree_sum f ch' + k' * f zero_EntryBody = tree_sum f ch" .
  from Cons.prems(1) ch(1) r show ?case
  proof (cases rule: prune_step)
    case remove
    have "f (node_body ch') = f zero_EntryBody" using remove(2) by (intro assms(4)) (simp add: isEntry_def)
    then have "tree_sum f ch' = f zero_EntryBody" by (simp add: tree_sum_eq [of f ch'] remove(3) children_sum_def)
    then show ?thesis
      using IH children_sum_delete [OF d ch(1), of f] remove(5)
      by (simp add: remove(6) tree_sum_updateHeight tree_sum_eq [of f n] tree_sum_eq [of f "removeChild _ _"])
  next
    case keep
    then show ?thesis using IH tree_sum_addChild(2) [OF ch(1), of f ch'] by simp
  qed
qed simp

subsection \<open>The operations\<close>

definition tree_ok :: "Tree \<Rightarrow> bool" where
  "tree_ok t \<longleftrightarrow> node_ok (t_root t) \<and> dead_only {[]} (t_root t) \<and> nNodes t = tree_sum (\<lambda>_. 1) (t_root t)
     \<and> nEntries t = tree_sum (\<lambda>b. if length (Nexthops b) > 0 then 1 else 0) (t_root t)"

lemma componentToString_ok: "comp_ok c \<Longrightarrow> componentToString c = tlv_bytes (Type c) (Value c)"
  using component_codec.enc_field [of c] by (simp add: componentToString_def EncodeFrom_encs)

lemma concat_keys: "list_all comp_ok name \<Longrightarrow> concat (keys name) = name_value name"
  by (induction name) (simp_all add: componentToString_ok name_value_def items_def)

lemma node_name_keys: "list_all comp_ok name \<Longrightarrow> node_name (keys name) = name"
  by (simp add: node_name_def concat_keys Name_Unmarshal_value)

text \<open>
  How an update command describes the change from one tree to the next: the real entry command, and the
  virtual entry command for the height of the ancestor at the start depth.
\<close>

definition virt_act :: "int \<Rightarrow> int \<Rightarrow> UpdateAction" where
  "virt_act old new = (if old = 0 then ActInsert else if new = 0 then ActErase else ActReplace)"

definition real_act :: "EntryBody option \<Rightarrow> EntryBody option \<Rightarrow> UpdateAction" where
  "real_act old new = (if new = None then ActErase else if old = None then ActInsert else ActReplace)"

definition described :: "nat \<Rightarrow> Name \<Rightarrow> EntryBody option \<Rightarrow> node \<Rightarrow> node \<Rightarrow> update \<Rightarrow> bool" where
  "described sd name b n n' u \<longleftrightarrow>
     (\<forall>q. entry_at q n' = (if q = keys name then b else entry_at q n))
   \<and> (\<forall>q. length q = sd \<and> (q \<noteq> keys (take sd name) \<or> length name \<le> sd) \<longrightarrow> height_at q n' = height_at q n)
   \<and> u_real u =
       (if entry_at (keys name) n = b then None
        else Some \<lparr>r_body = (case b of None \<Rightarrow> zero_EntryBody | Some body \<Rightarrow> body), r_Name = name,
               r_Action = real_act (entry_at (keys name) n) b,
               WithVirt = (if length name = sd \<and> height_at (keys name) n > 0
                 then Some \<lparr>v_Name = name, v_Action = ActReplace, HasReal = (b \<noteq> None), v_Height = height_at (keys name) n\<rparr>
                 else None)\<rparr>)
   \<and> u_virt u =
       (if length name \<le> sd then None
        else virt_of virt_act (keys (take sd name)) (height_at (keys (take sd name)) n) (height_at (keys (take sd name)) n')
               (entry_at (keys (take sd name)) n' \<noteq> None))"

lemma entry_at_node: "node_at ks n = Some m \<Longrightarrow> entry_at ks n = (if isEntry m then Some (node_body m) else None)"
  by (simp add: entry_at_def)

lemma height_at_node: "node_at ks n = Some m \<Longrightarrow> height_at ks n = node_height m"
  by (simp add: height_at_def)

lemma height_above:
  assumes "node_ok n" "node_at (keys name) n \<noteq> None" "sd < length name"
  shows "height_at (keys (take sd name)) n > 0"
  using assms
proof (induction name arbitrary: n sd)
  case (Cons c name)
  then obtain ch where ch: "map_of (node_children n) (componentToString c) = Some ch" "node_at (keys name) ch \<noteq> None"
    by (auto split: option.splits)
  then have ok: "node_height ch < node_height n" "node_ok ch" using Cons.prems(1) by (simp_all add: node_ok_iff [of n] local_ok_def)
  show ?case
  proof (cases sd)
    case 0
    then show ?thesis using ok by (simp add: node_ok_iff [of ch] local_ok_def)
  next
    case (Suc d)
    then show ?thesis using Cons.IH [OF ok(2) ch(2), of d] Cons.prems(3) ch(1) by simp
  qed
qed simp

end
