(* ===== verification/Fib_Tree_Spec.thy ===== *)
theory Fib_Tree_Spec
  imports Fib_Tree
begin

text \<open>
  \<open>Insert\<close> and \<open>Erase\<close> as a whole: they keep the tree well-formed, change the map from names to entries at one
  name, and return update commands that describe the change, which is what the replicas rely on.
\<close>

subsection \<open>Insert\<close>

lemma Insert_eval:
  assumes "Validate entry = Ok ()" "seek_insert (e_Name entry) (t_root t) = (root, new)"
    and "node_at (keys (e_Name entry)) root = Some n"
    and "raise_heights mx (startDepth t) [] (e_Name entry) (set_body (e_body entry) (e_Name entry) root) = (root', virt)"
  shows "Insert mx entry t =
    (if node_body n = e_body entry then Ok (t\<lparr>t_root := root, nNodes := nNodes t + new\<rparr>, no_update)
     else
       Ok (t\<lparr>t_root := (if new > 0 \<and> \<not> (length (e_Name entry) = startDepth t \<and> node_height n > 0) then root'
                        else set_body (e_body entry) (e_Name entry) root),
             nNodes := nNodes t + new, nEntries := nEntries t + (if isEntry n then 0 else 1)\<rparr>,
           \<lparr>u_real = Some \<lparr>r_body = e_body entry, r_Name = e_Name entry,
              r_Action = (if isEntry n then ActReplace else ActInsert),
              WithVirt = (if length (e_Name entry) = startDepth t \<and> node_height n > 0
                then Some \<lparr>v_Name = e_Name entry, v_Action = ActReplace, HasReal = True, v_Height = node_height n\<rparr> else None)\<rparr>,
            u_virt = (if new > 0 \<and> \<not> (length (e_Name entry) = startDepth t \<and> node_height n > 0) then virt else None),
            u_revert = (if isEntry n then RevertInsert \<lparr>e_body = node_body n, e_Name = e_Name entry\<rparr>
                        else RevertErase (e_Name entry))\<rparr>))"
  using assms by (simp add: Insert_def seek_node_at Let_def)

lemma Validate_Ok:
  "Validate entry = Ok () \<Longrightarrow> length (Nexthops (e_body entry)) > 0 \<and> Name_Length (e_Name entry) \<le> 494"
  by (auto simp: Validate_def MaxNameLength_def split: if_splits)

lemma dead_only_entry: "dead_only {[], ks} n \<Longrightarrow> entry_at ks n \<noteq> None \<Longrightarrow> dead_only {[]} n"
  by (auto simp: dead_only_def entry_at_def split: option.splits if_splits)

lemma virt_of_insert: "new > 0 \<Longrightarrow> virt_of act_insert q old new r = virt_of virt_act q old new r"
  by (auto simp: virt_of_def act_insert_def virt_act_def)

lemma virt_of_erase: "old > 0 \<Longrightarrow> virt_of act_erase q old new r = virt_of virt_act q old new r"
  by (auto simp: virt_of_def act_erase_def virt_act_def)

lemma virt_of_same [simp]: "virt_of act q h h r = None"
  by (simp add: virt_of_def)

lemma node_exists: "entry_at ks n \<noteq> None \<or> height_at ks n \<noteq> 0 \<Longrightarrow> node_at ks n \<noteq> None"
  by (auto simp: entry_at_def height_at_def split: option.splits)

text \<open>The tree after an insertion at an existing node, and at a new one.\<close>

lemma set_body_described:
  assumes "node_at (keys name) n0 = Some n" "node_body n \<noteq> b" "length (Nexthops b) > 0"
  shows "described sd name (Some b) n0 (set_body b name n0)
    \<lparr>u_real = Some \<lparr>r_body = b, r_Name = name, r_Action = (if isEntry n then ActReplace else ActInsert),
       WithVirt = (if length name = sd \<and> node_height n > 0
         then Some \<lparr>v_Name = name, v_Action = ActReplace, HasReal = True, v_Height = node_height n\<rparr> else None)\<rparr>,
     u_virt = None, u_revert = rv\<rparr>"
proof -
  have ex: "node_at (keys name) n0 \<noteq> None" using assms(1) by simp
  have e: "entry_at (keys name) n0 \<noteq> Some b"
    "real_act (entry_at (keys name) n0) (Some b) = (if isEntry n then ActReplace else ActInsert)"
    using assms(2) by (auto simp: entry_at_node [OF assms(1)] real_act_def)
  show ?thesis
    unfolding described_def
  proof (intro conjI allI impI)
    fix q
    show "entry_at q (set_body b name n0) = (if q = keys name then Some b else entry_at q n0)"
      using set_body_at(1) [OF ex] assms(3) by simp
  qed (simp_all only: set_body_at(2) [OF ex] update.simps e virt_of_same height_at_node [OF assms(1)], simp_all)
qed

lemma inserted_described:
  assumes "seek_insert name n0 = (root, new)" "new > 0" "node_at (keys name) root = Some n" "length (Nexthops b) > 0"
    and "raise_heights max sd [] name (set_body b name root) = (root', virt)" "node_ok root'"
  shows "described sd name (Some b) n0 root'
      \<lparr>u_real = Some \<lparr>r_body = b, r_Name = name, r_Action = (if isEntry n then ActReplace else ActInsert),
         WithVirt = (if length name = sd \<and> node_height n > 0
           then Some \<lparr>v_Name = name, v_Action = ActReplace, HasReal = True, v_Height = node_height n\<rparr> else None)\<rparr>,
       u_virt = virt, u_revert = rv\<rparr>"
    "\<not> isEntry n" "node_height n = 0"
proof -
  note si = seek_insert_at [OF assms(1)]
  have none: "node_at (keys name) n0 = None" using si(4) assms(2) by simp
  then have n: "entry_at (keys name) n0 = None" "height_at (keys name) n0 = 0" by (simp_all add: entry_at_def height_at_def)
  then show n2: "\<not> isEntry n" "node_height n = 0"
    using si(5,6) entry_at_node [OF assms(3)] height_at_node [OF assms(3)] by (auto split: if_splits)
  have ex: "node_at (keys name) root \<noteq> None" using assms(3) by simp
  note sb = set_body_at [OF ex, where b = b]
  note rh = raise_heights_at [OF assms(5) sb(3)]
  have e: "entry_at q root' = (if q = keys name then Some b else entry_at q n0)" for q
    using rh(1) [of q] sb(1) [of q] si(1) [of q] assms(4) by simp
  have h: "height_at q root' = height_at q n0"
    if "length q = sd" "q \<noteq> keys (take sd name) \<or> length name \<le> sd" for q
    using rh(3,5) [of q] that sb(2) si(2) by (auto simp: take_map)
  have "node_at (keys name) root' \<noteq> None" using rh(2) sb(3) by simp
  then have v: "virt = (if length name \<le> sd then None else virt_of virt_act (keys (take sd name))
      (height_at (keys (take sd name)) n0) (height_at (keys (take sd name)) root') (entry_at (keys (take sd name)) root' \<noteq> None))"
    using rh(4) height_above [OF assms(6), of name sd] sb(2) si(2)
    by (simp add: virt_of_insert Let_def take_map not_le)
  show "described sd name (Some b) n0 root'
      \<lparr>u_real = Some \<lparr>r_body = b, r_Name = name, r_Action = (if isEntry n then ActReplace else ActInsert),
         WithVirt = (if length name = sd \<and> node_height n > 0
           then Some \<lparr>v_Name = name, v_Action = ActReplace, HasReal = True, v_Height = node_height n\<rparr> else None)\<rparr>,
       u_virt = virt, u_revert = rv\<rparr>"
    unfolding described_def
  proof (intro conjI allI impI)
    fix q
    show "entry_at q root' = (if q = keys name then Some b else entry_at q n0)" by (rule e)
    show "height_at q root' = height_at q n0" if "length q = sd \<and> (q \<noteq> keys (take sd name) \<or> length name \<le> sd)"
      using h that by blast
  qed (simp_all only: update.simps v n n2 real_act_def, simp)
qed

lemma Insert_ok:
  assumes "Validate entry = Ok ()" "tree_ok t"
  shows "\<exists>t' u. Insert max entry t = Ok (t', u) \<and> tree_ok t' \<and> startDepth t' = startDepth t
    \<and> described (startDepth t) (e_Name entry) (Some (e_body entry)) (t_root t) (t_root t') u
    \<and> u_revert u = (case entry_at (keys (e_Name entry)) (t_root t) of
         None \<Rightarrow> RevertErase (e_Name entry)
       | Some b \<Rightarrow> if b = e_body entry then RevertNil else RevertInsert \<lparr>e_body = b, e_Name = e_Name entry\<rparr>)"
proof -
  let ?name = "e_Name entry" and ?b = "e_body entry" and ?n0 = "t_root t" and ?sd = "startDepth t"
  let ?ef = "\<lambda>b :: EntryBody. if length (Nexthops b) > 0 then 1 else 0 :: nat"
  obtain root new where si: "seek_insert ?name ?n0 = (root, new)" by fastforce
  obtain n where n: "node_at (keys ?name) root = Some n" using seek_insert_at(3) [OF si] by blast
  obtain root' virt where rh: "raise_heights max ?sd [] ?name (set_body ?b ?name root) = (root', virt)" by fastforce
  have b: "length (Nexthops ?b) > 0" using Validate_Ok [OF assms(1)] by simp
  have t: "node_ok ?n0" "dead_only {[]} ?n0" "nNodes t = tree_sum (\<lambda>_. 1) ?n0" "nEntries t = tree_sum ?ef ?n0"
    using assms(2) by (simp_all add: tree_ok_def)
  have en: "entry_at (keys ?name) ?n0 = (if isEntry n then Some (node_body n) else None)"
    using seek_insert_at(5) [OF si] entry_at_node [OF n] by simp
  note ev = Insert_eval [OF assms(1) si n rh]
  have sums: "tree_sum f (set_body ?b ?name root) + f (node_body n) = tree_sum f ?n0 + new * f zero_EntryBody + f ?b" for f
    using tree_sum_set_body [OF n, of f ?b] tree_sum_seek_insert [OF si, of f] by simp
  show ?thesis
  proof (cases "new = 0")
    case True
    then have root: "root = ?n0" using seek_insert_at(4) [OF si] seek_insert_old si by auto
    show ?thesis
    proof (cases "node_body n = ?b")
      case True
      then have "isEntry n" using b by (simp add: isEntry_def)
      then have "Insert max entry t = Ok (t, no_update)" "entry_at (keys ?name) ?n0 = Some ?b"
        using ev True \<open>new = 0\<close> root en by simp_all
      then show ?thesis using assms(2) by (auto simp: described_def no_update_def)
    next
      case False
      let ?r = "set_body ?b ?name ?n0"
      have ex: "node_at (keys ?name) ?n0 \<noteq> None" using n root by simp
      have "dead_only {[]} ?r"
        using dead_only_entry [OF set_body_dead [OF t(2)]] set_body_at(1) [OF ex, where b = ?b] b by simp
      moreover have "tree_sum ?ef ?r = nEntries t + (if isEntry n then 0 else 1)" "tree_sum (\<lambda>_. 1) ?r = nNodes t"
        using sums [of ?ef] sums [of "\<lambda>_. 1"] b t(3,4) True root by (auto simp: isEntry_def zero_EntryBody_def)
      ultimately have "tree_ok (t\<lparr>t_root := ?r, nNodes := nNodes t, nEntries := nEntries t + (if isEntry n then 0 else 1)\<rparr>)"
        using set_body_ok [OF t(1)] by (simp add: tree_ok_def)
      then show ?thesis
        using ev False True set_body_described [OF n [unfolded root] False b] en by (auto simp: root)
    qed
  next
    case False
    then have new: "new > 0" by simp
    have "root' = inserted ?sd [] ?b ?name ?n0" using si rh by (simp add: inserted_def)
    then have r: "node_ok root'" "dead_only {[]} root'"
      using inserted_ok [OF t(1)] inserted_dead [OF b t(2)] dead_only_mono by blast+
    note d = inserted_described [OF si new n b rh r(1)]
    have nb: "node_body n \<noteq> ?b" using d(2) b by (auto simp: isEntry_def)
    have "tree_sum ?ef root' = nEntries t + 1" "tree_sum (\<lambda>_. 1) root' = nNodes t + new"
      using sums [of ?ef] sums [of "\<lambda>_. 1"] tree_sum_raise [OF rh] b t(3,4) d(2) by (auto simp: isEntry_def zero_EntryBody_def)
    then have "tree_ok (t\<lparr>t_root := root', nNodes := nNodes t + new, nEntries := nEntries t + 1\<rparr>)"
      using r by (simp add: tree_ok_def)
    then show ?thesis using ev nb new d en by auto
  qed
qed

subsection \<open>Erase\<close>

lemma Erase_none:
  assumes "entry_at (keys name) (t_root t) = None"
  shows "Erase mx name t = (t, no_update)"
  using assms by (auto simp: Erase_def seek_node_at entry_at_def split: option.splits if_splits)

lemma Erase_eval:
  assumes "node_at (keys name) (t_root t) = Some n" "isEntry n"
    and "prune mx (startDepth t) [] name (set_body zero_EntryBody name (t_root t)) = (root, go, k, virt)"
  shows "Erase mx name t =
    (let keep = (length name = startDepth t \<and> node_height n > 0) in
     (t\<lparr>t_root := (if keep then set_body zero_EntryBody name (t_root t) else root),
        nNodes := nNodes t - (if keep then 0 else k), nEntries := nEntries t - 1\<rparr>,
      \<lparr>u_real = Some \<lparr>r_body = zero_EntryBody, r_Name = name, r_Action = ActErase,
         WithVirt = (if keep then Some \<lparr>v_Name = name, v_Action = ActReplace, HasReal = False, v_Height = node_height n\<rparr> else None)\<rparr>,
       u_virt = (if keep then None else virt), u_revert = RevertInsert \<lparr>e_body = node_body n, e_Name = name\<rparr>\<rparr>))"
  using assms by (simp add: Erase_def seek_node_at Let_def)

lemma erased_described:
  assumes n: "node_at (keys name) n0 = Some n" "isEntry n" and ok: "node_ok n0"
    and pr: "prune max sd [] name (set_body zero_EntryBody name n0) = (root, go, k, virt)"
  defines "keep \<equiv> length name = sd \<and> node_height n > 0"
  shows "described sd name None n0 (if keep then set_body zero_EntryBody name n0 else root)
    \<lparr>u_real = Some \<lparr>r_body = zero_EntryBody, r_Name = name, r_Action = ActErase,
       WithVirt = (if keep then Some \<lparr>v_Name = name, v_Action = ActReplace, HasReal = False, v_Height = node_height n\<rparr> else None)\<rparr>,
     u_virt = (if keep then None else virt), u_revert = rv\<rparr>"
proof -
  let ?r = "set_body zero_EntryBody name n0" and ?q = "keys (take sd name)"
  let ?n' = "if keep then ?r else root"
  have ex: "node_at (keys name) n0 \<noteq> None" using n by simp
  note sb = set_body_at [OF ex, where b = zero_EntryBody]
  have okr: "node_ok ?r" using set_body_ok [OF ok] by blast
  have pe: "entry_at q root = entry_at q ?r" for q using prune_ok [OF pr sb(3) okr] by blast
  note pv = prune_virt [OF pr sb(3) okr, unfolded list.size diff_zero append_Nil take_map Let_def sb(2)]
  have ph: "height_at q root = height_at q n0" if "length q = sd" "q \<noteq> ?q \<or> length name \<le> sd" for q
    using conjunct1 [OF pv] that by blast
  have er: "entry_at q ?r = (if q = keys name then None else entry_at q n0)" for q
    unfolding sb(1) by (simp add: zero_EntryBody_def)
  have e: "entry_at q ?n' = (if q = keys name then None else entry_at q n0)" for q
    by (cases keep) (simp_all only: if_True if_False pe er)
  have virt: "(if keep then None else virt) = (if length name \<le> sd then None
      else virt_of virt_act ?q (height_at ?q n0) (height_at ?q ?n') (entry_at ?q ?n' \<noteq> None))"
  proof (cases "length name \<le> sd")
    case True
    then have "\<not> sd < length name" by simp
    with conjunct2 [OF pv] have "virt = None" by (simp only: simp_thms if_False)
    then show ?thesis using True by (simp only: if_True if_cancel)
  next
    case False
    then have k: "\<not> keep" by (simp add: keep_def)
    have "virt = virt_of act_erase ?q (height_at ?q n0) (height_at ?q root) (entry_at ?q root \<noteq> None)"
      using conjunct2 [OF pv] False by (simp only: le0 not_le simp_thms if_True)
    moreover have "height_at ?q n0 > 0" using height_above [OF ok ex] False by simp
    ultimately show ?thesis using False k by (simp only: virt_of_erase if_False)
  qed
  show ?thesis
    unfolding described_def
  proof (intro conjI allI impI)
    fix q
    show "entry_at q ?n' = (if q = keys name then None else entry_at q n0)" by (rule e)
    show "height_at q ?n' = height_at q n0" if "length q = sd \<and> (q \<noteq> ?q \<or> length name \<le> sd)"
    proof (cases keep)
      case True
      then show ?thesis by (simp only: if_True sb(2))
    next
      case False
      then show ?thesis using ph [of q] that by (simp only: if_False)
    qed
  next
    show "u_real \<lparr>u_real = Some \<lparr>r_body = zero_EntryBody, r_Name = name, r_Action = ActErase, WithVirt = (if keep then
        Some \<lparr>v_Name = name, v_Action = ActReplace, HasReal = False, v_Height = node_height n\<rparr> else None)\<rparr>,
        u_virt = (if keep then None else virt), u_revert = rv\<rparr>
      = (if entry_at (keys name) n0 = None then None
        else Some \<lparr>r_body = (case None of None \<Rightarrow> zero_EntryBody | Some body \<Rightarrow> body), r_Name = name,
               r_Action = real_act (entry_at (keys name) n0) None,
               WithVirt = (if length name = sd \<and> height_at (keys name) n0 > 0
                 then Some \<lparr>v_Name = name, v_Action = ActReplace, HasReal = (None \<noteq> None), v_Height = height_at (keys name) n0\<rparr>
                 else None)\<rparr>)"
      by (simp only: entry_at_node [OF n(1)] height_at_node [OF n(1)] n(2) keep_def real_act_def) simp
  qed (simp_all only: update.simps virt)
qed

lemma Erase_ok:
  assumes "tree_ok t"
  shows "\<exists>t' u. Erase max name t = (t', u) \<and> tree_ok t' \<and> startDepth t' = startDepth t
    \<and> described (startDepth t) name None (t_root t) (t_root t') u
    \<and> u_revert u = (case entry_at (keys name) (t_root t) of
         None \<Rightarrow> RevertNil | Some b \<Rightarrow> RevertInsert \<lparr>e_body = b, e_Name = name\<rparr>)"
proof (cases "entry_at (keys name) (t_root t)")
  case None
  then show ?thesis using Erase_none [OF None, of max] assms by (auto simp: described_def no_update_def)
next
  case (Some b)
  let ?n0 = "t_root t" and ?sd = "startDepth t" and ?r = "set_body zero_EntryBody name (t_root t)"
  let ?ef = "\<lambda>b :: EntryBody. if length (Nexthops b) > 0 then 1 else 0 :: nat"
  obtain n where n: "node_at (keys name) ?n0 = Some n" "isEntry n" "node_body n = b"
    using Some by (auto simp: entry_at_def split: option.splits if_splits)
  obtain root go k virt where pr: "prune max ?sd [] name ?r = (root, go, k, virt)" by (rule prod_cases4)
  define keep where "keep \<longleftrightarrow> length name = ?sd \<and> node_height n > 0"
  have t: "node_ok ?n0" "dead_only {[]} ?n0" "nNodes t = tree_sum (\<lambda>_. 1) ?n0" "nEntries t = tree_sum ?ef ?n0"
    using assms by (simp_all add: tree_ok_def)
  have ex: "node_at (keys name) ?n0 \<noteq> None" using n by simp
  note sb = set_body_at(3) [OF ex, where b = zero_EntryBody]
  have okr: "node_ok ?r" using set_body_ok [OF t(1)] by blast
  have sums: "tree_sum (\<lambda>_. 1) ?r = nNodes t" "tree_sum ?ef ?r = nEntries t - 1"
    using tree_sum_set_body [OF n(1), of "\<lambda>_. 1" zero_EntryBody] tree_sum_set_body [OF n(1), of ?ef zero_EntryBody] t(3,4) n(2)
    by (simp_all add: isEntry_def zero_EntryBody_def)
  have "tree_sum (\<lambda>_. 1) root + k = nNodes t" "tree_sum ?ef root = nEntries t - 1"
    using tree_sum_prune [OF pr sb okr, of "\<lambda>_. 1"] tree_sum_prune [OF pr sb okr, of ?ef] sums
    by (simp_all add: zero_EntryBody_def)
  moreover have "dead_only {[]} root" "node_ok root"
    using prune_dead [OF pr sb, of "{[]}"] set_body_dead [OF t(2), of name] prune_ok [OF pr sb okr] by (simp_all add: insert_commute)
  moreover have "dead_only {[]} ?r" if keep
  proof -
    have "node_children n \<noteq> []" using that t(1) n(1) by (auto simp: keep_def node_ok_def local_ok_def)
    then have "node_children m \<noteq> []" if "node_at (keys name) ?r = Some m" for m
      using set_body_node_at [OF that] n(1) by auto
    then show ?thesis using set_body_dead [OF t(2), of name zero_EntryBody] unfolding dead_only_def by blast
  qed
  ultimately have "tree_ok (t\<lparr>t_root := (if keep then ?r else root), nNodes := nNodes t - (if keep then 0 else k),
      nEntries := nEntries t - 1\<rparr>)"
    using okr sums by (auto simp: tree_ok_def)
  then show ?thesis
    using Erase_eval [OF n(1,2) pr] erased_described [OF n(1,2) t(1) pr, of "RevertInsert \<lparr>e_body = node_body n, e_Name = name\<rparr>"]
      Some n(3) by (auto simp: keep_def Let_def)
qed

subsection \<open>Listing\<close>

text \<open>The paths and bodies of the entries, in the order of \<open>appendListTo\<close>.\<close>

function tree_paths :: "node \<Rightarrow> (bytes list \<times> EntryBody) list" where
  "tree_paths (Node body h children) =
     (if length (Nexthops body) > 0 then [([], body)] else [])
     @ concat (map (\<lambda>(k, child). map (\<lambda>(q, b). (k # q, b)) (tree_paths child)) children)"
  by pat_completeness auto
termination
  by (relation "measure size") (auto dest: size_child)

lemma appendListTo_paths:
  "appendListTo nameV n = map (\<lambda>(q, b). \<lparr>e_body = b, e_Name = node_name [nameV @ concat q]\<rparr>) (tree_paths n)"
proof (induction nameV n rule: appendListTo.induct)
  case (1 nameV body h children)
  have "appendListTo (nameV @ k) child
      = map (\<lambda>(q, b). \<lparr>e_body = b, e_Name = node_name [nameV @ concat q]\<rparr>) (map (\<lambda>(q, b). (k # q, b)) (tree_paths child))"
    if "(k, child) \<in> set children" for k child
    using 1 [OF that refl] by (simp add: case_prod_beta' comp_def)
  then show ?case by (auto simp: map_concat comp_def intro!: arg_cong [where f = concat])
qed

lemma length_paths: "length (tree_paths n) = tree_sum (\<lambda>b. if length (Nexthops b) > 0 then 1 else 0) n"
proof (induction n rule: tree_paths.induct)
  case (1 body h children)
  then show ?case by (auto simp: length_concat comp_def intro!: arg_cong [where f = sum_list])
qed

lemma set_paths: "node_ok n \<Longrightarrow> (q, b) \<in> set (tree_paths n) \<longleftrightarrow> entry_at q n = Some b"
proof (induction n arbitrary: q b rule: tree_paths.induct)
  case (1 body h children)
  have d: "distinct (map fst children)" and ok: "\<And>k c. map_of children k = Some c \<Longrightarrow> node_ok c"
    using 1(2) by (simp_all add: node_ok_iff [of "Node body h children"] local_ok_def)
  show ?case
  proof (cases q)
    case Nil
    then show ?thesis by (auto simp: isEntry_def)
  next
    case (Cons k q')
    have "(q, b) \<in> set (tree_paths (Node body h children)) \<longleftrightarrow>
        (\<exists>child. (k, child) \<in> set children \<and> (q', b) \<in> set (tree_paths child))"
      by (force simp: Cons)
    also have "\<dots> \<longleftrightarrow> (\<exists>child. map_of children k = Some child \<and> entry_at q' child = Some b)"
      using 1(1) ok d by (metis map_of_SomeD map_of_is_SomeI)
    also have "\<dots> \<longleftrightarrow> entry_at q (Node body h children) = Some b" by (auto simp: Cons split: option.split)
    finally show ?thesis .
  qed
qed

lemma distinct_paths: "node_ok n \<Longrightarrow> distinct (map fst (tree_paths n))"
proof (induction n rule: tree_paths.induct)
  case (1 body h children)
  have d: "distinct (map fst children)" and ok: "\<And>k c. (k, c) \<in> set children \<Longrightarrow> node_ok c"
    using 1(2) by (simp_all add: node_ok_iff [of "Node body h children"] local_ok_def)
  have IH: "distinct (map fst (tree_paths c))" if "(k, c) \<in> set children" for k c using 1(1) [OF that] ok [OF that] by simp
  have "distinct (concat (map (\<lambda>(k, child). map (\<lambda>p. k # fst p) (tree_paths child)) children))"
    using d IH
  proof (induction children)
    case (Cons x children)
    obtain k c where x: "x = (k, c)" by fastforce
    have "distinct (map (\<lambda>p. k # fst p) (tree_paths c))"
      using Cons.prems(2) [of k c] by (simp add: x distinct_map inj_on_def comp_def)
    moreover have "set (map (\<lambda>p. k # fst p) (tree_paths c))
        \<inter> set (concat (map (\<lambda>(k, child). map (\<lambda>p. k # fst p) (tree_paths child)) children)) = {}"
      using Cons.prems(1) by (auto simp: x image_iff)
    moreover have "distinct (concat (map (\<lambda>(k, child). map (\<lambda>p. k # fst p) (tree_paths child)) children))"
      by (rule Cons.IH) (use Cons.prems in auto)
    ultimately show ?case by (simp add: x)
  qed simp
  moreover have "map fst (tree_paths (Node body h children)) = (if length (Nexthops body) > 0 then [[]] else [])
      @ concat (map (\<lambda>(k, child). map (\<lambda>p. k # fst p) (tree_paths child)) children)"
    by (auto simp: map_concat comp_def case_prod_beta' intro!: arg_cong [where f = concat])
  ultimately show ?case by (auto split: if_splits)
qed

subsection \<open>Refinement of a map\<close>

datatype fib_op = OpInsert Entry | OpErase Name

text \<open>\<open>Fib.Insert\<close> validates the entry before it calls the tree; names have components of valid types.\<close>

definition op_ok :: "fib_op \<Rightarrow> bool" where
  "op_ok op = (case op of
      OpInsert entry \<Rightarrow> Validate entry = Ok () \<and> list_all comp_ok (e_Name entry)
    | OpErase name \<Rightarrow> list_all comp_ok name)"

definition tree_step :: "(int \<Rightarrow> int \<Rightarrow> int) \<Rightarrow> Tree \<Rightarrow> fib_op \<Rightarrow> Tree outcome" where
  "tree_step maxInt t op = (case op of
      OpInsert entry \<Rightarrow> andthen (Insert maxInt entry t) (\<lambda>(t, u). Ok t)
    | OpErase name \<Rightarrow> Ok (fst (Erase maxInt name t)))"

definition spec_step :: "fib_op \<Rightarrow> (Name \<Rightarrow> EntryBody option) \<Rightarrow> Name \<Rightarrow> EntryBody option" where
  "spec_step op m = (case op of
      OpInsert entry \<Rightarrow> m(e_Name entry \<mapsto> e_body entry)
    | OpErase name \<Rightarrow> m(name := None))"

definition represents :: "node \<Rightarrow> (Name \<Rightarrow> EntryBody option) \<Rightarrow> bool" where
  "represents n m \<longleftrightarrow> (\<forall>name. m name \<noteq> None \<longrightarrow> list_all comp_ok name)
     \<and> (\<forall>q b. entry_at q n = Some b \<longleftrightarrow> (\<exists>name. list_all comp_ok name \<and> q = keys name \<and> m name = Some b))"

lemma keys_inject: "list_all comp_ok a \<Longrightarrow> list_all comp_ok b \<Longrightarrow> keys a = keys b \<longleftrightarrow> a = b"
  by (metis node_name_keys)

lemma represents_at:
  assumes "represents n m" "list_all comp_ok name"
  shows "entry_at (keys name) n = m name"
proof -
  have r: "entry_at (keys name) n = Some b \<longleftrightarrow>
      (\<exists>name'. list_all comp_ok name' \<and> keys name = keys name' \<and> m name' = Some b)" for b
    using assms(1) by (simp add: represents_def)
  have "entry_at (keys name) n = Some b \<longleftrightarrow> m name = Some b" for b
    unfolding r using assms(2) keys_inject by metis
  then show ?thesis by (metis not_Some_eq)
qed

lemma represents_upd:
  assumes "represents n m" "list_all comp_ok name" "\<And>q. entry_at q n' = (if q = keys name then b else entry_at q n)"
  shows "represents n' (m(name := b))"
  using assms(1,2) keys_inject unfolding represents_def assms(3)
  by (auto split: if_splits)

lemma tree_step_ok:
  assumes "tree_ok t" "represents (t_root t) m" "op_ok op"
  shows "\<exists>t'. tree_step max t op = Ok t' \<and> tree_ok t' \<and> represents (t_root t') (spec_step op m)
    \<and> startDepth t' = startDepth t"
proof (cases op)
  case (OpInsert entry)
  then have v: "Validate entry = Ok ()" "list_all comp_ok (e_Name entry)" using assms(3) by (simp_all add: op_ok_def)
  from Insert_ok [OF v(1) assms(1)] obtain t' u where
    "Insert max entry t = Ok (t', u)" "tree_ok t'" "startDepth t' = startDepth t"
    and d: "described (startDepth t) (e_Name entry) (Some (e_body entry)) (t_root t) (t_root t') u" by blast
  moreover have "represents (t_root t') (m(e_Name entry \<mapsto> e_body entry))"
    using d by (intro represents_upd [OF assms(2) v(2)]) (simp add: described_def)
  ultimately show ?thesis using OpInsert by (simp add: tree_step_def spec_step_def)
next
  case (OpErase name)
  then have v: "list_all comp_ok name" using assms(3) by (simp add: op_ok_def)
  from Erase_ok [OF assms(1), of name] obtain t' u where
    "Erase max name t = (t', u)" "tree_ok t'" "startDepth t' = startDepth t"
    and d: "described (startDepth t) name None (t_root t) (t_root t') u" by blast
  moreover have "represents (t_root t') (m(name := None))"
    using d by (intro represents_upd [OF assms(2) v]) (simp add: described_def)
  ultimately show ?thesis using OpErase by (simp add: tree_step_def spec_step_def)
qed

lemma tree_run_ok:
  assumes "tree_ok t" "represents (t_root t) m" "list_all op_ok ops"
  shows "\<exists>t'. forRange (tree_step max) t ops = Ok t' \<and> tree_ok t' \<and> represents (t_root t') (fold spec_step ops m)
    \<and> startDepth t' = startDepth t"
  using assms
proof (induction ops arbitrary: t m)
  case (Cons op ops)
  then obtain t1 where "tree_step max t op = Ok t1" "tree_ok t1" "represents (t_root t1) (spec_step op m)"
    "startDepth t1 = startDepth t" using tree_step_ok [of t m op] by auto
  then show ?case using Cons.IH [of t1 "spec_step op m"] Cons.prems(3) by auto
qed simp

lemma newNode_empty: "entry_at q newNode = None" "dead_only {[]} newNode" "tree_sum f newNode = f zero_EntryBody"
  by (cases q; simp) (simp_all add: dead_only_iff [of _ newNode] tree_sum_eq [of _ newNode] children_sum_def)

lemma Tree_New_ok: "tree_ok (Tree_New sd)" "represents (t_root (Tree_New sd)) Map.empty"
proof -
  have "Nexthops zero_EntryBody = []" by (simp add: zero_EntryBody_def)
  then show "tree_ok (Tree_New sd)" by (simp add: tree_ok_def Tree_New_def node_ok_newNode newNode_empty)
  show "represents (t_root (Tree_New sd)) Map.empty" by (simp add: represents_def Tree_New_def newNode_empty)
qed

lemma represents_Find: "represents (t_root t) m \<Longrightarrow> list_all comp_ok name \<Longrightarrow>
    Find name t = map_option (\<lambda>b. \<lparr>e_body = b, e_Name = name\<rparr>) (m name)"
  using represents_at [of "t_root t" m name, symmetric]
  by (simp add: Find_def seek_node_at entry_at_def split: option.split)

lemma represents_path:
  assumes "represents n m" "node_ok n" "(q, b) \<in> set (tree_paths n)"
  obtains name where "list_all comp_ok name" "q = keys name" "m name = Some b" "node_name [concat q] = name"
proof -
  have "entry_at q n = Some b" using set_paths assms(2,3) by blast
  then obtain name where n: "list_all comp_ok name" "q = keys name" "m name = Some b"
    using assms(1) by (auto simp: represents_def)
  moreover have "node_name [concat q] = name" using node_name_keys [OF n(1)] n(2) by (simp add: node_name_def)
  ultimately show ?thesis using that by blast
qed

lemma represents_list:
  assumes "represents (t_root t) m" "tree_ok t"
  shows "e \<in> set (Tree_List t) \<longleftrightarrow> m (e_Name e) = Some (e_body e)" "distinct (map e_Name (Tree_List t))"
    "nEntries t = length (Tree_List t)"
proof -
  let ?P = "tree_paths (t_root t)"
  have ok: "node_ok (t_root t)" using assms(2) by (simp add: tree_ok_def)
  have L: "Tree_List t = map (\<lambda>(q, b). \<lparr>e_body = b, e_Name = node_name [concat q]\<rparr>) ?P"
    by (simp add: Tree_List_def appendListTo_paths)
  have fwd: "m (e_Name e) = Some (e_body e)" if "e \<in> set (Tree_List t)"
    using that unfolding L by (auto elim: represents_path [OF assms(1) ok])
  have "e \<in> set (Tree_List t)" if "m (e_Name e) = Some (e_body e)"
  proof -
    have c: "list_all comp_ok (e_Name e)" using assms(1) that by (simp add: represents_def)
    have "(keys (e_Name e), e_body e) \<in> set ?P" using set_paths [OF ok] represents_at [OF assms(1) c] that by simp
    moreover have "e = \<lparr>e_body = e_body e, e_Name = node_name [concat (keys (e_Name e))]\<rparr>"
      using node_name_keys [OF c] by (simp add: node_name_def)
    ultimately show ?thesis unfolding L by force
  qed
  with fwd show "e \<in> set (Tree_List t) \<longleftrightarrow> m (e_Name e) = Some (e_body e)" by blast
  have "inj_on (\<lambda>q. node_name [concat q]) (fst ` set ?P)"
    by (rule inj_onI) (auto elim!: represents_path [OF assms(1) ok])
  then show "distinct (map e_Name (Tree_List t))" using distinct_paths [OF ok]
    by (auto simp: L comp_def case_prod_beta' distinct_map inj_on_def)
  show "nEntries t = length (Tree_List t)" using assms(2) by (simp add: L length_paths tree_ok_def)
qed

text \<open>C9 (FibTree_refines_map): after any sequence of insertions of valid entries and of erasures the tree
  holds exactly the entries of the map that the same sequence builds: \<open>Find\<close> returns the entry of every name,
  \<open>List\<close> returns each entry once, and \<open>CountEntries\<close> is their number.\<close>

theorem FibTree_refines_map:
  assumes "maxInt = max" "list_all op_ok ops"
  shows "\<exists>t. forRange (tree_step maxInt) (Tree_New sd) ops = Ok t
    \<and> (\<forall>name. list_all comp_ok name \<longrightarrow>
         Find name t = map_option (\<lambda>b. \<lparr>e_body = b, e_Name = name\<rparr>) (fold spec_step ops Map.empty name))
    \<and> (\<forall>e. e \<in> set (Tree_List t) \<longleftrightarrow> fold spec_step ops Map.empty (e_Name e) = Some (e_body e))
    \<and> distinct (map e_Name (Tree_List t)) \<and> nEntries t = length (Tree_List t)"
proof -
  obtain t where t: "forRange (tree_step maxInt) (Tree_New sd) ops = Ok t" "tree_ok t"
    "represents (t_root t) (fold spec_step ops Map.empty)"
    using tree_run_ok [OF Tree_New_ok assms(2)] assms(1) by blast
  then show ?thesis using represents_Find [OF t(3)] represents_list [OF t(3) t(2)] by blast
qed

definition sample_comp :: NameComponent where
  "sample_comp = \<lparr>Type = 8, Value = [65]\<rparr>"

definition sample_entry :: "nat \<Rightarrow> Entry" where
  "sample_entry k = \<lparr>e_body = \<lparr>Nexthops = [1, 2], Strategy = 1\<rparr>, e_Name = replicate k sample_comp\<rparr>"

lemma sample_comp_ok: "comp_ok sample_comp"
  by (simp add: sample_comp_def comp_ok_def NameComponent_Valid_def isValidNameComponentType_def slice_ok_def)

lemma sample_entry_ok: "k \<le> 100 \<Longrightarrow> op_ok (OpInsert (sample_entry k))"
proof -
  have "Name_Length (replicate k sample_comp) = 3 * k"
    by (induction k) (simp_all flip: length_name_value add: name_value_def items_def sample_comp_def tlv_bytes_def VarNum_Size_def)
  then show "k \<le> 100 \<Longrightarrow> op_ok (OpInsert (sample_entry k))"
    by (simp add: op_ok_def sample_entry_def Validate_def MaxNameLength_def MaxNexthops_def sample_comp_ok list_all_length)
qed

theorem FibTree_refines_map_witness:
  "\<exists>t. forRange (tree_step max) (Tree_New 2) [OpInsert (sample_entry 3), OpInsert (sample_entry 1), OpErase [sample_comp]] = Ok t
    \<and> Find (replicate 3 sample_comp) t = Some (sample_entry 3) \<and> Find [sample_comp] t = None \<and> nEntries t = length (Tree_List t)"
proof -
  let ?ops = "[OpInsert (sample_entry 3), OpInsert (sample_entry 1), OpErase [sample_comp]]"
  have ok: "list_all op_ok ?ops"
    using sample_entry_ok [of 3] sample_entry_ok [of 1] by (simp add: op_ok_def [of "OpErase _"] sample_comp_ok)
  have "fold spec_step ?ops Map.empty (replicate 3 sample_comp) = Some (e_body (sample_entry 3))"
    "fold spec_step ?ops Map.empty [sample_comp] = None"
    by (simp_all add: spec_step_def sample_entry_def numeral_3_eq_3)
  moreover have "list_all comp_ok (replicate 3 sample_comp)" "list_all comp_ok [sample_comp]"
    by (simp_all add: sample_comp_ok numeral_3_eq_3)
  ultimately show ?thesis using FibTree_refines_map [OF refl ok, of 2] by (auto simp: sample_entry_def)
qed

lemma node_at_append: "node_at (p @ q) n = Option.bind (node_at p n) (node_at q)"
  by (induction p arbitrary: n) (auto split: option.split)

lemma node_above_entry:
  assumes "dead_only {[]} n" "node_ok n" "node_at p n = Some m" "p \<noteq> []"
  shows "\<exists>q b. entry_at (p @ q) n = Some b"
  using assms(3,4)
proof (induction "nat (node_height m)" arbitrary: p m rule: less_induct)
  case less
  show ?case
  proof (cases "isEntry m")
    case True
    then have "entry_at (p @ []) n = Some (node_body m)" using less.prems by (simp add: entry_at_def)
    then show ?thesis by blast
  next
    case False
    then have "node_children m \<noteq> []" using assms(1) less.prems unfolding dead_only_def by blast
    then obtain k c where "map_of (node_children m) k = Some c"
      by (metis list.exhaust map_of_Cons_code(2) prod.exhaust)
    moreover have "local_ok m" using assms(2) less.prems(1) by (auto simp: node_ok_def)
    moreover have "node_at (p @ [k]) n = Some c" using less.prems calculation by (simp add: node_at_append)
    moreover have "local_ok c" using assms(2) calculation(3) unfolding node_ok_def by blast
    ultimately show ?thesis using less.hyps [of c "p @ [k]"] by (force simp: local_ok_def)
  qed
qed

text \<open>FibTree_invariant: in every tree that updates build, a node other than the root lies above some entry, the
  height of a node is zero exactly when it has no child and is at least the depth of every entry below it, children
  have distinct components, and the node counter is the number of nodes.\<close>

theorem FibTree_invariant:
  assumes "list_all op_ok ops" "forRange (tree_step max) (Tree_New sd) ops = Ok t"
    and "node_at p (t_root t) = Some m"
  shows "(p \<noteq> [] \<longrightarrow> (\<exists>q b. entry_at (p @ q) (t_root t) = Some b))
    \<and> (\<forall>q b. entry_at (p @ q) (t_root t) = Some b \<longrightarrow> int (length q) \<le> node_height m)
    \<and> (node_height m = 0 \<longleftrightarrow> node_children m = [])
    \<and> distinct (map fst (node_children m))
    \<and> nNodes t = tree_sum (\<lambda>_. 1) (t_root t)"
proof -
  have ok: "tree_ok t" using tree_run_ok [OF Tree_New_ok assms(1), of sd] assms(2) by auto
  then have n: "node_ok (t_root t)" "dead_only {[]} (t_root t)" by (simp_all add: tree_ok_def)
  then have m: "local_ok m" "node_ok m"
    using assms(3) by (auto simp: node_ok_def) (metis bind.bind_lunit node_at_append)
  have "int (length q) \<le> node_height m" if "entry_at (p @ q) (t_root t) = Some b" for q b
    using that height_bounds [OF m(2), of q] assms(3)
    by (auto simp: entry_at_def node_at_append split: option.splits)
  moreover have "node_height m = 0 \<longleftrightarrow> node_children m = []"
  proof (cases "node_children m")
    case (Cons kc cs)
    obtain k c where "kc = (k, c)" by fastforce
    then have c: "map_of (node_children m) k = Some c" using Cons by simp
    then have "node_ok c" using m(2) node_ok_iff [of m] by blast
    then have "0 \<le> node_height c" using node_ok_iff [of c] local_ok_def [of c] by blast
    then show ?thesis using m(1) c Cons unfolding local_ok_def by fastforce
  qed (use m(1) in \<open>simp add: local_ok_def\<close>)
  ultimately show ?thesis using node_above_entry [OF n(2,1) assms(3)] m(1) ok by (simp add: local_ok_def tree_ok_def)
qed

theorem FibTree_invariant_witness:
  "\<exists>t m. forRange (tree_step max) (Tree_New 2) [OpInsert (sample_entry 3)] = Ok t
    \<and> node_at (keys [sample_comp]) (t_root t) = Some m \<and> node_height m \<ge> 2"
proof -
  let ?ops = "[OpInsert (sample_entry 3)]"
  have ok: "list_all op_ok ?ops" using sample_entry_ok [of 3] by simp
  obtain t where t: "forRange (tree_step max) (Tree_New 2) ?ops = Ok t"
    "represents (t_root t) (fold spec_step ?ops Map.empty)"
    using tree_run_ok [OF Tree_New_ok ok, of 2] by blast
  have k: "keys (replicate 3 sample_comp) = keys [sample_comp] @ keys [sample_comp, sample_comp]"
    by (simp add: numeral_3_eq_3)
  have e: "entry_at (keys [sample_comp] @ keys [sample_comp, sample_comp]) (t_root t) = Some (e_body (sample_entry 3))"
    using represents_at [OF t(2), of "replicate 3 sample_comp"] unfolding k
    by (simp add: sample_comp_ok spec_step_def sample_entry_def numeral_3_eq_3)
  then obtain m where m: "node_at (keys [sample_comp]) (t_root t) = Some m"
    unfolding entry_at_def node_at_append by (cases "node_at (keys [sample_comp]) (t_root t)") simp_all
  then have "int (length (keys [sample_comp, sample_comp])) \<le> node_height m"
    using FibTree_invariant [OF ok t(1) m] e by blast
  then show ?thesis using t(1) m by auto
qed

end
