(* ===== verification/Strategy_Code.thy ===== *)
theory Strategy_Code
  imports Ndn_Prelude "HOL-Library.AList" "HOL-Library.Multiset"
begin

text \<open>
  Forwarding strategy programs (\<open>container/strategycode\<close> and \<open>csrc/strategycode/strategy-code.c\<close>). A
  \<open>StrategyCode\<close> object lives at an address and counts its references: one from the Go table and one for each
  write of a FIB entry that uses it. Loading the eBPF program is the work of DPDK; only whether it succeeds is a
  parameter here. The Go map \<open>table\<close> is an association list, and a range over it visits the list that the
  argument \<open>order\<close> returns for it.
\<close>

record StrategyCode =
  sc_name :: string
  sc_id :: int
  sc_nRefs :: int

record Strategies =
  lastID :: int
  sc_table :: "(int \<times> nat) list"
  sc_mem :: "nat \<Rightarrow> StrategyCode option"

definition Strategies_init :: Strategies where
  "Strategies_init = \<lparr>lastID = 0, sc_table = [], sc_mem = (\<lambda>_. None)\<rparr>"

text \<open>
  \<open>makeStrategyCode\<close> with what DPDK returned: the program or nil, the status of the JIT compiler, and the address
  of the new object. Both errors are errno values.
\<close>

definition makeStrategyCode ::
    "string \<Rightarrow> bool \<Rightarrow> int \<Rightarrow> nat \<Rightarrow> Strategies \<Rightarrow> Strategies \<times> nat outcome" where
  "makeStrategyCode name bpf res addr g =
     (if \<not> bpf then (g, Fail (ErrOther ''errno''))
      else if res \<noteq> 0 then (g, Fail (ErrOther ''errno''))
      else let lid = lastID g + 1;
               c = \<lparr>sc_name = name, sc_id = signed_take_bit 31 lid, sc_nRefs = 1\<rparr>
           in (\<lparr>lastID = lid, sc_table = AList.update lid addr (sc_table g), sc_mem = (sc_mem g)(addr \<mapsto> c)\<rparr>, Ok addr))"

definition Strategy_Get :: "int \<Rightarrow> Strategies \<Rightarrow> nat option" where
  "Strategy_Get i g = map_of (sc_table g) i"

fun Strategy_Find_loop :: "string \<Rightarrow> Strategies \<Rightarrow> (int \<times> nat) list \<Rightarrow> nat option outcome" where
  "Strategy_Find_loop name g [] = Ok None"
| "Strategy_Find_loop name g ((i, a) # rest) =
     (case sc_mem g a of
        None \<Rightarrow> Panic
      | Some c \<Rightarrow> if sc_name c = name then Ok (Some a) else Strategy_Find_loop name g rest)"

definition Strategy_Find :: "((int \<times> nat) list \<Rightarrow> (int \<times> nat) list) \<Rightarrow> string \<Rightarrow> Strategies \<Rightarrow> nat option outcome" where
  "Strategy_Find order name g = Strategy_Find_loop name g (order (sc_table g))"

definition Strategy_List :: "((int \<times> nat) list \<Rightarrow> (int \<times> nat) list) \<Rightarrow> Strategies \<Rightarrow> nat list" where
  "Strategy_List order g = map snd (order (sc_table g))"

text \<open>A null or dangling pointer is a crash; so is a failed assertion.\<close>

definition StrategyCode_Ref :: "nat option \<Rightarrow> Strategies \<Rightarrow> Strategies outcome" where
  "StrategyCode_Ref sc g =
     (case sc of
        None \<Rightarrow> Panic
      | Some a \<Rightarrow> (case sc_mem g a of
            None \<Rightarrow> Panic
          | Some c \<Rightarrow> Ok (g\<lparr>sc_mem := (sc_mem g)(a \<mapsto> c\<lparr>sc_nRefs := sc_nRefs c + 1\<rparr>)\<rparr>)))"

definition StrategyCode_Unref :: "nat option \<Rightarrow> Strategies \<Rightarrow> Strategies outcome" where
  "StrategyCode_Unref sc g =
     (case sc of
        None \<Rightarrow> Panic
      | Some a \<Rightarrow> (case sc_mem g a of
            None \<Rightarrow> Panic
          | Some c \<Rightarrow>
              if \<not> sc_nRefs c > 0 then Panic
              else if sc_nRefs c > 1 then Ok (g\<lparr>sc_mem := (sc_mem g)(a \<mapsto> c\<lparr>sc_nRefs := sc_nRefs c - 1\<rparr>)\<rparr>)
              else Ok (g\<lparr>sc_mem := (sc_mem g)(a := None)\<rparr>)))"

definition Strategy_ID :: "nat \<Rightarrow> Strategies \<Rightarrow> int outcome" where
  "Strategy_ID a g = (case sc_mem g a of None \<Rightarrow> Panic | Some c \<Rightarrow> Ok (sc_id c))"

definition CountRefs :: "nat \<Rightarrow> Strategies \<Rightarrow> int outcome" where
  "CountRefs a g = (case sc_mem g a of None \<Rightarrow> Panic | Some c \<Rightarrow> Ok (sc_nRefs c))"

definition Strategy_Close :: "nat \<Rightarrow> Strategies \<Rightarrow> Strategies outcome" where
  "Strategy_Close a g =
     andthen (Strategy_ID a g) (\<lambda>i. StrategyCode_Unref (Some a) (g\<lparr>sc_table := AList.delete i (sc_table g)\<rparr>))"

definition DestroyAll :: "((int \<times> nat) list \<Rightarrow> (int \<times> nat) list) \<Rightarrow> Strategies \<Rightarrow> Strategies outcome" where
  "DestroyAll order g =
     forRange (\<lambda>g a. andthen (CountRefs a g) (\<lambda>nRefs. if nRefs > 1 then Panic else Strategy_Close a g)) g
       (Strategy_List order g)"

subsection \<open>Invariant\<close>

text \<open>
  Every strategy of the table is an object that carries its number; the count of an object is the number of its
  references, from the table and from FIB entries, and is positive. \<open>n\<close> is the number of references that FIB
  entries hold.
\<close>

definition ref_ok :: "(int \<times> nat) list \<Rightarrow> nat \<Rightarrow> nat \<Rightarrow> StrategyCode option \<Rightarrow> bool" where
  "ref_ok tbl a n co \<longleftrightarrow> (case co of
      None \<Rightarrow> a \<notin> snd ` set tbl \<and> n = 0
    | Some c \<Rightarrow> sc_nRefs c = (if a \<in> snd ` set tbl then 1 else 0) + int n \<and> sc_nRefs c \<ge> 1)"

definition table_ok :: "(int \<times> nat) list \<Rightarrow> int \<Rightarrow> (nat \<Rightarrow> int option) \<Rightarrow> bool" where
  "table_ok tbl lid ids \<longleftrightarrow> distinct (map fst tbl) \<and> distinct (map snd tbl)
     \<and> (\<forall>x \<in> set tbl. fst x \<le> lid \<and> ids (snd x) = Some (fst x))"

definition sc_ids :: "Strategies \<Rightarrow> nat \<Rightarrow> int option" where
  "sc_ids g a = map_option sc_id (sc_mem g a)"

definition strategies_ok :: "(nat \<Rightarrow> nat) \<Rightarrow> Strategies \<Rightarrow> bool" where
  "strategies_ok used g \<longleftrightarrow> table_ok (sc_table g) (lastID g) (sc_ids g) \<and> (\<forall>a. ref_ok (sc_table g) a (used a) (sc_mem g a))"

lemma strategies_ok_init: "strategies_ok (\<lambda>_. 0) Strategies_init"
  by (simp add: strategies_ok_def table_ok_def ref_ok_def Strategies_init_def)

lemma update_fresh: "k \<notin> fst ` set al \<Longrightarrow> AList.update k v al = al @ [(k, v)]"
  by (induction al) auto

lemma strategies_ok_make:
  assumes "strategies_ok used g" "sc_mem g addr = None" "0 \<le> lastID g" "lastID g < 2 ^ 31 - 1"
  shows "\<exists>g'. makeStrategyCode name True 0 addr g = (g', Ok addr) \<and> strategies_ok used g' \<and> lastID g' = lastID g + 1"
proof -
  let ?lid = "lastID g + 1"
  have i: "signed_take_bit 31 ?lid = ?lid" using assms(3,4) by (simp add: signed_take_bit_int_eq_self)
  have t: "table_ok (sc_table g) (lastID g) (sc_ids g)" and r: "\<And>a. ref_ok (sc_table g) a (used a) (sc_mem g a)"
    using assms(1) by (simp_all add: strategies_ok_def)
  have l: "?lid \<notin> fst ` set (sc_table g)" using t by (fastforce simp: table_ok_def)
  have a: "addr \<notin> snd ` set (sc_table g)" "used addr = 0" using r [of addr] assms(2) by (simp_all add: ref_ok_def)
  let ?mem = "(sc_mem g)(addr \<mapsto> \<lparr>sc_name = name, sc_id = ?lid, sc_nRefs = 1\<rparr>)"
  have "strategies_ok used \<lparr>lastID = ?lid, sc_table = sc_table g @ [(?lid, addr)], sc_mem = ?mem\<rparr>"
    unfolding strategies_ok_def
  proof (intro conjI allI)
    fix b
    show "ref_ok (sc_table \<lparr>lastID = ?lid, sc_table = sc_table g @ [(?lid, addr)], sc_mem = ?mem\<rparr>) b (used b)
        (sc_mem \<lparr>lastID = ?lid, sc_table = sc_table g @ [(?lid, addr)], sc_mem = ?mem\<rparr> b)"
    proof (cases "b = addr")
      case True
      then show ?thesis using a by (simp add: ref_ok_def)
    next
      case False
      then show ?thesis using r [of b] by (cases "sc_mem g b") (simp_all add: ref_ok_def)
    qed
  qed (use t l a in \<open>fastforce simp: table_ok_def sc_ids_def\<close>)
  then show ?thesis using update_fresh [OF l, of addr] by (simp add: makeStrategyCode_def i Let_def)
qed

lemma strategies_ok_mem:
  assumes "strategies_ok used g" "map_option sc_id co = sc_ids g a \<or> a \<notin> snd ` set (sc_table g)"
    and "ref_ok (sc_table g) a n co"
  shows "strategies_ok (used(a := n)) (g\<lparr>sc_mem := (sc_mem g)(a := co)\<rparr>)"
proof -
  have "table_ok (sc_table g) (lastID g) (sc_ids (g\<lparr>sc_mem := (sc_mem g)(a := co)\<rparr>))"
    using assms(1,2) by (auto simp: strategies_ok_def table_ok_def sc_ids_def image_iff)
  then show ?thesis using assms by (simp add: strategies_ok_def)
qed

lemma strategies_ok_ref:
  assumes "strategies_ok used g" "sc_mem g a \<noteq> None"
  shows "\<exists>g'. StrategyCode_Ref (Some a) g = Ok g' \<and> strategies_ok (used(a := used a + 1)) g' \<and> sc_table g' = sc_table g
    \<and> lastID g' = lastID g \<and> sc_ids g' = sc_ids g"
proof -
  obtain c where c: "sc_mem g a = Some c" using assms(2) by blast
  have "ref_ok (sc_table g) a (used a) (Some c)" using assms(1) c by (metis strategies_ok_def)
  then have "strategies_ok (used(a := used a + 1)) (g\<lparr>sc_mem := (sc_mem g)(a \<mapsto> c\<lparr>sc_nRefs := sc_nRefs c + 1\<rparr>)\<rparr>)"
    by (intro strategies_ok_mem [OF assms(1)]) (simp_all add: c ref_ok_def sc_ids_def)
  then show ?thesis by (simp add: StrategyCode_Ref_def c sc_ids_def fun_eq_iff)
qed

lemma strategies_ok_unref:
  assumes "strategies_ok used g" "used a > 0"
  shows "\<exists>g'. StrategyCode_Unref (Some a) g = Ok g' \<and> strategies_ok (used(a := used a - 1)) g' \<and> sc_table g' = sc_table g
    \<and> lastID g' = lastID g"
proof -
  have r: "ref_ok (sc_table g) a (used a) (sc_mem g a)" using assms(1) by (simp add: strategies_ok_def)
  then obtain c where c: "sc_mem g a = Some c" using assms(2) by (auto simp: ref_ok_def split: option.splits)
  show ?thesis
  proof (cases "sc_nRefs c > 1")
    case True
    have "strategies_ok (used(a := used a - 1)) (g\<lparr>sc_mem := (sc_mem g)(a \<mapsto> c\<lparr>sc_nRefs := sc_nRefs c - 1\<rparr>)\<rparr>)"
      using r c True assms(2) by (intro strategies_ok_mem [OF assms(1)]) (simp_all add: c ref_ok_def sc_ids_def)
    then show ?thesis using True by (simp add: StrategyCode_Unref_def c)
  next
    case False
    have "strategies_ok (used(a := used a - 1)) (g\<lparr>sc_mem := (sc_mem g)(a := None)\<rparr>)"
      using r c False assms(2) by (intro strategies_ok_mem [OF assms(1)]) (auto simp: ref_ok_def split: if_splits)
    moreover have "sc_nRefs c > 0" using r by (simp add: c ref_ok_def)
    ultimately show ?thesis using False by (simp add: StrategyCode_Unref_def c)
  qed
qed

lemma strategies_ok_close:
  assumes "strategies_ok used g" "(i, a) \<in> set (sc_table g)"
  shows "\<exists>g'. Strategy_Close a g = Ok g' \<and> strategies_ok used g' \<and> sc_table g' = AList.delete i (sc_table g)
    \<and> lastID g' = lastID g \<and> (sc_mem g' a = None \<longleftrightarrow> used a = 0) \<and> (\<forall>b. b \<noteq> a \<longrightarrow> sc_mem g' b = sc_mem g b)"
proof -
  let ?t = "AList.delete i (sc_table g)" and ?g = "g\<lparr>sc_table := AList.delete i (sc_table g)\<rparr>"
  have t: "table_ok (sc_table g) (lastID g) (sc_ids g)" and r: "\<And>b. ref_ok (sc_table g) b (used b) (sc_mem g b)"
    using assms(1) by (simp_all add: strategies_ok_def)
  have inT: "a \<in> snd ` set (sc_table g)" using assms(2) by force
  then obtain c where c: "sc_mem g a = Some c" "sc_nRefs c = 1 + int (used a)"
    using r [of a] by (auto simp: ref_ok_def split: option.splits)
  have i: "sc_id c = i" using t assms(2) c(1) by (fastforce simp: table_ok_def sc_ids_def)
  have st: "set ?t = {x \<in> set (sc_table g). fst x \<noteq> i}" by (simp add: AList.delete_eq) auto
  have key: "fst x = i \<longleftrightarrow> snd x = a" if "x \<in> set (sc_table g)" for x
    using that t assms(2) unfolding table_ok_def distinct_map by (metis fst_conv inj_onD snd_conv)
  have snds: "b \<in> snd ` set ?t \<longleftrightarrow> b \<in> snd ` set (sc_table g) \<and> b \<noteq> a" for b
    unfolding st image_iff using key by (metis (mono_tags, lifting) mem_Collect_eq)
  have tok: "table_ok ?t (lastID g) (sc_ids g)"
    using t unfolding table_ok_def st by (auto simp: AList.delete_eq distinct_map_filter)
  have others: "ref_ok ?t b (used b) (sc_mem g b)" if "b \<noteq> a" for b
    using r [of b] that by (cases "sc_mem g b") (simp_all add: ref_ok_def snds)
  let ?co = "if used a = 0 then None else Some (c\<lparr>sc_nRefs := sc_nRefs c - 1\<rparr>)"
  have "table_ok ?t (lastID g) (sc_ids (?g\<lparr>sc_mem := (sc_mem g)(a := ?co)\<rparr>))"
    using tok snds [of a] unfolding table_ok_def sc_ids_def by (auto simp: image_iff)
  moreover have "ref_ok ?t a (used a) ?co" using c by (simp add: ref_ok_def snds)
  ultimately have "strategies_ok used (?g\<lparr>sc_mem := (sc_mem g)(a := ?co)\<rparr>)" using others by (auto simp: strategies_ok_def)
  moreover have "Strategy_Close a g = Ok (?g\<lparr>sc_mem := (sc_mem g)(a := ?co)\<rparr>)"
    using c i by (auto simp: Strategy_Close_def Strategy_ID_def StrategyCode_Unref_def)
  ultimately show ?thesis by simp
qed

text \<open>
  The life of strategies as a sequence of events: loading, closing a strategy of the table, and references that FIB
  entries take and give back.
\<close>

datatype strategy_event = SLoad string nat | SClose nat | SRef nat | SUnref nat

definition strategy_exec :: "Strategies \<Rightarrow> strategy_event \<Rightarrow> Strategies outcome" where
  "strategy_exec g ev = (case ev of
      SLoad name addr \<Rightarrow> (case makeStrategyCode name True 0 addr g of (g, r) \<Rightarrow> andthen r (\<lambda>_. Ok g))
    | SClose a \<Rightarrow> Strategy_Close a g
    | SRef a \<Rightarrow> StrategyCode_Ref (Some a) g
    | SUnref a \<Rightarrow> StrategyCode_Unref (Some a) g)"

text \<open>Loading takes a free address; a strategy is closed or referenced through its table entry, and a FIB entry gives
  back only a reference that it holds.\<close>

definition strategy_guard :: "(nat \<Rightarrow> nat) \<Rightarrow> Strategies \<Rightarrow> strategy_event \<Rightarrow> bool" where
  "strategy_guard used g ev = (case ev of
      SLoad name addr \<Rightarrow> sc_mem g addr = None \<and> 0 \<le> lastID g \<and> lastID g < 2 ^ 31 - 1
    | SClose a \<Rightarrow> a \<in> snd ` set (sc_table g)
    | SRef a \<Rightarrow> a \<in> snd ` set (sc_table g)
    | SUnref a \<Rightarrow> used a > 0)"

definition held :: "(nat \<Rightarrow> nat) \<Rightarrow> strategy_event \<Rightarrow> nat \<Rightarrow> nat" where
  "held used ev = (case ev of SRef a \<Rightarrow> used(a := used a + 1) | SUnref a \<Rightarrow> used(a := used a - 1) | _ \<Rightarrow> used)"

inductive strategy_run :: "(nat \<Rightarrow> nat) \<Rightarrow> Strategies \<Rightarrow> bool" where
  start: "strategy_run (\<lambda>_. 0) Strategies_init"
| step: "strategy_run used g \<Longrightarrow> strategy_guard used g ev \<Longrightarrow> strategy_exec g ev = Ok g' \<Longrightarrow> strategy_run (held used ev) g'"

lemma table_strategy: "strategies_ok used g \<Longrightarrow> a \<in> snd ` set (sc_table g) \<Longrightarrow> sc_mem g a \<noteq> None"
  by (auto simp: strategies_ok_def ref_ok_def split: option.splits)

lemma strategy_exec_ok:
  assumes "strategies_ok used g" "strategy_guard used g ev"
  shows "\<exists>g'. strategy_exec g ev = Ok g' \<and> strategies_ok (held used ev) g'"
proof (cases ev)
  case (SLoad name addr)
  then show ?thesis using strategies_ok_make [OF assms(1), of addr name] assms(2)
    by (auto simp: strategy_exec_def strategy_guard_def held_def)
next
  case (SClose a)
  then obtain i where "(i, a) \<in> set (sc_table g)" using assms(2) by (auto simp: strategy_guard_def)
  from strategies_ok_close [OF assms(1) this] show ?thesis using SClose by (auto simp: strategy_exec_def held_def)
next
  case (SRef a)
  then have "sc_mem g a \<noteq> None" using table_strategy [OF assms(1)] assms(2) by (simp add: strategy_guard_def)
  from strategies_ok_ref [OF assms(1) this] show ?thesis using SRef by (auto simp: strategy_exec_def held_def)
next
  case (SUnref a)
  then show ?thesis using strategies_ok_unref [OF assms(1), of a] assms(2)
    by (auto simp: strategy_exec_def strategy_guard_def held_def)
qed

lemma strategy_run_ok: "strategy_run used g \<Longrightarrow> strategies_ok used g"
proof (induction rule: strategy_run.induct)
  case start
  show ?case by (rule strategies_ok_init)
next
  case (step used g ev g')
  then show ?case using strategy_exec_ok [of used g ev] by auto
qed



end
