(* ===== verification/Fib_Config.thy ===== *)
theory Fib_Config
  imports Ndn_Prelude
begin

text \<open>
  The configuration of the FIB (\<open>container/fib/fibdef/config.go\<close>). \<open>MinInt\<close> and \<open>MaxInt\<close> of another package are
  arguments. \<open>math.Round(math.Log2(n))\<close> is the integer nearest to the exact logarithm, found by search, and the shift
  is that of a 64-bit integer.
\<close>

definition MinCapacity :: int where "MinCapacity = 2 ^ 8 - 1"
definition MaxCapacity :: int where "MaxCapacity = 2 ^ 31 - 1"
definition DefaultCapacity :: int where "DefaultCapacity = 2 ^ 16 - 1"
definition MinStartDepth :: int where "MinStartDepth = 2"
definition MaxStartDepth :: int where "MaxStartDepth = 17"
definition DefaultStartDepth :: int where "DefaultStartDepth = 8"

lemmas config_limits = MinCapacity_def MaxCapacity_def DefaultCapacity_def MinStartDepth_def MaxStartDepth_def DefaultStartDepth_def

record Config =
  Capacity :: int
  NBuckets :: int
  StartDepth :: int

text \<open>The least \<open>k\<close> with \<open>n < 2 ^ (k + 1/2)\<close>, for a positive \<open>n\<close> of 64 bits.\<close>

definition round_log2 :: "int \<Rightarrow> nat" where
  "round_log2 n = (case filter (\<lambda>k. n * n < 2 ^ (2 * k + 1)) [0..<64] of [] \<Rightarrow> 63 | k # _ \<Rightarrow> k)"

definition shl1 :: "nat \<Rightarrow> int" where
  "shl1 k = (if k < 63 then 2 ^ k else if k = 63 then - (2 ^ 63) else 0)"

definition ApplyDefaults :: "(int \<Rightarrow> int \<Rightarrow> int) \<Rightarrow> (int \<Rightarrow> int \<Rightarrow> int) \<Rightarrow> Config \<Rightarrow> Config" where
  "ApplyDefaults MinInt MaxInt cfg =
     (let cfg = (if Capacity cfg = 0 then cfg\<lparr>Capacity := DefaultCapacity\<rparr>
                 else cfg\<lparr>Capacity := MinInt (MaxInt MinCapacity (Capacity cfg)) MaxCapacity\<rparr>);
          cfg = (if NBuckets cfg \<le> 0 then cfg\<lparr>NBuckets := (Capacity cfg + 1) div 2\<rparr> else cfg);
          cfg = cfg\<lparr>NBuckets := shl1 (round_log2 (NBuckets cfg))\<rparr>
      in if StartDepth cfg = 0 then cfg\<lparr>StartDepth := DefaultStartDepth\<rparr>
         else cfg\<lparr>StartDepth := MinInt (MaxInt MinStartDepth (StartDepth cfg)) MaxStartDepth\<rparr>)"

subsection \<open>Bounds\<close>

lemma round_log2_first:
  assumes "0 < n" "n < 2 ^ 63"
  shows "n * n < 2 ^ (2 * round_log2 n + 1)" "j < round_log2 n \<Longrightarrow> 2 ^ (2 * j + 1) \<le> n * n" "round_log2 n < 64"
proof -
  let ?P = "\<lambda>k. n * n < 2 ^ (2 * k + 1)"
  have "n * n < 2 ^ 63 * 2 ^ 63" using assms by (intro mult_strict_mono) auto
  then have "63 \<in> set (filter ?P [0..<64])" by simp
  then obtain k ks where k: "filter ?P [0..<64] = k # ks" by (metis empty_iff list.exhaust list.set(1))
  then have r: "round_log2 n = k" by (simp add: round_log2_def)
  have "k \<in> set (filter ?P [0..<64])" using k by simp
  then show "?P (round_log2 n)" "round_log2 n < 64" using r by auto
  have "sorted (filter ?P [0..<64])" by (simp add: sorted_wrt_filter)
  then have "\<forall>x \<in> set (filter ?P [0..<64]). k \<le> x" using k by auto
  then have "j \<notin> set (filter ?P [0..<64])" if "j < round_log2 n" using that r by auto
  then show "2 ^ (2 * j + 1) \<le> n * n" if "j < round_log2 n" using that \<open>round_log2 n < 64\<close> by (simp add: not_less)
qed

lemma round_log2_power: "k < 63 \<Longrightarrow> round_log2 (2 ^ k) = k"
proof -
  assume k: "k < 63"
  have p: "(0::int) < 2 ^ k" "(2::int) ^ k < 2 ^ 63" using k power_strict_increasing [of k 63 "2::int"] by simp_all
  have e: "(2::int) ^ k * 2 ^ k = 2 ^ (2 * k)" by (simp add: mult_2 power_add)
  note r = round_log2_first [OF p, unfolded e]
  have "2 * k < 2 * round_log2 (2 ^ k) + 1" by (rule power_less_imp_less_exp [of "2::int"]) (use r(1) in simp_all)
  moreover have "\<not> k < round_log2 (2 ^ k)" using r(2) [of k] by auto
  ultimately show ?thesis by simp
qed

lemma ApplyDefaults_fields:
  "Capacity (ApplyDefaults mn mx cfg) = (if Capacity cfg = 0 then DefaultCapacity else mn (mx MinCapacity (Capacity cfg)) MaxCapacity)"
  "StartDepth (ApplyDefaults mn mx cfg) = (if StartDepth cfg = 0 then DefaultStartDepth else mn (mx MinStartDepth (StartDepth cfg)) MaxStartDepth)"
  "NBuckets (ApplyDefaults mn mx cfg) =
     shl1 (round_log2 (if NBuckets cfg \<le> 0 then (Capacity (ApplyDefaults mn mx cfg) + 1) div 2 else NBuckets cfg))"
  by (simp_all add: ApplyDefaults_def Let_def)

lemma clamped:
  "Capacity cfg' = (if c = 0 then DefaultCapacity else min (max MinCapacity c) MaxCapacity) \<Longrightarrow>
     MinCapacity \<le> Capacity cfg' \<and> Capacity cfg' \<le> MaxCapacity \<and> Capacity cfg' \<noteq> 0
     \<and> (MinCapacity \<le> c \<and> c \<le> MaxCapacity \<longrightarrow> Capacity cfg' = c)"
  "StartDepth cfg' = (if c = 0 then DefaultStartDepth else min (max MinStartDepth c) MaxStartDepth) \<Longrightarrow>
     MinStartDepth \<le> StartDepth cfg' \<and> StartDepth cfg' \<le> MaxStartDepth \<and> StartDepth cfg' \<noteq> 0
     \<and> (MinStartDepth \<le> c \<and> c \<le> MaxStartDepth \<longrightarrow> StartDepth cfg' = c)"
  by (auto simp: config_limits)

text \<open>FibConfig_normalized: whatever the configuration, the capacity and the start depth end within their limits
  and keep a value that is within them; the number of buckets is a power of two, the one nearest on the logarithmic
  scale to the number asked for; applying the defaults a second time changes nothing. The number of buckets asked for
  is at most \<open>2 ^ 62\<close>.\<close>

theorem FibConfig_normalized:
  assumes "NBuckets cfg \<le> 2 ^ 62"
  defines "cfg' \<equiv> ApplyDefaults min max cfg"
  shows "MinCapacity \<le> Capacity cfg' \<and> Capacity cfg' \<le> MaxCapacity
    \<and> (MinCapacity \<le> Capacity cfg \<and> Capacity cfg \<le> MaxCapacity \<longrightarrow> Capacity cfg' = Capacity cfg)
    \<and> MinStartDepth \<le> StartDepth cfg' \<and> StartDepth cfg' \<le> MaxStartDepth
    \<and> (MinStartDepth \<le> StartDepth cfg \<and> StartDepth cfg \<le> MaxStartDepth \<longrightarrow> StartDepth cfg' = StartDepth cfg)
    \<and> (\<exists>k \<le> 62. NBuckets cfg' = 2 ^ k
         \<and> (0 < NBuckets cfg \<longrightarrow> 2 ^ (2 * k) \<le> 2 * (NBuckets cfg)\<^sup>2 \<and> (NBuckets cfg)\<^sup>2 < 2 * 2 ^ (2 * k)))
    \<and> ApplyDefaults min max cfg' = cfg'"
proof -
  have cap: "MinCapacity \<le> Capacity cfg'" "Capacity cfg' \<le> MaxCapacity" "Capacity cfg' \<noteq> 0"
    "MinCapacity \<le> Capacity cfg \<and> Capacity cfg \<le> MaxCapacity \<longrightarrow> Capacity cfg' = Capacity cfg"
    using clamped(1) [of cfg' "Capacity cfg"] unfolding cfg'_def ApplyDefaults_fields(1) by blast+
  have sd: "MinStartDepth \<le> StartDepth cfg'" "StartDepth cfg' \<le> MaxStartDepth" "StartDepth cfg' \<noteq> 0"
    "MinStartDepth \<le> StartDepth cfg \<and> StartDepth cfg \<le> MaxStartDepth \<longrightarrow> StartDepth cfg' = StartDepth cfg"
    using clamped(2) [of cfg' "StartDepth cfg"] unfolding cfg'_def ApplyDefaults_fields(2) by blast+
  define n where "n = (if NBuckets cfg \<le> 0 then (Capacity cfg' + 1) div 2 else NBuckets cfg)"
  have b: "NBuckets cfg' = shl1 (round_log2 n)" unfolding cfg'_def n_def by (rule ApplyDefaults_fields(3))
  have n: "0 < n" "n \<le> 2 ^ 62" using cap(1,2) assms(1) by (auto simp: n_def config_limits)
  then have lt: "n < 2 ^ 63" by simp
  note r = round_log2_first [OF n(1) lt]
  let ?k = "round_log2 n"
  have "n * n \<le> 2 ^ 62 * 2 ^ 62" using n by (intro mult_mono) auto
  then have k: "?k \<le> 62" using r(2) [of 62] by (cases "?k \<le> 62") auto
  have "2 ^ (2 * ?k) \<le> 2 * n\<^sup>2"
  proof (cases ?k)
    case 0
    have "0 < n\<^sup>2" using n(1) by (rule zero_less_power)
    then have "1 \<le> 2 * n\<^sup>2" by linarith
    then show ?thesis using 0 by simp
  next
    case (Suc j)
    then show ?thesis using r(2) [of j] by (simp add: power2_eq_square)
  qed
  moreover have "n\<^sup>2 < 2 * 2 ^ (2 * ?k)" using r(1) by (simp add: power2_eq_square)
  moreover have p: "NBuckets cfg' = 2 ^ ?k" using b k by (simp add: shl1_def)
  ultimately have q: "\<exists>k \<le> 62. NBuckets cfg' = 2 ^ k \<and> (0 < NBuckets cfg \<longrightarrow> 2 ^ (2 * k) \<le> 2 * (NBuckets cfg)\<^sup>2 \<and> (NBuckets cfg)\<^sup>2 < 2 * 2 ^ (2 * k))"
    using k by (intro exI [of _ ?k]) (auto simp: n_def)
  have "shl1 (round_log2 (NBuckets cfg')) = NBuckets cfg'" using k by (simp add: p shl1_def round_log2_power)
  moreover have "\<not> NBuckets cfg' \<le> 0" by (simp add: p not_le)
  ultimately have "ApplyDefaults min max cfg' = cfg'"
    using cap(1-3) sd(1-3) by (intro Config.equality) (simp_all add: ApplyDefaults_fields)
  then show ?thesis using cap sd q by blast
qed

theorem FibConfig_normalized_witness:
  "StartDepth (ApplyDefaults min max \<lparr>Capacity = 100000, NBuckets = 3, StartDepth = 4\<rparr>) = 4"
  using FibConfig_normalized [of "\<lparr>Capacity = 100000, NBuckets = 3, StartDepth = 4\<rparr>"]
  by (simp add: config_limits)

end
