(* ===== verification/Eal_Numa.thy ===== *)
theory Eal_Numa
  imports Ndn_Prelude "HOL-Library.AList"
begin

text \<open>
  NUMA sockets (\<open>dpdk/eal/numa-socket.go\<close>): the identifier, the rules that turn "any socket" into a concrete one,
  and the classification of items by socket. The list \<open>Sockets\<close> and the number of nodes that DPDK supports are
  arguments, as is the value of the random generator.
\<close>

record NumaSocket =
  ns_v :: int

definition anySocket :: NumaSocket where
  "anySocket = \<lparr>ns_v = 0\<rparr>"

definition NumaSocketFromID :: "int \<Rightarrow> int \<Rightarrow> NumaSocket" where
  "NumaSocketFromID maxNodes i = (if i < 0 \<or> i \<ge> maxNodes then anySocket else \<lparr>ns_v = i + 1\<rparr>)"

definition NumaSocket_ID :: "NumaSocket \<Rightarrow> int" where
  "NumaSocket_ID socket = ns_v socket - 1"

definition IsAny :: "NumaSocket \<Rightarrow> bool" where
  "IsAny socket \<longleftrightarrow> ns_v socket = 0"

definition NumaSocket_Match :: "NumaSocket \<Rightarrow> NumaSocket \<Rightarrow> bool" where
  "NumaSocket_Match socket other \<longleftrightarrow> IsAny socket \<or> IsAny other \<or> ns_v socket = ns_v other"

datatype RewriteAnyNumaSocket =
    KeepAnyNumaSocket
  | RewriteAnyNumaSocketFirst
  | RewriteAnyNumaSocketRandom
  | RewriteAnyNumaSocketTo int

text \<open>\<open>rand.Intn\<close> gives an index below the number of sockets: the argument is reduced to one.\<close>

definition RandomSocket :: "NumaSocket list \<Rightarrow> nat \<Rightarrow> NumaSocket" where
  "RandomSocket Sockets r = (if length Sockets > 0 then Sockets ! (r mod length Sockets) else anySocket)"

definition Rewrite :: "int \<Rightarrow> NumaSocket list \<Rightarrow> nat \<Rightarrow> RewriteAnyNumaSocket \<Rightarrow> NumaSocket \<Rightarrow> NumaSocket" where
  "Rewrite maxNodes Sockets r rule socket =
     (if \<not> IsAny socket then socket
      else case rule of
          KeepAnyNumaSocket \<Rightarrow> socket
        | RewriteAnyNumaSocketFirst \<Rightarrow> if length Sockets > 0 then Sockets ! 0 else socket
        | RewriteAnyNumaSocketRandom \<Rightarrow> RandomSocket Sockets r
        | RewriteAnyNumaSocketTo i \<Rightarrow> NumaSocketFromID maxNodes i)"

text \<open>The map of the classification as an association list; a bucket keeps the order of the items.\<close>

definition ClassifyByNumaSocket :: "(NumaSocket \<Rightarrow> NumaSocket) \<Rightarrow> ('a \<Rightarrow> NumaSocket) \<Rightarrow> 'a list \<Rightarrow> (NumaSocket \<times> 'a list) list" where
  "ClassifyByNumaSocket rewrite numaSocket s =
     fold (\<lambda>item m.
        let socket = rewrite (numaSocket item);
            bucket = (case map_of m socket of None \<Rightarrow> [] | Some b \<Rightarrow> b)
        in AList.update socket (bucket @ [item]) m) s []"

subsection \<open>Lemmas\<close>

lemma FromID_ID: "\<lbrakk>0 \<le> i; i < maxNodes\<rbrakk> \<Longrightarrow> NumaSocket_ID (NumaSocketFromID maxNodes i) = i"
  by (simp add: NumaSocketFromID_def NumaSocket_ID_def)

lemma Rewrite_not_any:
  assumes "Sockets \<noteq> []" "\<forall>s \<in> set Sockets. \<not> IsAny s" "rule = RewriteAnyNumaSocketFirst \<or> rule = RewriteAnyNumaSocketRandom"
  shows "\<not> IsAny (Rewrite maxNodes Sockets r rule socket)"
  using assms by (auto simp: Rewrite_def RandomSocket_def)

lemma Classify_step:
  "map_of (fold (\<lambda>item m. AList.update (f item) ((case map_of m (f item) of None \<Rightarrow> [] | Some b \<Rightarrow> b) @ [item]) m) s m0) k
   = (let b = (case map_of m0 k of None \<Rightarrow> [] | Some b \<Rightarrow> b) @ filter (\<lambda>x. f x = k) s
      in if map_of m0 k = None \<and> filter (\<lambda>x. f x = k) s = [] then None else Some b)"
  by (induction s arbitrary: m0) (auto simp: update_conv Let_def split: option.splits)

lemma Classify_bucket:
  "map_of (ClassifyByNumaSocket rewrite numaSocket s) k =
     (if \<exists>x \<in> set s. rewrite (numaSocket x) = k then Some (filter (\<lambda>x. rewrite (numaSocket x) = k) s) else None)"
  using Classify_step [of "\<lambda>x. rewrite (numaSocket x)" s "[]" k]
  by (auto simp: ClassifyByNumaSocket_def Let_def filter_empty_conv)

lemma Classify_distinct: "distinct (map fst (ClassifyByNumaSocket rewrite numaSocket s))"
proof -
  have "distinct (map fst m0) \<Longrightarrow> distinct (map fst (fold (\<lambda>item m. AList.update (f item) (g item m) m) s m0))" for f g m0
    by (induction s arbitrary: m0) (auto intro: distinct_update)
  from this [of "[]"] show ?thesis by (simp add: ClassifyByNumaSocket_def Let_def)
qed

end
