(* ===== verification/Fib_Replica.thy ===== *)
theory Fib_Replica
  imports Ndni_Name Fib_Tree_Spec Strategy_Code Fib_Config Eal_Numa
begin

text \<open>
  A FIB replica (\<open>container/fib/fibreplica\<close>, \<open>csrc/fib\<close>): entries of a mempool, linked into a hash table that
  the forwarding threads read. An entry is real, or virtual: then it stands at the start depth of the two-stage
  longest prefix match, knows the height of the tree below it and may point to the real entry of its own name. The
  model has the memory of the pool as a map from addresses to \<open>FibEntry\<close> objects. The hash table of liburcu and
  the mempool of DPDK are third-party code: their operations are the record \<open>fib_env\<close>, and what the code relies
  on is stated by \<open>lfht_laws\<close> and \<open>mempool_laws\<close>.
\<close>

subsection \<open>Entries\<close>

record FibEntryDyn =
  nRxInterests :: u32
  nRxData :: u32
  nRxNacks :: u32
  nTxInterests :: u32

text \<open>The union of the strategy pointer and the pointer to the real entry.\<close>

datatype FibPtr = PNull | PStrategy nat | PReal nat

record FibEntry =
  nameL :: u16
  nameV :: bytes
  f_ptr :: FibPtr
  seqNum :: u32
  f_nComps :: u8
  nNexthops :: u8
  f_height :: u8
  f_nexthops :: "u16 list"
  dyn :: "FibEntryDyn list"

definition zero_FibEntry :: "nat \<Rightarrow> FibEntry" where
  "zero_FibEntry nDyns =
     \<lparr>nameL = 0, nameV = replicate MaxNameLength 0, f_ptr = PNull, seqNum = 0, f_nComps = 0, nNexthops = 0, f_height = 0,
      f_nexthops = replicate MaxNexthops 0,
      dyn = replicate nDyns \<lparr>nRxInterests = 0, nRxData = 0, nRxNacks = 0, nTxInterests = 0\<rparr>\<rparr>"

definition FibEntry_GetReal :: "(nat \<Rightarrow> FibEntry) \<Rightarrow> nat option \<Rightarrow> nat option" where
  "FibEntry_GetReal mem entry =
     (case entry of
        None \<Rightarrow> None
      | Some a \<Rightarrow> if f_height (mem a) = 0 then Some a
                  else (case f_ptr (mem a) of PReal r \<Rightarrow> Some r | _ \<Rightarrow> None))"

definition IsVirt :: "FibEntry \<Rightarrow> bool" where
  "IsVirt e \<longleftrightarrow> f_height e > 0"

text \<open>Go's \<open>copy\<close> into an array; the length assigned is the number of bytes copied.\<close>

definition copy_name :: "Name \<Rightarrow> FibEntry \<Rightarrow> FibEntry" where
  "copy_name name e =
     (let nameV' = (case Name_MarshalBinary name of Ok v \<Rightarrow> v | _ \<Rightarrow> []);
          n = min (length (nameV e)) (length nameV')
      in e\<lparr>nameL := of_nat n, nameV := take n nameV' @ drop n (nameV e), f_nComps := of_nat (length name)\<rparr>)"

definition assignReal :: "Strategies \<Rightarrow> RealUpdate \<Rightarrow> FibEntry \<Rightarrow> FibEntry outcome" where
  "assignReal g u e =
     (let e = copy_name (r_Name u) (e\<lparr>f_height := 0\<rparr>);
          e = e\<lparr>nNexthops := of_nat (length (Nexthops (r_body u)))\<rparr>
      in if length (Nexthops (r_body u)) > length (f_nexthops e) then Panic
         else Ok (e\<lparr>f_nexthops := Nexthops (r_body u) @ drop (length (Nexthops (r_body u))) (f_nexthops e),
                    f_ptr := (case Strategy_Get (Strategy (r_body u)) g of None \<Rightarrow> PNull | Some p \<Rightarrow> PStrategy p)\<rparr>))"

definition assignVirt :: "VirtUpdate \<Rightarrow> nat option \<Rightarrow> FibEntry \<Rightarrow> FibEntry" where
  "assignVirt u real e =
     (copy_name (v_Name u) (e\<lparr>f_height := of_int (v_Height u)\<rparr>))
       \<lparr>f_ptr := (case real of None \<Rightarrow> PNull | Some r \<Rightarrow> PReal r)\<rparr>"

text \<open>\<open>Read\<close> of a real entry; the error of \<open>UnmarshalBinary\<close> is dropped.\<close>

definition Read :: "Strategies \<Rightarrow> FibEntry \<Rightarrow> Entry outcome" where
  "Read g c =
     (if f_height c > 0 then Panic
      else let name = (case Name_UnmarshalBinary (take (unat (nameL c)) (nameV c)) of Ok name \<Rightarrow> name | _ \<Rightarrow> []);
               nexthops = take (unat (nNexthops c)) (f_nexthops c)
           in case f_ptr c of
                PStrategy p \<Rightarrow> andthen (Strategy_ID p g) (\<lambda>i. Ok \<lparr>e_body = \<lparr>Nexthops = nexthops, Strategy = i\<rparr>, e_Name = name\<rparr>)
              | _ \<Rightarrow> Panic)"

subsection \<open>Third-party containers\<close>

record ('h, 'p) fib_env =
  cds_lfht_lookup :: "u64 \<Rightarrow> (nat \<Rightarrow> bool) \<Rightarrow> 'h \<Rightarrow> nat option"
  cds_lfht_add_replace :: "u64 \<Rightarrow> (nat \<Rightarrow> bool) \<Rightarrow> nat \<Rightarrow> 'h \<Rightarrow> 'h"
  cds_lfht_del :: "nat \<Rightarrow> 'h \<Rightarrow> 'h option"
  lfht_nodes :: "'h \<Rightarrow> (u64 \<times> nat) set"
  mempool_get_bulk :: "nat \<Rightarrow> 'p \<Rightarrow> (nat list \<times> 'p) option"
  mempool_put_bulk :: "nat list \<Rightarrow> 'p \<Rightarrow> 'p"
  mempool_avail :: "'p \<Rightarrow> nat list"
  sip :: "bytes \<Rightarrow> u64"

text \<open>
  The documented behaviour of \<open>rculfhash\<close>: a lookup returns a node with the hash that matches; adding a node that
  is not in the table puts it in and removes the matching node, if there is one; a deletion succeeds for the nodes
  of the table.
\<close>

definition lfht_laws :: "('h, 'p) fib_env \<Rightarrow> bool" where
  "lfht_laws E \<longleftrightarrow>
     (\<forall>h P ht. case cds_lfht_lookup E h P ht of
          Some a \<Rightarrow> (h, a) \<in> lfht_nodes E ht \<and> P a
        | None \<Rightarrow> (\<forall>a. (h, a) \<in> lfht_nodes E ht \<longrightarrow> \<not> P a))
   \<and> (\<forall>h P a ht. a \<notin> snd ` lfht_nodes E ht \<longrightarrow>
        lfht_nodes E (cds_lfht_add_replace E h P a ht) = insert (h, a)
          (case cds_lfht_lookup E h P ht of None \<Rightarrow> lfht_nodes E ht | Some b \<Rightarrow> lfht_nodes E ht - {(h, b)}))
   \<and> (\<forall>a ht. a \<in> snd ` lfht_nodes E ht \<longrightarrow>
        (\<exists>ht'. cds_lfht_del E a ht = Some ht' \<and> lfht_nodes E ht' = {x \<in> lfht_nodes E ht. snd x \<noteq> a}))"

text \<open>A mempool hands out objects that it has, all or none, and takes objects back.\<close>

definition mempool_laws :: "('h, 'p) fib_env \<Rightarrow> bool" where
  "mempool_laws E \<longleftrightarrow>
     (\<forall>n p. case mempool_get_bulk E n p of
          Some (xs, p') \<Rightarrow> length xs = n \<and> mset (mempool_avail E p) = mset xs + mset (mempool_avail E p')
        | None \<Rightarrow> length (mempool_avail E p) < n)
   \<and> (\<forall>xs p. mset (mempool_avail E (mempool_put_bulk E xs p)) = mset xs + mset (mempool_avail E p))"

subsection \<open>The C replica\<close>

record ('h, 'p) Table =
  mp :: 'p
  lfht :: 'h
  t_startDepth :: int
  insertSeqNum :: u32
  nDyns :: nat
  t_free :: "nat list list"
  t_mem :: "nat \<Rightarrow> FibEntry"

definition Fib_LookupMatch :: "(nat \<Rightarrow> FibEntry) \<Rightarrow> bytes \<Rightarrow> nat \<Rightarrow> bool" where
  "Fib_LookupMatch mem key a \<longleftrightarrow> nameL (mem a) = of_nat (length key) \<and> take (length key) (nameV (mem a)) = key"

definition Fib_AllocBulk :: "('h, 'p) fib_env \<Rightarrow> nat \<Rightarrow> ('h, 'p) Table \<Rightarrow> (nat list \<times> ('h, 'p) Table) option" where
  "Fib_AllocBulk E n t =
     (case mempool_get_bulk E n (mp t) of
        None \<Rightarrow> None
      | Some (entries, p) \<Rightarrow>
          Some (entries, t\<lparr>mp := p, t_mem := fold (\<lambda>a m. m(a := zero_FibEntry (nDyns t))) entries (t_mem t)\<rparr>))"

definition next_seq :: "nat \<Rightarrow> ('h, 'p) Table \<Rightarrow> ('h, 'p) Table" where
  "next_seq a t = (let s = insertSeqNum t + 1
     in t\<lparr>insertSeqNum := s, t_mem := (t_mem t)(a := (t_mem t a)\<lparr>seqNum := s\<rparr>)\<rparr>)"

definition entry_name :: "FibEntry \<Rightarrow> bytes" where
  "entry_name e = take (unat (nameL e)) (nameV e)"

definition Fib_Write :: "('h, 'p) fib_env \<Rightarrow> nat \<Rightarrow> Strategies \<times> ('h, 'p) Table \<Rightarrow> (Strategies \<times> ('h, 'p) Table) outcome" where
  "Fib_Write E entry = (\<lambda>(g, t).
     let e = t_mem t entry;
         (ok, newReal, t) =
           (if f_height e > 0
            then (nNexthops e = 0, FibEntry_GetReal (t_mem t) (Some entry), next_seq entry t)
            else (True, Some entry, t))
     in if \<not> ok then Panic
        else andthen
          (case newReal of
             None \<Rightarrow> Ok (g, t)
           | Some r \<Rightarrow>
               if f_height (t_mem t r) \<noteq> 0 \<or> \<not> nNexthops (t_mem t r) > 0 then Panic
               else andthen (StrategyCode_Ref (case f_ptr (t_mem t r) of PStrategy p \<Rightarrow> Some p | _ \<Rightarrow> None) g)
                 (\<lambda>g. Ok (g, next_seq r t)))
          (\<lambda>(g, t). Ok (g, t\<lparr>lfht := cds_lfht_add_replace E (sip E (entry_name e))
             (Fib_LookupMatch (t_mem t) (entry_name e)) entry (lfht t)\<rparr>)))"

definition Fib_Erase :: "('h, 'p) fib_env \<Rightarrow> nat option \<Rightarrow> ('h, 'p) Table \<Rightarrow> ('h, 'p) Table outcome" where
  "Fib_Erase E entry t =
     (case entry of
        None \<Rightarrow> Panic
      | Some a \<Rightarrow> (case cds_lfht_del E a (lfht t) of None \<Rightarrow> Panic | Some ht \<Rightarrow> Ok (t\<lparr>lfht := ht\<rparr>)))"

definition Fib_Get :: "('h, 'p) fib_env \<Rightarrow> ('h, 'p) Table \<Rightarrow> bytes \<Rightarrow> u64 \<Rightarrow> nat option" where
  "Fib_Get E t name hash = cds_lfht_lookup E hash (Fib_LookupMatch (t_mem t) name) (lfht t)"

definition Fib_GetEntryByPrefix :: "('h, 'p) fib_env \<Rightarrow> ('h, 'p) Table \<Rightarrow> PName \<Rightarrow> nat \<Rightarrow> nat option outcome" where
  "Fib_GetEntryByPrefix E t name prefixLen =
     andthen (PName_ComputePrefixHash (sip E) name prefixLen)
       (\<lambda>hash. Ok (Fib_Get E t (PName_GetPrefix name (int prefixLen)) hash))"

text \<open>The loop of the second stage; a negative start length makes no iteration.\<close>

fun Fib_Lpm_loop :: "('h, 'p) fib_env \<Rightarrow> ('h, 'p) Table \<Rightarrow> PName \<Rightarrow> nat \<Rightarrow> nat option outcome" where
  "Fib_Lpm_loop E t name 0 = andthen (Fib_GetEntryByPrefix E t name 0) (\<lambda>e. Ok (FibEntry_GetReal (t_mem t) e))"
| "Fib_Lpm_loop E t name (Suc n) =
     andthen (Fib_GetEntryByPrefix E t name (Suc n)) (\<lambda>e.
       case FibEntry_GetReal (t_mem t) e of
         Some r \<Rightarrow> Ok (Some r)
       | None \<Rightarrow> Fib_Lpm_loop E t name n)"

definition Fib_Lpm :: "('h, 'p) fib_env \<Rightarrow> ('h, 'p) Table \<Rightarrow> PName \<Rightarrow> nat option outcome" where
  "Fib_Lpm E t name =
     (let nComps = int (p_nComps name);
          second = (\<lambda>prefixLen. if prefixLen < 0 then Ok None else Fib_Lpm_loop E t name (nat prefixLen))
      in if t_startDepth t < nComps
         then andthen (Fib_GetEntryByPrefix E t name (nat (t_startDepth t))) (\<lambda>e.
           case e of
             None \<Rightarrow> second (t_startDepth t - 1)
           | Some a \<Rightarrow> if f_height (t_mem t a) > 0
                       then second (min (t_startDepth t + uint (f_height (t_mem t a))) nComps)
                       else Ok (Some a))
         else second nComps)"

subsection \<open>The Go table\<close>

definition Get :: "('h, 'p) fib_env \<Rightarrow> ('h, 'p) Table \<Rightarrow> Name \<Rightarrow> nat option outcome" where
  "Get E t name = andthen (NewPName name) (\<lambda>pname. Ok (Fib_Get E t (p_value pname) (sip E (p_value pname))))"

definition Lpm :: "('h, 'p) fib_env \<Rightarrow> ('h, 'p) Table \<Rightarrow> Name \<Rightarrow> nat option outcome" where
  "Lpm E t name = andthen (NewPName name) (Fib_Lpm E t)"

definition allocBulk :: "('h, 'p) fib_env \<Rightarrow> nat \<Rightarrow> ('h, 'p) Table \<Rightarrow> (nat list \<times> ('h, 'p) Table) outcome" where
  "allocBulk E n t =
     (if n = 0 then Ok ([], t)
      else (case Fib_AllocBulk E n t of None \<Rightarrow> Fail (ErrOther ''allocation failure'') | Some r \<Rightarrow> Ok r))"

text \<open>The channel \<open>free\<close> as the list of batches that wait for the grace period.\<close>

definition deferredFree :: "nat option list \<Rightarrow> ('h, 'p) Table \<Rightarrow> ('h, 'p) Table" where
  "deferredFree entries t =
     (let objs = concat (map (\<lambda>e. case e of None \<Rightarrow> [] | Some a \<Rightarrow> [a]) entries)
      in if length objs = 0 then t else t\<lparr>t_free := t_free t @ [objs]\<rparr>)"

text \<open>A goroutine of \<open>freeLoop\<close> frees the batch with the given number; they finish in any order.\<close>

definition freeLoop_step :: "('h, 'p) fib_env \<Rightarrow> nat \<Rightarrow> ('h, 'p) Table \<Rightarrow> ('h, 'p) Table" where
  "freeLoop_step E i t =
     (if i < length (t_free t)
      then t\<lparr>mp := mempool_put_bulk E (t_free t ! i) (mp t), t_free := take i (t_free t) @ drop (Suc i) (t_free t)\<rparr>
      else t)"

text \<open>
  \<open>New\<close>: \<open>mempool_New\<close> creates a mempool of DPDK, whose objects have the contents \<open>m\<close>, and \<open>cds_lfht_new\<close> a hash
  table; the sequence number starts at the random value \<open>seed\<close>.
\<close>

definition Table_New ::
    "(int \<Rightarrow> int \<Rightarrow> int) \<Rightarrow> (int \<Rightarrow> int \<Rightarrow> int) \<Rightarrow> (int \<Rightarrow> nat \<Rightarrow> NumaSocket \<Rightarrow> ('p \<times> (nat \<Rightarrow> FibEntry)) outcome) \<Rightarrow> (int \<Rightarrow> 'h option) \<Rightarrow> u32
     \<Rightarrow> Config \<Rightarrow> nat \<Rightarrow> NumaSocket \<Rightarrow> ('h, 'p) Table outcome" where
  "Table_New MinInt MaxInt mempool_New cds_lfht_new seed cfg nd socket =
     (let cfg = ApplyDefaults MinInt MaxInt cfg
      in andthen (mempool_New (Capacity cfg) nd socket) (\<lambda>(pool, m).
           case cds_lfht_new (NBuckets cfg) of
             None \<Rightarrow> Fail (ErrOther ''cds_lfht_new error'')
           | Some ht \<Rightarrow> Ok \<lparr>mp = pool, lfht = ht, t_startDepth = StartDepth cfg, insertSeqNum = seed, nDyns = nd,
               t_free = [], t_mem = m\<rparr>))"

text \<open>
  \<open>Fib_Clear\<close>, with the nodes in the order in which \<open>cds_lfht_for_each\<close> yields them; the result of the deletion is
  not used. \<open>Close\<close> closes the channel, and the rest of \<open>freeLoop\<close> waits for the goroutines, clears the table and
  releases the hash table and the mempool.
\<close>

definition Fib_Clear :: "('h, 'p) fib_env \<Rightarrow> nat list \<Rightarrow> Strategies \<times> ('h, 'p) Table \<Rightarrow> (Strategies \<times> ('h, 'p) Table) outcome" where
  "Fib_Clear E nodes s =
     forRange (\<lambda>(g, t) oldEntry.
        andthen
          (case FibEntry_GetReal (t_mem t) (Some oldEntry) of
             None \<Rightarrow> Ok g
           | Some r \<Rightarrow> StrategyCode_Unref (case f_ptr (t_mem t r) of PStrategy p \<Rightarrow> Some p | _ \<Rightarrow> None) g)
          (\<lambda>g. Ok (g, t\<lparr>lfht := (case cds_lfht_del E oldEntry (lfht t) of None \<Rightarrow> lfht t | Some ht \<Rightarrow> ht)\<rparr>))) s nodes"

definition Table_Close :: "('h, 'p) fib_env \<Rightarrow> ('h \<Rightarrow> nat list) \<Rightarrow> Strategies \<times> ('h, 'p) Table \<Rightarrow> Strategies outcome" where
  "Table_Close E forEach = (\<lambda>(g, t).
     let t = fold (\<lambda>_. freeLoop_step E 0) (t_free t) t
     in andthen (Fib_Clear E (forEach (lfht t)) (g, t)) (\<lambda>(g, t). Ok g))"

record EntryCounters =
  NRxInterests :: u64
  NRxData :: u64
  NRxNacks :: u64
  NTxInterests :: u64

text \<open>\<open>AccCounters\<close> dereferences the real entry in every iteration.\<close>

definition AccCounters :: "nat option \<Rightarrow> ('h, 'p) Table \<Rightarrow> EntryCounters \<Rightarrow> EntryCounters outcome" where
  "AccCounters entry t cnt =
     (let c = FibEntry_GetReal (t_mem t) entry
      in forRange (\<lambda>cnt i. case c of
           None \<Rightarrow> Panic
         | Some a \<Rightarrow>
             let d = dyn (t_mem t a) ! i
             in Ok \<lparr>NRxInterests = NRxInterests cnt + ucast (nRxInterests d), NRxData = NRxData cnt + ucast (nRxData d),
                    NRxNacks = NRxNacks cnt + ucast (nRxNacks d), NTxInterests = NTxInterests cnt + ucast (nTxInterests d)\<rparr>)
           cnt [0..<nDyns t])"

subsection \<open>Updates\<close>

record realUpdate =
  ru :: "RealUpdate option"
  ru_oldReal :: "nat option"
  ru_oldVirt :: "nat option"

record virtUpdate =
  vu :: "VirtUpdate option"
  vu_oldVirt :: "nat option"
  vu_oldReal :: "nat option"

record UpdateCommand =
  uc_real :: realUpdate
  uc_virt :: virtUpdate
  allocated :: "nat list option"
  allocSplit :: nat

definition realUpdate_prepare ::
    "('h, 'p) fib_env \<Rightarrow> ('h, 'p) Table \<Rightarrow> RealUpdate option \<Rightarrow> (nat \<times> realUpdate) outcome" where
  "realUpdate_prepare E t u =
     (case u of
        None \<Rightarrow> Ok (0, \<lparr>ru = None, ru_oldReal = None, ru_oldVirt = None\<rparr>)
      | Some r \<Rightarrow>
          if (case WithVirt r of None \<Rightarrow> False | Some v \<Rightarrow> v_Action v \<noteq> ActReplace) then Panic
          else (case r_Action r of
              ActInsert \<Rightarrow>
                if WithVirt r \<noteq> None
                then andthen (Get E t (r_Name r)) (\<lambda>ov. Ok (2, \<lparr>ru = u, ru_oldReal = None, ru_oldVirt = ov\<rparr>))
                else Ok (1, \<lparr>ru = u, ru_oldReal = None, ru_oldVirt = None\<rparr>)
            | ActReplace \<Rightarrow>
                if WithVirt r \<noteq> None
                then andthen (Get E t (r_Name r)) (\<lambda>ov.
                  Ok (2, \<lparr>ru = u, ru_oldReal = FibEntry_GetReal (t_mem t) ov, ru_oldVirt = ov\<rparr>))
                else andthen (Get E t (r_Name r)) (\<lambda>old. Ok (1, \<lparr>ru = u, ru_oldReal = old, ru_oldVirt = None\<rparr>))
            | ActErase \<Rightarrow>
                if WithVirt r \<noteq> None
                then andthen (Get E t (r_Name r)) (\<lambda>ov.
                  Ok (1, \<lparr>ru = u, ru_oldReal = FibEntry_GetReal (t_mem t) ov, ru_oldVirt = ov\<rparr>))
                else andthen (Get E t (r_Name r)) (\<lambda>old. Ok (0, \<lparr>ru = u, ru_oldReal = old, ru_oldVirt = None\<rparr>))))"

definition virtUpdate_prepare ::
    "('h, 'p) fib_env \<Rightarrow> ('h, 'p) Table \<Rightarrow> VirtUpdate option \<Rightarrow> (nat \<times> virtUpdate) outcome" where
  "virtUpdate_prepare E t u =
     (case u of
        None \<Rightarrow> Ok (0, \<lparr>vu = None, vu_oldVirt = None, vu_oldReal = None\<rparr>)
      | Some v \<Rightarrow>
          (case v_Action v of
              ActInsert \<Rightarrow>
                if HasReal v
                then andthen (Get E t (v_Name v)) (\<lambda>old. Ok (1, \<lparr>vu = u, vu_oldVirt = None, vu_oldReal = old\<rparr>))
                else Ok (1, \<lparr>vu = u, vu_oldVirt = None, vu_oldReal = None\<rparr>)
            | ActReplace \<Rightarrow>
                andthen (Get E t (v_Name v)) (\<lambda>ov. Ok (1, \<lparr>vu = u, vu_oldVirt = ov,
                  vu_oldReal = (if HasReal v then FibEntry_GetReal (t_mem t) ov else None)\<rparr>))
            | ActErase \<Rightarrow>
                andthen (Get E t (v_Name v)) (\<lambda>ov. Ok (0, \<lparr>vu = u, vu_oldVirt = ov,
                  vu_oldReal = (if HasReal v then FibEntry_GetReal (t_mem t) ov else None)\<rparr>))))"

definition PrepareUpdate ::
    "('h, 'p) fib_env \<Rightarrow> update \<Rightarrow> ('h, 'p) Table \<Rightarrow> (UpdateCommand \<times> ('h, 'p) Table) outcome" where
  "PrepareUpdate E tu t =
     andthen (realUpdate_prepare E t (u_real tu)) (\<lambda>(n, real).
       andthen (virtUpdate_prepare E t (u_virt tu)) (\<lambda>(m, virt).
         andthen (allocBulk E (n + m) t) (\<lambda>(xs, t).
           Ok (\<lparr>uc_real = real, uc_virt = virt, allocated = Some xs, allocSplit = n\<rparr>, t))))"

text \<open>Indexing a slice out of range is a run-time panic.\<close>

definition index :: "'a list \<Rightarrow> nat \<Rightarrow> 'a outcome" where
  "index xs i = (if i < length xs then Ok (xs ! i) else Panic)"

definition set_mem :: "nat \<Rightarrow> FibEntry \<Rightarrow> ('h, 'p) Table \<Rightarrow> ('h, 'p) Table" where
  "set_mem a e t = t\<lparr>t_mem := (t_mem t)(a := e)\<rparr>"

definition realUpdate_execute ::
    "('h, 'p) fib_env \<Rightarrow> realUpdate \<Rightarrow> nat list \<Rightarrow> Strategies \<times> ('h, 'p) Table \<Rightarrow> (Strategies \<times> ('h, 'p) Table) outcome" where
  "realUpdate_execute E u xs = (\<lambda>(g, t).
     case ru u of
       None \<Rightarrow> Ok (g, t)
     | Some r \<Rightarrow>
         andthen
           (if r_Action r \<noteq> ActErase then
              andthen (index xs 0) (\<lambda>newReal.
                andthen (assignReal g r (t_mem t newReal)) (\<lambda>e.
                  let t = set_mem newReal e t in
                  case WithVirt r of
                    Some v \<Rightarrow> andthen (index xs 1) (\<lambda>newVirt.
                      Fib_Write E newVirt (g, set_mem newVirt (assignVirt v (Some newReal) (t_mem t newVirt)) t))
                  | None \<Rightarrow> Fib_Write E newReal (g, t)))
            else
              (case WithVirt r of
                 Some v \<Rightarrow> andthen (index xs 0) (\<lambda>newVirt.
                   Fib_Write E newVirt (g, set_mem newVirt (assignVirt v None (t_mem t newVirt)) t))
               | None \<Rightarrow>
                   andthen (Fib_Erase E (if ru_oldVirt u \<noteq> None then ru_oldVirt u else ru_oldReal u) t) (\<lambda>t. Ok (g, t))))
           (\<lambda>(g, t). Ok (g, deferredFree [ru_oldReal u, ru_oldVirt u] t)))"

definition virtUpdate_execute ::
    "('h, 'p) fib_env \<Rightarrow> virtUpdate \<Rightarrow> nat list \<Rightarrow> Strategies \<times> ('h, 'p) Table \<Rightarrow> (Strategies \<times> ('h, 'p) Table) outcome" where
  "virtUpdate_execute E u xs = (\<lambda>(g, t).
     case vu u of
       None \<Rightarrow> Ok (g, t)
     | Some v \<Rightarrow>
         andthen
           (if v_Action v \<noteq> ActErase then
              andthen (index xs 0) (\<lambda>newVirt.
                Fib_Write E newVirt (g, set_mem newVirt (assignVirt v (vu_oldReal u) (t_mem t newVirt)) t))
            else
              (case vu_oldReal u of
                 None \<Rightarrow> andthen (Fib_Erase E (vu_oldVirt u) t) (\<lambda>t. Ok (g, t))
               | Some r \<Rightarrow> Fib_Write E r (g, t)))
           (\<lambda>(g, t). Ok (g, deferredFree [vu_oldVirt u] t)))"

text \<open>\<open>ExecuteUpdate\<close> and \<open>DiscardUpdate\<close> clear the command, which the caller then drops.\<close>

definition ExecuteUpdate ::
    "('h, 'p) fib_env \<Rightarrow> UpdateCommand \<Rightarrow> Strategies \<times> ('h, 'p) Table \<Rightarrow> (Strategies \<times> ('h, 'p) Table) outcome" where
  "ExecuteUpdate E u s =
     (let xs = (case allocated u of None \<Rightarrow> [] | Some xs \<Rightarrow> xs)
      in if allocSplit u > length xs then Panic
         else andthen (realUpdate_execute E (uc_real u) (take (allocSplit u) xs) s)
                (virtUpdate_execute E (uc_virt u) (drop (allocSplit u) xs)))"

definition DiscardUpdate :: "('h, 'p) fib_env \<Rightarrow> UpdateCommand \<Rightarrow> ('h, 'p) Table \<Rightarrow> ('h, 'p) Table" where
  "DiscardUpdate E u t = (case allocated u of None \<Rightarrow> t | Some xs \<Rightarrow> t\<lparr>mp := mempool_put_bulk E xs (mp t)\<rparr>)"

end
