(* ===== verification/Fib_Replica_Spec.thy ===== *)
theory Fib_Replica_Spec
  imports Fib_Replica
begin

text \<open>
  What a FIB replica guarantees. \<open>ht_ok\<close> and \<open>own_ok\<close> are the invariants of the hash table and of the ownership of
  mempool objects; \<open>slot_ok\<close> relates the object found under a name to the FIB tree. The lemmas follow one update
  command through \<open>PrepareUpdate\<close> and \<open>ExecuteUpdate\<close>.
\<close>

subsection \<open>Invariant of the hash table\<close>

definition core :: "FibEntry \<Rightarrow> FibEntry" where
  "core e = e\<lparr>seqNum := 0\<rparr>"

lemma core_seq [simp]: "core (e\<lparr>seqNum := s\<rparr>) = core e"
  by (simp add: core_def)

lemma core_fields:
  assumes "core e = core e'"
  shows "nameL e = nameL e'" "nameV e = nameV e'" "f_ptr e = f_ptr e'" "nNexthops e = nNexthops e'"
    "f_height e = f_height e'" "f_nexthops e = f_nexthops e'" "entry_name e = entry_name e'" "f_nComps e = f_nComps e'"
    "dyn e = dyn e'"
  using assms by (cases e; cases e'; simp add: core_def entry_name_def)+

definition wf_entry :: "FibEntry \<Rightarrow> bool" where
  "wf_entry e \<longleftrightarrow> length (nameV e) = MaxNameLength \<and> unat (nameL e) \<le> MaxNameLength \<and> length (f_nexthops e) = MaxNexthops"

lemma wf_entry_core: "core e = core e' \<Longrightarrow> wf_entry e = wf_entry e'"
  using core_fields [of e e'] by (simp add: wf_entry_def)

definition addrs :: "('h, 'p) fib_env \<Rightarrow> ('h, 'p) Table \<Rightarrow> nat set" where
  "addrs E t = snd ` lfht_nodes E (lfht t)"

definition node_of :: "('h, 'p) fib_env \<Rightarrow> (nat \<Rightarrow> FibEntry) \<Rightarrow> nat \<Rightarrow> u64 \<times> nat" where
  "node_of E mem a = (sip E (entry_name (mem a)), a)"

definition ht_ok :: "('h, 'p) fib_env \<Rightarrow> ('h, 'p) Table \<Rightarrow> bool" where
  "ht_ok E t \<longleftrightarrow> lfht_nodes E (lfht t) = node_of E (t_mem t) ` addrs E t
     \<and> inj_on (\<lambda>a. entry_name (t_mem t a)) (addrs E t) \<and> (\<forall>a \<in> addrs E t. wf_entry (t_mem t a))"

lemma Fib_LookupMatch_iff:
  assumes "wf_entry (mem a)" "length key < 65536"
  shows "Fib_LookupMatch mem key a \<longleftrightarrow> entry_name (mem a) = key"
proof -
  have l: "unat (of_nat (length key) :: u16) = length key"
    using assms(2) by (simp add: unsigned_of_nat take_bit_nat_eq_self)
  have n: "length (entry_name (mem a)) = unat (nameL (mem a))"
    using assms(1) by (simp add: wf_entry_def entry_name_def MaxNameLength_def)
  show ?thesis
  proof
    assume "Fib_LookupMatch mem key a"
    then show "entry_name (mem a) = key" using l by (auto simp: Fib_LookupMatch_def entry_name_def)
  next
    assume k: "entry_name (mem a) = key"
    then have "unat (nameL (mem a)) = length key" using n by simp
    moreover from this have "nameL (mem a) = of_nat (length key)" using l by (simp add: word_unat_eq_iff)
    ultimately show "Fib_LookupMatch mem key a" using k by (simp add: Fib_LookupMatch_def entry_name_def)
  qed
qed

definition look :: "('h, 'p) fib_env \<Rightarrow> ('h, 'p) Table \<Rightarrow> bytes \<Rightarrow> nat option" where
  "look E t v = Fib_Get E t v (sip E v)"

lemma look_Some:
  assumes "lfht_laws E" "ht_ok E t" "length v < 65536"
  shows "look E t v = Some a \<longleftrightarrow> a \<in> addrs E t \<and> entry_name (t_mem t a) = v"
proof -
  let ?P = "Fib_LookupMatch (t_mem t) v"
  have P: "?P a \<longleftrightarrow> entry_name (t_mem t a) = v" if "a \<in> addrs E t" for a
    using that assms(2,3) by (simp add: Fib_LookupMatch_iff ht_ok_def)
  have m: "(sip E v, a) \<in> lfht_nodes E (lfht t) \<and> ?P a \<longleftrightarrow> a \<in> addrs E t \<and> entry_name (t_mem t a) = v" for a
  proof -
    have "(sip E v, a) \<in> lfht_nodes E (lfht t) \<longleftrightarrow> a \<in> addrs E t \<and> sip E (entry_name (t_mem t a)) = sip E v"
      using assms(2) unfolding ht_ok_def node_of_def by (auto simp: image_iff)
    then show ?thesis using P [of a] by auto
  qed
  have "case cds_lfht_lookup E (sip E v) ?P (lfht t) of
      Some a \<Rightarrow> (sip E v, a) \<in> lfht_nodes E (lfht t) \<and> ?P a
    | None \<Rightarrow> \<forall>a. (sip E v, a) \<in> lfht_nodes E (lfht t) \<longrightarrow> \<not> ?P a"
    using assms(1) by (simp add: lfht_laws_def)
  moreover have "a = b" if "a \<in> addrs E t \<and> entry_name (t_mem t a) = v" "b \<in> addrs E t \<and> entry_name (t_mem t b) = v" for a b
    using that assms(2) by (simp add: ht_ok_def inj_on_def)
  ultimately show ?thesis unfolding look_def Fib_Get_def using m
    by (auto split: option.splits)
qed

lemma look_None:
  assumes "lfht_laws E" "ht_ok E t" "length v < 65536"
  shows "look E t v = None \<longleftrightarrow> (\<forall>a \<in> addrs E t. entry_name (t_mem t a) \<noteq> v)"
  using look_Some [OF assms] by (metis not_None_eq)

lemma StrategyCode_Ref_ids:
  assumes "sc_ids g p \<noteq> None"
  shows "\<exists>g'. StrategyCode_Ref (Some p) g = Ok g' \<and> sc_ids g' = sc_ids g \<and> sc_table g' = sc_table g"
  using assms by (auto simp: sc_ids_def StrategyCode_Ref_def fun_eq_iff)

text \<open>A write succeeds on an entry whose real entry, if it has one, has next hops and a loaded strategy.\<close>

definition writable :: "Strategies \<Rightarrow> (nat \<Rightarrow> FibEntry) \<Rightarrow> nat \<Rightarrow> bool" where
  "writable g mem a \<longleftrightarrow> wf_entry (mem a) \<and> (f_height (mem a) > 0 \<longrightarrow> nNexthops (mem a) = 0)
     \<and> (case FibEntry_GetReal mem (Some a) of
          None \<Rightarrow> True
        | Some r \<Rightarrow> f_height (mem r) = 0 \<and> nNexthops (mem r) > 0 \<and> (\<exists>p. f_ptr (mem r) = PStrategy p \<and> sc_ids g p \<noteq> None))"

definition same_table :: "('h, 'p) Table \<Rightarrow> ('h, 'p) Table \<Rightarrow> bool" where
  "same_table t t' \<longleftrightarrow> mp t' = mp t \<and> t_free t' = t_free t \<and> t_startDepth t' = t_startDepth t \<and> nDyns t' = nDyns t"

lemma next_seq_simps [simp]:
  "mp (next_seq a t) = mp t" "t_free (next_seq a t) = t_free t" "t_startDepth (next_seq a t) = t_startDepth t"
  "nDyns (next_seq a t) = nDyns t" "lfht (next_seq a t) = lfht t" "core (t_mem (next_seq a t) x) = core (t_mem t x)"
  by (simp_all add: next_seq_def Let_def)

lemma GetReal_core: "(\<And>x. core (mem x) = core (mem' x)) \<Longrightarrow> FibEntry_GetReal mem e = FibEntry_GetReal mem' e"
  using core_fields(3,5) unfolding FibEntry_GetReal_def by (metis (no_types, lifting))

text \<open>The state after the counters and the strategy have been updated, before the entry is linked.\<close>

lemma Fib_Write_steps:
  assumes "writable g (t_mem t) a"
  shows "\<exists>g' t1. Fib_Write E a (g, t) = Ok (g', t1\<lparr>lfht := cds_lfht_add_replace E (sip E (entry_name (t_mem t a)))
        (Fib_LookupMatch (t_mem t1) (entry_name (t_mem t a))) a (lfht t)\<rparr>)
    \<and> same_table t t1 \<and> lfht t1 = lfht t \<and> (\<forall>x. core (t_mem t1 x) = core (t_mem t x))
    \<and> sc_ids g' = sc_ids g \<and> sc_table g' = sc_table g"
proof -
  let ?t0 = "if f_height (t_mem t a) > 0 then next_seq a t else t"
  let ?real = "FibEntry_GetReal (t_mem t) (Some a)"
  have r0: "?real = (if f_height (t_mem t a) > 0 then FibEntry_GetReal (t_mem t) (Some a) else Some a)"
    by (simp add: FibEntry_GetReal_def word_neq_0_conv)
  have c0: "core (t_mem ?t0 x) = core (t_mem t x)" for x by simp
  note f = core_fields [OF c0]
  have nn: "f_height (t_mem t a) > 0 \<longrightarrow> nNexthops (t_mem t a) = 0" using assms by (simp add: writable_def)
  show ?thesis
  proof (cases ?real)
    case None
    then show ?thesis using nn r0 by (intro exI [of _ g] exI [of _ ?t0]) (auto simp: Fib_Write_def same_table_def Let_def split: if_splits)
  next
    case (Some r)
    then have w: "f_height (t_mem t r) = 0" "nNexthops (t_mem t r) > 0"
      and "\<exists>p. f_ptr (t_mem t r) = PStrategy p \<and> sc_ids g p \<noteq> None" using assms by (auto simp: writable_def)
    then obtain p g' where p: "f_ptr (t_mem t r) = PStrategy p" "StrategyCode_Ref (Some p) g = Ok g'"
      "sc_ids g' = sc_ids g" "sc_table g' = sc_table g" using StrategyCode_Ref_ids by blast
    show ?thesis
    proof (cases "f_height (t_mem t a) > 0")
      case True
      then have "f_ptr (t_mem (next_seq a t) r) = PStrategy p" "nNexthops (t_mem (next_seq a t) r) = nNexthops (t_mem t r)"
        "f_height (t_mem (next_seq a t) r) = 0" using f(3) [of r] f(4) [of r] f(5) [of r] w p(1) by simp_all
      then show ?thesis using True Some nn w p
        by (intro exI [of _ g'] exI [of _ "next_seq r (next_seq a t)"]) (simp add: Fib_Write_def same_table_def Let_def)
    next
      case False
      then have "f_height (t_mem t a) = 0" by (simp add: word_gt_0)
      then have "r = a" using Some by (simp add: FibEntry_GetReal_def)
      then show ?thesis using False w p
        by (intro exI [of _ g'] exI [of _ "next_seq r t"]) (simp add: Fib_Write_def same_table_def Let_def)
    qed
  qed
qed

lemma ht_ok_core:
  assumes "lfht t' = lfht t" "\<And>x. x \<in> addrs E t \<Longrightarrow> core (t_mem t' x) = core (t_mem t x)"
  shows "addrs E t' = addrs E t" "ht_ok E t' \<longleftrightarrow> ht_ok E t"
proof -
  show a: "addrs E t' = addrs E t" by (simp add: addrs_def assms(1))
  have n: "entry_name (t_mem t' x) = entry_name (t_mem t x)" "wf_entry (t_mem t' x) = wf_entry (t_mem t x)" if "x \<in> addrs E t" for x
    using core_fields(7) [OF assms(2) [OF that]] wf_entry_core [OF assms(2) [OF that]] by simp_all
  have "node_of E (t_mem t') ` addrs E t = node_of E (t_mem t) ` addrs E t"
    by (rule image_cong) (simp_all add: node_of_def n)
  moreover have "inj_on (\<lambda>a. entry_name (t_mem t' a)) (addrs E t) = inj_on (\<lambda>a. entry_name (t_mem t a)) (addrs E t)"
    by (rule inj_on_cong) (simp add: n)
  ultimately show "ht_ok E t' \<longleftrightarrow> ht_ok E t" by (simp add: ht_ok_def a assms(1) n)
qed

lemma Fib_Write_spec:
  assumes "lfht_laws E" "ht_ok E t" "writable g (t_mem t) a" "a \<notin> addrs E t" "length (entry_name (t_mem t a)) < 65536"
  shows "\<exists>g' t'. Fib_Write E a (g, t) = Ok (g', t') \<and> same_table t t' \<and> (\<forall>x. core (t_mem t' x) = core (t_mem t x))
    \<and> sc_ids g' = sc_ids g \<and> sc_table g' = sc_table g \<and> ht_ok E t'
    \<and> addrs E t' = insert a {b \<in> addrs E t. entry_name (t_mem t b) \<noteq> entry_name (t_mem t a)}"
proof -
  let ?v = "entry_name (t_mem t a)"
  obtain g' t1 where t1: "Fib_Write E a (g, t) = Ok (g', t1\<lparr>lfht := cds_lfht_add_replace E (sip E ?v)
        (Fib_LookupMatch (t_mem t1) ?v) a (lfht t)\<rparr>)" (is "_ = Ok (g', ?t')")
    "same_table t t1" "lfht t1 = lfht t" "\<forall>x. core (t_mem t1 x) = core (t_mem t x)" "sc_ids g' = sc_ids g" "sc_table g' = sc_table g"
    using Fib_Write_steps [OF assms(3), of E] by blast
  have ok1: "ht_ok E t1" "addrs E t1 = addrs E t" using ht_ok_core [OF t1(3)] t1(4) assms(2) by auto
  have nm: "entry_name (t_mem t1 x) = entry_name (t_mem t x)" "wf_entry (t_mem t1 x) = wf_entry (t_mem t x)" for x
    using t1(4) core_fields(7) wf_entry_core by blast+
  have nodes: "lfht_nodes E (lfht t) = node_of E (t_mem t1) ` addrs E t" using ok1 t1(3) by (simp add: ht_ok_def)
  have "look E t1 ?v = cds_lfht_lookup E (sip E ?v) (Fib_LookupMatch (t_mem t1) ?v) (lfht t)"
    by (simp add: look_def Fib_Get_def t1(3))
  then have "lfht_nodes E (lfht ?t') = insert (sip E ?v, a)
      (case look E t1 ?v of None \<Rightarrow> lfht_nodes E (lfht t) | Some b \<Rightarrow> lfht_nodes E (lfht t) - {(sip E ?v, b)})"
    using assms(1,4) unfolding lfht_laws_def addrs_def by simp
  also have "\<dots> = node_of E (t_mem t1) ` insert a {b \<in> addrs E t. entry_name (t_mem t b) \<noteq> ?v}"
  proof (cases "look E t1 ?v")
    case None
    then have "{b \<in> addrs E t. entry_name (t_mem t b) \<noteq> ?v} = addrs E t"
      using look_None [OF assms(1) ok1(1) assms(5)] by (auto simp: nm ok1)
    then show ?thesis using None by (simp add: nodes node_of_def nm)
  next
    case (Some b)
    then have b: "b \<in> addrs E t" "entry_name (t_mem t b) = ?v"
      using look_Some [OF assms(1) ok1(1) assms(5)] by (auto simp: nm ok1)
    then have "{b \<in> addrs E t. entry_name (t_mem t b) \<noteq> ?v} = addrs E t - {b}"
      using assms(2) by (auto simp: ht_ok_def inj_on_def)
    moreover have "node_of E (t_mem t1) ` (addrs E t - {b}) = node_of E (t_mem t1) ` addrs E t - {(sip E ?v, b)}"
      using b by (auto simp: node_of_def nm)
    ultimately show ?thesis using Some by (simp add: nodes node_of_def nm)
  qed
  finally have n': "lfht_nodes E (lfht ?t') = node_of E (t_mem t1) ` insert a {b \<in> addrs E t. entry_name (t_mem t b) \<noteq> ?v}" .
  have a': "addrs E ?t' = insert a {b \<in> addrs E t. entry_name (t_mem t b) \<noteq> ?v}"
    unfolding addrs_def [of E ?t'] n' by (simp add: image_image node_of_def)
  have "ht_ok E ?t'"
    unfolding ht_ok_def a' n' using assms(2,3) by (auto simp: ht_ok_def inj_on_def nm writable_def)
  then show ?thesis using t1 a' by (auto simp: same_table_def)
qed

lemma Fib_Erase_spec:
  assumes "lfht_laws E" "ht_ok E t" "a \<in> addrs E t"
  shows "\<exists>t'. Fib_Erase E (Some a) t = Ok t' \<and> same_table t t' \<and> t_mem t' = t_mem t \<and> ht_ok E t'
    \<and> addrs E t' = addrs E t - {a}"
proof -
  obtain ht where h: "cds_lfht_del E a (lfht t) = Some ht" "lfht_nodes E ht = {x \<in> lfht_nodes E (lfht t). snd x \<noteq> a}"
    using assms(1,3) unfolding lfht_laws_def addrs_def by blast
  have a: "addrs E (t\<lparr>lfht := ht\<rparr>) = addrs E t - {a}" by (auto simp: addrs_def h(2))
  have "lfht_nodes E ht = node_of E (t_mem t) ` (addrs E t - {a})"
    unfolding h(2) using assms(2) by (auto simp: ht_ok_def node_of_def)
  then have "ht_ok E (t\<lparr>lfht := ht\<rparr>)" using assms(2) by (auto simp: ht_ok_def a inj_on_def)
  then show ?thesis using h(1) a by (simp add: Fib_Erase_def same_table_def)
qed

subsection \<open>Ownership of objects\<close>

text \<open>
  An object is linked, directly or from a virtual entry; or waits to be freed; or is in the pool; or is in flight:
  allocated and not yet linked. \<open>own_ok\<close> says that these are disjoint and that an object is in no two places.
\<close>

definition links :: "(nat \<Rightarrow> FibEntry) \<Rightarrow> nat \<Rightarrow> nat set" where
  "links mem a = (if f_height (mem a) = 0 then {} else case f_ptr (mem a) of PReal r \<Rightarrow> {r} | _ \<Rightarrow> {})"

definition owned :: "('h, 'p) fib_env \<Rightarrow> ('h, 'p) Table \<Rightarrow> nat set" where
  "owned E t = addrs E t \<union> (\<Union>a \<in> addrs E t. links (t_mem t) a)"

definition pooled :: "('h, 'p) fib_env \<Rightarrow> ('h, 'p) Table \<Rightarrow> nat list \<Rightarrow> nat list" where
  "pooled E t xs = concat (t_free t) @ mempool_avail E (mp t) @ xs"

definition link_ok :: "(nat \<Rightarrow> FibEntry) \<Rightarrow> nat \<Rightarrow> nat \<Rightarrow> bool" where
  "link_ok mem a r \<longleftrightarrow> f_height (mem r) = 0 \<and> wf_entry (mem r) \<and> entry_name (mem r) = entry_name (mem a)"

definition own_ok :: "('h, 'p) fib_env \<Rightarrow> ('h, 'p) Table \<Rightarrow> nat list \<Rightarrow> bool" where
  "own_ok E t xs \<longleftrightarrow> distinct (pooled E t xs) \<and> owned E t \<inter> set (pooled E t xs) = {}
     \<and> (\<forall>a \<in> addrs E t. \<forall>r \<in> links (t_mem t) a. r \<notin> addrs E t \<and> link_ok (t_mem t) a r)"

lemma links_core: "core (mem a) = core (mem' a) \<Longrightarrow> links mem a = links mem' a"
  using core_fields(3,5) [of "mem a" "mem' a"] by (simp add: links_def)

lemma link_ok_core: "core (mem a) = core (mem' a) \<Longrightarrow> core (mem r) = core (mem' r) \<Longrightarrow> link_ok mem a r = link_ok mem' a r"
  using core_fields(5,7) wf_entry_core unfolding link_ok_def by metis

definition owned_at :: "('h, 'p) fib_env \<Rightarrow> ('h, 'p) Table \<Rightarrow> bytes \<Rightarrow> nat set" where
  "owned_at E t v = {x \<in> owned E t. entry_name (t_mem t x) = v}"

lemma owned_links: "own_ok E t xs \<Longrightarrow> a \<in> addrs E t \<Longrightarrow> r \<in> links (t_mem t) a \<Longrightarrow>
    r \<in> owned E t \<and> r \<notin> addrs E t \<and> entry_name (t_mem t r) = entry_name (t_mem t a)"
  by (auto simp: own_ok_def owned_def link_ok_def)

lemma disjoint_step:
  assumes "X \<inter> (F \<union> V) = {}" "O' \<inter> (F \<union> V \<union> X) = {}" "K \<subseteq> O'" "K \<inter> R = {}" "R \<subseteq> O'"
    and "N \<subseteq> X \<union> K" "fs \<subseteq> K - N" "ys \<subseteq> X - N"
  shows "(N \<union> R) \<inter> (F \<union> fs \<union> V \<union> ys) = {}"
proof -
  have "N \<inter> F = {}" "N \<inter> fs = {}" "N \<inter> V = {}" "N \<inter> ys = {}" using assms by blast+
  moreover have "R \<inter> F = {}" "R \<inter> fs = {}" "R \<inter> V = {}" "R \<inter> ys = {}" using assms by blast+
  ultimately show ?thesis by blast
qed

text \<open>A step that changes what is linked under one name.\<close>

lemma own_step:
  assumes own: "own_ok E t xs" and mem: "\<And>x. x \<notin> set xs \<Longrightarrow> core (t_mem t' x) = core (t_mem t x)"
    and addrs: "addrs E t' = A \<union> {b \<in> addrs E t. entry_name (t_mem t b) \<noteq> v}"
    and A: "A \<union> (\<Union>a \<in> A. links (t_mem t') a) \<subseteq> set xs \<union> owned_at E t v"
    and L: "\<And>a r. a \<in> A \<Longrightarrow> r \<in> links (t_mem t') a \<Longrightarrow> r \<notin> A \<and> link_ok (t_mem t') a r \<and> (r \<in> addrs E t \<longrightarrow> entry_name (t_mem t r) = v)"
    and mp: "mp t' = mp t" and free: "concat (t_free t') = concat (t_free t) @ fs" "distinct fs"
    and fs: "set fs \<subseteq> owned_at E t v - (A \<union> (\<Union>a \<in> A. links (t_mem t') a))"
    and ys: "distinct ys" "set ys \<subseteq> set xs - (A \<union> (\<Union>a \<in> A. links (t_mem t') a))"
  shows "own_ok E t' ys"
proof -
  let ?new = "A \<union> (\<Union>a \<in> A. links (t_mem t') a)"
  let ?old = "{x \<in> owned E t. entry_name (t_mem t x) \<noteq> v}"
  have dis: "distinct (pooled E t xs)" "owned E t \<inter> set (pooled E t xs) = {}" using own by (simp_all add: own_ok_def)
  have lk: "links (t_mem t') b = links (t_mem t) b" if "b \<in> addrs E t" for b
    using that dis(2) by (intro links_core mem) (auto simp: pooled_def owned_def)
  have own': "owned E t' \<subseteq> ?new \<union> ?old"
  proof
    fix x
    assume "x \<in> owned E t'"
    then consider "x \<in> ?new" | b where "b \<in> addrs E t" "entry_name (t_mem t b) \<noteq> v" "x = b \<or> x \<in> links (t_mem t) b"
      unfolding owned_def addrs using lk by auto
    then show "x \<in> ?new \<union> ?old" using owned_links [OF own] by cases (auto simp: owned_def)
  qed
  have "distinct (pooled E t' ys)"
    using dis free(2) ys fs unfolding pooled_def free(1) mp owned_at_def by auto
  moreover have "(?new \<union> ?old) \<inter> set (pooled E t' ys) = {}"
  proof -
    have x: "set xs \<inter> (set (concat (t_free t)) \<union> set (mempool_avail E (mp t))) = {}" using dis(1) by (auto simp: pooled_def)
    have o: "owned E t \<inter> (set (concat (t_free t)) \<union> set (mempool_avail E (mp t)) \<union> set xs) = {}"
      using dis(2) by (simp add: pooled_def Un_assoc)
    have p: "set (pooled E t' ys) = set (concat (t_free t)) \<union> set fs \<union> set (mempool_avail E (mp t)) \<union> set ys"
      by (auto simp: pooled_def free(1) mp)
    have k: "owned_at E t v \<subseteq> owned E t" "owned_at E t v \<inter> ?old = {}" "?old \<subseteq> owned E t" by (auto simp: owned_at_def)
    show ?thesis unfolding p by (rule disjoint_step [OF x o k A fs ys(2)])
  qed
  moreover have "r \<notin> addrs E t' \<and> link_ok (t_mem t') a r" if a: "a \<in> addrs E t'" "r \<in> links (t_mem t') a" for a r
  proof (cases "a \<in> A")
    case True
    then show ?thesis using L [OF True a(2)] unfolding addrs by auto
  next
    case False
    then have b: "a \<in> addrs E t" "entry_name (t_mem t a) \<noteq> v" using a(1) unfolding addrs by auto
    then have r: "r \<in> links (t_mem t) a" using lk a(2) by simp
    note o = owned_links [OF own b(1) r]
    have "r \<notin> A" using A o b(2) dis(2) by (auto simp: owned_at_def pooled_def)
    moreover have "link_ok (t_mem t) a r" using own b(1) r by (simp add: own_ok_def)
    moreover have x: "a \<notin> set xs" "r \<notin> set xs" using o b(1) dis(2) by (auto simp: pooled_def owned_def)
    ultimately show ?thesis using link_ok_core [of "t_mem t'", OF mem [OF x(1)] mem [OF x(2)]] o unfolding addrs by auto
  qed
  ultimately show ?thesis using own' by (auto simp: own_ok_def)
qed

subsection \<open>Changing the entry under one name\<close>

definition tbl_ok :: "('h, 'p) fib_env \<Rightarrow> ('h, 'p) Table \<Rightarrow> nat list \<Rightarrow> bool" where
  "tbl_ok E t xs \<longleftrightarrow> ht_ok E t \<and> own_ok E t xs"

text \<open>What a step under the name \<open>v\<close> with the objects \<open>xs\<close> in flight leaves unchanged.\<close>

definition frame :: "('h, 'p) fib_env \<Rightarrow> bytes \<Rightarrow> nat list \<Rightarrow> Strategies \<times> ('h, 'p) Table \<Rightarrow> Strategies \<times> ('h, 'p) Table \<Rightarrow> bool" where
  "frame E v xs = (\<lambda>(g, t) (g', t').
     t_startDepth t' = t_startDepth t \<and> nDyns t' = nDyns t \<and> sc_ids g' = sc_ids g \<and> sc_table g' = sc_table g
   \<and> (\<forall>x. x \<notin> set xs \<longrightarrow> core (t_mem t' x) = core (t_mem t x))
   \<and> (\<forall>w. w \<noteq> v \<and> length w < 65536 \<longrightarrow> look E t' w = look E t w))"

lemma addrs_not_pooled: "own_ok E t xs \<Longrightarrow> a \<in> addrs E t \<Longrightarrow> a \<notin> set xs"
  by (auto simp: own_ok_def owned_def pooled_def)

lemma look_step:
  assumes "lfht_laws E" "ht_ok E t" "ht_ok E t'" "own_ok E t xs"
    and "\<And>x. x \<notin> set xs \<Longrightarrow> core (t_mem t' x) = core (t_mem t x)"
    and "addrs E t' = A \<union> {b \<in> addrs E t. entry_name (t_mem t b) \<noteq> v}" "\<And>a. a \<in> A \<Longrightarrow> entry_name (t_mem t' a) = v"
    and "w \<noteq> v" "length w < 65536"
  shows "look E t' w = look E t w"
proof -
  have "look E t' w = Some b \<longleftrightarrow> look E t w = Some b" for b
    unfolding look_Some [OF assms(1,3,9)] look_Some [OF assms(1,2,9)] assms(6)
    using addrs_not_pooled [OF assms(4), of b] core_fields(7) [OF assms(5), of b] assms(7) [of b] assms(8) by auto
  then show ?thesis by (metis not_None_eq)
qed

lemma deferredFree_simps [simp]:
  "lfht (deferredFree es t) = lfht t" "mp (deferredFree es t) = mp t" "t_mem (deferredFree es t) = t_mem t"
  "t_startDepth (deferredFree es t) = t_startDepth t" "nDyns (deferredFree es t) = nDyns t"
  "concat (t_free (deferredFree es t)) = concat (t_free t) @ concat (map (\<lambda>e. case e of None \<Rightarrow> [] | Some a \<Rightarrow> [a]) es)"
  by (simp_all add: deferredFree_def Let_def)

lemma addrs_cong: "lfht t' = lfht t \<Longrightarrow> addrs E t' = addrs E t"
  by (simp add: addrs_def)

abbreviation objs :: "nat option list \<Rightarrow> nat list" where
  "objs es \<equiv> concat (map (\<lambda>e. case e of None \<Rightarrow> [] | Some a \<Rightarrow> [a]) es)"

lemma tbl_step:
  assumes "lfht_laws E" "tbl_ok E t xs" "ht_ok E t1" "same_table t t1"
    and mem: "\<And>x. x \<notin> set xs \<Longrightarrow> core (t_mem t1 x) = core (t_mem t x)"
    and addrs: "addrs E t1 = A \<union> {b \<in> addrs E t. entry_name (t_mem t b) \<noteq> v}"
    and A: "A \<union> (\<Union>a \<in> A. links (t_mem t1) a) \<subseteq> set xs \<union> owned_at E t v" "\<And>a. a \<in> A \<Longrightarrow> entry_name (t_mem t1 a) = v"
    and L: "\<And>a r. a \<in> A \<Longrightarrow> r \<in> links (t_mem t1) a \<Longrightarrow> r \<notin> A \<and> link_ok (t_mem t1) a r \<and> (r \<in> addrs E t \<longrightarrow> entry_name (t_mem t r) = v)"
    and fs: "distinct (objs es)" "set (objs es) \<subseteq> owned_at E t v - (A \<union> (\<Union>a \<in> A. links (t_mem t1) a))"
    and ys: "distinct ys" "set ys \<subseteq> set xs - (A \<union> (\<Union>a \<in> A. links (t_mem t1) a))"
    and g: "sc_ids g' = sc_ids g" "sc_table g' = sc_table g"
  shows "tbl_ok E (deferredFree es t1) ys \<and> frame E v xs (g, t) (g', deferredFree es t1)"
proof -
  let ?t = "deferredFree es t1"
  have ok: "ht_ok E t" "own_ok E t xs" using assms(2) by (simp_all add: tbl_ok_def)
  have a: "addrs E ?t = addrs E t1" by (rule addrs_cong) simp
  have h: "ht_ok E ?t" using ht_ok_core(2) [of ?t t1 E] assms(3) by simp
  have m: "core (t_mem ?t x) = core (t_mem t x)" if "x \<notin> set xs" for x using mem that by simp
  have "own_ok E ?t ys"
    by (rule own_step [OF ok(2) m, where A = A and v = v and fs = "objs es"])
      (use addrs A L fs ys a assms(4) in \<open>simp_all add: same_table_def\<close>)
  moreover have "look E ?t w = look E t w" if "w \<noteq> v" "length w < 65536" for w
    by (rule look_step [OF assms(1) ok(1) h ok(2) m, where A = A and v = v]) (use addrs a A(2) that in simp_all)
  ultimately show ?thesis using h m g assms(4) by (simp add: tbl_ok_def frame_def same_table_def)
qed

lemma put_slot:
  assumes laws: "lfht_laws E" and tbl: "tbl_ok E t xs" and m: "\<And>x. x \<notin> set xs \<Longrightarrow> m x = t_mem t x"
    and v: "entry_name (m a) = v" "length v < 65536" and w: "writable g m a" and a: "a \<notin> addrs E t"
    and N: "insert a (links m a) \<subseteq> set xs \<union> owned_at E t v"
    and L: "\<And>r. r \<in> links m a \<Longrightarrow> r \<noteq> a \<and> link_ok m a r \<and> (r \<in> addrs E t \<longrightarrow> entry_name (t_mem t r) = v)"
    and fs: "distinct (objs es)" "set (objs es) \<subseteq> owned_at E t v - insert a (links m a)"
    and ys: "distinct ys" "set ys \<subseteq> set xs - insert a (links m a)"
  shows "\<exists>g' t'. andthen (Fib_Write E a (g, t\<lparr>t_mem := m\<rparr>)) (\<lambda>(g, t). Ok (g, deferredFree es t)) = Ok (g', t')
    \<and> tbl_ok E t' ys \<and> frame E v xs (g, t) (g', t') \<and> look E t' v = Some a \<and> (\<forall>x. core (t_mem t' x) = core (m x))"
proof -
  let ?t0 = "t\<lparr>t_mem := m\<rparr>"
  have ok: "ht_ok E t" "own_ok E t xs" using tbl by (simp_all add: tbl_ok_def)
  have same: "m x = t_mem t x" if "x \<in> addrs E t" for x using m addrs_not_pooled [OF ok(2) that] by simp
  have h0: "ht_ok E ?t0" "addrs E ?t0 = addrs E t" using ht_ok_core [of ?t0 t E] ok(1) same by auto
  obtain g' t1 where t1: "Fib_Write E a (g, ?t0) = Ok (g', t1)" "same_table ?t0 t1" "\<forall>x. core (t_mem t1 x) = core (m x)"
    "sc_ids g' = sc_ids g" "sc_table g' = sc_table g" "ht_ok E t1"
    "addrs E t1 = insert a {b \<in> addrs E t. entry_name (m b) \<noteq> v}"
    using Fib_Write_spec [OF laws h0(1), of g a] w a v h0(2) by auto
  have c: "links (t_mem t1) x = links m x" "link_ok (t_mem t1) x y = link_ok m x y" "entry_name (t_mem t1 x) = entry_name (m x)" for x y
    using t1(3) links_core link_ok_core core_fields(7) by blast+
  have "{b \<in> addrs E t. entry_name (m b) \<noteq> v} = {b \<in> addrs E t. entry_name (t_mem t b) \<noteq> v}" using same by auto
  then have ad: "addrs E t1 = {a} \<union> {b \<in> addrs E t. entry_name (t_mem t b) \<noteq> v}" using t1(7) by simp
  have "tbl_ok E (deferredFree es t1) ys \<and> frame E v xs (g, t) (g', deferredFree es t1)"
    by (rule tbl_step [OF laws tbl t1(6) _ _ ad _ _ _ fs(1) _ ys(1)])
      (use t1 m N L fs ys v in \<open>simp_all add: c same_table_def\<close>)
  moreover have "look E (deferredFree es t1) v = Some a"
  proof -
    have "ht_ok E (deferredFree es t1)" using calculation by (simp add: tbl_ok_def)
    then show ?thesis using look_Some [OF laws _ v(2)] addrs_cong [of "deferredFree es t1" t1 E] ad c(3) v(1) by simp
  qed
  ultimately show ?thesis using t1(1,3) by (intro exI [of _ g'] exI [of _ "deferredFree es t1"]) simp
qed

lemma del_slot:
  assumes laws: "lfht_laws E" and tbl: "tbl_ok E t xs" and a: "look E t v = Some a" "length v < 65536"
    and fs: "distinct (objs es)" "set (objs es) \<subseteq> owned_at E t v" and ys: "distinct ys" "set ys \<subseteq> set xs"
  shows "\<exists>t'. andthen (andthen (Fib_Erase E (Some a) t) (\<lambda>t. Ok (g, t))) (\<lambda>(g, t). Ok (g, deferredFree es t)) = Ok (g, t')
    \<and> tbl_ok E t' ys \<and> frame E v xs (g, t) (g, t') \<and> look E t' v = None \<and> t_mem t' = t_mem t"
proof -
  have ok: "ht_ok E t" "own_ok E t xs" using tbl by (simp_all add: tbl_ok_def)
  have al: "a \<in> addrs E t" "entry_name (t_mem t a) = v" using look_Some [OF laws ok(1) a(2)] a(1) by auto
  obtain t1 where t1: "Fib_Erase E (Some a) t = Ok t1" "same_table t t1" "t_mem t1 = t_mem t" "ht_ok E t1" "addrs E t1 = addrs E t - {a}"
    using Fib_Erase_spec [OF laws ok(1) al(1)] by blast
  have ad: "addrs E t1 = {} \<union> {b \<in> addrs E t. entry_name (t_mem t b) \<noteq> v}"
    using t1(5) al ok(1) by (auto simp: ht_ok_def inj_on_def)
  have s: "tbl_ok E (deferredFree es t1) ys \<and> frame E v xs (g, t) (g, deferredFree es t1)"
    by (rule tbl_step [OF laws tbl t1(4,2) _ ad _ _ _ fs(1) _ ys(1)]) (use t1 fs ys in simp_all)
  then have "look E (deferredFree es t1) v = None"
    using look_None [OF laws _ a(2)] addrs_cong [of "deferredFree es t1" t1 E] ad t1(3) by (simp add: tbl_ok_def)
  then show ?thesis using t1(1,3) s by (intro exI [of _ "deferredFree es t1"]) simp
qed

subsection \<open>Slots\<close>

definition real_ok :: "Strategies \<Rightarrow> EntryBody \<Rightarrow> Name \<Rightarrow> FibEntry \<Rightarrow> bool" where
  "real_ok g b name e \<longleftrightarrow> f_height e = 0 \<and> wf_entry e \<and> entry_name e = name_value name
     \<and> unat (nNexthops e) = length (Nexthops b) \<and> nNexthops e > 0 \<and> take (length (Nexthops b)) (f_nexthops e) = Nexthops b
     \<and> (\<exists>p. f_ptr e = PStrategy p \<and> sc_ids g p = Some (Strategy b))"

definition virt_ok :: "int \<Rightarrow> Name \<Rightarrow> FibEntry \<Rightarrow> bool" where
  "virt_ok h name e \<longleftrightarrow> uint (f_height e) = h \<and> nNexthops e = 0 \<and> wf_entry e \<and> entry_name e = name_value name"

text \<open>
  What the replica holds under a name whose tree node has the entry \<open>eo\<close>; \<open>h\<close> is the height of the node when
  it stands at the start depth, and zero otherwise.
\<close>

definition slot_ok :: "Strategies \<Rightarrow> (nat \<Rightarrow> FibEntry) \<Rightarrow> nat option \<Rightarrow> Name \<Rightarrow> EntryBody option \<Rightarrow> int \<Rightarrow> bool" where
  "slot_ok g mem lk name eo h \<longleftrightarrow>
     (case lk of
        None \<Rightarrow> eo = None \<and> h = 0
      | Some a \<Rightarrow>
          if h = 0 then (\<exists>b. eo = Some b \<and> real_ok g b name (mem a))
          else virt_ok h name (mem a)
            \<and> (case f_ptr (mem a) of
                 PNull \<Rightarrow> eo = None
               | PReal r \<Rightarrow> (\<exists>b. eo = Some b \<and> real_ok g b name (mem r))
               | PStrategy p \<Rightarrow> False))"

lemma real_ok_core: "core e = core e' \<Longrightarrow> sc_ids g = sc_ids g' \<Longrightarrow> real_ok g b name e = real_ok g' b name e'"
  using core_fields [of e e'] wf_entry_core [of e e'] by (simp add: real_ok_def)

lemma virt_ok_core: "core e = core e' \<Longrightarrow> virt_ok h name e = virt_ok h name e'"
  using core_fields [of e e'] wf_entry_core [of e e'] by (simp add: virt_ok_def)

lemma slot_ok_core:
  assumes "sc_ids g = sc_ids g'" "\<And>a. lk = Some a \<Longrightarrow> core (mem a) = core (mem' a)"
    and "\<And>a r. lk = Some a \<Longrightarrow> f_height (mem a) \<noteq> 0 \<Longrightarrow> f_ptr (mem a) = PReal r \<Longrightarrow> core (mem r) = core (mem' r)"
  shows "slot_ok g mem lk name eo h \<Longrightarrow> slot_ok g' mem' lk name eo h"
proof (cases lk)
  case (Some a)
  assume s: "slot_ok g mem lk name eo h"
  note c = assms(2) [OF Some]
  show ?thesis
  proof (cases "h = 0")
    case True
    then show ?thesis using s Some real_ok_core [OF c assms(1)] by (simp add: slot_ok_def)
  next
    case False
    then have v: "virt_ok h name (mem a)" using s Some by (simp add: slot_ok_def)
    then have "f_height (mem a) \<noteq> 0" using False by (auto simp: virt_ok_def)
    then have "core (mem r) = core (mem' r)" if "f_ptr (mem a) = PReal r" for r using assms(3) [OF Some _ that] by simp
    then show ?thesis using s Some False virt_ok_core [OF c] core_fields(3) [OF c] real_ok_core [OF _ assms(1)]
      by (auto simp: slot_ok_def split: FibPtr.splits)
  qed
qed (simp add: slot_ok_def)

definition name_fits :: "Name \<Rightarrow> bool" where
  "name_fits name \<longleftrightarrow> list_all comp_ok name \<and> Name_Length name \<le> MaxNameLength"

lemma copy_name_ok:
  assumes "name_fits name" "length (nameV e) = MaxNameLength"
  shows "entry_name (copy_name name e) = name_value name" "length (nameV (copy_name name e)) = MaxNameLength"
    "unat (nameL (copy_name name e)) \<le> MaxNameLength" "f_height (copy_name name e) = f_height e" "nNexthops (copy_name name e) = nNexthops e"
    "f_nexthops (copy_name name e) = f_nexthops e"
proof -
  have m: "Name_MarshalBinary name = Ok (name_value name)" using Name_MarshalBinary_ok assms(1) by (simp add: name_fits_def)
  have l: "length (name_value name) \<le> 494" using assms(1) by (simp add: name_fits_def length_name_value MaxNameLength_def)
  have u: "unat (of_nat (length (name_value name)) :: u16) = length (name_value name)"
    using l by (simp add: unsigned_of_nat take_bit_nat_eq_self)
  show "entry_name (copy_name name e) = name_value name" "length (nameV (copy_name name e)) = MaxNameLength"
    "unat (nameL (copy_name name e)) \<le> MaxNameLength"
    using l u assms(2) by (simp_all add: copy_name_def Let_def m entry_name_def MaxNameLength_def min_absorb2)
qed (simp_all add: copy_name_def Let_def)

definition entry_fits :: "Strategies \<Rightarrow> EntryBody \<Rightarrow> bool" where
  "entry_fits g b \<longleftrightarrow> 1 \<le> length (Nexthops b) \<and> length (Nexthops b) \<le> MaxNexthops
     \<and> (\<exists>p. Strategy_Get (Strategy b) g = Some p \<and> sc_ids g p = Some (Strategy b))"

lemma zero_fields:
  assumes "core e = core (zero_FibEntry n)"
  shows "length (nameV e) = MaxNameLength" "length (f_nexthops e) = MaxNexthops" "nNexthops e = 0" "f_height e = 0"
  using core_fields [OF assms] by (simp_all add: zero_FibEntry_def)

lemma assignReal_ok:
  assumes "name_fits (r_Name r)" "entry_fits g (r_body r)" "core e = core (zero_FibEntry n)"
  shows "\<exists>e'. assignReal g r e = Ok e' \<and> real_ok g (r_body r) (r_Name r) e'"
proof -
  let ?b = "r_body r" and ?e = "copy_name (r_Name r) (e\<lparr>f_height := 0\<rparr>)"
  note z = zero_fields [OF assms(3)]
  obtain p where p: "Strategy_Get (Strategy ?b) g = Some p" "sc_ids g p = Some (Strategy ?b)" and
    l: "1 \<le> length (Nexthops ?b)" "length (Nexthops ?b) \<le> 8" using assms(2) by (auto simp: entry_fits_def MaxNexthops_def)
  note c = copy_name_ok [OF assms(1), of "e\<lparr>f_height := 0\<rparr>", simplified, OF z(1)]
  have u: "unat (of_nat (length (Nexthops ?b)) :: u8) = length (Nexthops ?b)"
    using l(2) by (simp add: unsigned_of_nat take_bit_nat_eq_self)
  then have "(of_nat (length (Nexthops ?b)) :: u8) > 0" using l(1) by (simp add: word_gt_0) (metis One_nat_def not_one_le_zero unsigned_0)
  then show ?thesis using p l u c z(2)
    by (simp add: assignReal_def Let_def real_ok_def wf_entry_def entry_name_def MaxNexthops_def)
qed

lemma assignVirt_ok:
  assumes "name_fits (v_Name v)" "0 < v_Height v" "v_Height v \<le> 255" "core e = core (zero_FibEntry n)"
  shows "virt_ok (v_Height v) (v_Name v) (assignVirt v real e)"
    "f_ptr (assignVirt v real e) = (case real of None \<Rightarrow> PNull | Some r \<Rightarrow> PReal r)"
proof -
  note z = zero_fields [OF assms(4)]
  note c = copy_name_ok [OF assms(1), of "e\<lparr>f_height := of_int (v_Height v)\<rparr>", simplified, OF z(1)]
  have "uint (of_int (v_Height v) :: u8) = v_Height v" using assms(2,3) by (simp add: uint_word_of_int_eq take_bit_int_eq_self)
  then show "virt_ok (v_Height v) (v_Name v) (assignVirt v real e)"
    using c z(2,3) by (simp add: virt_ok_def assignVirt_def wf_entry_def entry_name_def)
qed (simp add: assignVirt_def)

lemma Get_look:
  assumes "list_all comp_ok name" "Name_Length name < 65536"
  shows "Get E t name = Ok (look E t (name_value name))"
  using NewPName_ok [OF assms] by (auto simp: Get_def look_def PName_of_def)

lemma name_fits_Get: "name_fits name \<Longrightarrow> Get E t name = Ok (look E t (name_value name))"
  by (rule Get_look) (simp_all add: name_fits_def MaxNameLength_def)

lemma name_fits_length: "name_fits name \<Longrightarrow> length (name_value name) < 65536"
  by (simp add: name_fits_def MaxNameLength_def length_name_value)

text \<open>The objects under a name that holds a real or a virtual entry.\<close>

lemma slot_real:
  assumes "lfht_laws E" "tbl_ok E t xs" "slot_ok g (t_mem t) (look E t (name_value name)) name (Some b) 0" "name_fits name"
  obtains a where "look E t (name_value name) = Some a" "real_ok g b name (t_mem t a)" "a \<in> owned_at E t (name_value name)"
    "a \<in> addrs E t" "a \<notin> set xs"
proof -
  obtain a where a: "look E t (name_value name) = Some a" "real_ok g b name (t_mem t a)"
    using assms(3) by (auto simp: slot_ok_def split: option.splits)
  then have "a \<in> addrs E t" using look_Some [of E t "name_value name"] assms name_fits_length by (auto simp: tbl_ok_def)
  then show ?thesis using that a assms(2) addrs_not_pooled by (auto simp: owned_at_def owned_def real_ok_def tbl_ok_def)
qed

lemma slot_virt:
  assumes "lfht_laws E" "tbl_ok E t xs" "slot_ok g (t_mem t) (look E t (name_value name)) name eo h" "name_fits name" "h > 0"
  obtains a where "look E t (name_value name) = Some a" "virt_ok h name (t_mem t a)" "a \<in> owned_at E t (name_value name)"
    "a \<in> addrs E t" "a \<notin> set xs" "eo = None \<Longrightarrow> FibEntry_GetReal (t_mem t) (Some a) = None"
    "\<And>b. eo = Some b \<Longrightarrow> \<exists>r. FibEntry_GetReal (t_mem t) (Some a) = Some r \<and> real_ok g b name (t_mem t r)
       \<and> r \<in> owned_at E t (name_value name) \<and> r \<notin> addrs E t \<and> r \<noteq> a \<and> r \<notin> set xs"
proof -
  obtain a where a: "look E t (name_value name) = Some a" "virt_ok h name (t_mem t a)"
    "case f_ptr (t_mem t a) of PNull \<Rightarrow> eo = None | PReal r \<Rightarrow> (\<exists>b. eo = Some b \<and> real_ok g b name (t_mem t r)) | PStrategy p \<Rightarrow> False"
    using assms(3,5) by (auto simp: slot_ok_def split: option.splits)
  then have ad: "a \<in> addrs E t" using look_Some [of E t "name_value name"] assms(1,2,4) name_fits_length by (auto simp: tbl_ok_def)
  have own: "own_ok E t xs" using assms(2) by (simp add: tbl_ok_def)
  have nz: "f_height (t_mem t a) \<noteq> 0" using a(2) assms(5) by (auto simp: virt_ok_def)
  have nm: "entry_name (t_mem t a) = name_value name" using a(2) by (simp add: virt_ok_def)
  have "\<exists>r. FibEntry_GetReal (t_mem t) (Some a) = Some r \<and> real_ok g b name (t_mem t r)
       \<and> r \<in> owned_at E t (name_value name) \<and> r \<notin> addrs E t \<and> r \<noteq> a \<and> r \<notin> set xs" if b: "eo = Some b" for b
  proof -
    obtain r where r: "f_ptr (t_mem t a) = PReal r" "real_ok g b name (t_mem t r)"
      using a(3) b by (auto split: FibPtr.splits)
    then have l: "r \<in> links (t_mem t) a" using nz by (simp add: links_def)
    note o = owned_links [OF own ad l]
    have "r \<notin> set xs" using o own by (auto simp: own_ok_def pooled_def)
    then show ?thesis using r o nz nm ad by (auto simp: FibEntry_GetReal_def owned_at_def)
  qed
  moreover have "FibEntry_GetReal (t_mem t) (Some a) = None" if "eo = None"
    using a(3) nz that by (auto simp: FibEntry_GetReal_def split: FibPtr.splits)
  moreover have "a \<in> owned_at E t (name_value name)" using ad nm by (simp add: owned_at_def owned_def)
  ultimately show ?thesis using that [OF a(1,2) _ ad addrs_not_pooled [OF own ad]] by blast
qed

lemma real_writable:
  "real_ok g b name (mem a) \<Longrightarrow> writable g mem a \<and> links mem a = {} \<and> entry_name (mem a) = name_value name"
  by (auto simp: real_ok_def writable_def FibEntry_GetReal_def links_def)

lemma virt_writable:
  assumes "virt_ok h name (mem a)" "h > 0" "f_ptr (mem a) = (case real of None \<Rightarrow> PNull | Some r \<Rightarrow> PReal r)"
    and "\<And>r. real = Some r \<Longrightarrow> \<exists>b. real_ok g b name (mem r)"
  shows "writable g mem a" "links mem a = set_option real" "entry_name (mem a) = name_value name"
    "r \<in> links mem a \<Longrightarrow> link_ok mem a r"
proof -
  have nz: "f_height (mem a) \<noteq> 0" using assms(1,2) by (auto simp: virt_ok_def)
  then show l: "links mem a = set_option real" using assms(3) by (cases real) (simp_all add: links_def)
  have "FibEntry_GetReal mem (Some a) = real" using nz assms(3) by (cases real) (simp_all add: FibEntry_GetReal_def)
  then show "writable g mem a" using assms(1,4) by (cases real) (auto simp: writable_def virt_ok_def real_ok_def)
  show "entry_name (mem a) = name_value name" using assms(1) by (simp add: virt_ok_def)
  then show "r \<in> links mem a \<Longrightarrow> link_ok mem a r" using assms(4) l by (auto simp: link_ok_def real_ok_def)
qed

subsection \<open>Executing an update\<close>

definition fresh :: "('h, 'p) Table \<Rightarrow> nat list \<Rightarrow> bool" where
  "fresh t xs \<longleftrightarrow> (\<forall>x \<in> set xs. core (t_mem t x) = core (zero_FibEntry (nDyns t)))"

text \<open>The result of executing a command under one name, which then holds \<open>eo\<close> and \<open>h\<close>.\<close>

definition done_at ::
    "('h, 'p) fib_env \<Rightarrow> Name \<Rightarrow> nat list \<Rightarrow> nat list \<Rightarrow> EntryBody option \<Rightarrow> int \<Rightarrow> Strategies \<times> ('h, 'p) Table \<Rightarrow>
     (Strategies \<times> ('h, 'p) Table) outcome \<Rightarrow> bool" where
  "done_at E name xs ys eo h s r \<longleftrightarrow> (\<exists>g' t'. r = Ok (g', t') \<and> tbl_ok E t' ys \<and> frame E (name_value name) xs s (g', t')
     \<and> slot_ok g' (t_mem t') (look E t' (name_value name)) name eo h)"

lemma own_disjoint: "tbl_ok E t xs \<Longrightarrow> distinct xs \<and> owned_at E t v \<inter> set xs = {} \<and> addrs E t \<inter> set xs = {}"
  by (auto simp: tbl_ok_def own_ok_def pooled_def owned_at_def owned_def)

lemma done_put:
  assumes laws: "lfht_laws E" and tbl: "tbl_ok E t (xs @ ys)" and fits: "name_fits name"
    and m: "\<And>x. x \<notin> set xs \<Longrightarrow> m x = t_mem t x" and w: "writable g m a" "entry_name (m a) = name_value name" "a \<notin> addrs E t"
    and N: "insert a (links m a) \<subseteq> set xs \<union> owned_at E t (name_value name)"
    and L: "\<And>r. r \<in> links m a \<Longrightarrow> r \<noteq> a \<and> link_ok m a r"
    and fs: "distinct (objs es)" "set (objs es) \<subseteq> owned_at E t (name_value name) - insert a (links m a)"
    and slot: "slot_ok g m (Some a) name eo h"
  shows "done_at E name xs ys eo h (g, t)
    (andthen (Fib_Write E a (g, t\<lparr>t_mem := m\<rparr>)) (\<lambda>(g, t). Ok (g, deferredFree es t)))"
proof -
  note d = own_disjoint [OF tbl, of "name_value name"]
  have ys: "distinct ys" "set ys \<subseteq> set (xs @ ys) - insert a (links m a)" using d N by auto
  have N': "insert a (links m a) \<subseteq> set (xs @ ys) \<union> owned_at E t (name_value name)" using N by auto
  have L': "r \<noteq> a \<and> link_ok m a r \<and> (r \<in> addrs E t \<longrightarrow> entry_name (t_mem t r) = name_value name)" if "r \<in> links m a" for r
    using L [OF that] that N d by (auto simp: owned_at_def)
  have m': "m x = t_mem t x" if "x \<notin> set (xs @ ys)" for x using m that by simp
  from put_slot [OF laws tbl m' w(2) name_fits_length [OF fits] w(1) w(3) N' L' fs ys]
  obtain g' t' where t': "andthen (Fib_Write E a (g, t\<lparr>t_mem := m\<rparr>)) (\<lambda>(g, t). Ok (g, deferredFree es t)) = Ok (g', t')"
    "tbl_ok E t' ys" "frame E (name_value name) (xs @ ys) (g, t) (g', t')" "look E t' (name_value name) = Some a"
    "\<forall>x. core (t_mem t' x) = core (m x)" by blast
  have "frame E (name_value name) xs (g, t) (g', t')" using t'(3,5) m by (auto simp: frame_def)
  moreover have "slot_ok g' (t_mem t') (Some a) name eo h"
    by (rule slot_ok_core [OF _ _ _ slot]) (use t'(3,5) in \<open>simp_all add: frame_def\<close>)
  ultimately show ?thesis using t' by (auto simp: done_at_def)
qed

lemma done_del:
  assumes laws: "lfht_laws E" and tbl: "tbl_ok E t (xs @ ys)" and fits: "name_fits name"
    and a: "look E t (name_value name) = Some a"
    and fs: "distinct (objs es)" "set (objs es) \<subseteq> owned_at E t (name_value name)"
  shows "done_at E name xs ys None 0 (g, t)
    (andthen (andthen (Fib_Erase E (Some a) t) (\<lambda>t. Ok (g, t))) (\<lambda>(g, t). Ok (g, deferredFree es t)))"
proof -
  have "distinct ys" "set ys \<subseteq> set (xs @ ys)" using own_disjoint [OF tbl] by auto
  from del_slot [OF laws tbl a name_fits_length [OF fits] fs this, of g] show ?thesis
    by (auto simp: done_at_def frame_def slot_ok_def)
qed

lemma exec_put_real:
  assumes laws: "lfht_laws E" and tbl: "tbl_ok E t ([x] @ ys)" and fresh: "fresh t [x]" and fits: "name_fits (r_Name r)"
    and slot: "slot_ok g (t_mem t) (look E t (name_value (r_Name r))) (r_Name r) eo 0" and b: "entry_fits g (r_body r)"
    and r: "r_Action r \<noteq> ActErase" "WithVirt r = None"
    and old: "real = \<lparr>ru = Some r, ru_oldReal = (if eo = None then None else look E t (name_value (r_Name r))), ru_oldVirt = None\<rparr>"
  shows "done_at E (r_Name r) [x] ys (Some (r_body r)) 0 (g, t) (realUpdate_execute E real [x] (g, t))"
proof -
  obtain e where e: "assignReal g r (t_mem t x) = Ok e" "real_ok g (r_body r) (r_Name r) e"
    using assignReal_ok [OF fits b] fresh by (auto simp: fresh_def)
  let ?m = "(t_mem t)(x := e)"
  note d = own_disjoint [OF tbl, of "name_value (r_Name r)"]
  have w: "writable g ?m x" "links ?m x = {}" "entry_name (?m x) = name_value (r_Name r)"
    using real_writable [of g "r_body r" "r_Name r" ?m x] e(2) by simp_all
  have es: "set (objs [ru_oldReal real, ru_oldVirt real]) \<subseteq> owned_at E t (name_value (r_Name r))" "distinct (objs [ru_oldReal real, ru_oldVirt real])"
  proof -
    have "eo = None \<or> (\<exists>a. look E t (name_value (r_Name r)) = Some a \<and> a \<in> owned_at E t (name_value (r_Name r)))"
    proof (cases "eo = None")
      case False
      then obtain b where "eo = Some b" by blast
      from slot_real [OF laws tbl slot [unfolded this] fits] show ?thesis by blast
    qed simp
    then show "set (objs [ru_oldReal real, ru_oldVirt real]) \<subseteq> owned_at E t (name_value (r_Name r))" "distinct (objs [ru_oldReal real, ru_oldVirt real])"
      by (auto simp: old)
  qed
  have "done_at E (r_Name r) [x] ys (Some (r_body r)) 0 (g, t)
      (andthen (Fib_Write E x (g, t\<lparr>t_mem := ?m\<rparr>)) (\<lambda>(g, t). Ok (g, deferredFree [ru_oldReal real, ru_oldVirt real] t)))"
    by (rule done_put [OF laws tbl fits]) (use w es d e(2) in \<open>auto simp: slot_ok_def\<close>)
  then show ?thesis using e(1) r by (simp add: realUpdate_execute_def old index_def set_mem_def)
qed

lemma exec_put_both:
  assumes laws: "lfht_laws E" and tbl: "tbl_ok E t ([x, y] @ ys)" and fresh: "fresh t [x, y]" and fits: "name_fits (r_Name r)"
    and slot: "slot_ok g (t_mem t) (look E t (name_value (r_Name r))) (r_Name r) eo h" and b: "entry_fits g (r_body r)"
    and r: "r_Action r \<noteq> ActErase" "WithVirt r = Some v" and v: "v_Name v = r_Name r" "v_Height v = h" "0 < h" "h \<le> 255"
    and old: "real = \<lparr>ru = Some r,
      ru_oldReal = (if eo = None then None else FibEntry_GetReal (t_mem t) (look E t (name_value (r_Name r)))),
      ru_oldVirt = look E t (name_value (r_Name r))\<rparr>"
  shows "done_at E (r_Name r) [x, y] ys (Some (r_body r)) h (g, t) (realUpdate_execute E real [x, y] (g, t))"
proof -
  obtain e where e: "assignReal g r (t_mem t x) = Ok e" "real_ok g (r_body r) (r_Name r) e"
    using assignReal_ok [OF fits b] fresh by (auto simp: fresh_def)
  let ?e = "assignVirt v (Some x) (t_mem t y)"
  have e': "virt_ok h (r_Name r) ?e" "f_ptr ?e = PReal x"
    using assignVirt_ok [of v "t_mem t y" "nDyns t" "Some x"] fits v fresh by (simp_all add: fresh_def)
  let ?m = "(t_mem t)(x := e, y := ?e)"
  note d = own_disjoint [OF tbl, of "name_value (r_Name r)"]
  have x: "x \<noteq> y" using d by simp
  have w: "writable g ?m y" "links ?m y = {x}" "entry_name (?m y) = name_value (r_Name r)" "link_ok ?m y x"
    using virt_writable [of h "r_Name r" ?m y "Some x" g] e(2) e' v(3) x by auto
  obtain a where a: "look E t (name_value (r_Name r)) = Some a" "a \<in> owned_at E t (name_value (r_Name r))"
    "\<And>b. eo = Some b \<Longrightarrow> \<exists>r'. FibEntry_GetReal (t_mem t) (Some a) = Some r' \<and> r' \<in> owned_at E t (name_value (r_Name r)) \<and> r' \<noteq> a"
    using slot_virt [OF laws tbl slot fits v(3)] by metis
  have es: "set (objs [ru_oldReal real, ru_oldVirt real]) \<subseteq> owned_at E t (name_value (r_Name r)) \<and> distinct (objs [ru_oldReal real, ru_oldVirt real])"
    using a by (cases eo) (auto simp: old)
  have "done_at E (r_Name r) [x, y] ys (Some (r_body r)) h (g, t)
      (andthen (Fib_Write E y (g, t\<lparr>t_mem := ?m\<rparr>)) (\<lambda>(g, t). Ok (g, deferredFree [ru_oldReal real, ru_oldVirt real] t)))"
    by (rule done_put [OF laws tbl fits]) (use w es d e(2) e' x v(3) in \<open>auto simp: slot_ok_def\<close>)
  then show ?thesis using e(1) r x by (simp add: realUpdate_execute_def old index_def set_mem_def)
qed

lemma exec_put_virt:
  assumes laws: "lfht_laws E" and tbl: "tbl_ok E t ([y] @ ys)" and fresh: "fresh t [y]" and fits: "name_fits name"
    and v: "v_Name v = name" "v_Height v = h" "0 < h" "h \<le> 255"
    and lr: "\<And>r. lr = Some r \<Longrightarrow> r \<in> owned_at E t (name_value name) \<and> (\<exists>b. eo = Some b \<and> real_ok g b name (t_mem t r))"
    and lr': "lr = None \<Longrightarrow> eo = None"
    and es: "set (objs es) \<subseteq> owned_at E t (name_value name) - set_option lr" "distinct (objs es)"
  shows "done_at E name [y] ys eo h (g, t)
    (andthen (Fib_Write E y (g, set_mem y (assignVirt v lr (t_mem t y)) t)) (\<lambda>(g, t). Ok (g, deferredFree es t)))"
proof -
  let ?e = "assignVirt v lr (t_mem t y)" and ?m = "(t_mem t)(y := assignVirt v lr (t_mem t y))"
  have e': "virt_ok h name ?e" "f_ptr ?e = (case lr of None \<Rightarrow> PNull | Some r \<Rightarrow> PReal r)"
    using assignVirt_ok [of v "t_mem t y" "nDyns t" lr] fits v fresh by (simp_all add: fresh_def)
  note d = own_disjoint [OF tbl, of "name_value name"]
  have y: "y \<notin> owned_at E t (name_value name)" using d by auto
  have re: "\<exists>b. eo = Some b \<and> real_ok g b name (?m r)" if "lr = Some r" for r using lr [OF that] y by (cases "r = y") auto
  have w: "writable g ?m y" "links ?m y = set_option lr" "entry_name (?m y) = name_value name" "\<And>r. r \<in> links ?m y \<Longrightarrow> link_ok ?m y r"
  proof -
    have 1: "virt_ok h name (?m y)" "f_ptr (?m y) = (case lr of None \<Rightarrow> PNull | Some r \<Rightarrow> PReal r)" using e' by simp_all
    have 2: "\<exists>b. real_ok g b name (?m r)" if "lr = Some r" for r using re [OF that] by blast
    from virt_writable [where mem = ?m and a = y and g = g, OF 1(1) v(3) 1(2) 2] show "writable g ?m y" "links ?m y = set_option lr"
      "entry_name (?m y) = name_value name" "\<And>r. r \<in> links ?m y \<Longrightarrow> link_ok ?m y r" by blast+
  qed
  have "slot_ok g ?m (Some y) name eo h"
    using e' v(3) re lr' by (cases lr) (auto simp: slot_ok_def)
  then have "done_at E name [y] ys eo h (g, t) (andthen (Fib_Write E y (g, t\<lparr>t_mem := ?m\<rparr>)) (\<lambda>(g, t). Ok (g, deferredFree es t)))"
    by (intro done_put [OF laws tbl fits]) (use w es d lr y in auto)
  then show ?thesis by (simp add: set_mem_def)
qed

definition real_cmd :: "Name \<Rightarrow> EntryBody option \<Rightarrow> EntryBody option \<Rightarrow> int \<Rightarrow> RealUpdate" where
  "real_cmd name eo b h =
     \<lparr>r_body = (case b of None \<Rightarrow> zero_EntryBody | Some body \<Rightarrow> body), r_Name = name, r_Action = real_act eo b,
      WithVirt = (if h > 0 then Some \<lparr>v_Name = name, v_Action = ActReplace, HasReal = (b \<noteq> None), v_Height = h\<rparr> else None)\<rparr>"

definition virt_cmd :: "Name \<Rightarrow> EntryBody option \<Rightarrow> int \<Rightarrow> int \<Rightarrow> VirtUpdate" where
  "virt_cmd name eo h h' = \<lparr>v_Name = name, v_Action = virt_act h h', HasReal = (eo \<noteq> None), v_Height = h'\<rparr>"

lemma prepare_real:
  assumes "name_fits name" "eo \<noteq> b"
  shows "realUpdate_prepare E t (Some (real_cmd name eo b h)) = Ok ((if b = None then 0 else 1) + (if h > 0 then 1 else 0),
    \<lparr>ru = Some (real_cmd name eo b h),
     ru_oldReal = (if eo = None then None else if h > 0 then FibEntry_GetReal (t_mem t) (look E t (name_value name)) else look E t (name_value name)),
     ru_oldVirt = (if h > 0 then look E t (name_value name) else None)\<rparr>)"
  using assms name_fits_Get [OF assms(1), of E t]
  by (auto simp: realUpdate_prepare_def real_cmd_def real_act_def)

lemma exec_real:
  assumes laws: "lfht_laws E" and tbl: "tbl_ok E t (xs @ ys)" and fresh: "fresh t xs" and fits: "name_fits name"
    and slot: "slot_ok g (t_mem t) (look E t (name_value name)) name eo h" and h: "0 \<le> h" "h \<le> 255"
    and b: "eo \<noteq> b" "\<And>body. b = Some body \<Longrightarrow> entry_fits g body"
    and prep: "realUpdate_prepare E t (Some (real_cmd name eo b h)) = Ok (length xs, real)"
  shows "done_at E name xs ys b h (g, t) (realUpdate_execute E real xs (g, t))"
proof -
  let ?r = "real_cmd name eo b h"
  note p = trans [OF prep [symmetric] prepare_real [OF fits b(1)], simplified]
  have n: "r_Name ?r = name" by (simp add: real_cmd_def)
  consider body where "b = Some body" "h = 0" | body where "b = Some body" "h > 0" | "b = None" "h = 0" | "b = None" "h > 0"
    using h(1) by (cases b) fastforce+
  then show ?thesis
  proof cases
    case 1
    then obtain x where x: "xs = [x]" using p by (auto simp: length_Suc_conv)
    have "done_at E (r_Name ?r) [x] ys (Some (r_body ?r)) 0 (g, t) (realUpdate_execute E real [x] (g, t))"
      by (rule exec_put_real [OF laws _ _ _ _ _ _ _, where eo = eo]) (use 1 tbl fresh fits slot b x p in \<open>auto simp: real_cmd_def real_act_def\<close>)
    then show ?thesis using 1 x by (simp add: real_cmd_def)
  next
    case 2
    then obtain x y where x: "xs = [x, y]" using p by (auto simp: length_Suc_conv numeral_2_eq_2)
    have "done_at E (r_Name ?r) [x, y] ys (Some (r_body ?r)) h (g, t) (realUpdate_execute E real [x, y] (g, t))"
      by (rule exec_put_both [OF laws, where eo = eo and v = "\<lparr>v_Name = name, v_Action = ActReplace, HasReal = True, v_Height = h\<rparr>"])
        (use 2 h tbl fresh fits slot b x p in \<open>auto simp: real_cmd_def real_act_def\<close>)
    then show ?thesis using 2 x by (simp add: real_cmd_def)
  next
    case 3
    then obtain b0 where eo: "eo = Some b0" using b(1) by (cases eo) auto
    from slot_real [OF laws tbl slot [unfolded eo 3(2)] fits] obtain a where
      a: "look E t (name_value name) = Some a" "a \<in> owned_at E t (name_value name)" by blast
    have "done_at E name xs ys None 0 (g, t)
        (andthen (andthen (Fib_Erase E (Some a) t) (\<lambda>t. Ok (g, t))) (\<lambda>(g, t). Ok (g, deferredFree [Some a, None] t)))"
      by (rule done_del [OF laws tbl fits a(1)]) (use a in auto)
    moreover have "real = \<lparr>ru = Some ?r, ru_oldReal = Some a, ru_oldVirt = None\<rparr>" "WithVirt ?r = None" "r_Action ?r = ActErase"
      using p 3 eo a(1) by (auto simp: real_cmd_def real_act_def)
    ultimately show ?thesis using 3 by (simp add: realUpdate_execute_def)
  next
    case 4
    then obtain b0 where eo: "eo = Some b0" using b(1) by (cases eo) auto
    from slot_virt [OF laws tbl slot fits 4(2)] obtain a r where
      a: "look E t (name_value name) = Some a" "a \<in> owned_at E t (name_value name)" and
      r: "FibEntry_GetReal (t_mem t) (Some a) = Some r" "r \<in> owned_at E t (name_value name)" "r \<noteq> a" using eo by metis
    let ?v = "\<lparr>v_Name = name, v_Action = ActReplace, HasReal = False, v_Height = h\<rparr>"
    obtain y where y: "xs = [y]" using p 4 by (auto simp: length_Suc_conv)
    have "done_at E name [y] ys None h (g, t)
        (andthen (Fib_Write E y (g, set_mem y (assignVirt ?v None (t_mem t y)) t)) (\<lambda>(g, t). Ok (g, deferredFree [Some r, Some a] t)))"
      by (rule exec_put_virt [OF laws]) (use 4 y h tbl fresh fits a r in auto)
    moreover have "real = \<lparr>ru = Some ?r, ru_oldReal = Some r, ru_oldVirt = Some a\<rparr>" "WithVirt ?r = Some ?v" "r_Action ?r = ActErase"
      using p 4 eo a(1) r(1) by (auto simp: real_cmd_def real_act_def)
    ultimately show ?thesis using 4 y by (simp add: realUpdate_execute_def index_def)
  qed
qed

lemma prepare_virt:
  assumes "name_fits name" "h \<noteq> h'" "0 \<le> h" "0 \<le> h'"
  shows "virtUpdate_prepare E t (Some (virt_cmd name eo h h')) = Ok (if h' > 0 then 1 else 0,
    \<lparr>vu = Some (virt_cmd name eo h h'), vu_oldVirt = (if h > 0 then look E t (name_value name) else None),
     vu_oldReal = (if eo = None then None else if h > 0 then FibEntry_GetReal (t_mem t) (look E t (name_value name)) else look E t (name_value name))\<rparr>)"
  using assms name_fits_Get [OF assms(1), of E t]
  by (auto simp: virtUpdate_prepare_def virt_cmd_def virt_act_def)

text \<open>The old entries that \<open>prepare\<close> finds for a virtual update.\<close>

definition virt_olds :: "('h, 'p) fib_env \<Rightarrow> ('h, 'p) Table \<Rightarrow> Name \<Rightarrow> EntryBody option \<Rightarrow> int \<Rightarrow> Strategies \<Rightarrow> nat option \<Rightarrow> nat option \<Rightarrow> bool" where
  "virt_olds E t name eo h g old lr \<longleftrightarrow>
     (case eo of
        None \<Rightarrow> lr = None
      | Some b \<Rightarrow> \<exists>r. lr = Some r \<and> r \<in> owned_at E t (name_value name) \<and> real_ok g b name (t_mem t r)
          \<and> (h > 0 \<longrightarrow> r \<notin> addrs E t \<and> old \<noteq> Some r))
   \<and> (if h > 0 then \<exists>a. old = Some a \<and> look E t (name_value name) = Some a \<and> a \<in> owned_at E t (name_value name) else old = None)"

lemma virt_olds_ok:
  assumes laws: "lfht_laws E" and tbl: "tbl_ok E t xs" and fits: "name_fits name"
    and slot: "slot_ok g (t_mem t) (look E t (name_value name)) name eo h" and h: "0 \<le> h"
  shows "virt_olds E t name eo h g (if h > 0 then look E t (name_value name) else None)
    (if eo = None then None else if h > 0 then FibEntry_GetReal (t_mem t) (look E t (name_value name)) else look E t (name_value name))"
proof (cases "h > 0")
  case True
  from slot_virt [OF laws tbl slot fits this] obtain a where a: "look E t (name_value name) = Some a" "a \<in> owned_at E t (name_value name)" and
    r: "\<And>b. eo = Some b \<Longrightarrow> \<exists>r. FibEntry_GetReal (t_mem t) (Some a) = Some r \<and> real_ok g b name (t_mem t r) \<and> r \<in> owned_at E t (name_value name)
      \<and> r \<notin> addrs E t \<and> r \<noteq> a" by metis
  show ?thesis
  proof (cases eo)
    case None
    then show ?thesis using True a by (simp add: virt_olds_def)
  next
    case (Some b)
    from r [OF this] show ?thesis using True a Some by (auto simp: virt_olds_def)
  qed
next
  case False
  then have 0: "h = 0" using h by simp
  show ?thesis
  proof (cases eo)
    case (Some b)
    from slot_real [OF laws tbl slot [unfolded Some 0] fits] show ?thesis using Some 0 by (auto simp: virt_olds_def)
  qed (simp add: virt_olds_def 0)
qed

lemma exec_virt_put:
  assumes laws: "lfht_laws E" and tbl: "tbl_ok E t ([y] @ ys)" and fresh: "fresh t [y]" and fits: "name_fits name"
    and o: "virt_olds E t name eo h g old lr" and h: "0 \<le> h" "0 < h'" "h' \<le> 255"
  shows "done_at E name [y] ys eo h' (g, t)
    (virtUpdate_execute E \<lparr>vu = Some (virt_cmd name eo h h'), vu_oldVirt = old, vu_oldReal = lr\<rparr> [y] (g, t))"
proof -
  let ?v = "virt_cmd name eo h h'" and ?w = "name_value name"
  have "done_at E name [y] ys eo h' (g, t)
      (andthen (Fib_Write E y (g, set_mem y (assignVirt ?v lr (t_mem t y)) t)) (\<lambda>(g, t). Ok (g, deferredFree [old] t)))"
  proof (rule exec_put_virt [OF laws tbl fresh fits])
    show "r \<in> owned_at E t ?w \<and> (\<exists>b. eo = Some b \<and> real_ok g b name (t_mem t r))" if "lr = Some r" for r
      using o that by (auto simp: virt_olds_def split: option.splits)
    show "lr = None \<Longrightarrow> eo = None" using o by (auto simp: virt_olds_def split: option.splits)
    show "set (objs [old]) \<subseteq> owned_at E t ?w - set_option lr" using o by (auto simp: virt_olds_def split: option.splits if_splits)
    show "distinct (objs [old])" by (cases old) simp_all
  qed (use h in \<open>simp_all add: virt_cmd_def\<close>)
  then show ?thesis using h by (simp add: virtUpdate_execute_def index_def virt_cmd_def virt_act_def)
qed

lemma exec_virt_erase:
  assumes laws: "lfht_laws E" and tbl: "tbl_ok E t ([] @ ys)" and fits: "name_fits name"
    and o: "virt_olds E t name eo h g old lr" and h: "0 < h"
  shows "done_at E name [] ys eo 0 (g, t)
    (virtUpdate_execute E \<lparr>vu = Some (virt_cmd name eo h 0), vu_oldVirt = old, vu_oldReal = lr\<rparr> [] (g, t))"
proof -
  obtain a where a: "old = Some a" "look E t (name_value name) = Some a" "a \<in> owned_at E t (name_value name)"
    using o h by (auto simp: virt_olds_def)
  have v: "v_Action (virt_cmd name eo h 0) = ActErase" using h by (simp add: virt_cmd_def virt_act_def)
  show ?thesis
  proof (cases eo)
    case None
    then have "lr = None" using o by (simp add: virt_olds_def)
    then show ?thesis using done_del [OF laws tbl fits a(2), of "[Some a]" g] a None v by (simp add: virtUpdate_execute_def)
  next
    case (Some b)
    then obtain r where r: "lr = Some r" "r \<in> owned_at E t (name_value name)" "real_ok g b name (t_mem t r)" "r \<notin> addrs E t" "r \<noteq> a"
      using o h a(1) by (auto simp: virt_olds_def)
    note w = real_writable [of g b name "t_mem t" r, OF r(3)]
    have "done_at E name [] ys eo 0 (g, t) (andthen (Fib_Write E r (g, t\<lparr>t_mem := t_mem t\<rparr>)) (\<lambda>(g, t). Ok (g, deferredFree [Some a] t)))"
      by (rule done_put [OF laws tbl fits]) (use r w Some a in \<open>auto simp: slot_ok_def\<close>)
    then show ?thesis using r(1) v a(1) by (simp add: virtUpdate_execute_def)
  qed
qed

lemma exec_virt:
  assumes laws: "lfht_laws E" and tbl: "tbl_ok E t (xs @ ys)" and fresh: "fresh t xs" and fits: "name_fits name"
    and o: "virt_olds E t name eo h g old lr" and h: "0 \<le> h" "0 \<le> h'" "h' \<le> 255" "h \<noteq> h'"
    and len: "length xs = (if h' > 0 then 1 else 0)"
  shows "done_at E name xs ys eo h' (g, t)
    (virtUpdate_execute E \<lparr>vu = Some (virt_cmd name eo h h'), vu_oldVirt = old, vu_oldReal = lr\<rparr> xs (g, t))"
proof (cases "h' > 0")
  case True
  then obtain y where "xs = [y]" using len by (auto simp: length_Suc_conv)
  then show ?thesis using exec_virt_put [OF laws _ _ fits o h(1) True h(3)] tbl fresh by simp
next
  case False
  then have "h' = 0" "h > 0" "xs = []" using h len by auto
  then show ?thesis using exec_virt_erase [OF laws _ fits o] tbl by simp
qed

subsection \<open>Allocating the objects of an update\<close>

lemma look_same:
  assumes "lfht_laws E" "ht_ok E t" "lfht t' = lfht t" "\<And>a. a \<in> addrs E t \<Longrightarrow> core (t_mem t' a) = core (t_mem t a)" "length w < 65536"
  shows "look E t' w = look E t w"
proof -
  have t': "ht_ok E t'" "addrs E t' = addrs E t" using ht_ok_core [OF assms(3,4)] assms(2) by auto
  have "look E t' w = Some a \<longleftrightarrow> look E t w = Some a" for a
    unfolding look_Some [OF assms(1) t'(1) assms(5)] look_Some [OF assms(1,2,5)] t'(2)
    using core_fields(7) [OF assms(4), of a] by auto
  then show ?thesis by (metis not_None_eq)
qed

definition alloced :: "('h, 'p) fib_env \<Rightarrow> ('h, 'p) Table \<Rightarrow> nat list \<Rightarrow> ('h, 'p) Table \<Rightarrow> bool" where
  "alloced E t xs t' \<longleftrightarrow> tbl_ok E t' xs \<and> fresh t' xs \<and> lfht t' = lfht t \<and> t_startDepth t' = t_startDepth t \<and> nDyns t' = nDyns t
     \<and> (\<forall>x. x \<notin> set xs \<longrightarrow> t_mem t' x = t_mem t x) \<and> owned E t \<inter> set xs = {}
     \<and> t_free t' = t_free t \<and> mset (mempool_avail E (mp t)) = mset xs + mset (mempool_avail E (mp t'))"

lemma fold_zero: "fold (\<lambda>a m. m(a := z)) xs m x = (if x \<in> set xs then z else m x)"
  by (induction xs arbitrary: m) auto

lemma pooled_mset:
  assumes "own_ok E t xs" "mset (pooled E t' ys) = mset (pooled E t xs)" "addrs E t' = addrs E t"
    and "\<And>x. x \<in> owned E t \<Longrightarrow> core (t_mem t' x) = core (t_mem t x)"
  shows "own_ok E t' ys"
proof -
  have a: "core (t_mem t' a) = core (t_mem t a)" if "a \<in> addrs E t" for a using assms(4) that by (simp add: owned_def)
  have l: "links (t_mem t') a = links (t_mem t) a" if "a \<in> addrs E t" for a by (rule links_core) (rule a [OF that])
  have o: "owned E t' = owned E t" using l by (simp add: owned_def assms(3))
  have "link_ok (t_mem t') a r" if "a \<in> addrs E t" "r \<in> links (t_mem t) a" for a r
  proof -
    have "core (t_mem t' r) = core (t_mem t r)" using that by (intro assms(4)) (auto simp: owned_def)
    then have "link_ok (t_mem t') a r = link_ok (t_mem t) a r" by (intro link_ok_core a [OF that(1)])
    then show ?thesis using assms(1) that by (auto simp: own_ok_def)
  qed
  moreover have "distinct (pooled E t' ys)" "set (pooled E t' ys) = set (pooled E t xs)"
    using assms(1,2) by (metis own_ok_def mset_eq_imp_distinct_iff) (metis assms(2) mset_eq_setD)
  ultimately show ?thesis using assms(1) by (auto simp: own_ok_def o l assms(3))
qed

lemma allocBulk_ok:
  assumes "mempool_laws E" "tbl_ok E t []"
  shows "(\<exists>xs t'. allocBulk E n t = Ok (xs, t') \<and> length xs = n \<and> alloced E t xs t')
    \<or> (\<exists>e. allocBulk E n t = Fail e \<and> length (mempool_avail E (mp t)) < n)"
proof (cases "n = 0")
  case True
  then show ?thesis using assms(2) by (simp add: allocBulk_def alloced_def fresh_def)
next
  case False
  have law: "case mempool_get_bulk E n (mp t) of
      Some (xs, p') \<Rightarrow> length xs = n \<and> mset (mempool_avail E (mp t)) = mset xs + mset (mempool_avail E p')
    | None \<Rightarrow> length (mempool_avail E (mp t)) < n" using assms(1) by (simp add: mempool_laws_def)
  show ?thesis
  proof (cases "mempool_get_bulk E n (mp t)")
    case None
    then show ?thesis using False law by (simp add: allocBulk_def Fib_AllocBulk_def)
  next
    case (Some r)
    then obtain xs p' where g: "mempool_get_bulk E n (mp t) = Some (xs, p')" by (cases r) auto
    let ?t' = "t\<lparr>mp := p', t_mem := fold (\<lambda>a m. m(a := zero_FibEntry (nDyns t))) xs (t_mem t)\<rparr>"
    have m: "length xs = n" "mset (mempool_avail E (mp t)) = mset xs + mset (mempool_avail E p')" using law g by simp_all
    have ok: "ht_ok E t" "own_ok E t []" using assms(2) by (simp_all add: tbl_ok_def)
    have "set xs \<subseteq> set (mempool_avail E (mp t))" using m(2) by (metis mset_subset_eq_add_left set_mset_mono set_mset_mset)
    then have o: "owned E t \<inter> set xs = {}" using ok(2) by (auto simp: own_ok_def pooled_def)
    then have c: "core (t_mem ?t' x) = core (t_mem t x)" if "x \<in> owned E t" for x using that by (auto simp: fold_zero)
    have "own_ok E ?t' xs"
      by (rule pooled_mset [OF ok(2) _ _ c]) (simp_all add: pooled_def m(2) addrs_def)
    moreover have "ht_ok E ?t'" using ht_ok_core(2) [of ?t' t E] ok(1) c by (simp add: owned_def)
    ultimately have "alloced E t xs ?t'" using o m(2) by (simp add: alloced_def tbl_ok_def fresh_def fold_zero)
    then show ?thesis using False g m(1) by (simp add: allocBulk_def Fib_AllocBulk_def)
  qed
qed

end
