(* ===== verification/Fib_Update.thy ===== *)
theory Fib_Update
  imports Fib_Replica_Spec
begin

text \<open>
  One update of the FIB seen from a replica: the command that the tree emits takes the replica of the old tree to a
  replica of the new one. The heights of the tree stay below the range of the C field that stores them. The two-stage
  longest prefix match then returns the entry of the longest prefix.
\<close>

subsection \<open>Heights fit in the C field\<close>

definition below :: "int \<Rightarrow> node \<Rightarrow> bool" where
  "below K n \<longleftrightarrow> (\<forall>q m. node_at q n = Some m \<longrightarrow> node_height m + int (length q) \<le> K)"

lemma below_iff: "below K n \<longleftrightarrow> node_height n \<le> K \<and> (\<forall>k c. map_of (node_children n) k = Some c \<longrightarrow> below (K - 1) c)"
proof
  assume b: "below K n"
  have "node_height n \<le> K" using b [unfolded below_def, rule_format, of "[]" n] by simp
  moreover have "below (K - 1) c" if c: "map_of (node_children n) k = Some c" for k c
    unfolding below_def
  proof (intro allI impI)
    fix q m
    assume "node_at q c = Some m"
    then show "node_height m + int (length q) \<le> K - 1" using b [unfolded below_def, rule_format, of "k # q" m] c by simp
  qed
  ultimately show "node_height n \<le> K \<and> (\<forall>k c. map_of (node_children n) k = Some c \<longrightarrow> below (K - 1) c)" by blast
next
  assume r: "node_height n \<le> K \<and> (\<forall>k c. map_of (node_children n) k = Some c \<longrightarrow> below (K - 1) c)"
  show "below K n"
    unfolding below_def
  proof (intro allI impI)
    fix q m
    assume m: "node_at q n = Some m"
    show "node_height m + int (length q) \<le> K"
    proof (cases q)
      case Nil
      then show ?thesis using m r by simp
    next
      case (Cons k q')
      then obtain c where "map_of (node_children n) k = Some c" "node_at q' c = Some m" using m by (auto split: option.splits)
      then show ?thesis using r Cons unfolding below_def by fastforce
    qed
  qed
qed

lemma below_addChild: "below K n \<Longrightarrow> below (K - 1) c \<Longrightarrow> below K (addChild k c n)"
  by (simp add: below_iff [of K] map_of_update)

lemma below_updateHeight: "0 \<le> K \<Longrightarrow> (\<And>k c. map_of (node_children n) k = Some c \<Longrightarrow> below (K - 1) c) \<Longrightarrow>
    distinct (map fst (node_children n)) \<Longrightarrow> below K (updateHeight max n)"
proof -
  assume a: "0 \<le> K" "\<And>k c. map_of (node_children n) k = Some c \<Longrightarrow> below (K - 1) c" "distinct (map fst (node_children n))"
  have "node_height c \<le> K - 1" if "(k, c) \<in> set (node_children n)" for k c
    using a(2) [of k c] map_of_is_SomeI [OF a(3) that] below_iff [of "K - 1" c] by blast
  then have "Max (insert (-1) (node_height ` snd ` set (node_children n))) \<le> K - 1" using a(1) by auto
  then have "node_height (updateHeight max n) \<le> K" unfolding height_updateHeight by linarith
  then show ?thesis using a(2) by (simp add: below_iff [of K])
qed

lemma below_seek_insert: "below K n \<Longrightarrow> int (length name) \<le> K \<Longrightarrow> below K (fst (seek_insert name n))"
proof (induction name arbitrary: n K)
  case (Cons c name)
  have new: "below (K - 1) newNode" if "0 \<le> K - 1" using that by (simp add: below_iff [of _ newNode])
  show ?case
  proof (cases "map_of (node_children n) (componentToString c)")
    case None
    have "below (K - 1) (fst (seek_insert name newNode))" using Cons.prems(2) by (intro Cons.IH new) simp_all
    then show ?thesis using None Cons.prems(1) by (auto intro: below_addChild split: prod.split)
  next
    case (Some ch)
    then have "below (K - 1) ch" using Cons.prems(1) below_iff [of K n] by blast
    then have "below (K - 1) (fst (seek_insert name ch))" using Cons.prems(2) by (intro Cons.IH) simp_all
    then show ?thesis using Some Cons.prems(1) by (auto intro: below_addChild split: prod.split)
  qed
qed simp

lemma below_set_body: "below K n \<Longrightarrow> below K (set_body b name n)"
proof (induction name arbitrary: n K)
  case Nil
  then show ?case by (simp add: below_iff [of K n] below_iff [of K "Node _ _ _"])
next
  case (Cons c name)
  show ?case
  proof (cases "map_of (node_children n) (componentToString c)")
    case (Some ch)
    then have "below (K - 1) (set_body b name ch)" using Cons below_iff [of K n] by blast
    then show ?thesis using Some Cons.prems by (simp add: below_addChild)
  qed (use Cons.prems in simp)
qed

lemma below_inserted: "below K n \<Longrightarrow> node_ok n \<Longrightarrow> int (length name) \<le> K \<Longrightarrow> below K (inserted sd path b name n)"
proof (induction name arbitrary: n K path)
  case Nil
  then show ?case by (simp add: inserted_simps below_iff [of K n] below_iff [of K "Node _ _ _"])
next
  case (Cons c name)
  let ?k = "componentToString c"
  let ?ch = "case map_of (node_children n) ?k of None \<Rightarrow> newNode | Some child \<Rightarrow> child"
  have ch: "below (K - 1) ?ch" "node_ok ?ch"
    using Cons.prems below_iff [of K n] node_ok_iff [of n] node_ok_newNode
    by (auto simp: below_iff [of "K - 1" newNode] split: option.split)
  have "below (K - 1) (inserted sd (path @ [?k]) b name ?ch)" using Cons.IH [OF ch] Cons.prems(3) by simp
  then show ?case
    unfolding inserted_simps using Cons.prems below_iff [of K n] node_ok_iff [of n]
    by (intro below_updateHeight) (auto simp: local_ok_def distinct_update split: if_splits)
qed

lemma below_prune:
  "below K n \<Longrightarrow> node_ok n \<Longrightarrow> int (length name) \<le> K \<Longrightarrow> below K (fst (prune max sd path name n))"
proof (induction name arbitrary: n K path)
  case (Cons c name)
  let ?k = "componentToString c"
  show ?case
  proof (cases "map_of (node_children n) ?k")
    case (Some ch)
    obtain ch' go k v where r: "prune max sd (path @ [?k]) name ch = (ch', go, k, v)" by (metis prod.exhaust)
    have "below (K - 1) ch" "node_ok ch" using Some Cons.prems below_iff [of K n] node_ok_iff [of n] by blast+
    then have c: "below (K - 1) ch'" using Cons.IH [of "K - 1" ch "path @ [?k]"] Cons.prems(3) r by simp
    have "below K (updateHeight max (removeChild ?k n))"
      using Cons.prems below_iff [of K n] node_ok_iff [of n]
      by (intro below_updateHeight) (auto simp: local_ok_def distinct_delete split: if_splits)
    then show ?thesis using Some r c Cons.prems(1) by (simp add: Let_def below_addChild)
  qed (use Cons.prems in simp)
qed simp

definition heights_ok :: "node \<Rightarrow> bool" where
  "heights_ok n \<longleftrightarrow> below 247 n"

lemma tlv_at_least_2: "comp_ok c \<Longrightarrow> 2 \<le> length (tlv_bytes (Type c) (Value c))"
  by (simp add: tlv_bytes_def VarNum_Size_def)

lemma name_fits_comps: "name_fits name \<Longrightarrow> length name \<le> 247"
proof -
  assume f: "name_fits name"
  have "list_all comp_ok name \<Longrightarrow> 2 * length name \<le> length (name_value name)"
    by (induction name) (auto dest: tlv_at_least_2)
  then show ?thesis using f by (simp add: name_fits_def MaxNameLength_def length_name_value)
qed

lemma Insert_heights:
  assumes "Validate entry = Ok ()" "tree_ok t" "heights_ok (t_root t)" "name_fits (e_Name entry)" "Insert max entry t = Ok (t', u)"
  shows "heights_ok (t_root t')"
proof -
  let ?name = "e_Name entry"
  obtain root new where si: "seek_insert ?name (t_root t) = (root, new)" by fastforce
  obtain n where n: "node_at (keys ?name) root = Some n" using seek_insert_at(3) [OF si] by blast
  obtain root' virt where rh: "raise_heights max (startDepth t) [] ?name (set_body (e_body entry) ?name root) = (root', virt)" by fastforce
  have l: "int (length ?name) \<le> 247" using name_fits_comps [OF assms(4)] by simp
  have b: "below 247 root" using below_seek_insert [OF _ l, of "t_root t"] assms(3) si by (simp add: heights_ok_def)
  then have s: "below 247 (set_body (e_body entry) ?name root)" by (rule below_set_body)
  have "root' = inserted (startDepth t) [] (e_body entry) ?name (t_root t)" using si rh by (simp add: inserted_def)
  then have r: "below 247 root'" using below_inserted [OF _ _ l] assms(2,3) by (simp add: heights_ok_def tree_ok_def)
  show ?thesis using assms(5) b s r unfolding Insert_eval [OF assms(1) si n rh] heights_ok_def by (auto split: if_splits)
qed

lemma Erase_heights:
  assumes "tree_ok t" "heights_ok (t_root t)" "name_fits name" "Erase max name t = (t', u)"
  shows "heights_ok (t_root t')"
proof (cases "entry_at (keys name) (t_root t)")
  case None
  then show ?thesis using Erase_none [OF None, of max] assms by simp
next
  case (Some b)
  then obtain n where n: "node_at (keys name) (t_root t) = Some n" "isEntry n"
    by (auto simp: entry_at_def split: option.splits if_splits)
  let ?s = "set_body zero_EntryBody name (t_root t)"
  obtain root go k virt where p: "prune max (startDepth t) [] name ?s = (root, go, k, virt)" by (metis prod.exhaust)
  have s: "below 247 ?s" "node_ok ?s" using assms(1,2) below_set_body set_body_ok by (auto simp: heights_ok_def tree_ok_def)
  then have "below 247 root" using below_prune [OF s, of name "startDepth t" "[]"] name_fits_comps [OF assms(3)] p by simp
  then show ?thesis using assms(4) s unfolding Erase_eval [OF n p] Let_def heights_ok_def by (auto split: if_splits)
qed

subsection \<open>A replica of a tree\<close>

definition hgt :: "nat \<Rightarrow> Name \<Rightarrow> node \<Rightarrow> int" where
  "hgt sd name n = (if length name = sd then height_at (keys name) n else 0)"

definition good_name :: "Name \<Rightarrow> bool" where
  "good_name name \<longleftrightarrow> list_all comp_ok name \<and> length (name_value name) < 65536"

definition slots :: "('h, 'p) fib_env \<Rightarrow> Strategies \<Rightarrow> ('h, 'p) Table \<Rightarrow> nat \<Rightarrow> node \<Rightarrow> bool" where
  "slots E g t sd n \<longleftrightarrow> (\<forall>name. good_name name \<longrightarrow>
     slot_ok g (t_mem t) (look E t (name_value name)) name (entry_at (keys name) n) (hgt sd name n))"

lemma slots_at: "slots E g t sd n \<Longrightarrow> good_name name \<Longrightarrow>
    slot_ok g (t_mem t) (look E t (name_value name)) name (entry_at (keys name) n) (hgt sd name n)"
  by (simp add: slots_def)

lemma name_fits_good: "name_fits name \<Longrightarrow> good_name name"
  using name_fits_length by (simp add: good_name_def name_fits_def)

lemma good_name_value_inject: "good_name a \<Longrightarrow> good_name b \<Longrightarrow> name_value a = name_value b \<longleftrightarrow> a = b"
  using Name_Unmarshal_value by (metis good_name_def outcome.inject(1))

lemma good_name_take: "good_name name \<Longrightarrow> good_name (take k name)"
proof -
  assume g: "good_name name"
  have "list_all comp_ok (take k name)" using g by (metis append_take_drop_id good_name_def list_all_append)
  moreover have "length (name_value (take k name)) \<le> length (name_value name)"
    by (metis append_take_drop_id le_add1 length_append name_value_simps(3))
  ultimately show ?thesis using g by (simp add: good_name_def)
qed

text \<open>The objects that a lookup reaches are linked.\<close>

lemma look_reach:
  assumes "lfht_laws E" "tbl_ok E t xs" "length w < 65536" "look E t w = Some a"
  shows "a \<in> owned E t" "f_height (t_mem t a) \<noteq> 0 \<Longrightarrow> f_ptr (t_mem t a) = PReal r \<Longrightarrow> r \<in> owned E t"
proof -
  have a: "a \<in> addrs E t" using look_Some [OF assms(1) _ assms(3)] assms(2,4) by (auto simp: tbl_ok_def)
  then show "a \<in> owned E t" by (simp add: owned_def)
  show "r \<in> owned E t" if "f_height (t_mem t a) \<noteq> 0" "f_ptr (t_mem t a) = PReal r"
  proof -
    have "r \<in> links (t_mem t) a" using that by (simp add: links_def)
    then show ?thesis using a by (auto simp: owned_def)
  qed
qed

lemma slot_ok_keep:
  assumes "lfht_laws E" "tbl_ok E t xs" "length w < 65536" "sc_ids g' = sc_ids g" "look E t' w = look E t w"
    and "\<And>x. x \<in> owned E t \<Longrightarrow> core (t_mem t' x) = core (t_mem t x)"
    and "slot_ok g (t_mem t) (look E t w) name eo h"
  shows "slot_ok g' (t_mem t') (look E t' w) name eo h"
  unfolding assms(5)
  by (rule slot_ok_core [OF _ _ _ assms(7)]) (use assms(4,6) look_reach [OF assms(1-3)] in auto)

lemma owned_not_flight: "tbl_ok E t xs \<Longrightarrow> x \<in> owned E t \<Longrightarrow> x \<notin> set xs"
  by (auto simp: tbl_ok_def own_ok_def pooled_def)

lemma slot_ok_frame:
  assumes "lfht_laws E" "tbl_ok E t (xs @ ys)" "frame E v xs (g, t) (g', t')" "length w < 65536" "w \<noteq> v"
    and "slot_ok g (t_mem t) (look E t w) name eo h"
  shows "slot_ok g' (t_mem t') (look E t' w) name eo h"
  by (rule slot_ok_keep [OF assms(1,2,4) _ _ _ assms(6)])
    (use assms(3-5) owned_not_flight [OF assms(2)] in \<open>auto simp: frame_def\<close>)

subsection \<open>Following a command\<close>

definition prep_real :: "('h, 'p) fib_env \<Rightarrow> ('h, 'p) Table \<Rightarrow> Name \<Rightarrow> EntryBody option \<Rightarrow> EntryBody option \<Rightarrow> int \<Rightarrow> realUpdate" where
  "prep_real E t name eo b h =
     (if eo = b then \<lparr>ru = None, ru_oldReal = None, ru_oldVirt = None\<rparr>
      else \<lparr>ru = Some (real_cmd name eo b h),
        ru_oldReal = (if eo = None then None else if h > 0 then FibEntry_GetReal (t_mem t) (look E t (name_value name)) else look E t (name_value name)),
        ru_oldVirt = (if h > 0 then look E t (name_value name) else None)\<rparr>)"

definition prep_virt :: "('h, 'p) fib_env \<Rightarrow> ('h, 'p) Table \<Rightarrow> Name \<Rightarrow> EntryBody option \<Rightarrow> int \<Rightarrow> int \<Rightarrow> virtUpdate" where
  "prep_virt E t p eo ho hn =
     (if ho = hn then \<lparr>vu = None, vu_oldVirt = None, vu_oldReal = None\<rparr>
      else \<lparr>vu = Some (virt_cmd p eo ho hn), vu_oldVirt = (if ho > 0 then look E t (name_value p) else None),
        vu_oldReal = (if eo = None then None else if ho > 0 then FibEntry_GetReal (t_mem t) (look E t (name_value p)) else look E t (name_value p))\<rparr>)"

text \<open>The command that describes a change, with its parts under the name and under its prefix at the start depth.\<close>

definition cmd_of :: "update \<Rightarrow> Name \<Rightarrow> EntryBody option \<Rightarrow> EntryBody option \<Rightarrow> int \<Rightarrow> Name \<Rightarrow> EntryBody option \<Rightarrow> int \<Rightarrow> int \<Rightarrow> bool" where
  "cmd_of u name eo b h p ep ho hn \<longleftrightarrow>
     u_real u = (if eo = b then None else Some (real_cmd name eo b h))
   \<and> u_virt u = (if ho = hn then None else Some (virt_cmd p ep ho hn))"

definition n_real :: "EntryBody option \<Rightarrow> EntryBody option \<Rightarrow> int \<Rightarrow> nat" where
  "n_real eo b h = (if eo = b then 0 else (if b = None then 0 else 1) + (if h > 0 then 1 else 0))"

definition n_virt :: "int \<Rightarrow> int \<Rightarrow> nat" where
  "n_virt ho hn = (if ho = hn then 0 else if hn > 0 then 1 else 0)"

lemma PrepareUpdate_eval:
  assumes "cmd_of u name eo b h p ep ho hn" "name_fits name" "name_fits p" "0 \<le> ho" "0 \<le> hn"
  shows "PrepareUpdate E u t = andthen (allocBulk E (n_real eo b h + n_virt ho hn) t)
    (\<lambda>(xs, t'). Ok (\<lparr>uc_real = prep_real E t name eo b h, uc_virt = prep_virt E t p ep ho hn, allocated = Some xs,
      allocSplit = n_real eo b h\<rparr>, t'))"
proof -
  have r: "realUpdate_prepare E t (u_real u) = Ok (n_real eo b h, prep_real E t name eo b h)"
    using assms(1) prepare_real [OF assms(2), of eo b E t h]
    by (cases "eo = b") (auto simp: cmd_of_def n_real_def prep_real_def realUpdate_prepare_def)
  have v: "virtUpdate_prepare E t (u_virt u) = Ok (n_virt ho hn, prep_virt E t p ep ho hn)"
    using assms(1) prepare_virt [OF assms(3) _ assms(4,5), of E t ep]
    by (cases "ho = hn") (auto simp: cmd_of_def n_virt_def prep_virt_def virtUpdate_prepare_def)
  show ?thesis by (simp add: PrepareUpdate_def r v)
qed

lemma real_step:
  assumes laws: "lfht_laws E" and tbl: "tbl_ok E t (xs @ ys)" and fresh: "fresh t xs" and fits: "name_fits name"
    and slot: "slot_ok g (t_mem t) (look E t (name_value name)) name eo h" and h: "0 \<le> h" "h \<le> 255"
    and b: "\<And>body. b = Some body \<Longrightarrow> entry_fits g body" and len: "length xs = n_real eo b h"
  shows "done_at E name xs ys b h (g, t) (realUpdate_execute E (prep_real E t name eo b h) xs (g, t))"
proof (cases "eo = b")
  case True
  then show ?thesis using tbl slot len by (simp add: prep_real_def realUpdate_execute_def done_at_def frame_def n_real_def)
next
  case False
  have "realUpdate_prepare E t (Some (real_cmd name eo b h)) = Ok (length xs, prep_real E t name eo b h)"
    using prepare_real [OF fits False, of E t h] False by (simp add: prep_real_def len n_real_def)
  then show ?thesis using exec_real [OF laws tbl fresh fits slot h False b] by blast
qed

lemma virt_step:
  assumes laws: "lfht_laws E" and tbl: "tbl_ok E t (xs @ ys)" and fresh: "fresh t xs" and fits: "name_fits p"
    and slot: "slot_ok g (t_mem t) (look E t (name_value p)) p eo ho" and h: "0 \<le> ho" "0 \<le> hn" "hn \<le> 255"
    and len: "length xs = n_virt ho hn"
  shows "done_at E p xs ys eo hn (g, t) (virtUpdate_execute E (prep_virt E t p eo ho hn) xs (g, t))"
proof (cases "ho = hn")
  case True
  then show ?thesis using tbl slot len by (simp add: prep_virt_def virtUpdate_execute_def done_at_def frame_def n_virt_def)
next
  case False
  note o = virt_olds_ok [OF laws tbl fits slot h(1)]
  show ?thesis using exec_virt [OF laws tbl fresh fits o h False] False len by (simp add: prep_virt_def n_virt_def)
qed

lemma GetReal_same:
  assumes "\<And>a. lk = Some a \<Longrightarrow> core (mem' a) = core (mem a)"
  shows "FibEntry_GetReal mem' lk = FibEntry_GetReal mem lk"
proof (cases lk)
  case (Some a)
  show ?thesis using core_fields(3,5) [OF assms [OF Some]] Some by (simp add: FibEntry_GetReal_def)
qed (simp add: FibEntry_GetReal_def)

lemma prep_same:
  assumes "lfht_laws E" "tbl_ok E t xs" "length (name_value name) < 65536" "look E t' (name_value name) = look E t (name_value name)"
    and "\<And>x. x \<in> owned E t \<Longrightarrow> core (t_mem t' x) = core (t_mem t x)"
  shows "prep_real E t' name eo b h = prep_real E t name eo b h" "prep_virt E t' name eo ho hn = prep_virt E t name eo ho hn"
proof -
  have "FibEntry_GetReal (t_mem t') (look E t (name_value name)) = FibEntry_GetReal (t_mem t) (look E t (name_value name))"
    by (rule GetReal_same) (use look_reach(1) [OF assms(1-3)] assms(5) in blast)
  then show "prep_real E t' name eo b h = prep_real E t name eo b h" "prep_virt E t' name eo ho hn = prep_virt E t name eo ho hn"
    by (simp_all add: prep_real_def prep_virt_def assms(4))
qed

lemma alloced_keep:
  assumes "lfht_laws E" "tbl_ok E t0 []" "alloced E t0 xs t"
  shows "x \<in> owned E t0 \<Longrightarrow> core (t_mem t x) = core (t_mem t0 x)" "length w < 65536 \<Longrightarrow> look E t w = look E t0 w"
proof -
  show c: "core (t_mem t x) = core (t_mem t0 x)" if "x \<in> owned E t0" for x using that assms(3) by (auto simp: alloced_def)
  show "length w < 65536 \<Longrightarrow> look E t w = look E t0 w"
    by (rule look_same) (use assms c in \<open>auto simp: alloced_def tbl_ok_def owned_def\<close>)
qed

text \<open>What executing a prepared command does to every slot.\<close>

definition executed :: "('h, 'p) fib_env \<Rightarrow> Strategies \<Rightarrow> ('h, 'p) Table \<Rightarrow> Name \<Rightarrow> EntryBody option \<Rightarrow> int \<Rightarrow>
    Name \<Rightarrow> EntryBody option \<Rightarrow> int \<Rightarrow> int \<Rightarrow> Strategies \<Rightarrow> ('h, 'p) Table \<Rightarrow> bool" where
  "executed E g t0 name b h p ep ho hn g' t' \<longleftrightarrow> tbl_ok E t' [] \<and> t_startDepth t' = t_startDepth t0 \<and> nDyns t' = nDyns t0
     \<and> sc_ids g' = sc_ids g \<and> sc_table g' = sc_table g
     \<and> slot_ok g' (t_mem t') (look E t' (name_value name)) name b h
     \<and> (ho \<noteq> hn \<longrightarrow> slot_ok g' (t_mem t') (look E t' (name_value p)) p ep hn)
     \<and> (\<forall>w nm e k. length w < 65536 \<and> w \<noteq> name_value name \<and> (ho \<noteq> hn \<longrightarrow> w \<noteq> name_value p)
          \<and> slot_ok g (t_mem t0) (look E t0 w) nm e k \<longrightarrow> slot_ok g' (t_mem t') (look E t' w) nm e k)"

lemma exec_first:
  assumes laws: "lfht_laws E" and tbl0: "tbl_ok E t0 []" and al: "alloced E t0 (xs @ ys) t" and len: "length xs = n_real eo b h"
    and fits: "name_fits name" and slot: "slot_ok g (t_mem t0) (look E t0 (name_value name)) name eo h"
    and h: "0 \<le> h" "h \<le> 255" and b: "\<And>body. b = Some body \<Longrightarrow> entry_fits g body"
  shows "\<exists>g1 t1. realUpdate_execute E (prep_real E t0 name eo b h) xs (g, t) = Ok (g1, t1) \<and> tbl_ok E t1 ys \<and> fresh t1 ys
    \<and> slot_ok g1 (t_mem t1) (look E t1 (name_value name)) name b h
    \<and> frame E (name_value name) (xs @ ys) (g, t0) (g1, t1)"
proof -
  let ?v = "name_value name"
  have tbl: "tbl_ok E t (xs @ ys)" and fr: "fresh t xs" "fresh t ys" using al by (simp_all add: alloced_def fresh_def)
  note k = alloced_keep [OF laws tbl0 al] and lv = name_fits_length [OF fits]
  have p: "prep_real E t name eo b h = prep_real E t0 name eo b h"
    by (rule prep_same(1) [OF laws tbl0 lv k(2) [OF lv] k(1)])
  have s: "slot_ok g (t_mem t) (look E t ?v) name eo h"
    by (rule slot_ok_keep [OF laws tbl0 lv refl k(2) [OF lv] k(1) slot])
  from real_step [OF laws tbl fr(1) fits s h b len]
  obtain g1 t1 where 1: "realUpdate_execute E (prep_real E t0 name eo b h) xs (g, t) = Ok (g1, t1)" "tbl_ok E t1 ys"
    "frame E ?v xs (g, t) (g1, t1)" "slot_ok g1 (t_mem t1) (look E t1 ?v) name b h"
    unfolding done_at_def p by blast
  have d: "set xs \<inter> set ys = {}" using own_disjoint [OF tbl, of ?v] by simp
  have f: "nDyns t1 = nDyns t" "\<And>x. x \<notin> set xs \<Longrightarrow> core (t_mem t1 x) = core (t_mem t x)"
    "\<And>w. w \<noteq> ?v \<Longrightarrow> length w < 65536 \<Longrightarrow> look E t1 w = look E t w" using 1(3) by (simp_all add: frame_def)
  have "core (t_mem t1 x) = core (zero_FibEntry (nDyns t1))" if "x \<in> set ys" for x
  proof -
    have "x \<notin> set xs" using d that by blast
    then show ?thesis using fr(2) that f(1) f(2) [of x] by (simp add: fresh_def)
  qed
  then have "fresh t1 ys" by (simp add: fresh_def)
  moreover have "core (t_mem t1 x) = core (t_mem t0 x)" if "x \<notin> set (xs @ ys)" for x
    using f(2) [of x] that al by (simp add: alloced_def)
  then have "frame E ?v (xs @ ys) (g, t0) (g1, t1)" using 1(3) al f(3) k(2) by (simp add: frame_def alloced_def)
  ultimately show ?thesis using 1 by blast
qed

lemma exec_second:
  assumes laws: "lfht_laws E" and tbl0: "tbl_ok E t0 []" and tbl: "tbl_ok E t1 ys" and fresh: "fresh t1 ys" and len: "length ys = n_virt ho hn"
    and fits: "name_fits p" and fr: "frame E v zs (g, t0) (g1, t1)" "owned E t0 \<inter> set zs = {}"
    and slot: "ho \<noteq> hn \<Longrightarrow> name_value p \<noteq> v \<and> slot_ok g (t_mem t0) (look E t0 (name_value p)) p ep ho"
    and h: "0 \<le> ho" "0 \<le> hn" "hn \<le> 255"
  shows "\<exists>g' t'. virtUpdate_execute E (prep_virt E t0 p ep ho hn) ys (g1, t1) = Ok (g', t') \<and> tbl_ok E t' []
    \<and> frame E (name_value p) ys (g1, t1) (g', t') \<and> (ho \<noteq> hn \<longrightarrow> slot_ok g' (t_mem t') (look E t' (name_value p)) p ep hn)
    \<and> (ho = hn \<longrightarrow> g' = g1 \<and> t' = t1)"
proof (cases "ho = hn")
  case True
  then have "virtUpdate_execute E (prep_virt E t0 p ep ho hn) ys (g1, t1) = Ok (g1, t1)" "ys = []"
    using len by (simp_all add: virtUpdate_execute_def prep_virt_def n_virt_def)
  then show ?thesis using tbl True by (simp add: frame_def)
next
  case False
  note lw = name_fits_length [OF fits]
  have lk: "look E t1 (name_value p) = look E t0 (name_value p)" using fr(1) slot [OF False] lw by (simp add: frame_def)
  have c: "core (t_mem t1 x) = core (t_mem t0 x)" if "x \<in> owned E t0" for x using that fr by (auto simp: frame_def)
  have pv: "prep_virt E t1 p ep ho hn = prep_virt E t0 p ep ho hn" by (rule prep_same(2) [OF laws tbl0 lw lk c])
  have s: "slot_ok g1 (t_mem t1) (look E t1 (name_value p)) p ep ho"
  proof -
    have i: "sc_ids g1 = sc_ids g" using fr(1) by (simp add: frame_def)
    show ?thesis by (rule slot_ok_keep [OF laws tbl0 lw i lk c conjunct2 [OF slot [OF False]]])
  qed
  have "done_at E p ys [] ep hn (g1, t1) (virtUpdate_execute E (prep_virt E t0 p ep ho hn) ys (g1, t1))"
    using virt_step [OF laws _ fresh fits s h len, of "[]"] tbl unfolding pv by simp
  then show ?thesis using False unfolding done_at_def by blast
qed

lemma ExecuteUpdate_ok:
  assumes laws: "lfht_laws E" and tbl0: "tbl_ok E t0 []" and al: "alloced E t0 xs t" and len: "length xs = n_real eo b h + n_virt ho hn"
    and fits: "name_fits name" "name_fits p" and slot: "slot_ok g (t_mem t0) (look E t0 (name_value name)) name eo h"
    and slotp: "ho \<noteq> hn \<Longrightarrow> name_value p \<noteq> name_value name \<and> slot_ok g (t_mem t0) (look E t0 (name_value p)) p ep ho"
    and h: "0 \<le> h" "h \<le> 255" "0 \<le> ho" "0 \<le> hn" "hn \<le> 255" and b: "\<And>body. b = Some body \<Longrightarrow> entry_fits g body"
  shows "\<exists>g' t'. ExecuteUpdate E \<lparr>uc_real = prep_real E t0 name eo b h, uc_virt = prep_virt E t0 p ep ho hn, allocated = Some xs,
      allocSplit = n_real eo b h\<rparr> (g, t) = Ok (g', t') \<and> executed E g t0 name b h p ep ho hn g' t'"
proof -
  let ?xs = "take (n_real eo b h) xs" and ?ys = "drop (n_real eo b h) xs" and ?v = "name_value name" and ?w = "name_value p"
  note lv = name_fits_length [OF fits(1)] and lw = name_fits_length [OF fits(2)]
  have al': "alloced E t0 (?xs @ ?ys) t" and lens: "length ?xs = n_real eo b h" "length ?ys = n_virt ho hn" using al len by simp_all
  have os: "owned E t0 \<inter> set (?xs @ ?ys) = {}" using al by (simp add: alloced_def)
  obtain g1 t1 where 1: "realUpdate_execute E (prep_real E t0 name eo b h) ?xs (g, t) = Ok (g1, t1)" "tbl_ok E t1 ?ys" "fresh t1 ?ys"
    "slot_ok g1 (t_mem t1) (look E t1 ?v) name b h" "frame E ?v (?xs @ ?ys) (g, t0) (g1, t1)"
    using exec_first [OF laws tbl0 al' lens(1) fits(1) slot h(1,2) b] by blast
  obtain g' t' where 2: "virtUpdate_execute E (prep_virt E t0 p ep ho hn) ?ys (g1, t1) = Ok (g', t')" "tbl_ok E t' []"
    "frame E ?w ?ys (g1, t1) (g', t')" "ho \<noteq> hn \<longrightarrow> slot_ok g' (t_mem t') (look E t' ?w) p ep hn" "ho = hn \<longrightarrow> g' = g1 \<and> t' = t1"
    using exec_second [OF laws tbl0 1(2,3) lens(2) fits(2) 1(5) os slotp h(3-5)] by blast
  have tbl1: "tbl_ok E t1 (?ys @ [])" using 1(2) by simp
  have keep2: "slot_ok g' (t_mem t') (look E t' w) nm e j"
    if "length w < 65536" "ho \<noteq> hn \<longrightarrow> w \<noteq> ?w" "slot_ok g1 (t_mem t1) (look E t1 w) nm e j" for w nm e j
    using slot_ok_frame [OF laws tbl1 2(3) that(1) _ that(3)] that 2(5) by (cases "ho = hn") auto
  have "executed E g t0 name b h p ep ho hn g' t'"
    unfolding executed_def
  proof (intro conjI allI impI)
    show "slot_ok g' (t_mem t') (look E t' ?v) name b h" by (rule keep2 [OF lv _ 1(4)]) (use slotp in auto)
    fix w nm e j
    assume w: "length w < 65536 \<and> w \<noteq> ?v \<and> (ho \<noteq> hn \<longrightarrow> w \<noteq> ?w) \<and> slot_ok g (t_mem t0) (look E t0 w) nm e j"
    have "slot_ok g1 (t_mem t1) (look E t1 w) nm e j"
      by (rule slot_ok_keep [OF laws tbl0]) (use w 1(5) os in \<open>auto simp: frame_def\<close>)
    then show "slot_ok g' (t_mem t') (look E t' w) nm e j" using keep2 w by blast
  qed (use 1(5) 2 in \<open>auto simp: frame_def\<close>)
  then show ?thesis using 1(1) 2(1) len by (simp add: ExecuteUpdate_def)
qed

subsection \<open>From tree to tree\<close>

definition heights_fit :: "node \<Rightarrow> bool" where
  "heights_fit n \<longleftrightarrow> (\<forall>q. 0 \<le> height_at q n \<and> height_at q n \<le> 255)"

lemma heights_fit: "node_ok n \<Longrightarrow> heights_ok n \<Longrightarrow> heights_fit n"
  unfolding heights_fit_def
proof
  fix q
  assume n: "node_ok n" "heights_ok n"
  show "0 \<le> height_at q n \<and> height_at q n \<le> 255"
  proof (cases "node_at q n")
    case (Some m)
    then have "local_ok m" "node_height m + int (length q) \<le> 247" using n by (auto simp: node_ok_def heights_ok_def below_def)
    then show ?thesis using Some by (simp add: height_at_def local_ok_def)
  qed (simp add: height_at_def)
qed

lemma name_fits_take: "name_fits name \<Longrightarrow> name_fits (take k name)"
proof -
  assume f: "name_fits name"
  have "list_all comp_ok (take k name)" using f by (metis append_take_drop_id list_all_append name_fits_def)
  moreover have "length (name_value (take k name)) \<le> length (name_value name)"
    by (metis append_take_drop_id le_add1 length_append name_value_simps(3))
  ultimately show ?thesis using f by (simp add: name_fits_def length_name_value)
qed

definition old_height :: "nat \<Rightarrow> Name \<Rightarrow> node \<Rightarrow> int" where
  "old_height sd name n = (if length name \<le> sd then 0 else height_at (keys (take sd name)) n)"

lemma described_cmd:
  assumes "described sd name b n n' u" "name_fits name" "heights_fit n"
  shows "cmd_of u name (entry_at (keys name) n) b (hgt sd name n) (take sd name) (entry_at (keys (take sd name)) n')
    (old_height sd name n) (old_height sd name n')"
proof -
  have "node_name (keys (take sd name)) = take sd name"
    using name_fits_take [OF assms(2)] by (intro node_name_keys) (simp add: name_fits_def)
  then show ?thesis using assms(1)
    by (auto simp: described_def cmd_of_def real_cmd_def virt_cmd_def virt_of_def hgt_def old_height_def)
qed

lemma described_entry:
  assumes "described sd name b n n' u" "good_name nm" "good_name name"
  shows "entry_at (keys nm) n' = (if nm = name then b else entry_at (keys nm) n)"
proof -
  have "entry_at (keys nm) n' = (if keys nm = keys name then b else entry_at (keys nm) n)"
    using assms(1) unfolding described_def by blast
  then show ?thesis using keys_inject [of nm name] assms(2,3) by (simp add: good_name_def)
qed

lemma described_hgt_same:
  assumes "described sd name b n n' u"
  shows "hgt sd name n' = hgt sd name n"
proof (cases "length name = sd")
  case True
  then have "height_at (keys name) n' = height_at (keys name) n" using assms unfolding described_def by simp
  then show ?thesis by (simp add: hgt_def)
qed (simp add: hgt_def)

lemma described_hgt_other:
  assumes d: "described sd name b n n' u" and g: "good_name nm" "good_name (take sd name)"
    and ne: "nm \<noteq> take sd name \<or> old_height sd name n = old_height sd name n'"
  shows "hgt sd nm n' = hgt sd nm n"
proof (cases "length nm = sd")
  case True
  have "height_at (keys nm) n' = height_at (keys nm) n"
  proof (cases "nm = take sd name \<and> sd < length name")
    case True
    then show ?thesis using ne by (simp add: old_height_def)
  next
    case False
    then have "keys nm \<noteq> keys (take sd name) \<or> length name \<le> sd" using keys_inject [of nm "take sd name"] g by (auto simp: good_name_def)
    then show ?thesis using d \<open>length nm = sd\<close> unfolding described_def by (metis length_map)
  qed
  then show ?thesis by (simp add: hgt_def)
qed (simp add: hgt_def)

lemma executed_slot_same:
  "executed E g t name b h p ep ho hn g' t' \<Longrightarrow> slot_ok g' (t_mem t') (look E t' (name_value name)) name b h"
  "executed E g t name b h p ep ho hn g' t' \<Longrightarrow> ho \<noteq> hn \<Longrightarrow> slot_ok g' (t_mem t') (look E t' (name_value p)) p ep hn"
  "executed E g t name b h p ep ho hn g' t' \<Longrightarrow> length w < 65536 \<Longrightarrow> w \<noteq> name_value name \<Longrightarrow> (ho \<noteq> hn \<Longrightarrow> w \<noteq> name_value p) \<Longrightarrow>
    slot_ok g (t_mem t) (look E t w) nm e k \<Longrightarrow> slot_ok g' (t_mem t') (look E t' w) nm e k"
  unfolding executed_def by blast+

lemma executed_slots:
  assumes d: "described sd name b n n' u" and fits: "name_fits name" and s: "slots E g t sd n"
    and e: "executed E g t name b (hgt sd name n) (take sd name) (entry_at (keys (take sd name)) n')
      (old_height sd name n) (old_height sd name n') g' t'"
  shows "slots E g' t' sd n'"
  unfolding slots_def
proof (intro allI impI)
  define p ho hn where ph: "p = take sd name" "ho = old_height sd name n" "hn = old_height sd name n'"
  fix nm
  assume g: "good_name nm"
  have gn: "good_name name" and gp: "good_name p" using name_fits_good fits name_fits_take unfolding ph by blast+
  note e' = e [folded ph]
  note ent = described_entry [OF d g gn]
  consider "nm = name" | "nm \<noteq> name" "nm = p" "ho \<noteq> hn" | "nm \<noteq> name" "nm \<noteq> p \<or> ho = hn" by blast
  then show "slot_ok g' (t_mem t') (look E t' (name_value nm)) nm (entry_at (keys nm) n') (hgt sd nm n')"
  proof cases
    case 1
    show ?thesis using executed_slot_same(1) [OF e'] ent 1 by (simp add: described_hgt_same [OF d])
  next
    case 2
    then have "hgt sd nm n' = hn" unfolding ph by (auto simp: hgt_def old_height_def split: if_splits)
    then show ?thesis using executed_slot_same(2) [OF e' 2(3)] 2(2) by simp
  next
    case 3
    have "hgt sd nm n' = hgt sd nm n" by (rule described_hgt_other [OF d g gp [unfolded ph] 3(2) [unfolded ph]])
    then have "slot_ok g (t_mem t) (look E t (name_value nm)) nm (entry_at (keys nm) n') (hgt sd nm n')"
      using slots_at [OF s g] ent 3(1) by simp
    moreover have "length (name_value nm) < 65536" using g by (simp add: good_name_def)
    moreover have "name_value nm \<noteq> name_value name" "ho \<noteq> hn \<Longrightarrow> name_value nm \<noteq> name_value p"
      using 3 good_name_value_inject [OF g gn] good_name_value_inject [OF g gp] by auto
    ultimately show ?thesis using executed_slot_same(3) [OF e'] by blast
  qed
qed

subsection \<open>A replica follows the tree\<close>

definition rep_ok :: "('h, 'p) fib_env \<Rightarrow> Strategies \<Rightarrow> nat \<Rightarrow> node \<Rightarrow> ('h, 'p) Table \<Rightarrow> bool" where
  "rep_ok E g sd n t \<longleftrightarrow> tbl_ok E t [] \<and> t_startDepth t = int sd \<and> slots E g t sd n"

definition same_strategies :: "Strategies \<Rightarrow> Strategies \<Rightarrow> bool" where
  "same_strategies g g' \<longleftrightarrow> sc_ids g' = sc_ids g \<and> sc_table g' = sc_table g"

lemma same_strategies_trans: "same_strategies g g' \<Longrightarrow> same_strategies g' g'' \<Longrightarrow> same_strategies g g''"
  by (simp add: same_strategies_def)

lemma same_strategies_refl [simp]: "same_strategies g g"
  by (simp add: same_strategies_def)

lemma entry_fits_same: "same_strategies g g' \<Longrightarrow> entry_fits g' b = entry_fits g b"
  by (simp add: same_strategies_def entry_fits_def Strategy_Get_def)

lemma slots_same: "same_strategies g g' \<Longrightarrow> slots E g t sd n \<Longrightarrow> slots E g' t sd n"
  unfolding slots_def same_strategies_def
proof (intro allI impI)
  fix nm
  assume a: "sc_ids g' = sc_ids g \<and> sc_table g' = sc_table g"
    "\<forall>name. good_name name \<longrightarrow> slot_ok g (t_mem t) (look E t (name_value name)) name (entry_at (keys name) n) (hgt sd name n)" "good_name nm"
  then have "slot_ok g (t_mem t) (look E t (name_value nm)) nm (entry_at (keys nm) n) (hgt sd nm n)" by blast
  then show "slot_ok g' (t_mem t) (look E t (name_value nm)) nm (entry_at (keys nm) n) (hgt sd nm n)"
    by (rule slot_ok_core [rotated 3]) (use a(1) in simp_all)
qed

lemma rep_ok_same: "same_strategies g g' \<Longrightarrow> rep_ok E g sd n t \<Longrightarrow> rep_ok E g' sd n t"
  using slots_same by (auto simp: rep_ok_def)

text \<open>A prepared command can be discarded, which gives the replica of the old tree, or executed, which gives the
  replica of the new one.\<close>

definition prepared ::
    "('h, 'p) fib_env \<Rightarrow> Strategies \<Rightarrow> nat \<Rightarrow> node \<Rightarrow> node \<Rightarrow> UpdateCommand \<Rightarrow> ('h, 'p) Table \<Rightarrow> bool" where
  "prepared E g sd n n' uc t \<longleftrightarrow> rep_ok E g sd n (DiscardUpdate E uc t)
     \<and> (\<forall>g1. same_strategies g g1 \<longrightarrow> (\<exists>g' t'. ExecuteUpdate E uc (g1, t) = Ok (g', t') \<and> same_strategies g1 g' \<and> rep_ok E g' sd n' t'))"

lemma discard_ok:
  assumes laws: "lfht_laws E" "mempool_laws E" and rep: "rep_ok E g sd n t0" and al: "alloced E t0 xs t"
  shows "rep_ok E g sd n (t\<lparr>mp := mempool_put_bulk E xs (mp t)\<rparr>)"
proof -
  let ?t = "t\<lparr>mp := mempool_put_bulk E xs (mp t)\<rparr>"
  have tbl: "tbl_ok E t0 []" and t: "tbl_ok E t xs" using rep al by (simp_all add: rep_ok_def alloced_def)
  note keep = alloced_keep [OF laws(1) tbl al]
  have lk: "look E ?t w = look E t w" for w by (simp add: look_def Fib_Get_def)
  have "mset (mempool_avail E (mempool_put_bulk E xs (mp t))) = mset xs + mset (mempool_avail E (mp t))"
    using laws(2) unfolding mempool_laws_def by blast
  then have p: "mset (pooled E ?t []) = mset (pooled E t xs)" by (simp add: pooled_def)
  have "own_ok E ?t []" by (rule pooled_mset [OF _ p]) (use t in \<open>simp_all add: tbl_ok_def addrs_def\<close>)
  moreover have "ht_ok E ?t" using t ht_ok_core(2) [of ?t t E] by (simp add: tbl_ok_def)
  moreover have "slots E g ?t sd n"
    unfolding slots_def lk
  proof (intro allI impI)
    fix nm
    assume gd: "good_name nm"
    then have l: "length (name_value nm) < 65536" by (simp add: good_name_def)
    have "slots E g t0 sd n" using rep by (simp add: rep_ok_def)
    note s = slots_at [OF this gd]
    show "slot_ok g (t_mem ?t) (look E t (name_value nm)) nm (entry_at (keys nm) n) (hgt sd nm n)"
      using slot_ok_keep [OF laws(1) tbl l refl keep(2) [OF l] keep(1) s] by simp
  qed
  ultimately show ?thesis using rep al by (simp add: rep_ok_def tbl_ok_def alloced_def)
qed

lemma change_at_prefix:
  assumes d: "described sd name b n n' u" and fits: "name_fits name" and s: "slots E g t sd n"
    and ne: "old_height sd name n \<noteq> old_height sd name n'"
  shows "name_value (take sd name) \<noteq> name_value name"
    "slot_ok g (t_mem t) (look E t (name_value (take sd name))) (take sd name) (entry_at (keys (take sd name)) n') (old_height sd name n)"
proof -
  have l: "sd < length name" using ne by (auto simp: old_height_def split: if_splits)
  then have p: "take sd name \<noteq> name" "length (take sd name) = sd" by auto
  have gn: "good_name name" and gp: "good_name (take sd name)" using name_fits_good fits name_fits_take by blast+
  show "name_value (take sd name) \<noteq> name_value name" using good_name_value_inject [OF gp gn] p(1) by simp
  have "hgt sd (take sd name) n = old_height sd name n" using l by (simp add: hgt_def old_height_def)
  then show "slot_ok g (t_mem t) (look E t (name_value (take sd name))) (take sd name) (entry_at (keys (take sd name)) n') (old_height sd name n)"
    using slots_at [OF s gp] described_entry [OF d gp gn] p(1) by simp
qed

lemma old_height_bounds: "heights_fit n \<Longrightarrow> 0 \<le> old_height sd name n \<and> old_height sd name n \<le> 255"
  "heights_fit n \<Longrightarrow> 0 \<le> hgt sd name n \<and> hgt sd name n \<le> 255"
  by (auto simp: old_height_def hgt_def heights_fit_def)

lemma replica_prepare:
  assumes laws: "lfht_laws E" "mempool_laws E" and rep: "rep_ok E g sd n t" and d: "described sd name b n n' u"
    and fits: "name_fits name" and h: "heights_fit n" "heights_fit n'" and b: "\<And>body. b = Some body \<Longrightarrow> entry_fits g body"
  shows "(\<exists>e. PrepareUpdate E u t = Fail e) \<and> length (mempool_avail E (mp t)) < 3
    \<or> (\<exists>uc t1. PrepareUpdate E u t = Ok (uc, t1) \<and> prepared E g sd n n' uc t1)"
proof -
  define eo hh p ep ho hn where vars: "eo = entry_at (keys name) n" "hh = hgt sd name n" "p = take sd name" "ep = entry_at (keys (take sd name)) n'"
    "ho = old_height sd name n" "hn = old_height sd name n'"
  have bd: "0 \<le> hh" "hh \<le> 255" "0 \<le> ho" "0 \<le> hn" "hn \<le> 255" using old_height_bounds h unfolding vars by blast+
  have fp: "name_fits p" unfolding vars by (rule name_fits_take [OF fits])
  note ev = PrepareUpdate_eval [OF described_cmd [OF d fits h(1), folded vars] fits fp bd(3,4), of E t]
  have tbl: "tbl_ok E t []" and sl: "slots E g t sd n" using rep by (simp_all add: rep_ok_def)
  show ?thesis
  proof (cases "\<exists>e. allocBulk E (n_real eo b hh + n_virt ho hn) t = Fail e")
    case True
    moreover have "n_real eo b hh + n_virt ho hn \<le> 3" by (simp add: n_real_def n_virt_def)
    ultimately show ?thesis using ev allocBulk_ok [OF laws(2) tbl, of "n_real eo b hh + n_virt ho hn"] by auto
  next
    case False
    then obtain xs t1 where al: "allocBulk E (n_real eo b hh + n_virt ho hn) t = Ok (xs, t1)"
      "length xs = n_real eo b hh + n_virt ho hn" "alloced E t xs t1" using allocBulk_ok [OF laws(2) tbl] by blast
    let ?uc = "\<lparr>uc_real = prep_real E t name eo b hh, uc_virt = prep_virt E t p ep ho hn, allocated = Some xs, allocSplit = n_real eo b hh\<rparr>"
    have "\<exists>g' t'. ExecuteUpdate E ?uc (g1, t1) = Ok (g', t') \<and> same_strategies g1 g' \<and> rep_ok E g' sd n' t'" if g1: "same_strategies g g1" for g1
    proof -
      note s1 = slots_same [OF g1 sl]
      have s: "slot_ok g1 (t_mem t) (look E t (name_value name)) name eo hh" unfolding vars by (rule slots_at [OF s1 name_fits_good [OF fits]])
      have sp: "name_value p \<noteq> name_value name \<and> slot_ok g1 (t_mem t) (look E t (name_value p)) p ep ho" if "ho \<noteq> hn"
        using change_at_prefix [OF d fits s1] that unfolding vars by blast
      have b1: "entry_fits g1 body" if "b = Some body" for body using b [OF that] entry_fits_same [OF g1] by simp
      obtain g' t' where e: "ExecuteUpdate E ?uc (g1, t1) = Ok (g', t')" "executed E g1 t name b hh p ep ho hn g' t'"
        using ExecuteUpdate_ok [OF laws(1) tbl al(3,2) fits fp s sp bd b1] by blast
      have "slots E g' t' sd n'" using executed_slots [OF d fits s1] e(2) unfolding vars by blast
      then show ?thesis using e rep unfolding executed_def rep_ok_def same_strategies_def by auto
    qed
    moreover have "rep_ok E g sd n (DiscardUpdate E ?uc t1)" using discard_ok [OF laws rep al(3)] by (simp add: DiscardUpdate_def)
    ultimately show ?thesis using ev al(1) unfolding prepared_def by auto
  qed
qed

subsection \<open>Longest prefix match\<close>

fun longest :: "(Name \<Rightarrow> 'b option) \<Rightarrow> Name \<Rightarrow> nat \<Rightarrow> (Name \<times> 'b) option" where
  "longest m name 0 = map_option (Pair []) (m [])"
| "longest m name (Suc k) =
     (case m (take (Suc k) name) of Some b \<Rightarrow> Some (take (Suc k) name, b) | None \<Rightarrow> longest m name k)"

lemma longest_skip:
  assumes "k \<le> l" "\<And>j. k < j \<Longrightarrow> j \<le> l \<Longrightarrow> m (take j name) = None"
  shows "longest m name l = longest m name k"
  using assms
proof (induction l)
  case (Suc l)
  show ?case
  proof (cases "k = Suc l")
    case False
    then show ?thesis using Suc.IH Suc.prems(1) Suc.prems(2) [of "Suc l"] Suc.prems(2) by simp
  qed simp
qed simp

lemma longest_hit: "m (take k name) = Some b \<Longrightarrow> longest m name k = Some (take k name, b)"
  by (cases k) simp_all

lemma longest_miss: "m (take k name) = None \<Longrightarrow> longest m name k = (if k = 0 then None else longest m name (k - 1))"
  by (cases k) simp_all

definition found :: "Strategies \<Rightarrow> (nat \<Rightarrow> FibEntry) \<Rightarrow> (Name \<times> EntryBody) option \<Rightarrow> nat option \<Rightarrow> bool" where
  "found g mem best res = (case best of None \<Rightarrow> res = None | Some (name, b) \<Rightarrow> (\<exists>r. res = Some r \<and> real_ok g b name (mem r)))"

lemma found_simps [simp]: "found g mem None res \<longleftrightarrow> res = None"
  "found g mem (Some (name, b)) res \<longleftrightarrow> (\<exists>r. res = Some r \<and> real_ok g b name (mem r))"
  by (simp_all add: found_def)

lemma slot_found: "slot_ok g mem lk name eo h \<Longrightarrow> found g mem (map_option (Pair name) eo) (FibEntry_GetReal mem lk)"
  by (auto simp: slot_ok_def FibEntry_GetReal_def real_ok_def virt_ok_def split: option.splits if_splits FibPtr.splits)

lemma get_by_prefix:
  assumes "slots E g t sd n" "PName_of p name" "k \<le> length name"
  shows "Fib_GetEntryByPrefix E t p k = Ok (look E t (name_value (take k name)))"
    "slot_ok g (t_mem t) (look E t (name_value (take k name))) (take k name) (entry_at (keys (take k name)) n) (hgt sd (take k name) n)"
proof -
  have "good_name name" using assms(2) by (simp add: PName_of_def good_name_def)
  then show "slot_ok g (t_mem t) (look E t (name_value (take k name))) (take k name) (entry_at (keys (take k name)) n) (hgt sd (take k name) n)"
    using slots_at [OF assms(1)] good_name_take by blast
  show "Fib_GetEntryByPrefix E t p k = Ok (look E t (name_value (take k name)))"
    using PName_of_simps(2,3) [OF assms(2,3)] by (simp add: Fib_GetEntryByPrefix_def look_def)
qed

lemma Lpm_loop_found:
  assumes "slots E g t sd n" "PName_of p name" "k \<le> length name"
  shows "\<exists>res. Fib_Lpm_loop E t p k = Ok res \<and> found g (t_mem t) (longest (\<lambda>nm. entry_at (keys nm) n) name k) res"
  using assms(3)
proof (induction k)
  case 0
  note g = get_by_prefix [OF assms(1,2) 0]
  show ?case using slot_found [OF g(2)] by (simp add: g(1))
next
  case (Suc k)
  note g = get_by_prefix [OF assms(1,2) Suc.prems]
  let ?r = "FibEntry_GetReal (t_mem t) (look E t (name_value (take (Suc k) name)))"
  have f: "found g (t_mem t) (map_option (Pair (take (Suc k) name)) (entry_at (keys (take (Suc k) name)) n)) ?r" by (rule slot_found [OF g(2)])
  show ?case
  proof (cases "entry_at (keys (take (Suc k) name)) n")
    case None
    then have "?r = None" using f by simp
    then show ?thesis using Suc.IH Suc.prems None by (simp add: g(1))
  next
    case (Some b)
    then obtain r where "?r = Some r" "real_ok g b (take (Suc k) name) (t_mem t r)" using f by auto
    then show ?thesis using Some by (simp add: g(1))
  qed
qed

text \<open>No entry lies deeper than the height of the node at the start depth.\<close>

lemma no_entry_below:
  assumes "node_ok n" "sd < length name" "sd + nat (height_at (keys (take sd name)) n) < j" "j \<le> length name"
  shows "entry_at (keys (take j name)) n = None"
proof (rule ccontr)
  assume e: "entry_at (keys (take j name)) n \<noteq> None"
  then have j: "node_at (keys (take j name)) n \<noteq> None" using node_exists by blast
  have "take j name = take sd name @ drop sd (take j name)" using assms(3) by (metis append_take_drop_id min_absorb1 take_take less_imp_le_nat trans_le_add1 le_less_trans le_add1)
  then have "node_at (keys (take sd name) @ keys (drop sd (take j name))) n \<noteq> None" using j by (metis map_append)
  then obtain m where m: "node_at (keys (take sd name)) n = Some m" "node_at (keys (drop sd (take j name))) m \<noteq> None"
    by (auto simp: node_at_append split: bind_splits)
  have "node_ok m" using assms(1) m(1) unfolding node_ok_def by (metis bind.bind_lunit node_at_append)
  then have "int (length (keys (drop sd (take j name)))) \<le> node_height m" using height_bounds m(2) by blast
  then show False using assms(3,4) m(1) by (simp add: height_at_def)
qed

lemma Fib_Lpm_found:
  assumes rep: "rep_ok E g sd n t" and p: "PName_of p name" and ok: "node_ok n"
  shows "\<exists>res. Fib_Lpm E t p = Ok res \<and> found g (t_mem t) (longest (\<lambda>nm. entry_at (keys nm) n) name (length name)) res"
proof (cases "sd < length name")
  case False
  have s: "slots E g t sd n" "t_startDepth t = int sd" using rep by (simp_all add: rep_ok_def)
  show ?thesis using Lpm_loop_found [OF s(1) p order.refl] False s(2) PName_of_simps(1) [OF p] by (simp add: Fib_Lpm_def)
next
  case sd: True
  let ?m = "\<lambda>nm. entry_at (keys nm) n" and ?q = "take sd name"
  have s: "slots E g t sd n" "t_startDepth t = int sd" using rep by (simp_all add: rep_ok_def)
  have nc: "p_nComps p = length name" by (rule PName_of_simps(1) [OF p])
  note g = get_by_prefix [OF s(1) p less_imp_le [OF sd]]
  have h: "hgt sd ?q n = height_at (keys ?q) n" using sd by (simp add: hgt_def)
  have skip: "longest ?m name (length name) = longest ?m name (min (sd + nat (height_at (keys ?q) n)) (length name))"
    by (rule longest_skip) (auto intro!: no_entry_below [OF ok sd])
  show ?thesis
  proof (cases "look E t (name_value ?q)")
    case None
    then have z: "?m ?q = None" "height_at (keys ?q) n = 0" using g(2) h by (simp_all add: slot_ok_def)
    then have l: "longest ?m name (length name) = (if sd = 0 then None else longest ?m name (sd - 1))"
      using skip sd longest_miss [of ?m sd name] z(1) by simp
    show ?thesis
    proof (cases "sd = 0")
      case True
      then show ?thesis using None l sd g(1) s(2) by (simp add: Fib_Lpm_def Let_def nc)
    next
      case False
      have "sd - 1 \<le> length name" using sd by simp
      note f = Lpm_loop_found [OF s(1) p this]
      have "nat (int sd - 1) = sd - 1" by simp
      then show ?thesis using None l sd f False by (simp add: Fib_Lpm_def Let_def s(2) nc g(1))
    qed
  next
    case (Some a)
    show ?thesis
    proof (cases "height_at (keys ?q) n = 0")
      case True
      then obtain b where b: "?m ?q = Some b" "real_ok g b ?q (t_mem t a)" using g(2) h Some by (auto simp: slot_ok_def)
      then have "longest ?m name (length name) = Some (?q, b)" using skip True sd longest_hit [of ?m sd name b] by simp
      moreover have "f_height (t_mem t a) = 0" using b(2) by (simp add: real_ok_def)
      ultimately show ?thesis using Some b(2) sd by (simp add: Fib_Lpm_def Let_def s(2) nc g(1))
    next
      case False
      then have v: "uint (f_height (t_mem t a)) = height_at (keys ?q) n" using g(2) h Some by (simp add: slot_ok_def virt_ok_def)
      then have pos: "f_height (t_mem t a) > 0" using False by (auto simp: word_gt_0)
      let ?k = "min (sd + nat (height_at (keys ?q) n)) (length name)"
      have "0 \<le> height_at (keys ?q) n" using v by (metis uint_ge_0)
      then have k: "nat (min (int sd + height_at (keys ?q) n) (int (length name))) = ?k" "\<not> min (int sd + height_at (keys ?q) n) (int (length name)) < 0" by auto
      have "?k \<le> length name" by simp
      from Lpm_loop_found [OF s(1) p this] show ?thesis
        unfolding Fib_Lpm_def Let_def s(2) nc skip using sd pos k by (simp add: g(1) Some v)
    qed
  qed
qed

end
