(* ===== verification/Fib.thy ===== *)
theory Fib
  imports Fib_Update Eal_Numa
begin

text \<open>
  The FIB (\<open>container/fib/fib.go\<close>, \<open>entry.go\<close>): the tree and one replica per NUMA socket. An update goes to the
  tree, is prepared on every replica and then executed on every replica; when a replica has no memory for it, the
  replicas that are prepared discard it and the tree is reverted. The maps are association lists, and the order in
  which a loop ranges over a map is an argument.
\<close>

record ('h, 'p) Fib =
  fib_tree :: Tree
  replicas :: "(NumaSocket \<times> ('h, 'p) Table) list"

definition Len :: "('h, 'p) Fib \<Rightarrow> nat" where
  "Len fib = nEntries (fib_tree fib)"

definition Replica :: "int \<Rightarrow> NumaSocket list \<Rightarrow> NumaSocket \<Rightarrow> ('h, 'p) Fib \<Rightarrow> ('h, 'p) Table option" where
  "Replica maxNodes Sockets socket fib = map_of (replicas fib) (Rewrite maxNodes Sockets 0 RewriteAnyNumaSocketFirst socket)"

definition Fib_List :: "('h, 'p) Fib \<Rightarrow> Entry list" where
  "Fib_List fib = Tree_List (fib_tree fib)"

definition Fib_Find :: "Name \<Rightarrow> ('h, 'p) Fib \<Rightarrow> Entry option" where
  "Fib_Find name fib = Find name (fib_tree fib)"

text \<open>The loop that prepares: the replicas, the commands prepared so far and the error that ended it early.\<close>

fun doUpdate_prepare ::
    "('h, 'p) fib_env \<Rightarrow> update \<Rightarrow> NumaSocket list \<Rightarrow> (NumaSocket \<times> ('h, 'p) Table) list \<Rightarrow> (NumaSocket \<times> UpdateCommand) list
     \<Rightarrow> ((NumaSocket \<times> ('h, 'p) Table) list \<times> (NumaSocket \<times> UpdateCommand) list \<times> error option) outcome" where
  "doUpdate_prepare E tu [] rs us = Ok (rs, us, None)"
| "doUpdate_prepare E tu (socket # sockets) rs us =
     (case PrepareUpdate E tu (the (map_of rs socket)) of
        Ok (u, replica) \<Rightarrow> doUpdate_prepare E tu sockets (AList.update socket replica rs) (AList.update socket u us)
      | Fail e \<Rightarrow> Ok (rs, us, Some e)
      | Panic \<Rightarrow> Panic)"

definition doUpdate_discard ::
    "('h, 'p) fib_env \<Rightarrow> NumaSocket list \<Rightarrow> (NumaSocket \<times> UpdateCommand) list \<Rightarrow> (NumaSocket \<times> ('h, 'p) Table) list
     \<Rightarrow> (NumaSocket \<times> ('h, 'p) Table) list" where
  "doUpdate_discard E sockets us rs =
     fold (\<lambda>socket rs. AList.update socket (DiscardUpdate E (the (map_of us socket)) (the (map_of rs socket))) rs) sockets rs"

definition doUpdate_execute ::
    "('h, 'p) fib_env \<Rightarrow> NumaSocket list \<Rightarrow> (NumaSocket \<times> UpdateCommand) list \<Rightarrow> Strategies \<times> (NumaSocket \<times> ('h, 'p) Table) list
     \<Rightarrow> (Strategies \<times> (NumaSocket \<times> ('h, 'p) Table) list) outcome" where
  "doUpdate_execute E sockets us s =
     forRange (\<lambda>(g, rs) socket.
       andthen (ExecuteUpdate E (the (map_of us socket)) (g, the (map_of rs socket)))
         (\<lambda>(g, replica). Ok (g, AList.update socket replica rs))) s sockets"

text \<open>The call returns the new state with the error, if there is one.\<close>

definition doUpdate ::
    "('h, 'p) fib_env \<Rightarrow> (int \<Rightarrow> int \<Rightarrow> int) \<Rightarrow> (NumaSocket list \<Rightarrow> NumaSocket list) \<Rightarrow> (NumaSocket list \<Rightarrow> NumaSocket list) \<Rightarrow>
     update \<Rightarrow> Strategies \<times> ('h, 'p) Fib \<Rightarrow> ((Strategies \<times> ('h, 'p) Fib) \<times> error option) outcome" where
  "doUpdate E maxInt rangeR rangeU tu = (\<lambda>(g, fib).
     andthen (doUpdate_prepare E tu (rangeR (map fst (replicas fib))) (replicas fib) []) (\<lambda>(rs, us, err).
       case err of
         Some e \<Rightarrow>
           andthen (Revert maxInt (u_revert tu) (fib_tree fib)) (\<lambda>t.
             Ok ((g, fib\<lparr>fib_tree := t, replicas := doUpdate_discard E (rangeU (map fst us)) us rs\<rparr>), Some e))
       | None \<Rightarrow>
           andthen (doUpdate_execute E (rangeU (map fst us)) us (g, rs)) (\<lambda>(g, rs).
             Ok ((g, fib\<lparr>replicas := rs\<rparr>), None))))"

definition Fib_Insert ::
    "('h, 'p) fib_env \<Rightarrow> (int \<Rightarrow> int \<Rightarrow> int) \<Rightarrow> (NumaSocket list \<Rightarrow> NumaSocket list) \<Rightarrow> (NumaSocket list \<Rightarrow> NumaSocket list) \<Rightarrow>
     Entry \<Rightarrow> Strategies \<times> ('h, 'p) Fib \<Rightarrow> ((Strategies \<times> ('h, 'p) Fib) \<times> error option) outcome" where
  "Fib_Insert E maxInt rangeR rangeU entry = (\<lambda>(g, fib).
     case Validate entry of
       Ok _ \<Rightarrow> andthen (Insert maxInt entry (fib_tree fib)) (\<lambda>(t, tu).
         doUpdate E maxInt rangeR rangeU tu (g, fib\<lparr>fib_tree := t\<rparr>))
     | Fail e \<Rightarrow> Ok ((g, fib), Some e)
     | Panic \<Rightarrow> Panic)"

definition Fib_Delete ::
    "('h, 'p) fib_env \<Rightarrow> (int \<Rightarrow> int \<Rightarrow> int) \<Rightarrow> (NumaSocket list \<Rightarrow> NumaSocket list) \<Rightarrow> (NumaSocket list \<Rightarrow> NumaSocket list) \<Rightarrow>
     Name \<Rightarrow> Strategies \<times> ('h, 'p) Fib \<Rightarrow> ((Strategies \<times> ('h, 'p) Fib) \<times> error option) outcome" where
  "Fib_Delete E maxInt rangeR rangeU name = (\<lambda>(g, fib).
     case Erase maxInt name (fib_tree fib) of
       (t, tu) \<Rightarrow> doUpdate E maxInt rangeR rangeU tu (g, fib\<lparr>fib_tree := t\<rparr>))"

text \<open>\<open>Close\<close>: \<open>urcu.Barrier\<close> waits for callbacks; then every replica is closed.\<close>

definition doClose :: "('h, 'p) fib_env \<Rightarrow> ('h \<Rightarrow> nat list) \<Rightarrow> NumaSocket list \<Rightarrow> Strategies \<times> ('h, 'p) Fib \<Rightarrow> Strategies outcome" where
  "doClose E forEach sockets = (\<lambda>(g, fib).
     forRange (\<lambda>g socket. case map_of (replicas fib) socket of None \<Rightarrow> Ok g | Some t \<Rightarrow> Table_Close E forEach (g, t)) g sockets)"

text \<open>
  \<open>New\<close>; \<open>newReplica\<close> is the call of \<open>fibreplica.New\<close> with the configuration, the number of threads and the socket. The
  calls of \<open>SetFib\<close> tell every thread its replica and its index; they are returned in the order in which they are
  made. The loops over the map of threads visit it in the orders \<open>visit1\<close> and \<open>visit2\<close>.
\<close>

definition Fib_New ::
    "('h, 'p) fib_env \<Rightarrow> (int \<Rightarrow> int \<Rightarrow> int) \<Rightarrow> (int \<Rightarrow> int \<Rightarrow> int) \<Rightarrow> ('h \<Rightarrow> nat list) \<Rightarrow> (NumaSocket list \<Rightarrow> NumaSocket list) \<Rightarrow>
     (NumaSocket list \<Rightarrow> NumaSocket list) \<Rightarrow> int \<Rightarrow> NumaSocket list \<Rightarrow> ('th \<Rightarrow> NumaSocket) \<Rightarrow>
     (Config \<Rightarrow> nat \<Rightarrow> NumaSocket \<Rightarrow> ('h, 'p) Table outcome) \<Rightarrow> Config \<Rightarrow> 'th list \<Rightarrow> Strategies \<Rightarrow>
     (('h, 'p) Fib \<times> ('th \<times> NumaSocket \<times> nat) list) outcome" where
  "Fib_New E MinInt MaxInt forEach visit1 visit2 maxNodes Sockets numaSocket newReplica cfg threads g =
     (let cfg = ApplyDefaults MinInt MaxInt cfg;
          threadByNuma = ClassifyByNumaSocket (Rewrite maxNodes Sockets 0 RewriteAnyNumaSocketFirst) numaSocket threads
      in andthen (forRange (\<lambda>fib socket.
           case newReplica cfg (length (the (map_of threadByNuma socket))) socket of
             Ok replica \<Rightarrow> Ok (fib\<lparr>replicas := AList.update socket replica (replicas fib)\<rparr>)
           | Fail e \<Rightarrow> andthen (doClose E forEach (map fst (replicas fib)) (g, fib)) (\<lambda>_. Fail e)
           | Panic \<Rightarrow> Panic)
         \<lparr>fib_tree = Tree_New (nat (StartDepth cfg)), replicas = []\<rparr> (visit1 (map fst threadByNuma)))
         (\<lambda>fib. Ok (fib, concat (map (\<lambda>socket. map (\<lambda>(i, th). (th, socket, i)) (List.enumerate 0 (the (map_of threadByNuma socket))))
            (visit2 (map fst threadByNuma))))))"

text \<open>\<open>Counters\<close> of an entry, aggregated over the replicas.\<close>

definition Counters :: "('h, 'p) fib_env \<Rightarrow> NumaSocket list \<Rightarrow> Name \<Rightarrow> ('h, 'p) Fib \<Rightarrow> EntryCounters outcome" where
  "Counters E sockets name fib =
     forRange (\<lambda>cnt socket. case map_of (replicas fib) socket of
         None \<Rightarrow> Ok cnt
       | Some replica \<Rightarrow> andthen (Get E replica name) (\<lambda>entry.
           case entry of None \<Rightarrow> Ok cnt | Some a \<Rightarrow> AccCounters (Some a) replica cnt))
       \<lparr>NRxInterests = 0, NRxData = 0, NRxNacks = 0, NTxInterests = 0\<rparr> sockets"

end
