(* ===== verification/Fib_Spec.thy ===== *)
theory Fib_Spec
  imports Fib
begin

text \<open>
  Correctness of the FIB: while updates succeed, every replica follows the tree, so that a longest prefix match on any
  of them returns the entry of the longest prefix in the abstract map of names to entries. An update that fails leaves
  the entries and the replicas as they were, but not the heights of the tree.
\<close>

subsection \<open>One update on all replicas\<close>

definition mixed :: "('h, 'p) fib_env \<Rightarrow> Strategies \<Rightarrow> nat \<Rightarrow> node \<Rightarrow> node \<Rightarrow> (NumaSocket \<times> UpdateCommand) list \<Rightarrow>
    (NumaSocket \<times> ('h, 'p) Table) list \<Rightarrow> bool" where
  "mixed E g sd n n' us rs \<longleftrightarrow> (\<forall>s t. map_of rs s = Some t \<longrightarrow>
     (case map_of us s of None \<Rightarrow> rep_ok E g sd n t | Some u \<Rightarrow> prepared E g sd n n' u t))"

lemma mixed_at:
  assumes "mixed E g sd n n' us rs" "map_of rs s = Some t"
  shows "s \<in> fst ` set us \<Longrightarrow> \<exists>u. map_of us s = Some u \<and> prepared E g sd n n' u t" "s \<notin> fst ` set us \<Longrightarrow> rep_ok E g sd n t"
proof -
  have c: "case map_of us s of None \<Rightarrow> rep_ok E g sd n t | Some u \<Rightarrow> prepared E g sd n n' u t"
    using assms unfolding mixed_def by blast
  show "\<exists>u. map_of us s = Some u \<and> prepared E g sd n n' u t" if "s \<in> fst ` set us"
    using c that by (cases "map_of us s") (simp_all add: map_of_eq_None_iff)
  show "rep_ok E g sd n t" if "s \<notin> fst ` set us" using c that by (simp flip: map_of_eq_None_iff)
qed

definition reps_ok :: "('h, 'p) fib_env \<Rightarrow> Strategies \<Rightarrow> nat \<Rightarrow> node \<Rightarrow> (NumaSocket \<times> ('h, 'p) Table) list \<Rightarrow> bool" where
  "reps_ok E g sd n rs \<longleftrightarrow> distinct (map fst rs) \<and> (\<forall>s t. map_of rs s = Some t \<longrightarrow> rep_ok E g sd n t)"

text \<open>What the replicas share: the step of a command on one of them.\<close>

definition follows :: "('h, 'p) fib_env \<Rightarrow> Strategies \<Rightarrow> nat \<Rightarrow> node \<Rightarrow> node \<Rightarrow> update \<Rightarrow> bool" where
  "follows E g sd n n' tu \<longleftrightarrow> (\<forall>t. rep_ok E g sd n t \<longrightarrow>
     (\<exists>e. PrepareUpdate E tu t = Fail e) \<and> length (mempool_avail E (mp t)) < 3
     \<or> (\<exists>uc t1. PrepareUpdate E tu t = Ok (uc, t1) \<and> prepared E g sd n n' uc t1))"

text \<open>Some replica has less memory available than an update may need.\<close>

definition short :: "('h, 'p) fib_env \<Rightarrow> (NumaSocket \<times> ('h, 'p) Table) list \<Rightarrow> bool" where
  "short E rs \<longleftrightarrow> (\<exists>s t. map_of rs s = Some t \<and> length (mempool_avail E (mp t)) < 3)"

lemma short_prepare:
  assumes "\<And>s t. s \<in> set sockets \<Longrightarrow> map_of rs s = Some t \<Longrightarrow> rep_ok E g sd n t" "follows E g sd n n' tu"
    and "set sockets \<subseteq> fst ` set rs" "distinct sockets" "doUpdate_prepare E tu sockets rs us = Ok (rs', us', Some e)"
  shows "\<exists>s \<in> set sockets. \<exists>t. map_of rs s = Some t \<and> length (mempool_avail E (mp t)) < 3"
  using assms(1,3-)
proof (induction sockets arbitrary: rs us)
  case (Cons s sockets)
  have "s \<in> fst ` set rs" using Cons.prems(2) by simp
  then obtain t where t: "map_of rs s = Some t" by (metis map_of_eq_None_iff not_None_eq)
  have rep: "rep_ok E g sd n t" by (rule Cons.prems(1) [OF _ t]) simp
  show ?case
  proof (cases "length (mempool_avail E (mp t)) < 3")
    case True
    then show ?thesis using t by auto
  next
    case False
    then obtain uc t1 where p: "PrepareUpdate E tu t = Ok (uc, t1)" using assms(2) rep unfolding follows_def by blast
    let ?rs = "AList.update s t1 rs"
    have o: "map_of ?rs s' = map_of rs s'" if "s' \<noteq> s" for s' using that by (simp add: update_conv)
    have ns: "s' \<noteq> s" if "s' \<in> set sockets" for s' using that Cons.prems(3) by auto
    have r1: "rep_ok E g sd n t'" if "s' \<in> set sockets" "map_of ?rs s' = Some t'" for s' t'
      by (rule Cons.prems(1) [of s']) (use that o [OF ns [OF that(1)]] in simp_all)
    have r2: "set sockets \<subseteq> fst ` set ?rs" using Cons.prems(2) by (simp add: dom_update) blast
    have r3: "doUpdate_prepare E tu sockets ?rs (AList.update s uc us) = Ok (rs', us', Some e)" using Cons.prems(4) t p by simp
    have r4: "distinct sockets" using Cons.prems(3) by simp
    have "\<exists>s' \<in> set sockets. \<exists>t'. map_of ?rs s' = Some t' \<and> length (mempool_avail E (mp t')) < 3"
      by (rule Cons.IH [OF _ r2 r4 r3]) (rule r1)
    then obtain s' t' where "s' \<in> set sockets" "map_of ?rs s' = Some t'" "length (mempool_avail E (mp t')) < 3" by blast
    then show ?thesis using o [OF ns] by (intro bexI [of _ s'] exI [of _ t']) auto
  qed
qed simp

lemma prepare_all:
  assumes "follows E g sd n n' tu" "mixed E g sd n n' us rs" "set sockets \<subseteq> fst ` set rs" "set sockets \<inter> fst ` set us = {}"
    "distinct sockets" "distinct (map fst us)"
  shows "\<exists>rs' us' err. doUpdate_prepare E tu sockets rs us = Ok (rs', us', err) \<and> mixed E g sd n n' us' rs'
    \<and> map fst rs' = map fst rs \<and> distinct (map fst us') \<and> fst ` set us' \<subseteq> fst ` set us \<union> set sockets
    \<and> (err = None \<longrightarrow> fst ` set us' = fst ` set us \<union> set sockets)"
  using assms(2-)
proof (induction sockets arbitrary: rs us)
  case Nil
  then show ?case by simp
next
  case (Cons s sockets)
  have "s \<in> fst ` set rs" using Cons.prems(2) by simp
  then obtain t where t: "map_of rs s = Some t" by (metis map_of_eq_None_iff not_None_eq)
  have us: "map_of us s = None" using Cons.prems(3) by (simp add: map_of_eq_None_iff)
  then have rep: "rep_ok E g sd n t" using Cons.prems(1) t unfolding mixed_def by fastforce
  show ?case
  proof (cases "\<exists>e. PrepareUpdate E tu t = Fail e")
    case True
    then show ?thesis using t Cons.prems(1,5) by auto
  next
    case False
    then obtain uc t1 where p: "PrepareUpdate E tu t = Ok (uc, t1)" "prepared E g sd n n' uc t1"
      using assms(1) rep unfolding follows_def by blast
    let ?rs = "AList.update s t1 rs" and ?us = "AList.update s uc us"
    have "mixed E g sd n n' ?us ?rs" using Cons.prems(1) p(2) by (auto simp: mixed_def update_conv)
    moreover have k: "map fst ?rs = map fst rs" using \<open>s \<in> fst ` set rs\<close> by (simp add: update_keys)
    moreover have f: "fst ` set ?us = insert s (fst ` set us)" by (simp add: dom_update)
    moreover have "distinct (map fst ?us)" by (rule distinct_update [OF Cons.prems(5)])
    moreover have "set sockets \<subseteq> fst ` set ?rs" using Cons.prems(2) k by (metis insert_subset list.set_map list.simps(15))
    moreover have "set sockets \<inter> fst ` set ?us = {}" "distinct sockets" using Cons.prems(3,4) f by auto
    ultimately obtain rs' us' err where r: "doUpdate_prepare E tu sockets ?rs ?us = Ok (rs', us', err)" "mixed E g sd n n' us' rs'"
      "map fst rs' = map fst rs" "distinct (map fst us')" "fst ` set us' \<subseteq> insert s (fst ` set us) \<union> set sockets"
      "err = None \<longrightarrow> fst ` set us' = insert s (fst ` set us) \<union> set sockets"
      using Cons.IH [of ?us ?rs] unfolding f by metis
    then show ?thesis using t p(1) by auto
  qed
qed

lemma discard_all:
  assumes "distinct sockets" "set sockets \<subseteq> fst ` set rs"
    and "\<And>s t. map_of rs s = Some t \<Longrightarrow> if s \<in> set sockets then \<exists>u. map_of us s = Some u \<and> prepared E g sd n n' u t else rep_ok E g sd n t"
  shows "map fst (doUpdate_discard E sockets us rs) = map fst rs
    \<and> (\<forall>s t. map_of (doUpdate_discard E sockets us rs) s = Some t \<longrightarrow> rep_ok E g sd n t)"
  using assms
proof (induction sockets arbitrary: rs)
  case Nil
  then show ?case by (simp add: doUpdate_discard_def)
next
  case (Cons s sockets)
  have m: "s \<in> fst ` set rs" using Cons.prems(2) by simp
  then obtain t where t: "map_of rs s = Some t" by (metis map_of_eq_None_iff not_None_eq)
  then obtain u where u: "map_of us s = Some u" "prepared E g sd n n' u t" using Cons.prems(3) [OF t] by auto
  let ?rs = "AList.update s (DiscardUpdate E u t) rs"
  have k: "map fst ?rs = map fst rs" using m by (simp add: update_keys)
  have e: "doUpdate_discard E (s # sockets) us rs = doUpdate_discard E sockets us ?rs" using t u(1) by (simp add: doUpdate_discard_def)
  have "if s' \<in> set sockets then \<exists>u. map_of us s' = Some u \<and> prepared E g sd n n' u t' else rep_ok E g sd n t'"
    if "map_of ?rs s' = Some t'" for s' t'
  proof (cases "s' = s")
    case True
    then show ?thesis using that u(2) Cons.prems(1) by (simp add: update_conv prepared_def)
  next
    case False
    then show ?thesis using that Cons.prems(3) [of s' t'] by (simp add: update_conv)
  qed
  moreover have "set sockets \<subseteq> fst ` set ?rs" using Cons.prems(2) k by (metis list.set_map list.simps(15) insert_subset)
  ultimately show ?case unfolding e using Cons.IH [of ?rs] Cons.prems(1) unfolding k by simp
qed

lemma execute_all:
  assumes "same_strategies g0 g" "distinct sockets" "set sockets \<subseteq> fst ` set rs"
    and "\<And>s t. map_of rs s = Some t \<Longrightarrow> if s \<in> set sockets then \<exists>u. map_of us s = Some u \<and> prepared E g0 sd n n' u t else rep_ok E g sd n' t"
  shows "\<exists>g' rs'. doUpdate_execute E sockets us (g, rs) = Ok (g', rs') \<and> same_strategies g g' \<and> map fst rs' = map fst rs
    \<and> (\<forall>s t. map_of rs' s = Some t \<longrightarrow> rep_ok E g' sd n' t)"
  using assms
proof (induction sockets arbitrary: g rs)
  case Nil
  then show ?case by (simp add: doUpdate_execute_def)
next
  case (Cons s sockets)
  have m: "s \<in> fst ` set rs" using Cons.prems(3) by simp
  then obtain t where t: "map_of rs s = Some t" by (metis map_of_eq_None_iff not_None_eq)
  then obtain u where u: "map_of us s = Some u" "prepared E g0 sd n n' u t" using Cons.prems(4) [OF t] by auto
  obtain g1 t1 where x: "ExecuteUpdate E u (g, t) = Ok (g1, t1)" "same_strategies g g1" "rep_ok E g1 sd n' t1"
    using u(2) Cons.prems(1) unfolding prepared_def by blast
  let ?rs = "AList.update s t1 rs"
  have k: "map fst ?rs = map fst rs" using m by (simp add: update_keys)
  have "if s' \<in> set sockets then \<exists>u. map_of us s' = Some u \<and> prepared E g0 sd n n' u t' else rep_ok E g1 sd n' t'"
    if "map_of ?rs s' = Some t'" for s' t'
  proof (cases "s' = s")
    case True
    then show ?thesis using that x(3) Cons.prems(2) by (simp add: update_conv)
  next
    case False
    then show ?thesis using that Cons.prems(4) [of s' t'] rep_ok_same [OF x(2)] by (auto simp: update_conv split: if_splits)
  qed
  moreover have "same_strategies g0 g1" using same_strategies_trans Cons.prems(1) x(2) by blast
  moreover have "set sockets \<subseteq> fst ` set ?rs" using Cons.prems(3) k by (metis list.set_map list.simps(15) insert_subset)
  ultimately obtain g' rs' where r: "doUpdate_execute E sockets us (g1, ?rs) = Ok (g', rs')" "same_strategies g1 g'"
    "map fst rs' = map fst ?rs" "\<forall>s t. map_of rs' s = Some t \<longrightarrow> rep_ok E g' sd n' t"
    using Cons.IH [of g1 ?rs] Cons.prems(2) by auto
  have e: "doUpdate_execute E (s # sockets) us (g, rs) = doUpdate_execute E sockets us (g1, ?rs)" using t u(1) x(1) by (simp add: doUpdate_execute_def)
  show ?case unfolding e r(1) using r(2-4) k same_strategies_trans [OF x(2)] by auto
qed

lemma doUpdate_ok:
  assumes v: "visits_all rangeR" "visits_all rangeU" and rep: "reps_ok E g sd n (replicas fib)" and f: "follows E g sd n n' tu"
    and rv: "Revert mx (u_revert tu) (fib_tree fib) = Ok tr"
  shows "(\<exists>g' rs. doUpdate E mx rangeR rangeU tu (g, fib) = Ok ((g', fib\<lparr>replicas := rs\<rparr>), None) \<and> same_strategies g g'
      \<and> reps_ok E g' sd n' rs \<and> map fst rs = map fst (replicas fib))
    \<or> (\<exists>rs e. doUpdate E mx rangeR rangeU tu (g, fib) = Ok ((g, fib\<lparr>fib_tree := tr, replicas := rs\<rparr>), Some e)
      \<and> reps_ok E g sd n rs \<and> map fst rs = map fst (replicas fib) \<and> short E (replicas fib))"
proof -
  let ?rs = "replicas fib" and ?ss = "rangeR (map fst (replicas fib))"
  have d: "distinct (map fst ?rs)" using rep by (simp add: reps_ok_def)
  have ss: "set ?ss = fst ` set ?rs" "distinct ?ss"
    using visits_all_set [OF v(1)] d v(1) by (auto simp: visits_all_def) (metis mset_eq_imp_distinct_iff)
  have "mixed E g sd n n' [] ?rs" using rep by (simp add: mixed_def reps_ok_def)
  then obtain rs us err where p: "doUpdate_prepare E tu ?ss ?rs [] = Ok (rs, us, err)" "mixed E g sd n n' us rs"
    "map fst rs = map fst ?rs" "distinct (map fst us)" "fst ` set us \<subseteq> set ?ss" "err = None \<longrightarrow> fst ` set us = set ?ss"
    using prepare_all [OF f, of "[]" ?rs ?ss] ss by auto
  let ?us = "rangeU (map fst us)"
  have u: "set ?us = fst ` set us" "distinct ?us"
    using visits_all_set [OF v(2)] p(4) v(2) by (auto simp: visits_all_def) (metis mset_eq_imp_distinct_iff)
  have k: "fst ` set rs = fst ` set ?rs" using p(3) by (metis list.set_map)
  have sub: "set ?us \<subseteq> fst ` set rs" unfolding u(1) k using p(5) unfolding ss(1) .
  show ?thesis
  proof (cases err)
    case None
    have all: "s \<in> fst ` set us" if "map_of rs s = Some t" for s t
      using p(6) None ss(1) k map_of_SomeD [OF that] by (metis fst_conv image_eqI)
    have "if s \<in> set ?us then \<exists>u. map_of us s = Some u \<and> prepared E g sd n n' u t else rep_ok E g sd n' t" if "map_of rs s = Some t" for s t
      using mixed_at(1) [OF p(2) that all [OF that]] all [OF that] unfolding u(1) by simp
    from execute_all [OF same_strategies_refl u(2) sub this] obtain g' rs' where
      "doUpdate_execute E ?us us (g, rs) = Ok (g', rs')" "same_strategies g g'" "map fst rs' = map fst rs"
      "\<forall>s t. map_of rs' s = Some t \<longrightarrow> rep_ok E g' sd n' t" by blast
    then show ?thesis using p(1,3) None d by (auto simp: doUpdate_def reps_ok_def)
  next
    case (Some e)
    have "if s \<in> set ?us then \<exists>u. map_of us s = Some u \<and> prepared E g sd n n' u t else rep_ok E g sd n t" if "map_of rs s = Some t" for s t
      using mixed_at [OF p(2) that] unfolding u(1) by simp
    note dis = discard_all [OF u(2) sub this]
    have "short E ?rs"
      using short_prepare [OF _ f equalityD1 [OF ss(1)] ss(2) p(1) [unfolded Some]] rep unfolding short_def reps_ok_def by blast
    with dis show ?thesis using p(1,3) Some d rv by (auto simp: doUpdate_def reps_ok_def)
  qed
qed

subsection \<open>The invariant of the FIB\<close>

definition entries_ok :: "Strategies \<Rightarrow> (Name \<Rightarrow> EntryBody option) \<Rightarrow> bool" where
  "entries_ok g m \<longleftrightarrow> (\<forall>name b. m name = Some b \<longrightarrow>
     Validate \<lparr>e_body = b, e_Name = name\<rparr> = Ok () \<and> list_all comp_ok name \<and> entry_fits g b)"

definition fib_ok :: "('h, 'p) fib_env \<Rightarrow> (Name \<Rightarrow> EntryBody option) \<Rightarrow> Strategies \<times> ('h, 'p) Fib \<Rightarrow> bool" where
  "fib_ok E m = (\<lambda>(g, fib). tree_ok (fib_tree fib) \<and> heights_ok (t_root (fib_tree fib)) \<and> represents (t_root (fib_tree fib)) m
     \<and> entries_ok g m \<and> reps_ok E g (startDepth (fib_tree fib)) (t_root (fib_tree fib)) (replicas fib))"

text \<open>The operations: names have components of valid types and an entry uses a strategy that is loaded.\<close>

definition op_fits :: "Strategies \<Rightarrow> fib_op \<Rightarrow> bool" where
  "op_fits g op = (case op of
      OpInsert entry \<Rightarrow> list_all comp_ok (e_Name entry)
        \<and> (\<exists>p. Strategy_Get (Strategy (e_body entry)) g = Some p \<and> sc_ids g p = Some (Strategy (e_body entry)))
    | OpErase name \<Rightarrow> list_all comp_ok name)"

definition fib_step ::
    "('h, 'p) fib_env \<Rightarrow> (int \<Rightarrow> int \<Rightarrow> int) \<Rightarrow> (NumaSocket list \<Rightarrow> NumaSocket list) \<Rightarrow> (NumaSocket list \<Rightarrow> NumaSocket list) \<Rightarrow>
     fib_op \<Rightarrow> Strategies \<times> ('h, 'p) Fib \<Rightarrow> ((Strategies \<times> ('h, 'p) Fib) \<times> error option) outcome" where
  "fib_step E mx rangeR rangeU op =
     (case op of OpInsert entry \<Rightarrow> Fib_Insert E mx rangeR rangeU entry | OpErase name \<Rightarrow> Fib_Delete E mx rangeR rangeU name)"

lemma Validate_fits: "Validate entry = Ok () \<Longrightarrow> list_all comp_ok (e_Name entry) \<Longrightarrow> name_fits (e_Name entry)"
  by (auto simp: Validate_def name_fits_def split: if_splits)

lemma op_fits_entry: "op_fits g (OpInsert entry) \<Longrightarrow> Validate entry = Ok () \<Longrightarrow> entry_fits g (e_body entry)"
  by (auto simp: op_fits_def entry_fits_def Validate_def not_less Suc_le_eq split: if_splits)

lemma entries_ok_same: "same_strategies g g' \<Longrightarrow> entries_ok g m \<Longrightarrow> entries_ok g' m"
  using entry_fits_same [of g g'] by (auto simp: entries_ok_def)

lemma entries_ok_upd: "entries_ok g m \<Longrightarrow> (\<And>b'. b = Some b' \<Longrightarrow> Validate \<lparr>e_body = b', e_Name = name\<rparr> = Ok () \<and> list_all comp_ok name \<and> entry_fits g b') \<Longrightarrow>
    entries_ok g (m(name := b))"
  by (auto simp: entries_ok_def)

text \<open>Reverting restores the entries.\<close>

definition restored :: "(Name \<Rightarrow> EntryBody option) \<Rightarrow> nat \<Rightarrow> Tree \<Rightarrow> bool" where
  "restored m sd t \<longleftrightarrow> tree_ok t \<and> represents (t_root t) m \<and> startDepth t = sd"

lemma reinsert:
  assumes "tree_ok t" "represents (t_root t) m" "Validate \<lparr>e_body = b, e_Name = name\<rparr> = Ok ()" "list_all comp_ok name"
  shows "\<exists>tr. Revert max (RevertInsert \<lparr>e_body = b, e_Name = name\<rparr>) t = Ok tr \<and> restored (m(name \<mapsto> b)) (startDepth t) tr"
proof -
  have "op_ok (OpInsert \<lparr>e_body = b, e_Name = name\<rparr>)" using assms(3,4) by (simp add: op_ok_def)
  from tree_step_ok [OF assms(1,2) this] show ?thesis by (auto simp: tree_step_def spec_step_def Revert_def restored_def)
qed

lemma re_erase:
  assumes "tree_ok t" "represents (t_root t) m" "list_all comp_ok name"
  shows "\<exists>tr. Revert max (RevertErase name) t = Ok tr \<and> restored (m(name := None)) (startDepth t) tr"
proof -
  have "op_ok (OpErase name)" using assms(3) by (simp add: op_ok_def)
  from tree_step_ok [OF assms(1,2) this] show ?thesis by (auto simp: tree_step_def spec_step_def Revert_def restored_def)
qed

lemma revert_insert:
  assumes t: "tree_ok t'" "represents (t_root t') (m(e_Name entry \<mapsto> e_body entry))" and e: "entries_ok g m" "list_all comp_ok (e_Name entry)"
    and r: "rv = (case m (e_Name entry) of None \<Rightarrow> RevertErase (e_Name entry)
       | Some b \<Rightarrow> if b = e_body entry then RevertNil else RevertInsert \<lparr>e_body = b, e_Name = e_Name entry\<rparr>)"
  shows "\<exists>tr. Revert max rv t' = Ok tr \<and> restored m (startDepth t') tr"
proof (cases "m (e_Name entry)")
  case None
  then have "m(e_Name entry := None) = m" by (simp add: fun_upd_idem_iff)
  then show ?thesis using re_erase [OF t e(2)] r None by simp
next
  case (Some b)
  show ?thesis
  proof (cases "b = e_body entry")
    case True
    then show ?thesis using r Some t by (simp add: Revert_def restored_def fun_upd_idem)
  next
    case False
    have "Validate \<lparr>e_body = b, e_Name = e_Name entry\<rparr> = Ok ()" using e(1) Some by (simp add: entries_ok_def)
    from reinsert [OF t this e(2)] show ?thesis using r Some False by (simp add: fun_upd_idem)
  qed
qed

lemma revert_erase:
  assumes t: "tree_ok t'" "represents (t_root t') (m(name := None))" and e: "entries_ok g m" "list_all comp_ok name"
    and r: "rv = (case m name of None \<Rightarrow> RevertNil | Some b \<Rightarrow> RevertInsert \<lparr>e_body = b, e_Name = name\<rparr>)"
  shows "\<exists>tr. Revert max rv t' = Ok tr \<and> restored m (startDepth t') tr"
proof (cases "m name")
  case None
  then show ?thesis using r t by (simp add: Revert_def restored_def fun_upd_idem)
next
  case (Some b)
  have "Validate \<lparr>e_body = b, e_Name = name\<rparr> = Ok ()" using e(1) Some by (simp add: entries_ok_def)
  from reinsert [OF t this e(2)] show ?thesis using r Some by (simp add: fun_upd_idem)
qed

text \<open>The outcome of an operation in a state \<open>s\<close> that represents \<open>m\<close>: success with the new map, or an error with the old one
  and replicas of the old tree.\<close>

definition step_result ::
    "('h, 'p) fib_env \<Rightarrow> bool \<Rightarrow> (Name \<Rightarrow> EntryBody option) \<Rightarrow> (Name \<Rightarrow> EntryBody option) \<Rightarrow> Strategies \<times> ('h, 'p) Fib \<Rightarrow>
     ((Strategies \<times> ('h, 'p) Fib) \<times> error option) outcome \<Rightarrow> bool" where
  "step_result E valid m m' s res \<longleftrightarrow>
     (\<exists>g' fib'. res = Ok ((g', fib'), None) \<and> same_strategies (fst s) g' \<and> fib_ok E m' (g', fib')
        \<and> map fst (replicas fib') = map fst (replicas (snd s)))
   \<or> (\<exists>fib' e. res = Ok ((fst s, fib'), Some e) \<and> restored m (startDepth (fib_tree (snd s))) (fib_tree fib')
        \<and> reps_ok E (fst s) (startDepth (fib_tree (snd s))) (t_root (fib_tree (snd s))) (replicas fib')
        \<and> map fst (replicas fib') = map fst (replicas (snd s)) \<and> (valid \<longrightarrow> short E (replicas (snd s))))"

lemma update_result:
  assumes laws: "lfht_laws E" "mempool_laws E" and v: "visits_all rangeR" "visits_all rangeU" and ok: "fib_ok E m (g, fib)"
    and t': "tree_ok t'" "heights_ok (t_root t')" "startDepth t' = startDepth (fib_tree fib)" "represents (t_root t') m'" "entries_ok g m'"
    and d: "described (startDepth (fib_tree fib)) name b (t_root (fib_tree fib)) (t_root t') tu" "name_fits name"
      "\<And>body. b = Some body \<Longrightarrow> entry_fits g body"
    and rv: "\<exists>tr. Revert mx (u_revert tu) t' = Ok tr \<and> restored m (startDepth t') tr"
  shows "step_result E True m m' (g, fib) (doUpdate E mx rangeR rangeU tu (g, fib\<lparr>fib_tree := t'\<rparr>))"
proof -
  let ?sd = "startDepth (fib_tree fib)" and ?n = "t_root (fib_tree fib)" and ?n' = "t_root t'"
  have o: "tree_ok (fib_tree fib)" "heights_ok ?n" "reps_ok E g ?sd ?n (replicas fib)" using ok by (simp_all add: fib_ok_def)
  have h: "heights_fit ?n" "heights_fit ?n'" using heights_fit o(1,2) t'(1,2) by (simp_all add: tree_ok_def)
  have f: "follows E g ?sd ?n ?n' tu" unfolding follows_def using replica_prepare [OF laws _ d(1,2) h d(3)] by blast
  obtain tr where tr: "Revert mx (u_revert tu) t' = Ok tr" "restored m (startDepth t') tr" using rv by blast
  have "reps_ok E g ?sd ?n (replicas (fib\<lparr>fib_tree := t'\<rparr>))" "Revert mx (u_revert tu) (fib_tree (fib\<lparr>fib_tree := t'\<rparr>)) = Ok tr"
    using o(3) tr(1) by simp_all
  from doUpdate_ok [OF v this(1) f this(2)] show ?thesis
  proof (elim disjE exE conjE)
    fix g' rs
    assume "doUpdate E mx rangeR rangeU tu (g, fib\<lparr>fib_tree := t'\<rparr>) = Ok ((g', fib\<lparr>fib_tree := t'\<rparr>\<lparr>replicas := rs\<rparr>), None)"
      "same_strategies g g'" "reps_ok E g' ?sd ?n' rs" "map fst rs = map fst (replicas (fib\<lparr>fib_tree := t'\<rparr>))"
    then show ?thesis using t' entries_ok_same unfolding step_result_def by (intro disjI1) (auto simp: fib_ok_def)
  next
    fix rs e
    assume "doUpdate E mx rangeR rangeU tu (g, fib\<lparr>fib_tree := t'\<rparr>) = Ok ((g, fib\<lparr>fib_tree := t', fib_tree := tr, replicas := rs\<rparr>), Some e)"
      "reps_ok E g ?sd ?n rs" "map fst rs = map fst (replicas (fib\<lparr>fib_tree := t'\<rparr>))" "short E (replicas (fib\<lparr>fib_tree := t'\<rparr>))"
    then show ?thesis using tr(2) t'(3) unfolding step_result_def by (intro disjI2) auto
  qed
qed

lemma insert_result:
  assumes laws: "lfht_laws E" "mempool_laws E" and v: "visits_all rangeR" "visits_all rangeU" and ok: "fib_ok E m (g, fib)"
    and op: "op_fits g (OpInsert entry)" and val: "Validate entry = Ok ()"
  shows "step_result E True m (m(e_Name entry \<mapsto> e_body entry)) (g, fib) (Fib_Insert E max rangeR rangeU entry (g, fib))"
proof -
  let ?t = "fib_tree fib" and ?name = "e_Name entry"
  have o: "tree_ok ?t" "heights_ok (t_root ?t)" "represents (t_root ?t) m" "entries_ok g m" using ok by (simp_all add: fib_ok_def)
  have c: "list_all comp_ok ?name" using op by (simp add: op_fits_def)
  note fit = Validate_fits [OF val c] and ef = op_fits_entry [OF op val]
  from Insert_ok [OF val o(1)] obtain t' tu where i: "Insert max entry ?t = Ok (t', tu)" "tree_ok t'" "startDepth t' = startDepth ?t"
    "described (startDepth ?t) ?name (Some (e_body entry)) (t_root ?t) (t_root t') tu"
    "u_revert tu = (case entry_at (keys ?name) (t_root ?t) of None \<Rightarrow> RevertErase ?name
       | Some b \<Rightarrow> if b = e_body entry then RevertNil else RevertInsert \<lparr>e_body = b, e_Name = ?name\<rparr>)" by blast
  note h = Insert_heights [OF val o(1,2) fit i(1)]
  have r: "represents (t_root t') (m(?name \<mapsto> e_body entry))"
    using i(4) by (intro represents_upd [OF o(3) c]) (simp add: described_def)
  have val': "Validate \<lparr>e_body = e_body entry, e_Name = ?name\<rparr> = Ok ()" 
  proof -
    have "\<lparr>e_body = e_body entry, e_Name = ?name\<rparr> = entry" by simp
    then show ?thesis using val by (rule ssubst)
  qed
  have e: "entries_ok g (m(?name \<mapsto> e_body entry))" by (rule entries_ok_upd [OF o(4)]) (use val' c ef in auto)
  note rv = revert_insert [OF i(2) r o(4) c i(5) [unfolded represents_at [OF o(3) c]]]
  show ?thesis
    using update_result [OF laws v ok i(2) h i(3) r e i(4) fit _ rv] ef i(1) val by (simp add: Fib_Insert_def)
qed

lemma no_update_described: "described sd [] (entry_at [] n) n n no_update"
  by (simp add: described_def no_update_def)

lemma erase_result:
  assumes laws: "lfht_laws E" "mempool_laws E" and v: "visits_all rangeR" "visits_all rangeU" and ok: "fib_ok E m (g, fib)"
    and c: "list_all comp_ok name"
  shows "step_result E True m (m(name := None)) (g, fib) (Fib_Delete E max rangeR rangeU name (g, fib))"
proof -
  let ?t = "fib_tree fib"
  have o: "tree_ok ?t" "heights_ok (t_root ?t)" "represents (t_root ?t) m" "entries_ok g m" using ok by (simp_all add: fib_ok_def)
  show ?thesis
  proof (cases "m name")
    case None
    have m: "m(name := None) = m" using None by (simp add: fun_upd_idem)
    have z: "entry_at [] (t_root ?t) = m []" using represents_at [OF o(3), of "[]"] by simp
    have ev: "Erase max name ?t = (?t, no_update)" by (rule Erase_none) (simp add: represents_at [OF o(3) c] None)
    have "entry_fits g body" if "entry_at [] (t_root ?t) = Some body" for body using o(4) that z by (auto simp: entries_ok_def)
    moreover have "\<exists>tr. Revert max (u_revert no_update) ?t = Ok tr \<and> restored m (startDepth ?t) tr"
      using o by (simp add: Revert_def restored_def no_update_def)
    moreover have "name_fits []" by (simp add: name_fits_def Name_Length_def)
    ultimately show ?thesis
      using update_result [OF laws v ok o(1,2) refl o(3,4) no_update_described] unfolding m by (simp add: Fib_Delete_def ev)
  next
    case (Some b)
    then have val: "Validate \<lparr>e_body = b, e_Name = name\<rparr> = Ok ()" using o(4) by (simp add: entries_ok_def)
    note fit = Validate_fits [OF val, simplified, OF c]
    from Erase_ok [OF o(1), of name] obtain t' tu where i: "Erase max name ?t = (t', tu)" "tree_ok t'" "startDepth t' = startDepth ?t"
      "described (startDepth ?t) name None (t_root ?t) (t_root t') tu"
      "u_revert tu = (case entry_at (keys name) (t_root ?t) of None \<Rightarrow> RevertNil | Some b \<Rightarrow> RevertInsert \<lparr>e_body = b, e_Name = name\<rparr>)" by blast
    note h = Erase_heights [OF o(1,2) fit i(1)]
    have r: "represents (t_root t') (m(name := None))"
      using i(4) by (intro represents_upd [OF o(3) c]) (simp add: described_def)
    have e: "entries_ok g (m(name := None))" by (rule entries_ok_upd [OF o(4)]) simp
    note rv = revert_erase [OF i(2) r o(4) c i(5) [unfolded represents_at [OF o(3) c]]]
    show ?thesis using update_result [OF laws v ok i(2) h i(3) r e i(4) fit _ rv] i(1) by (simp add: Fib_Delete_def)
  qed
qed

definition op_valid :: "fib_op \<Rightarrow> bool" where
  "op_valid op = (case op of OpInsert entry \<Rightarrow> Validate entry = Ok () | OpErase name \<Rightarrow> True)"

lemma fib_step_result:
  assumes laws: "lfht_laws E" "mempool_laws E" and v: "visits_all rangeR" "visits_all rangeU" and ok: "fib_ok E m (g, fib)"
    and op: "op_fits g op"
  shows "step_result E (op_valid op) m (spec_step op m) (g, fib) (fib_step E max rangeR rangeU op (g, fib))"
proof (cases op)
  case (OpInsert entry)
  show ?thesis
  proof (cases "Validate entry")
    case (Ok u)
    then show ?thesis using insert_result [OF laws v ok] op OpInsert by (simp add: fib_step_def spec_step_def op_valid_def)
  next
    case (Fail e)
    then show ?thesis using ok OpInsert by (auto simp: fib_step_def Fib_Insert_def step_result_def fib_ok_def restored_def op_valid_def)
  qed (simp add: Validate_def split: if_splits)
next
  case (OpErase name)
  then show ?thesis using erase_result [OF laws v ok] op by (simp add: fib_step_def spec_step_def op_fits_def op_valid_def)
qed

subsection \<open>Runs\<close>

text \<open>
  A run interleaves operations with the goroutines that return the memory of replaced entries to the mempool after the
  grace period. It is successful when no operation returns an error.
\<close>

datatype fib_event = FibOp fib_op | FibFree NumaSocket nat

definition fib_free :: "('h, 'p) fib_env \<Rightarrow> NumaSocket \<Rightarrow> nat \<Rightarrow> ('h, 'p) Fib \<Rightarrow> ('h, 'p) Fib" where
  "fib_free E socket i fib =
     (case map_of (replicas fib) socket of
        None \<Rightarrow> fib
      | Some t \<Rightarrow> fib\<lparr>replicas := AList.update socket (freeLoop_step E i t) (replicas fib)\<rparr>)"

definition fib_exec ::
    "('h, 'p) fib_env \<Rightarrow> (int \<Rightarrow> int \<Rightarrow> int) \<Rightarrow> (NumaSocket list \<Rightarrow> NumaSocket list) \<Rightarrow> (NumaSocket list \<Rightarrow> NumaSocket list) \<Rightarrow>
     Strategies \<times> ('h, 'p) Fib \<Rightarrow> fib_event \<Rightarrow> (Strategies \<times> ('h, 'p) Fib) outcome" where
  "fib_exec E mx rangeR rangeU s ev =
     (case ev of
        FibOp op \<Rightarrow> andthen (fib_step E mx rangeR rangeU op s) (\<lambda>(s', err). case err of None \<Rightarrow> Ok s' | Some e \<Rightarrow> Fail e)
      | FibFree socket i \<Rightarrow> Ok (fst s, fib_free E socket i (snd s)))"

definition spec_event :: "fib_event \<Rightarrow> (Name \<Rightarrow> EntryBody option) \<Rightarrow> Name \<Rightarrow> EntryBody option" where
  "spec_event ev m = (case ev of FibOp op \<Rightarrow> spec_step op m | FibFree _ _ \<Rightarrow> m)"

definition event_fits :: "Strategies \<Rightarrow> fib_event \<Rightarrow> bool" where
  "event_fits g ev = (case ev of FibOp op \<Rightarrow> op_fits g op | FibFree _ _ \<Rightarrow> True)"

lemma event_fits_same: "same_strategies g g' \<Longrightarrow> event_fits g' ev = event_fits g ev"
  by (auto simp: event_fits_def op_fits_def same_strategies_def Strategy_Get_def split: fib_event.splits fib_op.splits)

lemma free_ok:
  assumes laws: "mempool_laws E" and rep: "rep_ok E g sd n t"
  shows "rep_ok E g sd n (freeLoop_step E i t)"
proof (cases "i < length (t_free t)")
  case True
  let ?t = "freeLoop_step E i t"
  have t: "?t = t\<lparr>mp := mempool_put_bulk E (t_free t ! i) (mp t), t_free := take i (t_free t) @ drop (Suc i) (t_free t)\<rparr>"
    using True by (simp add: freeLoop_step_def)
  have eq: "lfht ?t = lfht t" "t_mem ?t = t_mem t" "t_startDepth ?t = t_startDepth t" by (simp_all add: t)
  have ok: "tbl_ok E t []" "slots E g t sd n" "t_startDepth t = int sd" using rep by (simp_all add: rep_ok_def)
  have "mset (mempool_avail E (mempool_put_bulk E (t_free t ! i) (mp t))) = mset (t_free t ! i) + mset (mempool_avail E (mp t))"
    using laws unfolding mempool_laws_def by blast
  moreover have "mset (concat (t_free t)) = mset (concat (take i (t_free t))) + mset (t_free t ! i) + mset (concat (drop (Suc i) (t_free t)))"
    by (subst id_take_nth_drop [OF True]) simp
  ultimately have "mset (pooled E ?t []) = mset (pooled E t [])" by (simp add: pooled_def t)
  note p = this
  have "own_ok E ?t []" by (rule pooled_mset [OF _ p]) (use ok(1) in \<open>simp_all add: tbl_ok_def addrs_def eq\<close>)
  moreover have "ht_ok E ?t" using ok(1) ht_ok_core(2) [of ?t t E] by (simp add: tbl_ok_def eq)
  moreover have "slots E g ?t sd n" using ok(2) by (simp add: slots_def look_def Fib_Get_def eq)
  ultimately show ?thesis using ok(3) by (simp add: rep_ok_def tbl_ok_def eq)
qed (simp add: freeLoop_step_def rep)

lemma fib_free_ok:
  assumes "mempool_laws E" "fib_ok E m (g, fib)"
  shows "fib_ok E m (g, fib_free E socket i fib)" "map fst (replicas (fib_free E socket i fib)) = map fst (replicas fib)"
proof -
  have "reps_ok E g sd n (AList.update socket (freeLoop_step E i t) rs)" "map fst (AList.update socket (freeLoop_step E i t) rs) = map fst rs"
    if "reps_ok E g sd n rs" "map_of rs socket = Some t" for sd n rs t
    using that free_ok [OF assms(1)] map_of_SomeD [OF that(2)]
    by (auto simp: reps_ok_def update_conv update_keys distinct_update image_iff) force
  then show "fib_ok E m (g, fib_free E socket i fib)" "map fst (replicas (fib_free E socket i fib)) = map fst (replicas fib)"
    using assms(2) by (auto simp: fib_ok_def fib_free_def split: option.splits)
qed

lemma fib_run_ok:
  assumes laws: "lfht_laws E" "mempool_laws E" and v: "visits_all rangeR" "visits_all rangeU"
    and "fib_ok E m (g, fib)" "list_all (event_fits g) evs" "forRange (fib_exec E max rangeR rangeU) (g, fib) evs = Ok (g', fib')"
  shows "fib_ok E (fold spec_event evs m) (g', fib') \<and> same_strategies g g' \<and> map fst (replicas fib') = map fst (replicas fib)"
  using assms(5-)
proof (induction evs arbitrary: m g fib)
  case Nil
  then show ?case by simp
next
  case (Cons ev evs)
  obtain g1 fib1 where x: "fib_exec E max rangeR rangeU (g, fib) ev = Ok (g1, fib1)"
    "forRange (fib_exec E max rangeR rangeU) (g1, fib1) evs = Ok (g', fib')" using Cons.prems(3) by auto
  have s: "fib_ok E (spec_event ev m) (g1, fib1) \<and> same_strategies g g1 \<and> map fst (replicas fib1) = map fst (replicas fib)"
  proof (cases ev)
    case (FibOp op)
    then have "op_fits g op" using Cons.prems(2) by (simp add: event_fits_def)
    from fib_step_result [OF laws v Cons.prems(1) this] show ?thesis
      using x(1) FibOp by (auto simp: step_result_def fib_exec_def spec_event_def)
  next
    case (FibFree socket i)
    then show ?thesis using x(1) fib_free_ok [OF laws(2) Cons.prems(1), of socket i] by (auto simp: fib_exec_def spec_event_def)
  qed
  have "list_all (event_fits g1) evs" using Cons.prems(2) s event_fits_same by (auto simp: list_all_iff)
  from Cons.IH [OF conjunct1 [OF s] this x(2)] show ?case using s same_strategies_trans by auto
qed

subsection \<open>The new FIB\<close>

text \<open>A new mempool has distinct objects, and a new hash table is empty.\<close>

definition new_laws :: "('h, 'p) fib_env \<Rightarrow> (int \<Rightarrow> nat \<Rightarrow> NumaSocket \<Rightarrow> ('p \<times> (nat \<Rightarrow> FibEntry)) outcome) \<Rightarrow> (int \<Rightarrow> 'h option) \<Rightarrow> bool" where
  "new_laws E mempool_New cds_lfht_new \<longleftrightarrow>
     (\<forall>c nd s p m. mempool_New c nd s = Ok (p, m) \<longrightarrow> distinct (mempool_avail E p))
   \<and> (\<forall>k ht. cds_lfht_new k = Some ht \<longrightarrow> lfht_nodes E ht = {})"

lemma height_newNode: "height_at q newNode = 0"
  by (cases q) (simp_all add: height_at_def newNode_def)

lemma Table_New_ok:
  assumes laws: "lfht_laws E" "new_laws E mempool_New cds_lfht_new"
    and new: "Table_New MinInt MaxInt mempool_New cds_lfht_new seed cfg nd socket = Ok t"
    and sd: "StartDepth (ApplyDefaults MinInt MaxInt cfg) = int sd"
  shows "rep_ok E g sd newNode t"
proof -
  have e: "lfht_nodes E (lfht t) = {}" and p: "distinct (mempool_avail E (mp t))" "t_free t = []" "t_startDepth t = int sd"
    using new laws(2) sd unfolding new_laws_def by (simp_all add: Table_New_def Let_def split: option.splits) (auto, metis)
  have a: "addrs E t = {}" by (simp add: addrs_def e)
  have "look E t v = None" for v
  proof (rule ccontr)
    assume "look E t v \<noteq> None"
    then obtain x where "cds_lfht_lookup E (sip E v) (Fib_LookupMatch (t_mem t) v) (lfht t) = Some x" by (auto simp: look_def Fib_Get_def)
    moreover have "case cds_lfht_lookup E (sip E v) (Fib_LookupMatch (t_mem t) v) (lfht t) of
        Some a \<Rightarrow> (sip E v, a) \<in> lfht_nodes E (lfht t) \<and> Fib_LookupMatch (t_mem t) v a
      | None \<Rightarrow> (\<forall>a. (sip E v, a) \<in> lfht_nodes E (lfht t) \<longrightarrow> \<not> Fib_LookupMatch (t_mem t) v a)"
      using laws(1) unfolding lfht_laws_def by blast
    ultimately show False by (simp add: e)
  qed
  then have "slots E g t sd newNode" by (simp add: slots_def slot_ok_def newNode_empty hgt_def height_newNode)
  moreover have "tbl_ok E t []" using p(1,2) by (simp add: tbl_ok_def ht_ok_def own_ok_def a e owned_def pooled_def)
  ultimately show ?thesis using p(3) by (simp add: rep_ok_def)
qed

lemma StartDepth_defaults:
  "2 \<le> StartDepth (ApplyDefaults min max cfg)"
  "StartDepth (ApplyDefaults min max (ApplyDefaults min max cfg)) = StartDepth (ApplyDefaults min max cfg)"
  using clamped(2) [of "ApplyDefaults min max cfg" "StartDepth cfg"]
    clamped(2) [of "ApplyDefaults min max (ApplyDefaults min max cfg)" "StartDepth (ApplyDefaults min max cfg)"]
  by (auto simp: MinStartDepth_def ApplyDefaults_fields(2))

lemma forRange_new_replicas:
  assumes "\<And>s r. s \<in> set sockets \<Longrightarrow> mk s = Ok r \<Longrightarrow> P r" "distinct (map fst (replicas fib))" "\<forall>s t. map_of (replicas fib) s = Some t \<longrightarrow> P t"
    and "forRange (\<lambda>fib s. case mk s of Ok r \<Rightarrow> Ok (fib\<lparr>replicas := AList.update s r (replicas fib)\<rparr>)
      | Fail e \<Rightarrow> andthen (cl fib) (\<lambda>_. Fail e) | Panic \<Rightarrow> Panic) fib sockets = Ok fib'"
  shows "distinct (map fst (replicas fib')) \<and> (\<forall>s t. map_of (replicas fib') s = Some t \<longrightarrow> P t) \<and> fib_tree fib' = fib_tree fib"
  using assms
proof (induction sockets arbitrary: fib)
  case (Cons s sockets)
  then obtain r where r: "mk s = Ok r" by (cases "mk s") auto
  let ?fib = "fib\<lparr>replicas := AList.update s r (replicas fib)\<rparr>"
  have "P r" by (rule Cons.prems(1) [OF _ r]) simp
  then have d: "distinct (map fst (replicas ?fib))" "\<forall>s t. map_of (replicas ?fib) s = Some t \<longrightarrow> P t"
    using Cons.prems(2,3) by (simp_all add: distinct_update update_conv)
  have p: "P r'" if "s' \<in> set sockets" "mk s' = Ok r'" for s' r' by (rule Cons.prems(1) [OF _ that(2)]) (simp add: that(1))
  have "distinct (map fst (replicas fib')) \<and> (\<forall>s t. map_of (replicas fib') s = Some t \<longrightarrow> P t) \<and> fib_tree fib' = fib_tree ?fib"
    by (rule Cons.IH [OF p d]) (use Cons.prems(4) r in \<open>auto simp: r\<close>)
  then show ?case by simp
qed simp

lemma Fib_New_ok:
  assumes laws: "lfht_laws E" "new_laws E mempool_New cds_lfht_new"
    and new: "Fib_New E min max forEach visit1 visit2 maxNodes Sockets numaSocket
        (\<lambda>cfg nd s. Table_New min max mempool_New cds_lfht_new (seed s) cfg nd s) cfg threads g = Ok (fib, calls)"
  shows "fib_ok E Map.empty (g, fib)"
proof -
  let ?cfg = "ApplyDefaults min max cfg"
  define sd where "sd = nat (StartDepth ?cfg)"
  have sd: "StartDepth (ApplyDefaults min max ?cfg) = int sd" using StartDepth_defaults [of cfg] by (simp add: sd_def)
  have f: "distinct (map fst (replicas fib)) \<and> (\<forall>s t. map_of (replicas fib) s = Some t \<longrightarrow> rep_ok E g sd newNode t)
    \<and> fib_tree fib = fib_tree (\<lparr>fib_tree = Tree_New sd, replicas = []\<rparr> :: ('a, 'b) Fib)"
    by (rule forRange_new_replicas [where mk = "\<lambda>s. Table_New min max mempool_New cds_lfht_new (seed s) ?cfg
        (length (the (map_of (ClassifyByNumaSocket (Rewrite maxNodes Sockets 0 RewriteAnyNumaSocketFirst) numaSocket threads) s))) s"])
      (use new Table_New_ok [OF laws _ sd] in \<open>auto simp: Fib_New_def Let_def sd_def\<close>)
  have "heights_ok newNode" by (simp add: heights_ok_def below_iff [of _ newNode])
  then show ?thesis using f Tree_New_ok [of sd] by (simp add: fib_ok_def entries_ok_def reps_ok_def) (simp add: Tree_New_def)
qed

definition fib_run ::
    "('h, 'p) fib_env \<Rightarrow> (int \<Rightarrow> int \<Rightarrow> int) \<Rightarrow> (int \<Rightarrow> int \<Rightarrow> int) \<Rightarrow> (int \<Rightarrow> nat \<Rightarrow> NumaSocket \<Rightarrow> ('p \<times> (nat \<Rightarrow> FibEntry)) outcome) \<Rightarrow> (int \<Rightarrow> 'h option) \<Rightarrow>
     (NumaSocket \<Rightarrow> u32) \<Rightarrow> ('h \<Rightarrow> nat list) \<Rightarrow> (NumaSocket list \<Rightarrow> NumaSocket list) \<Rightarrow> (NumaSocket list \<Rightarrow> NumaSocket list) \<Rightarrow>
     int \<Rightarrow> NumaSocket list \<Rightarrow> ('th \<Rightarrow> NumaSocket) \<Rightarrow> Config \<Rightarrow> 'th list \<Rightarrow> fib_event list \<Rightarrow> Strategies \<Rightarrow> (Strategies \<times> ('h, 'p) Fib) outcome" where
  "fib_run E MinInt MaxInt mempool_New cds_lfht_new seed forEach rangeR rangeU maxNodes Sockets numaSocket cfg threads evs g =
     andthen (Fib_New E MinInt MaxInt forEach rangeR rangeU maxNodes Sockets numaSocket
         (\<lambda>cfg nd s. Table_New MinInt MaxInt mempool_New cds_lfht_new (seed s) cfg nd s) cfg threads g) (\<lambda>(fib, calls).
       forRange (fib_exec E MaxInt rangeR rangeU) (g, fib) evs)"

lemma fib_run_reach:
  assumes "lfht_laws E" "mempool_laws E" "new_laws E mempool_New cds_lfht_new" "visits_all rangeR" "visits_all rangeU" "list_all (event_fits g) evs"
    and "fib_run E min max mempool_New cds_lfht_new seed forEach rangeR rangeU maxNodes Sockets numaSocket cfg threads evs g = Ok (g', fib')"
  shows "fib_ok E (fold spec_event evs Map.empty) (g', fib')" "same_strategies g g'"
proof -
  obtain fib calls where new: "Fib_New E min max forEach rangeR rangeU maxNodes Sockets numaSocket
      (\<lambda>cfg nd s. Table_New min max mempool_New cds_lfht_new (seed s) cfg nd s) cfg threads g = Ok (fib, calls)"
    "forRange (fib_exec E max rangeR rangeU) (g, fib) evs = Ok (g', fib')" using assms(7) by (auto simp: fib_run_def)
  note r = fib_run_ok [OF assms(1,2,4,5) Fib_New_ok [OF assms(1,3) new(1)] assms(6) new(2)]
  then show "fib_ok E (fold spec_event evs Map.empty) (g', fib')" "same_strategies g g'" by blast+
qed

lemma longest_cong: "(\<And>j. j \<le> k \<Longrightarrow> m (take j name) = m' (take j name)) \<Longrightarrow> longest m name k = longest m' name k"
proof (induction k)
  case 0
  then show ?case using 0 [of 0] by simp
next
  case (Suc k)
  have "longest m name k = longest m' name k" by (rule Suc.IH) (simp add: Suc.prems)
  then show ?case using Suc.prems [of "Suc k"] by (simp cong: option.case_cong)
qed

lemma real_ok_Read:
  assumes "real_ok g b name e" "list_all comp_ok name"
  shows "Read g e = Ok \<lparr>e_body = b, e_Name = name\<rparr>"
proof -
  obtain p where p: "f_ptr e = PStrategy p" "sc_ids g p = Some (Strategy b)" using assms(1) by (auto simp: real_ok_def)
  then have "Strategy_ID p g = Ok (Strategy b)" by (auto simp: sc_ids_def Strategy_ID_def)
  moreover have "Name_UnmarshalBinary (take (unat (nameL e)) (nameV e)) = Ok name"
    using assms Name_Unmarshal_value by (simp add: real_ok_def entry_name_def)
  ultimately show ?thesis using assms(1) p(1) by (simp add: Read_def real_ok_def)
qed

lemma reps_Lpm:
  assumes rep: "reps_ok E g sd n rs" "(socket, t) \<in> set rs" and n: "node_ok n" "represents n m" and name: "list_all comp_ok name" "Name_Length name < 65536"
  shows "\<exists>res. Lpm E t name = Ok res \<and> (case longest m name (length name) of
      None \<Rightarrow> res = None
    | Some (nm, b) \<Rightarrow> (\<exists>r. res = Some r \<and> Read g (t_mem t r) = Ok \<lparr>e_body = b, e_Name = nm\<rparr>))"
proof -
  have t: "rep_ok E g sd n t" using rep by (auto simp: reps_ok_def)
  obtain p where p: "NewPName name = Ok p" "PName_of p name" using NewPName_ok [OF name] by blast
  have c: "list_all comp_ok (take j name)" for j using name(1) by (metis append_take_drop_id list_all_append)
  have l: "longest (\<lambda>nm. entry_at (keys nm) n) name (length name) = longest m name (length name)"
    by (rule longest_cong) (rule represents_at [OF n(2) c])
  obtain res where res: "Fib_Lpm E t p = Ok res" "found g (t_mem t) (longest m name (length name)) res"
    using Fib_Lpm_found [OF t p(2) n(1)] unfolding l by blast
  have pre: "list_all comp_ok q" if "longest m name k = Some (q, b)" for q b k
    using that c [of "Suc _"] by (induction k) (auto split: option.splits)
  show ?thesis
  proof (cases "longest m name (length name)")
    case None
    then show ?thesis using p(1) res by (simp add: Lpm_def)
  next
    case (Some qb)
    then obtain q b where qb: "longest m name (length name) = Some (q, b)" by (cases qb) auto
    then obtain r where r: "res = Some r" "real_ok g b q (t_mem t r)" using res(2) by auto
    show ?thesis using p(1) res(1) qb r(1) real_ok_Read [OF r(2) pre [OF qb]] by (simp add: Lpm_def)
  qed
qed

definition answers :: "('h, 'p) fib_env \<Rightarrow> Strategies \<Rightarrow> (Name \<Rightarrow> EntryBody option) \<Rightarrow> ('h, 'p) Table \<Rightarrow> bool" where
  "answers E g m t \<longleftrightarrow> (\<forall>name. list_all comp_ok name \<and> Name_Length name < 65536 \<longrightarrow>
     (\<exists>res. Lpm E t name = Ok res \<and> (case longest m name (length name) of
         None \<Rightarrow> res = None
       | Some (nm, b) \<Rightarrow> (\<exists>r. res = Some r \<and> Read g (t_mem t r) = Ok \<lparr>e_body = b, e_Name = nm\<rparr>))))"

lemma reps_answers: "reps_ok E g sd n rs \<Longrightarrow> node_ok n \<Longrightarrow> represents n m \<Longrightarrow> (socket, t) \<in> set rs \<Longrightarrow> answers E g m t"
  unfolding answers_def using reps_Lpm by blast

text \<open>C1 (Fib_Lpm_longest_match): after any successful run of insertions and erasures, interleaved with the release of
  replaced entries, and whatever the order in which the loops visit the replicas, a longest prefix match on any replica
  returns the entry of the longest prefix that the abstract map holds, with its nexthops and its strategy, or nothing
  when no prefix is in the map.\<close>

theorem Fib_Lpm_longest_match:
  assumes "lfht_laws E" "mempool_laws E" "new_laws E mempool_New cds_lfht_new" "visits_all rangeR" "visits_all rangeU" "MinInt = min" "MaxInt = max"
    and "list_all (event_fits g) evs"
    and "fib_run E MinInt MaxInt mempool_New cds_lfht_new seed forEach rangeR rangeU maxNodes Sockets numaSocket cfg threads evs g = Ok (g', fib)"
    and "(socket, t) \<in> set (replicas fib)" "list_all comp_ok name" "Name_Length name < 65536"
  shows "\<exists>res. Lpm E t name = Ok res \<and> (case longest (fold spec_event evs Map.empty) name (length name) of
      None \<Rightarrow> res = None
    | Some (nm, b) \<Rightarrow> (\<exists>r. res = Some r \<and> Read g' (t_mem t r) = Ok \<lparr>e_body = b, e_Name = nm\<rparr>))"
proof -
  have ok: "fib_ok E (fold spec_event evs Map.empty) (g', fib)" by (rule fib_run_reach(1) [OF assms(1-5,8) assms(9) [unfolded assms(6,7)]])
  then show ?thesis by (intro reps_Lpm [OF _ assms(10) _ _ assms(11,12)]) (auto simp: fib_ok_def tree_ok_def)
qed



end
