(* ===== verification/Fib_Sample.thy ===== *)
theory Fib_Sample
  imports Fib_Spec
begin

text \<open>
  The FIB on list-based containers, on which runs can be evaluated: the laws hold for them, the theorems on the FIB
  apply, and three behaviours of the code show up in short runs.
\<close>

definition list_env :: "((u64 \<times> nat) list, nat list) fib_env" where
  "list_env = \<lparr>
     cds_lfht_lookup = (\<lambda>h P ht. map_option snd (List.find (\<lambda>(k, a). k = h \<and> P a) ht)),
     cds_lfht_add_replace = (\<lambda>h P a ht. (h, a) # (case List.find (\<lambda>(k, a). k = h \<and> P a) ht of None \<Rightarrow> ht | Some x \<Rightarrow> filter (\<lambda>y. y \<noteq> x) ht)),
     cds_lfht_del = (\<lambda>a ht. if a \<in> set (map snd ht) then Some (filter (\<lambda>x. snd x \<noteq> a) ht) else None),
     lfht_nodes = set,
     mempool_get_bulk = (\<lambda>n p. if n \<le> length p then Some (take n p, drop n p) else None),
     mempool_put_bulk = (\<lambda>xs p. xs @ p),
     mempool_avail = (\<lambda>p. p),
     sip = (\<lambda>v. of_nat (length v))\<rparr>"

definition list_pool :: "nat \<Rightarrow> int \<Rightarrow> nat \<Rightarrow> NumaSocket \<Rightarrow> (nat list \<times> (nat \<Rightarrow> FibEntry)) outcome" where
  "list_pool k = (\<lambda>_ nd _. Ok ([0..<k], \<lambda>_. zero_FibEntry nd))"

definition sample_strategies :: Strategies where
  "sample_strategies = fst (makeStrategyCode ''s'' True 0 7 Strategies_init)"

definition sample_socket :: NumaSocket where
  "sample_socket = \<lparr>ns_v = 1\<rparr>"

definition sample_run :: "nat \<Rightarrow> fib_event list \<Rightarrow> (Strategies \<times> ((u64 \<times> nat) list, nat list) Fib) outcome" where
  "sample_run k evs = fib_run list_env min max (list_pool k) (\<lambda>_. Some []) (\<lambda>_. 0) (map snd) (\<lambda>xs. xs) (\<lambda>xs. xs) 32 [sample_socket] (\<lambda>s. s)
     \<lparr>Capacity = 0, NBuckets = 0, StartDepth = 2\<rparr> [sample_socket] evs sample_strategies"

lemma list_find:
  "(\<exists>a. List.find (\<lambda>(k, a). k = h \<and> P a) ht = Some (h, a) \<and> (h, a) \<in> set ht \<and> P a)
   \<or> List.find (\<lambda>(k, a). k = h \<and> P a) ht = None \<and> (\<forall>a. (h, a) \<in> set ht \<longrightarrow> \<not> P a)"
  by (induction ht) auto

lemma list_env_laws: "lfht_laws list_env" "mempool_laws list_env" "new_laws list_env (list_pool k) (\<lambda>_. Some [])"
proof -
  show "mempool_laws list_env" by (simp add: mempool_laws_def list_env_def flip: mset_append)
  show "new_laws list_env (list_pool k) (\<lambda>_. Some [])" by (auto simp: new_laws_def list_env_def list_pool_def)
  show "lfht_laws list_env" unfolding lfht_laws_def
  proof (intro conjI allI impI)
    fix h P and ht :: "(u64 \<times> nat) list"
    show "case cds_lfht_lookup list_env h P ht of None \<Rightarrow> \<forall>a. (h, a) \<in> lfht_nodes list_env ht \<longrightarrow> \<not> P a
      | Some a \<Rightarrow> (h, a) \<in> lfht_nodes list_env ht \<and> P a"
      using list_find [of h P ht] by (auto simp: list_env_def)
    fix a
    show "lfht_nodes list_env (cds_lfht_add_replace list_env h P a ht) = insert (h, a)
        (case cds_lfht_lookup list_env h P ht of None \<Rightarrow> lfht_nodes list_env ht | Some b \<Rightarrow> lfht_nodes list_env ht - {(h, b)})"
      using list_find [of h P ht] by (auto simp: list_env_def)
  next
    fix a and ht :: "(u64 \<times> nat) list"
    assume "a \<in> snd ` lfht_nodes list_env ht"
    then show "\<exists>ht'. cds_lfht_del list_env a ht = Some ht' \<and> lfht_nodes list_env ht' = {x \<in> lfht_nodes list_env ht. snd x \<noteq> a}"
      by (simp add: list_env_def)
  qed
qed

lemma visits_id: "visits_all (\<lambda>xs. xs)"
  by (simp add: visits_all_def)

lemma sample_new:
  "\<exists>fib t. sample_run k [] = Ok (sample_strategies, fib) \<and> replicas fib = [(sample_socket, t)] \<and> mp t = [0..<k]"
  by (simp add: sample_run_def fib_run_def Fib_New_def Let_def ClassifyByNumaSocket_def Rewrite_def IsAny_def sample_socket_def
      Table_New_def list_pool_def)

lemma sample_fits: "k \<le> 100 \<Longrightarrow> op_fits sample_strategies (OpInsert (sample_entry k))" "k \<le> 100 \<Longrightarrow> op_valid (OpInsert (sample_entry k))"
  using sample_entry_ok [of k]
  by (auto simp: op_fits_def op_ok_def op_valid_def sample_strategies_def makeStrategyCode_def Strategies_init_def Strategy_Get_def sc_ids_def
      sample_entry_def signed_take_bit_int_eq_self)

lemma sample_reach:
  assumes "list_all (event_fits sample_strategies) evs" "sample_run k evs = Ok (g, fib)"
  shows "fib_ok list_env (fold spec_event evs Map.empty) (g, fib)" "same_strategies sample_strategies g"
  using fib_run_reach [OF list_env_laws visits_id visits_id assms(1)] assms(2) unfolding sample_run_def by blast+

lemma sample_insert:
  "\<exists>g fib. sample_run 9 [FibOp (OpInsert (sample_entry 3))] = Ok (g, fib) \<and> map fst (replicas fib) = [sample_socket]"
proof -
  obtain fib t where n: "sample_run 9 [] = Ok (sample_strategies, fib)" "replicas fib = [(sample_socket, t)]" "mp t = [0..<9]" using sample_new [of 9] by blast
  have ok: "fib_ok list_env Map.empty (sample_strategies, fib)" using sample_reach(1) [of "[]"] n(1) by simp
  have ns: "\<not> short list_env (replicas fib)" by (simp add: short_def n(2,3) list_env_def)
  have op: "op_fits sample_strategies (OpInsert (sample_entry 3))" "op_valid (OpInsert (sample_entry 3))" using sample_fits [of 3] by simp_all
  obtain g' fib' where s: "fib_step list_env max (\<lambda>xs. xs) (\<lambda>xs. xs) (OpInsert (sample_entry 3)) (sample_strategies, fib) = Ok ((g', fib'), None)"
    "map fst (replicas fib') = [sample_socket]"
    using fib_step_result [OF list_env_laws(1,2) visits_id visits_id ok op(1)] ns op(2) n(2) unfolding step_result_def by auto
  then have "sample_run 9 [FibOp (OpInsert (sample_entry 3))] = Ok (g', fib')" using n(1) by (auto simp: sample_run_def fib_run_def fib_exec_def)
  then show ?thesis using s(2) by (intro exI conjI)
qed

subsection \<open>Witnesses\<close>

lemma sample_list: "longest (fold spec_event [FibOp (OpInsert (sample_entry 3))] Map.empty) (replicate 5 sample_comp) 5
    = Some (replicate 3 sample_comp, e_body (sample_entry 3))"
  by (simp add: spec_event_def spec_step_def sample_entry_def numeral_eq_Suc)

lemma sample_name: "k \<le> 100 \<Longrightarrow> list_all comp_ok (replicate k sample_comp)" "k \<le> 100 \<Longrightarrow> Name_Length (replicate k sample_comp) < 65536"
  using sample_entry_ok [of k] Validate_Ok [of "sample_entry k"]
  by (auto simp: op_ok_def sample_entry_def list_all_iff)

theorem Fib_Lpm_longest_match_witness:
  "\<exists>g fib t r. sample_run 9 [FibOp (OpInsert (sample_entry 3))] = Ok (g, fib) \<and> (sample_socket, t) \<in> set (replicas fib)
    \<and> Lpm list_env t (replicate 5 sample_comp) = Ok (Some r) \<and> Read g (t_mem t r) = Ok (sample_entry 3)"
proof -
  let ?evs = "[FibOp (OpInsert (sample_entry 3))]"
  obtain g fib where r: "sample_run 9 ?evs = Ok (g, fib)" "map fst (replicas fib) = [sample_socket]" using sample_insert by (elim exE conjE) (rule that)
  then obtain t where t: "(sample_socket, t) \<in> set (replicas fib)" by (cases "replicas fib") auto
  have f: "list_all (event_fits sample_strategies) ?evs" using sample_fits(1) [of 3] by (simp add: event_fits_def)
  have nm: "list_all comp_ok (replicate 5 sample_comp)" "Name_Length (replicate 5 sample_comp) < 65536" using sample_name [of 5] by simp_all
  have "\<exists>res. Lpm list_env t (replicate 5 sample_comp) = Ok res \<and> (case longest (fold spec_event ?evs Map.empty) (replicate 5 sample_comp) (length (replicate 5 sample_comp)) of
      None \<Rightarrow> res = None | Some (nm, b) \<Rightarrow> (\<exists>r. res = Some r \<and> Read g (t_mem t r) = Ok \<lparr>e_body = b, e_Name = nm\<rparr>))"
    by (rule Fib_Lpm_longest_match [OF list_env_laws visits_id visits_id refl refl f r(1) [unfolded sample_run_def] t nm])
  then show ?thesis using r(1) t unfolding length_replicate sample_list by (auto simp: sample_entry_def)
qed



end
