(* ===== verification/Fib_Failures.thy ===== *)
theory Fib_Failures
  imports Fib_Sample
begin

text \<open>
  Behaviours of the FIB that its comments do not promise: counters of an erased entry, references of strategies, and
  the state after an update that failed.
\<close>

subsection \<open>What updates keep of a replica\<close>

lemma allocBulk_keeps: "allocBulk E k t = Ok (xs, t') \<Longrightarrow> nDyns t' = nDyns t \<and> t_startDepth t' = t_startDepth t"
  by (auto simp: allocBulk_def Fib_AllocBulk_def split: if_splits option.splits)

lemma PrepareUpdate_keeps: "PrepareUpdate E tu t = Ok (uc, t') \<Longrightarrow> nDyns t' = nDyns t \<and> t_startDepth t' = t_startDepth t"
  using allocBulk_keeps by (fastforce simp: PrepareUpdate_def)

lemma Fib_Write_keeps: "Fib_Write E a (g, t) = Ok (g', t') \<Longrightarrow> nDyns t' = nDyns t \<and> t_startDepth t' = t_startDepth t \<and> mp t' = mp t"
  by (auto simp: Fib_Write_def next_seq_def Let_def split: if_splits option.splits)

lemma Fib_Erase_keeps: "Fib_Erase E a t = Ok t' \<Longrightarrow> nDyns t' = nDyns t \<and> t_startDepth t' = t_startDepth t \<and> mp t' = mp t"
  by (auto simp: Fib_Erase_def split: option.splits)

lemma deferredFree_keeps: "nDyns (deferredFree xs t) = nDyns t" "t_startDepth (deferredFree xs t) = t_startDepth t" "mp (deferredFree xs t) = mp t"
  by (simp_all add: deferredFree_def Let_def)

lemma realUpdate_execute_keeps: "realUpdate_execute E u xs (g, t) = Ok (g', t') \<Longrightarrow> nDyns t' = nDyns t \<and> t_startDepth t' = t_startDepth t \<and> mp t' = mp t"
  by (auto simp: realUpdate_execute_def set_mem_def deferredFree_keeps Let_def split: option.splits if_splits
      dest!: Fib_Write_keeps Fib_Erase_keeps)

lemma virtUpdate_execute_keeps: "virtUpdate_execute E u xs (g, t) = Ok (g', t') \<Longrightarrow> nDyns t' = nDyns t \<and> t_startDepth t' = t_startDepth t \<and> mp t' = mp t"
  by (auto simp: virtUpdate_execute_def set_mem_def deferredFree_keeps Let_def split: option.splits if_splits
      dest!: Fib_Write_keeps Fib_Erase_keeps)

lemma ExecuteUpdate_keeps: "ExecuteUpdate E u (g, t) = Ok (g', t') \<Longrightarrow> nDyns t' = nDyns t \<and> t_startDepth t' = t_startDepth t \<and> mp t' = mp t"
  by (auto simp: ExecuteUpdate_def Let_def split: if_splits dest!: realUpdate_execute_keeps virtUpdate_execute_keeps)

definition stable :: "('h, 'p) fib_env \<Rightarrow> (('h, 'p) Table \<Rightarrow> bool) \<Rightarrow> bool" where
  "stable E P \<longleftrightarrow> (\<forall>tu t uc t'. P t \<longrightarrow> PrepareUpdate E tu t = Ok (uc, t') \<longrightarrow> P t')
     \<and> (\<forall>uc g t g' t'. P t \<longrightarrow> ExecuteUpdate E uc (g, t) = Ok (g', t') \<longrightarrow> P t') \<and> (\<forall>uc t. P t \<longrightarrow> P (DiscardUpdate E uc t))"

definition all_reps :: "(('h, 'p) Table \<Rightarrow> bool) \<Rightarrow> (NumaSocket \<times> ('h, 'p) Table) list \<Rightarrow> bool" where
  "all_reps P rs \<longleftrightarrow> (\<forall>s t. map_of rs s = Some t \<longrightarrow> P t)"

lemma all_reps_upd: "all_reps P rs \<Longrightarrow> P t \<Longrightarrow> all_reps P (AList.update s t rs)"
  by (simp add: all_reps_def update_conv)

lemma in_reps: "s \<in> fst ` set rs \<Longrightarrow> all_reps P rs \<Longrightarrow> P (the (map_of rs s))"
  by (metis all_reps_def map_of_eq_None_iff option.exhaust_sel)

lemma keys_upd: "s \<in> fst ` set rs \<Longrightarrow> fst ` set (AList.update s t rs) = fst ` set rs"
  by (simp add: dom_update insert_absorb)

lemma prepare_stable:
  "stable E P \<Longrightarrow> all_reps P rs \<Longrightarrow> set ss \<subseteq> fst ` set rs \<Longrightarrow> doUpdate_prepare E tu ss rs us = Ok (rs', us', err) \<Longrightarrow>
   all_reps P rs' \<and> fst ` set rs' = fst ` set rs \<and> fst ` set us' \<subseteq> fst ` set us \<union> set ss"
proof (induction ss arbitrary: rs us)
  case (Cons s ss)
  have s: "s \<in> fst ` set rs" using Cons.prems(3) by simp
  show ?case
  proof (cases "PrepareUpdate E tu (the (map_of rs s))")
    case (Ok r)
    obtain uc t' where r: "r = (uc, t')" by fastforce
    have "P t'" using Cons.prems(1) in_reps [OF s Cons.prems(2)] Ok r unfolding stable_def by blast
    note u = all_reps_upd [OF Cons.prems(2) this, of s] keys_upd [OF s, of t']
    have "doUpdate_prepare E tu ss (AList.update s t' rs) (AList.update s uc us) = Ok (rs', us', err)" using Cons.prems(4) Ok r by simp
    from Cons.IH [OF Cons.prems(1) u(1) _ this] show ?thesis using Cons.prems(3) u(2) by (auto simp: dom_update)
  qed (use Cons.prems in auto)
qed auto

lemma discard_stable:
  "stable E P \<Longrightarrow> all_reps P rs \<Longrightarrow> set ss \<subseteq> fst ` set rs \<Longrightarrow> all_reps P (doUpdate_discard E ss us rs)"
proof (induction ss arbitrary: rs)
  case (Cons s ss)
  have s: "s \<in> fst ` set rs" using Cons.prems(3) by simp
  let ?t = "DiscardUpdate E (the (map_of us s)) (the (map_of rs s))"
  have "P ?t" using Cons.prems(1) in_reps [OF s Cons.prems(2)] unfolding stable_def by blast
  note u = all_reps_upd [OF Cons.prems(2) this, of s] keys_upd [OF s, of ?t]
  have "set ss \<subseteq> fst ` set (AList.update s ?t rs)" using Cons.prems(3) u(2) by simp
  from Cons.IH [OF Cons.prems(1) u(1) this] show ?case by (simp add: doUpdate_discard_def)
qed (simp add: doUpdate_discard_def)

lemma execute_stable:
  "stable E P \<Longrightarrow> all_reps P rs \<Longrightarrow> set ss \<subseteq> fst ` set rs \<Longrightarrow> doUpdate_execute E ss us (g, rs) = Ok (g', rs') \<Longrightarrow> all_reps P rs'"
proof (induction ss arbitrary: g rs)
  case (Cons s ss)
  have s: "s \<in> fst ` set rs" using Cons.prems(3) by simp
  obtain g1 t1 where x: "ExecuteUpdate E (the (map_of us s)) (g, the (map_of rs s)) = Ok (g1, t1)"
    "doUpdate_execute E ss us (g1, AList.update s t1 rs) = Ok (g', rs')" using Cons.prems(4) by (auto simp: doUpdate_execute_def)
  have "P t1" using Cons.prems(1) in_reps [OF s Cons.prems(2)] x(1) unfolding stable_def by blast
  note u = all_reps_upd [OF Cons.prems(2) this, of s] keys_upd [OF s, of t1]
  have "set ss \<subseteq> fst ` set (AList.update s t1 rs)" using Cons.prems(3) u(2) by simp
  from Cons.IH [OF Cons.prems(1) u(1) this x(2)] show ?case .
qed (simp add: doUpdate_execute_def)

lemma doUpdate_stable:
  assumes "stable E P" "visits_all rangeR" "visits_all rangeU" "all_reps P (replicas fib)"
    and "doUpdate E mx rangeR rangeU tu (g, fib) = Ok ((g', fib'), err)"
  shows "all_reps P (replicas fib')"
proof -
  let ?ss = "rangeR (map fst (replicas fib))"
  obtain rs us er where p: "doUpdate_prepare E tu ?ss (replicas fib) [] = Ok (rs, us, er)" using assms(5) by (auto simp: doUpdate_def)
  have ss: "set ?ss \<subseteq> fst ` set (replicas fib)" using visits_all_set [OF assms(2)] by simp
  note q = prepare_stable [OF assms(1,4) ss p]
  have us: "set (rangeU (map fst us)) \<subseteq> fst ` set rs" using visits_all_set [OF assms(3)] q ss by auto
  show ?thesis
  proof (cases er)
    case None
    then obtain rs' where "doUpdate_execute E (rangeU (map fst us)) us (g, rs) = Ok (g', rs')" "replicas fib' = rs'"
      using assms(5) p by (auto simp: doUpdate_def)
    then show ?thesis using execute_stable [OF assms(1) conjunct1 [OF q] us] by simp
  next
    case (Some e)
    then have "replicas fib' = doUpdate_discard E (rangeU (map fst us)) us rs" using assms(5) p by (auto simp: doUpdate_def)
    then show ?thesis using discard_stable [OF assms(1) conjunct1 [OF q] us] by simp
  qed
qed

lemma fib_step_cases:
  assumes "fib_step E mx rangeR rangeU op (g, fib) = Ok ((g', fib'), err)"
  shows "g' = g \<and> fib' = fib \<or> (\<exists>t tu. doUpdate E mx rangeR rangeU tu (g, fib\<lparr>fib_tree := t\<rparr>) = Ok ((g', fib'), err))"
proof (cases op)
  case (OpInsert entry)
  show ?thesis
  proof (cases "Validate entry")
    case (Ok u)
    then show ?thesis using assms OpInsert by (auto simp: fib_step_def Fib_Insert_def)
  qed (use assms OpInsert in \<open>auto simp: fib_step_def Fib_Insert_def\<close>)
next
  case (OpErase name)
  then show ?thesis using assms by (cases "Erase mx name (fib_tree fib)") (auto simp: fib_step_def Fib_Delete_def)
qed

lemma fib_step_stable:
  assumes "stable E P" "visits_all rangeR" "visits_all rangeU" "all_reps P (replicas fib)"
    and "fib_step E mx rangeR rangeU op (g, fib) = Ok ((g', fib'), err)"
  shows "all_reps P (replicas fib')"
  using fib_step_cases [OF assms(5)]
proof (elim disjE exE)
  fix t tu
  assume d: "doUpdate E mx rangeR rangeU tu (g, fib\<lparr>fib_tree := t\<rparr>) = Ok ((g', fib'), err)"
  show ?thesis by (rule doUpdate_stable [OF assms(1-3) _ d]) (use assms(4) in simp)
qed (use assms(4) in simp)

lemma stable_fixed: "stable E (\<lambda>t. Q (nDyns t) (t_startDepth t))"
proof -
  have "Q (nDyns t') (t_startDepth t')" if "Q (nDyns t) (t_startDepth t)" "PrepareUpdate E tu t = Ok (uc, t')" for tu t uc t' using that PrepareUpdate_keeps [OF that(2)] by simp
  moreover have "Q (nDyns t') (t_startDepth t')" if "Q (nDyns t) (t_startDepth t)" "ExecuteUpdate E uc (g, t) = Ok (g', t')" for uc g t g' t' using that ExecuteUpdate_keeps [OF that(2)] by simp
  moreover have "Q (nDyns (DiscardUpdate E uc t)) (t_startDepth (DiscardUpdate E uc t))" if "Q (nDyns t) (t_startDepth t)" for uc t using that by (simp add: DiscardUpdate_def split: option.split)
  ultimately show ?thesis unfolding stable_def by blast
qed

subsection \<open>Counters of an erased entry\<close>

lemma AccCounters_panics:
  assumes "FibEntry_GetReal (t_mem t) entry = None" "nDyns t > 0"
  shows "AccCounters entry t cnt = Panic"
proof -
  have "[0..<nDyns t] = 0 # [1..<nDyns t]" using assms(2) by (simp add: upt_conv_Cons)
  then show ?thesis using assms(1) by (simp add: AccCounters_def)
qed

lemma virtual_without_real:
  assumes rep: "rep_ok E g sd n t" and ok: "node_ok n" and rp: "represents n m" and nm: "list_all comp_ok (name @ rest)" "Name_Length name < 65536"
    and "length name = sd" "m name = None" "m (name @ rest) \<noteq> None"
  shows "\<exists>a. look E t (name_value name) = Some a \<and> FibEntry_GetReal (t_mem t) (Some a) = None"
proof -
  have c: "list_all comp_ok name" using nm(1) by simp
  have e: "entry_at (keys name) n = None" "entry_at (keys (name @ rest)) n \<noteq> None"
    using represents_at [OF rp c] represents_at [OF rp nm(1)] assms(7,8) by simp_all
  have r: "rest \<noteq> []" using assms(7,8) by auto
  have "node_at (keys (name @ rest)) n \<noteq> None" using node_exists e(2) by blast
  moreover have "sd < length (name @ rest)" using r assms(6) by simp
  ultimately have "0 < height_at (keys (take sd (name @ rest))) n" by (rule height_above [OF ok])
  then have h: "hgt sd name n > 0" using assms(6) by (simp add: hgt_def)
  have "good_name name" using c nm(2) by (simp add: good_name_def length_name_value)
  then have "slot_ok g (t_mem t) (look E t (name_value name)) name None (hgt sd name n)"
    using slots_at rep e(1) unfolding rep_ok_def by metis
  then show ?thesis using h
    by (cases "look E t (name_value name)") (auto simp: slot_ok_def FibEntry_GetReal_def virt_ok_def split: FibPtr.splits)
qed

text \<open>C34 (Counters_of_erased_entry_panics): when a name of the start depth has no entry but a longer name with this prefix
  has one, every replica holds a virtual entry without a real one under the name, and reading the counters of the entry
  that was erased dereferences the null pointer.\<close>

theorem Counters_of_erased_entry_panics:
  assumes "lfht_laws E" "mempool_laws E" "new_laws E mempool_New cds_lfht_new" "visits_all rangeR" "visits_all rangeU" "MinInt = min" "MaxInt = max"
    and "list_all (event_fits g) evs"
    and "fib_run E MinInt MaxInt mempool_New cds_lfht_new seed forEach rangeR rangeU maxNodes Sockets numaSocket cfg threads evs g = Ok (g', fib)"
    and "(socket, t) \<in> set (replicas fib)" "nDyns t > 0"
    and "list_all comp_ok (name @ rest)" "Name_Length name < 65536" "length name = startDepth (fib_tree fib)"
    and "fold spec_event evs Map.empty name = None" "fold spec_event evs Map.empty (name @ rest) \<noteq> None"
  shows "Counters E (socket # sockets) name fib = Panic"
proof -
  have ok: "fib_ok E (fold spec_event evs Map.empty) (g', fib)" by (rule fib_run_reach(1) [OF assms(1-5,8) assms(9) [unfolded assms(6,7)]])
  then have d: "distinct (map fst (replicas fib))" by (simp add: fib_ok_def reps_ok_def)
  have t: "map_of (replicas fib) socket = Some t" using assms(10) d by simp
  have "rep_ok E g' (startDepth (fib_tree fib)) (t_root (fib_tree fib)) t" using ok t by (simp add: fib_ok_def reps_ok_def)
  from virtual_without_real [OF this _ _ assms(12-16)] obtain a where
    "look E t (name_value name) = Some a" "FibEntry_GetReal (t_mem t) (Some a) = None" using ok by (auto simp: fib_ok_def tree_ok_def)
  moreover have "Get E t name = Ok (look E t (name_value name))" using assms(12,13) by (intro Get_look) simp_all
  ultimately show ?thesis using AccCounters_panics [OF _ assms(11)] t by (simp add: Counters_def)
qed

lemma sample_new':
  "\<exists>fib t. sample_run k [] = Ok (sample_strategies, fib) \<and> replicas fib = [(sample_socket, t)] \<and> mp t = [0..<k] \<and> nDyns t = 1 \<and> t_startDepth t = 2"
  by (simp add: sample_run_def fib_run_def Fib_New_def Let_def ClassifyByNumaSocket_def Rewrite_def IsAny_def sample_socket_def
      Table_New_def list_pool_def ApplyDefaults_fields(2) config_limits)

lemma sample_step:
  assumes "list_all (event_fits sample_strategies) (evs @ [FibOp op])" "sample_run k evs = Ok (g, fib)" "op_valid op" "\<not> short list_env (replicas fib)"
    and "replicas fib = [(sample_socket, t)]" "nDyns t = 1" "t_startDepth t = 2"
  shows "\<exists>g' fib' t'. sample_run k (evs @ [FibOp op]) = Ok (g', fib') \<and> replicas fib' = [(sample_socket, t')] \<and> nDyns t' = 1 \<and> t_startDepth t' = 2
    \<and> startDepth (fib_tree fib') = 2"
proof -
  have l: "list_all (event_fits sample_strategies) evs" "event_fits sample_strategies (FibOp op)" using assms(1) by simp_all
  note reach = sample_reach [OF l(1) assms(2)]
  have "op_fits g op" using l(2) event_fits_same [OF reach(2), of "FibOp op"] by (simp add: event_fits_def)
  from fib_step_result [OF list_env_laws(1,2) visits_id visits_id reach(1) this] assms(3,4)
  obtain g' fib' where s: "fib_step list_env max (\<lambda>xs. xs) (\<lambda>xs. xs) op (g, fib) = Ok ((g', fib'), None)"
    "fib_ok list_env (spec_step op (fold spec_event evs Map.empty)) (g', fib')" "map fst (replicas fib') = map fst (replicas fib)"
    unfolding step_result_def by auto
  have "all_reps (\<lambda>t. nDyns t = 1 \<and> t_startDepth t = 2) (replicas fib')"
    by (rule fib_step_stable [OF _ visits_id visits_id _ s(1)])
      (rule stable_fixed [where Q = "\<lambda>a b. a = 1 \<and> b = 2"], use assms(5-7) in \<open>simp add: all_reps_def\<close>)
  moreover obtain t' where t': "replicas fib' = [(sample_socket, t')]" using s(3) assms(5) by (cases "replicas fib'") auto
  ultimately have n: "nDyns t' = 1" "t_startDepth t' = 2" by (simp_all add: all_reps_def)
  have "int (startDepth (fib_tree fib')) = 2" using s(2) t' n(2) by (auto simp: fib_ok_def reps_ok_def rep_ok_def)
  moreover have "sample_run k (evs @ [FibOp op]) = Ok (g', fib')" using assms(2) s(1) by (auto simp: sample_run_def fib_run_def fib_exec_def)
  ultimately show ?thesis using t' n by auto
qed

theorem Counters_of_erased_entry_panics_witness:
  "\<exists>g fib t. sample_run 9 [FibOp (OpInsert (sample_entry 3))] = Ok (g, fib) \<and> Fib_Find (replicate 2 sample_comp) fib = None
    \<and> Counters list_env [sample_socket] (replicate 2 sample_comp) fib = Panic"
proof -
  let ?evs = "[FibOp (OpInsert (sample_entry 3))]" and ?name = "replicate 2 sample_comp"
  obtain fib0 t0 where n: "sample_run 9 [] = Ok (sample_strategies, fib0)" "replicas fib0 = [(sample_socket, t0)]" "mp t0 = [0..<9]"
    "nDyns t0 = 1" "t_startDepth t0 = 2" using sample_new' [of 9] by blast
  have f: "list_all (event_fits sample_strategies) ?evs" using sample_fits(1) [of 3] by (simp add: event_fits_def)
  have "\<not> short list_env (replicas fib0)" by (simp add: short_def n(2,3) list_env_def)
  moreover have "op_valid (OpInsert (sample_entry 3))" using sample_fits(2) [of 3] by simp
  ultimately obtain g fib t where
    r: "sample_run 9 ?evs = Ok (g, fib)" "replicas fib = [(sample_socket, t)]" "nDyns t = 1" "startDepth (fib_tree fib) = 2"
    using sample_step [of "[]" "OpInsert (sample_entry 3)" 9 sample_strategies fib0 t0] f n by auto
  have nm: "list_all comp_ok (?name @ [sample_comp])" "Name_Length ?name < 65536" "length ?name = startDepth (fib_tree fib)"
    using sample_name [of 2] sample_comp_ok r(4) by simp_all
  have m: "fold spec_event ?evs Map.empty ?name = None" "fold spec_event ?evs Map.empty (?name @ [sample_comp]) \<noteq> None"
    by (simp_all add: spec_event_def spec_step_def sample_entry_def numeral_eq_Suc)
  have t: "(sample_socket, t) \<in> set (replicas fib)" "nDyns t > 0" using r by simp_all
  have "Counters list_env [sample_socket] ?name fib = Panic"
    by (rule Counters_of_erased_entry_panics [OF list_env_laws visits_id visits_id refl refl f r(1) [unfolded sample_run_def] t nm m])
  moreover have "Fib_Find ?name fib = None"
    using sample_reach(1) [OF f r(1)] represents_Find [of "fib_tree fib" "fold spec_event ?evs Map.empty" ?name] nm(1) m(1) by (auto simp: fib_ok_def Fib_Find_def)
  ultimately show ?thesis using r(1) by blast
qed

subsection \<open>References of strategies\<close>

definition refs_grow :: "Strategies \<Rightarrow> Strategies \<Rightarrow> bool" where
  "refs_grow g g' \<longleftrightarrow> (\<forall>a c. sc_mem g a = Some c \<longrightarrow> (\<exists>c'. sc_mem g' a = Some c' \<and> sc_nRefs c \<le> sc_nRefs c'))"

lemma refs_grow_refl [simp]: "refs_grow g g"
  by (simp add: refs_grow_def)

lemma refs_grow_trans: "refs_grow g g' \<Longrightarrow> refs_grow g' g'' \<Longrightarrow> refs_grow g g''"
  unfolding refs_grow_def by (meson order_trans)

lemma Ref_grows: "StrategyCode_Ref p g = Ok g' \<Longrightarrow> refs_grow g g'"
  by (auto simp: StrategyCode_Ref_def refs_grow_def split: option.splits)

lemma Fib_Write_grows: "Fib_Write E a (g, t) = Ok (g', t') \<Longrightarrow> refs_grow g g'"
  by (auto simp: Fib_Write_def Let_def split: if_splits option.splits dest: Ref_grows)

lemma realUpdate_execute_grows: "realUpdate_execute E u xs (g, t) = Ok (g', t') \<Longrightarrow> refs_grow g g'"
  by (auto simp: realUpdate_execute_def Let_def split: option.splits if_splits dest: Fib_Write_grows)

lemma virtUpdate_execute_grows: "virtUpdate_execute E u xs (g, t) = Ok (g', t') \<Longrightarrow> refs_grow g g'"
  by (auto simp: virtUpdate_execute_def Let_def split: option.splits if_splits dest: Fib_Write_grows)

lemma ExecuteUpdate_grows: "ExecuteUpdate E u (g, t) = Ok (g', t') \<Longrightarrow> refs_grow g g'"
  using refs_grow_trans
  by (fastforce simp: ExecuteUpdate_def Let_def split: if_splits dest: realUpdate_execute_grows virtUpdate_execute_grows)

lemma execute_grows: "doUpdate_execute E ss us (g, rs) = Ok (g', rs') \<Longrightarrow> refs_grow g g'"
proof (induction ss arbitrary: g rs)
  case (Cons s ss)
  obtain g1 t1 where x: "ExecuteUpdate E (the (map_of us s)) (g, the (map_of rs s)) = Ok (g1, t1)"
    "doUpdate_execute E ss us (g1, AList.update s t1 rs) = Ok (g', rs')" using Cons.prems by (auto simp: doUpdate_execute_def)
  show ?case by (rule refs_grow_trans [OF ExecuteUpdate_grows [OF x(1)] Cons.IH [OF x(2)]])
qed (simp add: doUpdate_execute_def)

lemma fib_step_grows:
  assumes "fib_step E mx rangeR rangeU op (g, fib) = Ok ((g', fib'), err)"
  shows "refs_grow g g'"
  using fib_step_cases [OF assms]
proof (elim disjE exE)
  fix t tu
  assume d: "doUpdate E mx rangeR rangeU tu (g, fib\<lparr>fib_tree := t\<rparr>) = Ok ((g', fib'), err)"
  then obtain rs us er where "doUpdate_prepare E tu (rangeR (map fst (replicas fib))) (replicas fib) [] = Ok (rs, us, er)" by (auto simp: doUpdate_def)
  then show ?thesis using d by (cases er) (auto simp: doUpdate_def dest: execute_grows)
qed simp

lemma fib_run_grows: "forRange (fib_exec E mx rangeR rangeU) (g, fib) evs = Ok (g', fib') \<Longrightarrow> refs_grow g g'"
proof (induction evs arbitrary: g fib)
  case (Cons ev evs)
  obtain g1 fib1 where x: "fib_exec E mx rangeR rangeU (g, fib) ev = Ok (g1, fib1)"
    "forRange (fib_exec E mx rangeR rangeU) (g1, fib1) evs = Ok (g', fib')" using Cons.prems by auto
  have "refs_grow g g1" using x(1) by (auto simp: fib_exec_def split: fib_event.splits option.splits dest: fib_step_grows)
  then show ?case by (rule refs_grow_trans [OF _ Cons.IH [OF x(2)]])
qed simp

definition one_more :: "nat \<Rightarrow> Strategies \<Rightarrow> Strategies \<Rightarrow> bool" where
  "one_more p g g' \<longleftrightarrow> (\<forall>c. sc_mem g p = Some c \<longrightarrow> (\<exists>c'. sc_mem g' p = Some c' \<and> sc_nRefs c + 1 \<le> sc_nRefs c'))"

lemma one_more_trans: "one_more p g g' \<Longrightarrow> refs_grow g' g'' \<Longrightarrow> one_more p g g''"
  unfolding one_more_def refs_grow_def by (meson order_trans)

lemma Ref_one_more: "StrategyCode_Ref (Some p) g = Ok g' \<Longrightarrow> one_more p g g'"
  by (auto simp: StrategyCode_Ref_def one_more_def split: option.splits)

lemma Write_real_refs:
  assumes "Fib_Write E a (g, t) = Ok (g', t')" "f_height (t_mem t a) = 0" "f_ptr (t_mem t a) = PStrategy p"
  shows "one_more p g g'"
  using assms by (auto simp: Fib_Write_def Let_def split: if_splits dest: Ref_one_more)

lemma Write_virt_refs:
  assumes "Fib_Write E a (g, t) = Ok (g', t')" "f_ptr (t_mem t a) = PReal r" "r \<noteq> a \<Longrightarrow> f_ptr (t_mem t r) = PStrategy p"
  shows "one_more p g g'"
proof (cases "f_height (t_mem t a) > 0")
  case True
  then have h: "f_height (t_mem t a) \<noteq> 0" by (simp add: word_gt_0)
  have "r \<noteq> a" using assms(1) True h by (auto simp: Fib_Write_def FibEntry_GetReal_def next_seq_def Let_def assms(2) split: if_splits)
  then show ?thesis using assms True h
    by (auto simp: Fib_Write_def FibEntry_GetReal_def next_seq_def Let_def split: if_splits dest: Ref_one_more)
next
  case False
  then show ?thesis using assms(1,2) by (auto simp: Fib_Write_def Let_def StrategyCode_Ref_def split: if_splits)
qed

lemma realUpdate_execute_refs:
  assumes "realUpdate_execute E u xs (g, t) = Ok (g', t')" "ru u = Some r" "r_Action r \<noteq> ActErase" "Strategy_Get (Strategy (r_body r)) g = Some p"
  shows "one_more p g g'"
proof -
  obtain a e where a: "index xs 0 = Ok a" "assignReal g r (t_mem t a) = Ok e" using assms(1-3) by (auto simp: realUpdate_execute_def)
  have e: "f_ptr e = PStrategy p" "f_height e = 0"
    using a(2) assms(4) by (auto simp: assignReal_def copy_name_def Let_def split: if_splits)
  show ?thesis
  proof (cases "WithVirt r")
    case None
    then obtain t1 where "Fib_Write E a (g, set_mem a e t) = Ok (g', t1)" using assms(1-3) a by (auto simp: realUpdate_execute_def Let_def)
    then show ?thesis by (rule Write_real_refs) (simp_all add: set_mem_def e)
  next
    case (Some v)
    then obtain b t1 where "Fib_Write E b (g, set_mem b (assignVirt v (Some a) (t_mem (set_mem a e t) b)) (set_mem a e t)) = Ok (g', t1)"
      using assms(1-3) a by (auto simp: realUpdate_execute_def Let_def)
    then show ?thesis by (rule Write_virt_refs [where r = a]) (auto simp: set_mem_def e assignVirt_def)
  qed
qed

lemma PrepareUpdate_ru: "PrepareUpdate E tu t = Ok (uc, t') \<Longrightarrow> ru (uc_real uc) = u_real tu"
  by (cases "u_real tu") (auto simp: PrepareUpdate_def realUpdate_prepare_def split: if_splits UpdateAction.splits)

lemma prepare_ru:
  "doUpdate_prepare E tu ss rs us = Ok (rs', us', err) \<Longrightarrow> \<forall>s uc. map_of us s = Some uc \<longrightarrow> ru (uc_real uc) = u_real tu \<Longrightarrow>
   \<forall>s uc. map_of us' s = Some uc \<longrightarrow> ru (uc_real uc) = u_real tu"
proof (induction ss arbitrary: rs us)
  case (Cons s ss)
  show ?case
  proof (cases "PrepareUpdate E tu (the (map_of rs s))")
    case (Ok r)
    obtain uc t' where r: "r = (uc, t')" by fastforce
    have "\<forall>s' uc'. map_of (AList.update s uc us) s' = Some uc' \<longrightarrow> ru (uc_real uc') = u_real tu"
      using Cons.prems(2) PrepareUpdate_ru Ok r by (auto simp: update_conv)
    with Cons.IH [of "AList.update s t' rs" "AList.update s uc us"] show ?thesis using Cons.prems(1) Ok r by simp
  qed (use Cons.prems in auto)
qed auto

lemma prepare_keys:
  "doUpdate_prepare E tu ss rs us = Ok (rs', us', None) \<Longrightarrow> fst ` set us' = fst ` set us \<union> set ss"
proof (induction ss arbitrary: rs us)
  case (Cons s ss)
  obtain uc t' where "doUpdate_prepare E tu ss (AList.update s t' rs) (AList.update s uc us) = Ok (rs', us', None)"
    using Cons.prems by (auto split: outcome.splits)
  from Cons.IH [OF this] show ?case by (simp add: dom_update)
qed simp

lemma doUpdate_refs:
  assumes "doUpdate E mx rangeR rangeU tu (g, fib) = Ok ((g', fib'), None)" "visits_all rangeR" "visits_all rangeU" "replicas fib \<noteq> []"
    and "u_real tu = Some r" "r_Action r \<noteq> ActErase" "Strategy_Get (Strategy (r_body r)) g = Some p"
  shows "one_more p g g'"
proof -
  let ?ss = "rangeR (map fst (replicas fib))"
  obtain rs us where p: "doUpdate_prepare E tu ?ss (replicas fib) [] = Ok (rs, us, None)"
    using assms(1) by (auto simp: doUpdate_def split: option.splits)
  obtain rs' where x: "doUpdate_execute E (rangeU (map fst us)) us (g, rs) = Ok (g', rs')" using assms(1) p by (auto simp: doUpdate_def)
  have "set ?ss \<noteq> {}" using visits_all_set [OF assms(2)] assms(4) by simp
  then have "set (rangeU (map fst us)) \<noteq> {}" using visits_all_set [OF assms(3)] prepare_keys [OF p] by auto
  then obtain s ss where s: "rangeU (map fst us) = s # ss" by (cases "rangeU (map fst us)") auto
  then have "s \<in> fst ` set us" using visits_all_set [OF assms(3), of "map fst us"] by (metis list.set_intros(1) list.set_map)
  then obtain uc where uc: "map_of us s = Some uc" by (metis map_of_eq_None_iff not_None_eq)
  have r: "ru (uc_real uc) = Some r" using prepare_ru [OF p] uc assms(5) by simp
  obtain g1 t1 where x1: "ExecuteUpdate E uc (g, the (map_of rs s)) = Ok (g1, t1)" "doUpdate_execute E ss us (g1, AList.update s t1 rs) = Ok (g', rs')"
    using x s uc by (auto simp: doUpdate_execute_def)
  obtain g0 t0 xs ys where y: "realUpdate_execute E (uc_real uc) xs (g, the (map_of rs s)) = Ok (g0, t0)" "virtUpdate_execute E (uc_virt uc) ys (g0, t0) = Ok (g1, t1)"
    using x1(1) by (auto simp: ExecuteUpdate_def Let_def split: if_splits)
  show ?thesis
    using one_more_trans [OF one_more_trans [OF realUpdate_execute_refs [OF y(1) r assms(6,7)] virtUpdate_execute_grows [OF y(2)]] execute_grows [OF x1(2)]] .
qed



end
