(* ===== verification/Fib_Stale.thy ===== *)
theory Fib_Stale
  imports Fib_Failures
begin

text \<open>
  The state after an update that failed: the tree keeps the heights that the insertion has raised, while the virtual
  entry of the replica keeps the old one. The next insertion of the same name then sees no change of the height and
  leaves the virtual entry alone.
\<close>

subsection \<open>Updates of a FIB with one list-based replica\<close>

lemma doUpdate_single:
  assumes "replicas fib = [(s, t)]"
  shows "doUpdate E mx (\<lambda>xs. xs) (\<lambda>xs. xs) tu (g, fib) =
    (case PrepareUpdate E tu t of
       Ok (uc, t1) \<Rightarrow> andthen (ExecuteUpdate E uc (g, t1)) (\<lambda>(g', t'). Ok ((g', fib\<lparr>replicas := [(s, t')]\<rparr>), None))
     | Fail e \<Rightarrow> andthen (Revert mx (u_revert tu) (fib_tree fib)) (\<lambda>tr. Ok ((g, fib\<lparr>fib_tree := tr\<rparr>), Some e))
     | Panic \<Rightarrow> Panic)"
proof (cases "PrepareUpdate E tu t")
  case (Ok r)
  obtain uc t1 where r: "r = (uc, t1)" by fastforce
  show ?thesis
  proof (cases "ExecuteUpdate E uc (g, t1)")
    case (Ok x)
    then show ?thesis using \<open>PrepareUpdate E tu t = Ok r\<close> r assms by (cases x) (simp add: doUpdate_def doUpdate_execute_def)
  qed (use Ok r assms in \<open>simp_all add: doUpdate_def doUpdate_execute_def\<close>)
next
  case (Fail e)
  have eq: "fib\<lparr>fib_tree := tr, replicas := [(s, t)]\<rparr> = fib\<lparr>fib_tree := tr\<rparr>" for tr using assms by (metis Fib.surjective Fib.update_convs)
  show ?thesis by (simp add: doUpdate_def doUpdate_discard_def Fail assms eq)
qed (simp add: doUpdate_def assms)

definition needs :: "nat \<Rightarrow> Name \<Rightarrow> EntryBody option \<Rightarrow> node \<Rightarrow> node \<Rightarrow> nat" where
  "needs sd name b n n' = n_real (entry_at (keys name) n) b (hgt sd name n) + n_virt (old_height sd name n) (old_height sd name n')"

lemma list_alloc: "length (mp t) < k \<Longrightarrow> allocBulk list_env k t = Fail (ErrOther ''allocation failure'')"
  "k \<le> length (mp t) \<Longrightarrow> \<exists>xs t'. allocBulk list_env k t = Ok (xs, t') \<and> mp t' = drop k (mp t)"
  by (auto simp: allocBulk_def Fib_AllocBulk_def list_env_def)

lemma list_prepare:
  assumes "rep_ok list_env g sd n t" "described sd name b n n' u" "name_fits name" "heights_fit n" "heights_fit n'"
    "\<And>body. b = Some body \<Longrightarrow> entry_fits g body"
  shows "length (mp t) < needs sd name b n n' \<Longrightarrow> \<exists>e. PrepareUpdate list_env u t = Fail e"
    "needs sd name b n n' \<le> length (mp t) \<Longrightarrow>
      \<exists>uc t1. PrepareUpdate list_env u t = Ok (uc, t1) \<and> mp t1 = drop (needs sd name b n n') (mp t) \<and> prepared list_env g sd n n' uc t1"
proof -
  have "0 \<le> old_height sd name n" "0 \<le> old_height sd name n'" using old_height_bounds assms(4,5) by blast+
  note ev = PrepareUpdate_eval [OF described_cmd [OF assms(2-4)] assms(3) name_fits_take [OF assms(3)] this, of list_env t, folded needs_def]
  show "length (mp t) < needs sd name b n n' \<Longrightarrow> \<exists>e. PrepareUpdate list_env u t = Fail e" unfolding ev by (simp add: list_alloc)
  assume "needs sd name b n n' \<le> length (mp t)"
  then obtain xs t1 where "allocBulk list_env (needs sd name b n n') t = Ok (xs, t1)" "mp t1 = drop (needs sd name b n n') (mp t)"
    using list_alloc(2) by blast
  then show "\<exists>uc t1. PrepareUpdate list_env u t = Ok (uc, t1) \<and> mp t1 = drop (needs sd name b n n') (mp t) \<and> prepared list_env g sd n n' uc t1"
    using replica_prepare [OF list_env_laws(1,2) assms(1-5)] assms(6) unfolding ev by auto
qed

lemma list_update:
  assumes fib: "replicas fib = [(s, t)]" and p: "rep_ok list_env g sd n t" "described sd name b n n' u" "name_fits name" "heights_fit n" "heights_fit n'"
    "\<And>body. b = Some body \<Longrightarrow> entry_fits g body"
  shows "length (mp t) < needs sd name b n n' \<Longrightarrow> Revert mx (u_revert u) (fib_tree fib) = Ok tr \<Longrightarrow>
      \<exists>e. doUpdate list_env mx (\<lambda>xs. xs) (\<lambda>xs. xs) u (g, fib) = Ok ((g, fib\<lparr>fib_tree := tr\<rparr>), Some e)"
    "needs sd name b n n' \<le> length (mp t) \<Longrightarrow>
      \<exists>g' t'. doUpdate list_env mx (\<lambda>xs. xs) (\<lambda>xs. xs) u (g, fib) = Ok ((g', fib\<lparr>replicas := [(s, t')]\<rparr>), None)
        \<and> rep_ok list_env g' sd n' t' \<and> mp t' = drop (needs sd name b n n') (mp t) \<and> same_strategies g g'"
proof -
  show "\<exists>e. doUpdate list_env mx (\<lambda>xs. xs) (\<lambda>xs. xs) u (g, fib) = Ok ((g, fib\<lparr>fib_tree := tr\<rparr>), Some e)"
    if "length (mp t) < needs sd name b n n'" "Revert mx (u_revert u) (fib_tree fib) = Ok tr"
    using list_prepare(1) [OF p that(1)] that(2) by (auto simp: doUpdate_single [OF fib])
  assume "needs sd name b n n' \<le> length (mp t)"
  from list_prepare(2) [OF p this] obtain uc t1 where u: "PrepareUpdate list_env u t = Ok (uc, t1)" "mp t1 = drop (needs sd name b n n') (mp t)"
    "prepared list_env g sd n n' uc t1" by blast
  obtain g' t' where x: "ExecuteUpdate list_env uc (g, t1) = Ok (g', t')" "same_strategies g g'" "rep_ok list_env g' sd n' t'"
    using u(3) same_strategies_refl unfolding prepared_def by blast
  then show "\<exists>g' t'. doUpdate list_env mx (\<lambda>xs. xs) (\<lambda>xs. xs) u (g, fib) = Ok ((g', fib\<lparr>replicas := [(s, t')]\<rparr>), None)
        \<and> rep_ok list_env g' sd n' t' \<and> mp t' = drop (needs sd name b n n') (mp t) \<and> same_strategies g g'"
    using u(1,2) ExecuteUpdate_keeps [OF x(1)] by (intro exI [of _ g'] exI [of _ t']) (simp add: doUpdate_single [OF fib])
qed

subsection \<open>The trees of the run\<close>

abbreviation ck :: bytes where
  "ck \<equiv> componentToString sample_comp"

definition sample_body :: EntryBody where
  "sample_body = \<lparr>Nexthops = [1, 2], Strategy = 1\<rparr>"

text \<open>The tree with the first entry, the tree with both, the tree after the insertion of the second was reverted, and the
  tree that the replica follows when the second is inserted again.\<close>

definition chain3 :: node where
  "chain3 = Node zero_EntryBody 3 [(ck, Node zero_EntryBody 2 [(ck, Node zero_EntryBody 1 [(ck, Node sample_body 0 [])])])]"

definition chain5 :: "int \<Rightarrow> node" where
  "chain5 h = Node zero_EntryBody 5 [(ck, Node zero_EntryBody 4 [(ck, Node zero_EntryBody h [(ck, Node sample_body 2 [(ck, Node zero_EntryBody 1 [(ck, Node sample_body 0 [])])])])])]"

definition stale3 :: node where
  "stale3 = Node zero_EntryBody 5 [(ck, Node zero_EntryBody 4 [(ck, Node zero_EntryBody 3 [(ck, Node sample_body 0 [])])])]"

definition sample_real :: "nat \<Rightarrow> RealUpdate" where
  "sample_real k = \<lparr>r_body = sample_body, r_Name = replicate k sample_comp, r_Action = ActInsert, WithVirt = None\<rparr>"

lemma sample_entry_eq: "sample_entry k = \<lparr>e_body = sample_body, e_Name = replicate k sample_comp\<rparr>"
  by (simp add: sample_entry_def sample_body_def)

lemma sample_val: "k \<le> 100 \<Longrightarrow> Validate (sample_entry k) = Ok ()"
  using sample_fits(2) [of k] by (simp add: op_valid_def)

lemma sample_names: "replicate 3 sample_comp = [sample_comp, sample_comp, sample_comp]"
  "replicate 5 sample_comp = [sample_comp, sample_comp, sample_comp, sample_comp, sample_comp]"
  by (simp_all add: numeral_eq_Suc)

lemmas tree_eval = Let_def addChild_def removeChild_def updateHeight_def isEntry_def newNode_def EntryBody_Equals_iff
  chain3_def chain5_def stale3_def sample_names zero_EntryBody_def sample_body_def

lemma insert3: "\<exists>u. Insert max (sample_entry 3) (Tree_New 2) = Ok (\<lparr>t_root = chain3, startDepth = 2, nNodes = 4, nEntries = 1\<rparr>, u)"
  using sample_val [of 3] unfolding Insert_def Tree_New_def sample_entry_eq by (simp add: tree_eval)

lemma insert5:
  "\<exists>u. Insert max (sample_entry 5) \<lparr>t_root = chain3, startDepth = 2, nNodes = 4, nEntries = 1\<rparr>
    = Ok (\<lparr>t_root = chain5 3, startDepth = 2, nNodes = 6, nEntries = 2\<rparr>, u) \<and> u_revert u = RevertErase (replicate 5 sample_comp)"
  using sample_val [of 5] unfolding Insert_def sample_entry_eq by (simp add: tree_eval)

lemma erase5:
  "fst (Erase max (replicate 5 sample_comp) \<lparr>t_root = chain5 3, startDepth = 2, nNodes = 6, nEntries = 2\<rparr>)
    = \<lparr>t_root = stale3, startDepth = 2, nNodes = 4, nEntries = 1\<rparr>"
  unfolding Erase_def by (simp add: tree_eval)

lemma insert5':
  "\<exists>u. Insert max (sample_entry 5) \<lparr>t_root = stale3, startDepth = 2, nNodes = 4, nEntries = 1\<rparr>
    = Ok (\<lparr>t_root = chain5 3, startDepth = 2, nNodes = 6, nEntries = 2\<rparr>, u) \<and> u_real u = Some (sample_real 5) \<and> u_virt u = None"
  using sample_val [of 5] unfolding Insert_def sample_entry_eq by (simp add: tree_eval sample_real_def)

lemma entry_at_single: "entry_at q (Node b h [(k, c)]) =
    (case q of [] \<Rightarrow> if length (Nexthops b) > 0 then Some b else None | k' # q' \<Rightarrow> if k' = k then entry_at q' c else None)"
  by (cases q) (auto simp: entry_at_def isEntry_def)

lemma entry_at_leaf: "entry_at q (Node b h []) = (if q = [] \<and> length (Nexthops b) > 0 then Some b else None)"
  by (cases q) (auto simp: entry_at_def isEntry_def)

lemma height_at_single: "height_at q (Node b h [(k, c)]) = (case q of [] \<Rightarrow> h | k' # q' \<Rightarrow> if k' = k then height_at q' c else 0)"
  by (cases q) (auto simp: height_at_def)

lemma height_at_leaf: "height_at q (Node b h []) = (if q = [] then h else 0)"
  by (cases q) (auto simp: height_at_def)

lemma heights_fit_single: "0 \<le> h \<Longrightarrow> h \<le> 255 \<Longrightarrow> heights_fit c \<Longrightarrow> heights_fit (Node b h [(k, c)])"
  by (auto simp: heights_fit_def height_at_single split: list.split)

lemma heights_fit_leaf: "0 \<le> h \<Longrightarrow> h \<le> 255 \<Longrightarrow> heights_fit (Node b h [])"
  by (auto simp: heights_fit_def height_at_leaf)

lemma chains_fit: "heights_fit chain3" "0 \<le> h \<Longrightarrow> h \<le> 255 \<Longrightarrow> heights_fit (chain5 h)"
  unfolding chain3_def chain5_def by (intro heights_fit_single heights_fit_leaf; simp)+

lemmas chain_at = entry_at_single entry_at_leaf height_at_single height_at_leaf

lemma chain_values:
  "height_at [ck, ck] chain3 = 1" "height_at [ck, ck] (chain5 h) = h" "entry_at [ck, ck] chain3 = None" "entry_at [ck, ck] (chain5 h) = None"
  "entry_at [ck, ck, ck, ck, ck] chain3 = None" "entry_at [ck, ck, ck] (chain5 h) = Some sample_body"
  by (simp_all add: chain3_def chain5_def chain_at zero_EntryBody_def sample_body_def)

text \<open>The second insertion describes the step of the replica from the old tree to a tree whose height at the start depth is
  the old one.\<close>

lemma described_stale:
  assumes "u_real u = Some (sample_real 5)" "u_virt u = None"
  shows "described 2 (replicate 5 sample_comp) (Some sample_body) chain3 (chain5 1) u"
  unfolding described_def
proof (intro conjI allI impI)
  fix q
  show "entry_at q (chain5 1) = (if q = keys (replicate 5 sample_comp) then Some sample_body else entry_at q chain3)"
    by (auto simp: sample_names chain3_def chain5_def chain_at zero_EntryBody_def sample_body_def split: list.splits)
  assume "length q = 2 \<and> (q \<noteq> keys (take 2 (replicate 5 sample_comp)) \<or> length (replicate 5 sample_comp) \<le> 2)"
  then show "height_at q (chain5 1) = height_at q chain3"
    by (auto simp: sample_names chain3_def chain5_def chain_at split: list.splits)
qed (simp_all add: assms sample_names chain3_def chain5_def chain_at real_act_def sample_real_def)

lemma stale_Lpm:
  assumes "rep_ok list_env g 2 (chain5 1) t"
  shows "\<exists>r. Lpm list_env t (replicate 5 sample_comp) = Ok (Some r) \<and> Read g (t_mem t r) = Ok (sample_entry 3)"
proof -
  let ?name = "replicate 5 sample_comp"
  have nm: "list_all comp_ok ?name" "Name_Length ?name < 65536" using sample_name [of 5] by simp_all
  obtain p where p: "NewPName ?name = Ok p" "PName_of p ?name" using NewPName_ok [OF nm] by blast
  have s: "slots list_env g t 2 (chain5 1)" "t_startDepth t = 2" using assms by (simp_all add: rep_ok_def)
  have le: "2 \<le> length ?name" "3 \<le> length ?name" by simp_all
  note gp = get_by_prefix [OF s(1) p(2) le(1)]
  have e: "entry_at (keys (take 2 ?name)) (chain5 1) = None" "hgt 2 (take 2 ?name) (chain5 1) = 1"
    by (simp_all add: hgt_def sample_names chain5_def chain_at zero_EntryBody_def)
  obtain a where a: "look list_env t (name_value (take 2 ?name)) = Some a" "uint (f_height (t_mem t a)) = 1"
    using gp(2) unfolding e by (auto simp: slot_ok_def virt_ok_def split: option.splits)
  have pos: "f_height (t_mem t a) > 0" using a(2) by (auto simp: word_gt_0)
  have l: "longest (\<lambda>nm. entry_at (keys nm) (chain5 1)) ?name 3 = Some (replicate 3 sample_comp, sample_body)"
    by (rule longest_hit [of _ 3 ?name, unfolded take_replicate, simplified]) (simp add: sample_names chain5_def chain_at sample_body_def)
  obtain res where res: "Fib_Lpm_loop list_env t p 3 = Ok res" "found g (t_mem t) (Some (replicate 3 sample_comp, sample_body)) res"
    using Lpm_loop_found [OF s(1) p(2) le(2)] unfolding l by blast
  then obtain r where r: "res = Some r" "real_ok g sample_body (replicate 3 sample_comp) (t_mem t r)" by auto
  have "Fib_Lpm list_env t p = Ok (Some r)"
    using PName_of_simps(1) [OF p(2)] gp(1) a pos res(1) r(1) by (simp add: Fib_Lpm_def s(2))
  moreover have "Read g (t_mem t r) = Ok (sample_entry 3)"
    using real_ok_Read [OF r(2)] sample_name(1) [of 3] by (simp add: sample_entry_eq)
  ultimately show ?thesis using p(1) by (simp add: Lpm_def)
qed

lemma sample_new_tree:
  "\<exists>fib t. sample_run k [] = Ok (sample_strategies, fib) \<and> replicas fib = [(sample_socket, t)] \<and> mp t = [0..<k] \<and> fib_tree fib = Tree_New 2"
  by (simp add: sample_run_def fib_run_def Fib_New_def Let_def ClassifyByNumaSocket_def Rewrite_def IsAny_def sample_socket_def
      Table_New_def list_pool_def ApplyDefaults_fields(2) config_limits)

lemma sample_body_fits: "same_strategies sample_strategies g \<Longrightarrow> entry_fits g sample_body"
  using op_fits_entry [OF sample_fits(1) [of 3] sample_val [of 3]] entry_fits_same [of sample_strategies g] by (simp add: sample_entry_eq)

lemma sample_name_fits: "k \<le> 100 \<Longrightarrow> name_fits (replicate k sample_comp)"
  using Validate_fits [OF sample_val [of k]] sample_name(1) [of k] by (simp add: sample_entry_eq)

abbreviation tree1 :: Tree where
  "tree1 \<equiv> \<lparr>t_root = chain3, startDepth = 2, nNodes = 4, nEntries = 1\<rparr>"

abbreviation tree2 :: Tree where
  "tree2 \<equiv> \<lparr>t_root = stale3, startDepth = 2, nNodes = 4, nEntries = 1\<rparr>"

abbreviation tree3 :: Tree where
  "tree3 \<equiv> \<lparr>t_root = chain5 3, startDepth = 2, nNodes = 6, nEntries = 2\<rparr>"

lemma first_insert:
  "\<exists>g t. sample_run 3 [FibOp (OpInsert (sample_entry 3))] = Ok (g, \<lparr>fib_tree = tree1, replicas = [(sample_socket, t)]\<rparr>)
    \<and> rep_ok list_env g 2 chain3 t \<and> mp t = [2] \<and> same_strategies sample_strategies g"
proof -
  obtain fib t where n: "sample_run 3 [] = Ok (sample_strategies, fib)" "replicas fib = [(sample_socket, t)]" "mp t = [0..<3]" "fib_tree fib = Tree_New 2"
    using sample_new_tree [of 3] by blast
  have ok: "fib_ok list_env Map.empty (sample_strategies, fib)" using sample_reach(1) [of "[]"] n(1) by simp
  then have r: "rep_ok list_env sample_strategies 2 newNode t" using n(2,4) by (simp add: fib_ok_def reps_ok_def Tree_New_def)
  have t: "tree_ok (Tree_New 2)" using ok n(4) by (simp add: fib_ok_def)
  obtain u where u: "Insert max (sample_entry 3) (Tree_New 2) = Ok (tree1, u)" using insert3 by blast
  have d: "described 2 (replicate 3 sample_comp) (Some sample_body) newNode chain3 u"
    using Insert_ok [OF sample_val [of 3] t] u by (auto simp: sample_entry_eq Tree_New_def)
  have h: "heights_fit newNode" unfolding newNode_def by (rule heights_fit_leaf) simp_all
  have k: "needs 2 (replicate 3 sample_comp) (Some sample_body) newNode chain3 = 2"
    by (simp add: needs_def n_real_def n_virt_def hgt_def old_height_def sample_names newNode_def chain3_def chain_at zero_EntryBody_def sample_body_def)
  have fits: "name_fits (replicate 3 sample_comp)" "\<And>body. Some sample_body = Some body \<Longrightarrow> entry_fits sample_strategies body"
    using sample_name_fits [of 3] sample_body_fits by simp_all
  have rs: "replicas (fib\<lparr>fib_tree := tree1\<rparr>) = [(sample_socket, t)]" using n(2) by simp
  from list_update(2) [OF rs r d fits(1) h chains_fit(1) fits(2), of max] obtain g' t' where
    x: "doUpdate list_env max (\<lambda>xs. xs) (\<lambda>xs. xs) u (sample_strategies, fib\<lparr>fib_tree := tree1\<rparr>) = Ok ((g', fib\<lparr>fib_tree := tree1, replicas := [(sample_socket, t')]\<rparr>), None)"
    "rep_ok list_env g' 2 chain3 t'" "mp t' = drop 2 (mp t)" "same_strategies sample_strategies g'" unfolding k n(3) by auto
  have "sample_run 3 [FibOp (OpInsert (sample_entry 3))] = Ok (g', fib\<lparr>fib_tree := tree1, replicas := [(sample_socket, t')]\<rparr>)"
    using n(1,4) u x(1) sample_val [of 3] by (auto simp: sample_run_def fib_run_def fib_exec_def fib_step_def Fib_Insert_def)
  then show ?thesis using x(2-4) n(3) by (intro exI [of _ g'] exI [of _ t']) (simp add: numeral_eq_Suc)
qed

lemma second_insert:
  assumes "rep_ok list_env g 2 chain3 t" "mp t = [2]" "same_strategies sample_strategies g"
  shows "\<exists>e. Fib_Insert list_env max (\<lambda>xs. xs) (\<lambda>xs. xs) (sample_entry 5) (g, \<lparr>fib_tree = tree1, replicas = [(sample_socket, t)]\<rparr>)
    = Ok ((g, \<lparr>fib_tree = tree2, replicas = [(sample_socket, t)]\<rparr>), Some e)"
proof -
  let ?fib = "\<lparr>fib_tree = tree3, replicas = [(sample_socket, t)]\<rparr>"
  obtain u where u: "Insert max (sample_entry 5) tree1 = Ok (tree3, u)" "u_revert u = RevertErase (replicate 5 sample_comp)" using insert5 by blast
  have "tree_ok tree1" using Insert_ok [OF sample_val [of 3] Tree_New_ok(1), of 2] insert3 by auto
  then have d: "described 2 (replicate 5 sample_comp) (Some sample_body) chain3 (chain5 3) u"
    using Insert_ok [OF sample_val [of 5]] u(1) by (fastforce simp: sample_entry_eq)
  have k: "needs 2 (replicate 5 sample_comp) (Some sample_body) chain3 (chain5 3) = 2"
    by (simp add: needs_def n_real_def n_virt_def hgt_def old_height_def sample_names chain3_def chain5_def chain_at zero_EntryBody_def sample_body_def)
  have rv: "Revert max (u_revert u) (fib_tree ?fib) = Ok tree2" by (simp add: Revert_def u(2) erase5)
  have fits: "name_fits (replicate 5 sample_comp)" "\<And>body. Some sample_body = Some body \<Longrightarrow> entry_fits g body"
    using sample_name_fits [of 5] sample_body_fits [OF assms(3)] by simp_all
  have "\<exists>e. doUpdate list_env max (\<lambda>xs. xs) (\<lambda>xs. xs) u (g, ?fib) = Ok ((g, ?fib\<lparr>fib_tree := tree2\<rparr>), Some e)"
    by (rule list_update(1) [OF _ assms(1) d fits(1) chains_fit(1) chains_fit(2) fits(2) _ rv]) (simp_all add: k assms(2))
  then show ?thesis using u(1) sample_val [of 5] by (simp add: Fib_Insert_def)
qed

lemma third_insert:
  assumes "rep_ok list_env g 2 chain3 t" "mp t = [2]" "same_strategies sample_strategies g"
  shows "\<exists>g' t'. Fib_Insert list_env max (\<lambda>xs. xs) (\<lambda>xs. xs) (sample_entry 5) (g, \<lparr>fib_tree = tree2, replicas = [(sample_socket, t)]\<rparr>)
    = Ok ((g', \<lparr>fib_tree = tree3, replicas = [(sample_socket, t')]\<rparr>), None) \<and> rep_ok list_env g' 2 (chain5 1) t'"
proof -
  let ?fib = "\<lparr>fib_tree = tree3, replicas = [(sample_socket, t)]\<rparr>"
  obtain u where u: "Insert max (sample_entry 5) tree2 = Ok (tree3, u)" "u_real u = Some (sample_real 5)" "u_virt u = None" using insert5' by blast
  note d = described_stale [OF u(2,3)]
  have k: "needs 2 (replicate 5 sample_comp) (Some sample_body) chain3 (chain5 1) = 1"
    by (simp add: needs_def n_real_def n_virt_def hgt_def old_height_def sample_names chain3_def chain5_def chain_at zero_EntryBody_def sample_body_def)
  have fits: "name_fits (replicate 5 sample_comp)" "\<And>body. Some sample_body = Some body \<Longrightarrow> entry_fits g body"
    using sample_name_fits [of 5] sample_body_fits [OF assms(3)] by simp_all
  have "\<exists>g' t'. doUpdate list_env max (\<lambda>xs. xs) (\<lambda>xs. xs) u (g, ?fib) = Ok ((g', ?fib\<lparr>replicas := [(sample_socket, t')]\<rparr>), None)
      \<and> rep_ok list_env g' 2 (chain5 1) t' \<and> mp t' = drop (needs 2 (replicate 5 sample_comp) (Some sample_body) chain3 (chain5 1)) (mp t) \<and> same_strategies g g'"
    by (rule list_update(2) [OF _ assms(1) d fits(1) chains_fit(1) chains_fit(2) fits(2)]) (simp_all add: k assms(2))
  then show ?thesis using u(1) sample_val [of 5] by (auto simp: Fib_Insert_def)
qed


end
