(* ===== verification/Ndt_Table.thy ===== *)
theory Ndt_Table
  imports Ndni_Name Eal_Numa
begin

text \<open>
  The Name Dispatch Table (\<open>container/ndt\<close>, \<open>csrc/ndt\<close>): its configuration, a replica of the table per NUMA socket, the
  queriers of the lookup threads with their hit counters, and the operations on the whole. Replicas and queriers live in
  memory that \<open>rte_zmalloc_socket\<close> gives: a pointer is an index into the list of allocated objects, a freed object is
  \<open>None\<close>, an access to a freed object or behind the end of a table is \<open>Panic\<close>, as is \<open>abort\<close>. \<open>NextPowerOfTwo\<close>, \<open>MinInt\<close>
  and \<open>MaxInt\<close> of other packages, SipHash (\<open>sip\<close>) and whether an allocation succeeds (\<open>zmalloc\<close>) are arguments.
\<close>

subsection \<open>Configuration\<close>

definition MinPrefixLen :: int where "MinPrefixLen = 1"
definition MaxPrefixLen :: int where "MaxPrefixLen = int PNameCachedComponents"
definition DefaultPrefixLen :: int where "DefaultPrefixLen = 2"
definition Ndt_MinCapacity :: int where "Ndt_MinCapacity = 2 ^ 4"
definition Ndt_MaxCapacity :: int where "Ndt_MaxCapacity = 2 ^ 60"
definition Ndt_DefaultCapacity :: int where "Ndt_DefaultCapacity = 2 ^ 16"
definition MinSampleInterval :: int where "MinSampleInterval = 2 ^ 0"
definition MaxSampleInterval :: int where "MaxSampleInterval = 2 ^ 30"
definition DefaultSampleInterval :: int where "DefaultSampleInterval = 2 ^ 10"

lemmas ndt_limits = MinPrefixLen_def MaxPrefixLen_def DefaultPrefixLen_def Ndt_MinCapacity_def Ndt_MaxCapacity_def
  Ndt_DefaultCapacity_def MinSampleInterval_def MaxSampleInterval_def DefaultSampleInterval_def PNameCachedComponents_def

record NdtConfig =
  PrefixLen :: int
  NdtCapacity :: int
  SampleInterval :: int

definition ndt_applyDefaults :: "(int \<Rightarrow> int \<Rightarrow> int) \<Rightarrow> (int \<Rightarrow> int \<Rightarrow> int) \<Rightarrow> (int \<Rightarrow> int) \<Rightarrow> NdtConfig \<Rightarrow> NdtConfig" where
  "ndt_applyDefaults MinInt MaxInt NextPowerOfTwo c =
     (let c = (if PrefixLen c = 0 then c\<lparr>PrefixLen := DefaultPrefixLen\<rparr>
               else c\<lparr>PrefixLen := MinInt (MaxInt MinPrefixLen (PrefixLen c)) MaxPrefixLen\<rparr>);
          c = (if NdtCapacity c = 0 then c\<lparr>NdtCapacity := Ndt_DefaultCapacity\<rparr>
               else c\<lparr>NdtCapacity := MinInt (MaxInt Ndt_MinCapacity (NdtCapacity c)) Ndt_MaxCapacity\<rparr>);
          c = c\<lparr>NdtCapacity := NextPowerOfTwo (NdtCapacity c)\<rparr>;
          c = (if SampleInterval c = 0 then c\<lparr>SampleInterval := DefaultSampleInterval\<rparr>
               else c\<lparr>SampleInterval := MinInt (MaxInt MinSampleInterval (PrefixLen c)) MaxSampleInterval\<rparr>)
      in c\<lparr>SampleInterval := NextPowerOfTwo (SampleInterval c)\<rparr>)"

definition Config_indexMask :: "NdtConfig \<Rightarrow> u64" where
  "Config_indexMask c = word_of_int (NdtCapacity c - 1)"

subsection \<open>Replicas and queriers in memory\<close>

record NdtReplica =
  indexMask :: u64
  sampleMask :: u64
  r_prefixLen :: u16
  ndt_table :: "u8 list"

record NdtQuerier =
  q_ndt :: nat
  nLookups :: u64
  nHits :: "u32 list"

record NdtMem =
  m_replicas :: "NdtReplica option list"
  m_queriers :: "NdtQuerier option list"

definition deref :: "'a option list \<Rightarrow> nat \<Rightarrow> 'a outcome" where
  "deref objs a = (if a < length objs then (case objs ! a of Some x \<Rightarrow> Ok x | None \<Rightarrow> Panic) else Panic)"

definition rte_is_power_of_2 :: "u64 \<Rightarrow> bool" where
  "rte_is_power_of_2 n \<longleftrightarrow> n \<noteq> 0 \<and> n AND (n - 1) = 0"

text \<open>The sizes are those of the structs: 24 bytes for \<open>Ndt\<close> and 16 for \<open>NdtQuerier\<close>, before their arrays.\<close>

definition C_Ndt_New :: "(u64 \<Rightarrow> int \<Rightarrow> bool) \<Rightarrow> u64 \<Rightarrow> int \<Rightarrow> NdtMem \<Rightarrow> (NdtMem \<times> nat) outcome" where
  "C_Ndt_New zmalloc nEntries numaSocket mem =
     (if \<not> rte_is_power_of_2 nEntries then Panic
      else let sz = 24 + nEntries * 1 in
        if \<not> zmalloc sz numaSocket then Panic
        else Ok (mem\<lparr>m_replicas := m_replicas mem @ [Some \<lparr>indexMask = nEntries - 1, sampleMask = 0, r_prefixLen = 0,
               ndt_table = replicate (unat nEntries) 0\<rparr>]\<rparr>, length (m_replicas mem)))"

definition C_NdtQuerier_New :: "(u64 \<Rightarrow> int \<Rightarrow> bool) \<Rightarrow> nat \<Rightarrow> int \<Rightarrow> NdtMem \<Rightarrow> (NdtMem \<times> nat) outcome" where
  "C_NdtQuerier_New zmalloc a numaSocket mem =
     andthen (deref (m_replicas mem) a) (\<lambda>ndtr.
       let sz = 16 + (indexMask ndtr + 1) * 4 in
       if \<not> zmalloc sz numaSocket then Panic
       else Ok (mem\<lparr>m_queriers := m_queriers mem @ [Some \<lparr>q_ndt = a, nLookups = 0,
              nHits = replicate (unat (indexMask ndtr + 1)) 0\<rparr>]\<rparr>, length (m_queriers mem)))"

definition C_Ndt_Update :: "nat \<Rightarrow> u64 \<Rightarrow> u8 \<Rightarrow> NdtMem \<Rightarrow> NdtMem outcome" where
  "C_Ndt_Update a index val mem =
     andthen (deref (m_replicas mem) a) (\<lambda>ndtr.
       if unat index < length (ndt_table ndtr)
       then Ok (mem\<lparr>m_replicas := (m_replicas mem)[a := Some (ndtr\<lparr>ndt_table := (ndt_table ndtr)[unat index := val]\<rparr>)]\<rparr>)
       else Panic)"

definition C_Ndt_Read :: "NdtReplica \<Rightarrow> u64 \<Rightarrow> u8 outcome" where
  "C_Ndt_Read ndtr index = (if unat index < length (ndt_table ndtr) then Ok (ndt_table ndtr ! unat index) else Panic)"

definition C_Ndt_Lookup :: "(bytes \<Rightarrow> u64) \<Rightarrow> NdtReplica \<Rightarrow> PName \<Rightarrow> (u64 \<times> u8) outcome" where
  "C_Ndt_Lookup sip ndtr name =
     (let prefixLen = min (p_nComps name) (unat (r_prefixLen ndtr));
          pfx = PName_GetPrefix name (int prefixLen);
          hash = sip pfx;
          index = hash AND indexMask ndtr
      in andthen (C_Ndt_Read ndtr index) (\<lambda>val. Ok (index, val)))"

definition C_NdtQuerier_Lookup :: "(bytes \<Rightarrow> u64) \<Rightarrow> nat \<Rightarrow> PName \<Rightarrow> NdtMem \<Rightarrow> (NdtMem \<times> u8) outcome" where
  "C_NdtQuerier_Lookup sip q name mem =
     andthen (deref (m_queriers mem) q) (\<lambda>ndq.
     andthen (deref (m_replicas mem) (q_ndt ndq)) (\<lambda>ndtr.
     andthen (C_Ndt_Lookup sip ndtr name) (\<lambda>(index, val).
       let ndq = ndq\<lparr>nLookups := nLookups ndq + 1\<rparr> in
       if nLookups ndq AND sampleMask ndtr = 0
       then if unat index < length (nHits ndq)
            then Ok (mem\<lparr>m_queriers := (m_queriers mem)[q := Some (ndq\<lparr>nHits := (nHits ndq)[unat index := nHits ndq ! unat index + 1]\<rparr>)]\<rparr>, val)
            else Panic
       else Ok (mem\<lparr>m_queriers := (m_queriers mem)[q := Some ndq]\<rparr>, val))))"

subsection \<open>The Go side of replicas and queriers\<close>

record NdtEntry =
  Index :: int
  EntryValue :: int
  Hits :: u32

definition newReplica :: "(u64 \<Rightarrow> int \<Rightarrow> bool) \<Rightarrow> NdtConfig \<Rightarrow> NumaSocket \<Rightarrow> NdtMem \<Rightarrow> (NdtMem \<times> nat) outcome" where
  "newReplica zmalloc cfg socket mem =
     andthen (C_Ndt_New zmalloc (word_of_int (NdtCapacity cfg)) (NumaSocket_ID socket) mem) (\<lambda>(mem, a).
     andthen (deref (m_replicas mem) a) (\<lambda>c.
       Ok (mem\<lparr>m_replicas := (m_replicas mem)[a := Some (c\<lparr>sampleMask := word_of_int (SampleInterval cfg),
             r_prefixLen := word_of_int (PrefixLen cfg)\<rparr>)]\<rparr>, a)))"

definition replica_Read :: "NdtMem \<Rightarrow> nat \<Rightarrow> int \<Rightarrow> NdtEntry outcome" where
  "replica_Read mem a i =
     andthen (deref (m_replicas mem) a) (\<lambda>c.
     andthen (C_Ndt_Read c (word_of_int i)) (\<lambda>val. Ok \<lparr>Index = i, EntryValue = uint val, Hits = 0\<rparr>))"

definition replica_Update :: "nat \<Rightarrow> u64 \<Rightarrow> u8 \<Rightarrow> NdtMem \<Rightarrow> NdtMem outcome" where
  "replica_Update a index val mem = C_Ndt_Update a index val mem"

definition replica_Lookup :: "(bytes \<Rightarrow> u64) \<Rightarrow> NdtMem \<Rightarrow> nat \<Rightarrow> Name \<Rightarrow> (u64 \<times> u8) outcome" where
  "replica_Lookup sip mem a name =
     andthen (NewPName name) (\<lambda>nameP. andthen (deref (m_replicas mem) a) (\<lambda>c. C_Ndt_Lookup sip c nameP))"

definition replica_Close :: "nat \<Rightarrow> NdtMem \<Rightarrow> NdtMem" where
  "replica_Close a mem = mem\<lparr>m_replicas := (m_replicas mem)[a := None]\<rparr>"

definition Querier_Lookup :: "(bytes \<Rightarrow> u64) \<Rightarrow> nat \<Rightarrow> Name \<Rightarrow> NdtMem \<Rightarrow> (NdtMem \<times> u8) outcome" where
  "Querier_Lookup sip q name mem = andthen (NewPName name) (\<lambda>nameP. C_NdtQuerier_Lookup sip q nameP mem)"

text \<open>The counters of a querier as a slice of \<open>nEntries\<close> elements, which \<open>unsafe.Slice\<close> does not check.\<close>

definition hitCounters :: "NdtMem \<Rightarrow> int \<Rightarrow> nat \<Rightarrow> u32 list outcome" where
  "hitCounters mem nEntries q =
     andthen (deref (m_queriers mem) q) (\<lambda>ndq.
       if nat nEntries \<le> length (nHits ndq) then Ok (take (nat nEntries) (nHits ndq)) else Panic)"

definition Querier_Close :: "nat \<Rightarrow> NdtMem \<Rightarrow> NdtMem" where
  "Querier_Close q mem = mem\<lparr>m_queriers := (m_queriers mem)[q := None]\<rparr>"

subsection \<open>The table\<close>

record Ndt =
  ndt_cfg :: NdtConfig
  ndt_replicas :: "(NumaSocket \<times> nat) list"
  ndt_queriers :: "nat list"

definition newQuerier :: "(u64 \<Rightarrow> int \<Rightarrow> bool) \<Rightarrow> Ndt \<Rightarrow> NumaSocket \<Rightarrow> NdtMem \<Rightarrow> (NdtMem \<times> nat) outcome" where
  "newQuerier zmalloc ndt socket mem =
     (case map_of (ndt_replicas ndt) socket of
        None \<Rightarrow> Panic
      | Some a \<Rightarrow> C_NdtQuerier_New zmalloc a (NumaSocket_ID socket) mem)"

definition firstReplica :: "((NumaSocket \<times> nat) list \<Rightarrow> (NumaSocket \<times> nat) list) \<Rightarrow> Ndt \<Rightarrow> nat outcome" where
  "firstReplica visit ndt = (case visit (ndt_replicas ndt) of [] \<Rightarrow> Panic | (socket, ndtr) # _ \<Rightarrow> Ok ndtr)"

definition Ndt_Close :: "((NumaSocket \<times> nat) list \<Rightarrow> (NumaSocket \<times> nat) list) \<Rightarrow> Ndt \<Rightarrow> NdtMem \<Rightarrow> NdtMem \<times> Ndt" where
  "Ndt_Close visit ndt mem =
     (let mem = fold Querier_Close (ndt_queriers ndt) mem;
          mem = fold (\<lambda>(socket, ndtr). replica_Close ndtr) (visit (ndt_replicas ndt)) mem
      in (mem, ndt\<lparr>ndt_queriers := [], ndt_replicas := []\<rparr>))"

definition Ndt_ComputeHash :: "(bytes \<Rightarrow> u64) \<Rightarrow> Ndt \<Rightarrow> Name \<Rightarrow> u64 outcome" where
  "Ndt_ComputeHash sip ndt name =
     (let name = (if int (length name) > PrefixLen (ndt_cfg ndt) then take (nat (PrefixLen (ndt_cfg ndt))) name else name)
      in andthen (NewPName name) (\<lambda>pname. Ok (sip (p_value pname))))"

definition IndexOfHash :: "Ndt \<Rightarrow> u64 \<Rightarrow> u64" where
  "IndexOfHash ndt hash = hash AND Config_indexMask (ndt_cfg ndt)"

definition IndexOfName :: "(bytes \<Rightarrow> u64) \<Rightarrow> Ndt \<Rightarrow> Name \<Rightarrow> u64 outcome" where
  "IndexOfName sip ndt name = andthen (Ndt_ComputeHash sip ndt name) (\<lambda>hash. Ok (IndexOfHash ndt hash))"

definition Ndt_Get :: "((NumaSocket \<times> nat) list \<Rightarrow> (NumaSocket \<times> nat) list) \<Rightarrow> Ndt \<Rightarrow> NdtMem \<Rightarrow> u64 \<Rightarrow> NdtEntry outcome" where
  "Ndt_Get visit ndt mem index =
     andthen (firstReplica visit ndt) (\<lambda>ndtr.
     andthen (replica_Read mem ndtr (sint index)) (\<lambda>entry.
     forRange (\<lambda>entry ndq. andthen (hitCounters mem (NdtCapacity (ndt_cfg ndt)) ndq) (\<lambda>hits.
         if unat index < length hits then Ok (entry\<lparr>Hits := Hits entry + hits ! unat index\<rparr>) else Panic))
       entry (ndt_queriers ndt)))"

definition Ndt_List :: "((NumaSocket \<times> nat) list \<Rightarrow> (NumaSocket \<times> nat) list) \<Rightarrow> Ndt \<Rightarrow> NdtMem \<Rightarrow> NdtEntry list outcome" where
  "Ndt_List visit ndt mem =
     andthen (firstReplica visit ndt) (\<lambda>ndtr.
     andthen (forRange (\<lambda>list i. andthen (replica_Read mem ndtr (int i)) (\<lambda>e. Ok (list @ [e]))) []
       [0..<nat (NdtCapacity (ndt_cfg ndt))]) (\<lambda>list.
     forRange (\<lambda>list ndq. andthen (hitCounters mem (NdtCapacity (ndt_cfg ndt)) ndq) (\<lambda>hits.
         Ok (map (\<lambda>(e, hit). e\<lparr>Hits := Hits e + hit\<rparr>) (zip list hits)))) list (ndt_queriers ndt)))"

definition Ndt_Update :: "((NumaSocket \<times> nat) list \<Rightarrow> (NumaSocket \<times> nat) list) \<Rightarrow> Ndt \<Rightarrow> u64 \<Rightarrow> u8 \<Rightarrow> NdtMem \<Rightarrow> NdtMem outcome" where
  "Ndt_Update visit ndt index val mem =
     forRange (\<lambda>mem (socket, ndtr). replica_Update ndtr index val mem) mem (visit (ndt_replicas ndt))"

text \<open>\<open>rand.Intn(lim)\<close> panics unless its argument is positive; the argument \<open>rnd\<close> gives the draws.\<close>

definition Randomize :: "((NumaSocket \<times> nat) list \<Rightarrow> (NumaSocket \<times> nat) list) \<Rightarrow> (nat \<Rightarrow> nat) \<Rightarrow> int \<Rightarrow> Ndt \<Rightarrow> NdtMem \<Rightarrow> NdtMem outcome" where
  "Randomize visit rnd lim ndt mem =
     forRange (\<lambda>mem i. if lim \<le> 0 then Panic
         else Ndt_Update visit ndt (word_of_nat i) (word_of_int (int (rnd i) mod lim)) mem)
       mem [0..<nat (NdtCapacity (ndt_cfg ndt))]"

definition Ndt_Lookup :: "((NumaSocket \<times> nat) list \<Rightarrow> (NumaSocket \<times> nat) list) \<Rightarrow> (bytes \<Rightarrow> u64) \<Rightarrow> Ndt \<Rightarrow> NdtMem \<Rightarrow> Name \<Rightarrow> (u64 \<times> u8) outcome" where
  "Ndt_Lookup visit sip ndt mem name = andthen (firstReplica visit ndt) (\<lambda>ndtr. replica_Lookup sip mem ndtr name)"

text \<open>The body of the loop of \<open>New\<close> for one socket.\<close>

definition Ndt_New_step :: "(u64 \<Rightarrow> int \<Rightarrow> bool) \<Rightarrow> NumaSocket list \<Rightarrow> NdtMem \<times> Ndt \<Rightarrow> NumaSocket \<Rightarrow> (NdtMem \<times> Ndt) outcome" where
  "Ndt_New_step zmalloc Sockets = (\<lambda>(mem, ndt) socket.
     andthen (if IsAny socket then (case Sockets of [] \<Rightarrow> Panic | s # _ \<Rightarrow> Ok s) else Ok socket) (\<lambda>socket.
     andthen (case map_of (ndt_replicas ndt) socket of
         Some _ \<Rightarrow> Ok (mem, ndt)
       | None \<Rightarrow> andthen (newReplica zmalloc (ndt_cfg ndt) socket mem) (\<lambda>(mem, a).
           Ok (mem, ndt\<lparr>ndt_replicas := ndt_replicas ndt @ [(socket, a)]\<rparr>))) (\<lambda>(mem, ndt).
     andthen (newQuerier zmalloc ndt socket mem) (\<lambda>(mem, q).
       Ok (mem, ndt\<lparr>ndt_queriers := ndt_queriers ndt @ [q]\<rparr>)))))"

definition Ndt_New :: "(int \<Rightarrow> int \<Rightarrow> int) \<Rightarrow> (int \<Rightarrow> int \<Rightarrow> int) \<Rightarrow> (int \<Rightarrow> int) \<Rightarrow> (u64 \<Rightarrow> int \<Rightarrow> bool) \<Rightarrow> NumaSocket list \<Rightarrow> NdtConfig
    \<Rightarrow> NumaSocket list \<Rightarrow> NdtMem \<Rightarrow> (NdtMem \<times> Ndt) outcome" where
  "Ndt_New MinInt MaxInt NextPowerOfTwo zmalloc Sockets cfg sockets mem =
     (let cfg = ndt_applyDefaults MinInt MaxInt NextPowerOfTwo cfg;
          ndt = \<lparr>ndt_cfg = cfg, ndt_replicas = [], ndt_queriers = []\<rparr>
      in forRange (Ndt_New_step zmalloc Sockets) (mem, ndt) sockets)"

subsection \<open>The mutation of the GraphQL schema\<close>

text \<open>\<open>updateNdt\<close> (\<open>container/ndt/gql.go\<close>): the arguments as options; an \<open>int\<close> becomes a 64-bit index, then a masked one.\<close>

definition Gql_updateNdt :: "((NumaSocket \<times> nat) list \<Rightarrow> (NumaSocket \<times> nat) list) \<Rightarrow> (bytes \<Rightarrow> u64) \<Rightarrow> Ndt option \<Rightarrow> int option \<Rightarrow> Name option \<Rightarrow> int
    \<Rightarrow> NdtMem \<Rightarrow> (NdtMem \<times> NdtEntry) outcome" where
  "Gql_updateNdt visit sip GqlNdt argIndex argName argValue mem =
     (case GqlNdt of
        None \<Rightarrow> Fail (ErrOther ''NDT unavailable'')
      | Some ndt \<Rightarrow>
          andthen (case argIndex of
              Some i \<Rightarrow> Ok (IndexOfHash ndt (word_of_int i))
            | None \<Rightarrow> (case argName of
                Some name \<Rightarrow> IndexOfName sip ndt name
              | None \<Rightarrow> Fail (ErrOther ''Index is unspecified''))) (\<lambda>index.
          andthen (Ndt_Update visit ndt index (word_of_int argValue) mem) (\<lambda>mem.
          andthen (Ndt_Get visit ndt mem index) (\<lambda>entry. Ok (mem, entry)))))"

end
