(* ===== verification/Ndt_Spec.thy ===== *)
theory Ndt_Spec
  imports Ndt_Table
begin

text \<open>
  What the Name Dispatch Table promises: an abstract table with one value per index and the history of lookups of every
  querier, the relation between the replicas in memory and the abstract state, and that every operation keeps it.
\<close>

subsection \<open>Configuration\<close>

text \<open>\<open>NextPowerOfTwo\<close> gives the least power of two that is not below its positive argument.\<close>

definition npow2_laws :: "(int \<Rightarrow> int) \<Rightarrow> bool" where
  "npow2_laws f \<longleftrightarrow> (\<forall>n. 0 < n \<and> n \<le> 2 ^ 62 \<longrightarrow> (\<exists>k. f n = 2 ^ k \<and> n \<le> 2 ^ k \<and> 2 ^ k < 2 * n))"

definition cfg_ok :: "nat \<Rightarrow> nat \<Rightarrow> NdtConfig \<Rightarrow> bool" where
  "cfg_ok k j cfg \<longleftrightarrow> k \<le> 60 \<and> j \<le> 30 \<and> NdtCapacity cfg = 2 ^ k \<and> SampleInterval cfg = 2 ^ j \<and> 1 \<le> PrefixLen cfg \<and> PrefixLen cfg \<le> 17"

lemma npow2_bounded:
  assumes "npow2_laws f" "0 < n" "n \<le> 2 ^ m" "m \<le> 62"
  shows "\<exists>k \<le> m. f n = 2 ^ k"
proof -
  have "(2::int) ^ m \<le> 2 ^ 62" using assms(4) by (intro power_increasing) auto
  then obtain k where k: "f n = 2 ^ k" "2 ^ k < 2 * n" using assms(1-3) unfolding npow2_laws_def by (meson order_trans)
  have "(2::int) ^ k < 2 ^ Suc m" using k(2) assms(3) by simp
  then have "k < Suc m" by (rule power_less_imp_less_exp [rotated]) simp
  with k(1) show ?thesis by auto
qed

lemma applyDefaults_fields:
  "PrefixLen (ndt_applyDefaults mn mx f c) = (if PrefixLen c = 0 then DefaultPrefixLen else mn (mx MinPrefixLen (PrefixLen c)) MaxPrefixLen)"
  "NdtCapacity (ndt_applyDefaults mn mx f c) = f (if NdtCapacity c = 0 then Ndt_DefaultCapacity else mn (mx Ndt_MinCapacity (NdtCapacity c)) Ndt_MaxCapacity)"
  "SampleInterval (ndt_applyDefaults mn mx f c) = f (if SampleInterval c = 0 then DefaultSampleInterval
     else mn (mx MinSampleInterval (PrefixLen (ndt_applyDefaults mn mx f c))) MaxSampleInterval)"
  by (simp_all add: ndt_applyDefaults_def Let_def)

lemma applyDefaults_ok:
  assumes "npow2_laws f"
  shows "\<exists>k j. cfg_ok k j (ndt_applyDefaults min max f c)"
proof -
  let ?c = "ndt_applyDefaults min max f c"
  have p: "1 \<le> PrefixLen ?c" "PrefixLen ?c \<le> 17" by (auto simp: applyDefaults_fields(1) ndt_limits)
  have "\<exists>k \<le> 60. NdtCapacity ?c = 2 ^ k"
    unfolding applyDefaults_fields(2) by (rule npow2_bounded [OF assms]) (auto simp: ndt_limits)
  moreover have "\<exists>j \<le> 30. SampleInterval ?c = 2 ^ j"
    unfolding applyDefaults_fields(3) by (rule npow2_bounded [OF assms]) (use p in \<open>auto simp: ndt_limits\<close>)
  ultimately show ?thesis using p by (auto simp: cfg_ok_def)
qed

subsection \<open>The abstract table\<close>

text \<open>The index of a name: its first components, hashed, modulo the size of the table.\<close>

definition dispatch_index :: "(bytes \<Rightarrow> u64) \<Rightarrow> NdtConfig \<Rightarrow> Name \<Rightarrow> nat" where
  "dispatch_index sip cfg name = unat (sip (name_value (take (nat (PrefixLen cfg)) name))) mod nat (NdtCapacity cfg)"

text \<open>How often an index is counted in a history of lookups: lookup number \<open>i\<close>, from 1, counts when
  \<open>i div SampleInterval\<close> is even.\<close>

definition count_hits :: "nat \<Rightarrow> nat list \<Rightarrow> nat \<Rightarrow> nat" where
  "count_hits interval hist x = length (filter (\<lambda>i. hist ! i = x \<and> even (Suc i div interval)) [0..<length hist])"

record ndt_spec =
  s_tab :: "u8 list"
  s_hist :: "nat list list"

datatype ndt_event = EvUpdate u64 u8 | EvRandomize "nat \<Rightarrow> nat" int | EvLookup nat Name

fun event_ok :: "NdtConfig \<Rightarrow> nat \<Rightarrow> ndt_event \<Rightarrow> bool" where
  "event_ok cfg n (EvUpdate index val) \<longleftrightarrow> unat index < nat (NdtCapacity cfg)"
| "event_ok cfg n (EvRandomize rnd lim) \<longleftrightarrow> 0 < lim"
| "event_ok cfg n (EvLookup q name) \<longleftrightarrow> q < n \<and> list_all comp_ok name \<and> Name_Length name < 65536"

fun spec_step :: "(bytes \<Rightarrow> u64) \<Rightarrow> NdtConfig \<Rightarrow> ndt_spec \<times> u8 list \<Rightarrow> ndt_event \<Rightarrow> ndt_spec \<times> u8 list" where
  "spec_step sip cfg (s, out) (EvUpdate index val) = (s\<lparr>s_tab := (s_tab s)[unat index := val]\<rparr>, out)"
| "spec_step sip cfg (s, out) (EvRandomize rnd lim) =
     (s\<lparr>s_tab := map (\<lambda>i. word_of_int (int (rnd i) mod lim)) [0..<nat (NdtCapacity cfg)]\<rparr>, out)"
| "spec_step sip cfg (s, out) (EvLookup q name) =
     (let x = dispatch_index sip cfg name in (s\<lparr>s_hist := (s_hist s)[q := s_hist s ! q @ [x]]\<rparr>, out @ [s_tab s ! x]))"

definition spec_init :: "NdtConfig \<Rightarrow> nat \<Rightarrow> ndt_spec" where
  "spec_init cfg n = \<lparr>s_tab = replicate (nat (NdtCapacity cfg)) 0, s_hist = replicate n []\<rparr>"

text \<open>The same events on the model of the code; lookups go through the querier of a position.\<close>

fun ndt_step :: "((NumaSocket \<times> nat) list \<Rightarrow> (NumaSocket \<times> nat) list) \<Rightarrow> (bytes \<Rightarrow> u64) \<Rightarrow> Ndt \<Rightarrow> NdtMem \<times> u8 list \<Rightarrow> ndt_event
    \<Rightarrow> (NdtMem \<times> u8 list) outcome" where
  "ndt_step visit sip ndt (mem, out) (EvUpdate index val) = andthen (Ndt_Update visit ndt index val mem) (\<lambda>mem. Ok (mem, out))"
| "ndt_step visit sip ndt (mem, out) (EvRandomize rnd lim) = andthen (Randomize visit rnd lim ndt mem) (\<lambda>mem. Ok (mem, out))"
| "ndt_step visit sip ndt (mem, out) (EvLookup q name) =
     andthen (Querier_Lookup sip (ndt_queriers ndt ! q) name mem) (\<lambda>(mem, val). Ok (mem, out @ [val]))"

definition ndt_run :: "((NumaSocket \<times> nat) list \<Rightarrow> (NumaSocket \<times> nat) list) \<Rightarrow> (bytes \<Rightarrow> u64) \<Rightarrow> Ndt \<Rightarrow> NdtMem \<Rightarrow> ndt_event list
    \<Rightarrow> (NdtMem \<times> u8 list) outcome" where
  "ndt_run visit sip ndt mem evs = forRange (ndt_step visit sip ndt) (mem, []) evs"

subsection \<open>The relation between memory and abstract table\<close>

definition replica_rep :: "nat \<Rightarrow> nat \<Rightarrow> NdtConfig \<Rightarrow> u8 list \<Rightarrow> NdtReplica \<Rightarrow> bool" where
  "replica_rep k j cfg tab r \<longleftrightarrow> indexMask r = mask k \<and> sampleMask r = 2 ^ j \<and> r_prefixLen r = word_of_int (PrefixLen cfg) \<and> ndt_table r = tab"

definition querier_rep :: "nat \<Rightarrow> nat \<Rightarrow> nat list \<Rightarrow> NdtQuerier \<Rightarrow> bool" where
  "querier_rep k j hist Q \<longleftrightarrow> nLookups Q = word_of_nat (length hist) \<and> nHits Q = map (\<lambda>x. word_of_nat (count_hits (2 ^ j) hist x)) [0..<2 ^ k]"

definition ndt_rep :: "nat \<Rightarrow> nat \<Rightarrow> NdtMem \<Rightarrow> Ndt \<Rightarrow> ndt_spec \<Rightarrow> bool" where
  "ndt_rep k j mem ndt s \<longleftrightarrow>
     cfg_ok k j (ndt_cfg ndt) \<and> length (s_tab s) = 2 ^ k \<and> length (s_hist s) = length (ndt_queriers ndt) \<and> distinct (ndt_queriers ndt)
     \<and> (\<forall>a \<in> snd ` set (ndt_replicas ndt). \<exists>r. deref (m_replicas mem) a = Ok r \<and> replica_rep k j (ndt_cfg ndt) (s_tab s) r)
     \<and> (\<forall>i < length (ndt_queriers ndt). \<exists>Q. deref (m_queriers mem) (ndt_queriers ndt ! i) = Ok Q
          \<and> q_ndt Q \<in> snd ` set (ndt_replicas ndt) \<and> querier_rep k j (s_hist s ! i) Q)"

lemma deref_Ok_iff: "deref objs a = Ok x \<longleftrightarrow> a < length objs \<and> objs ! a = Some x"
  by (auto simp: deref_def split: option.splits)

lemma deref_update: "a < length objs \<Longrightarrow> deref (objs[a := Some x]) b = (if b = a then Ok x else deref objs b)"
  by (simp add: deref_def)

lemma deref_append: "deref (objs @ [Some x]) b = (if b = length objs then Ok x else deref objs b)"
  by (auto simp: deref_def nth_append)

lemma mask_word: "k \<le> 60 \<Longrightarrow> word_of_int (2 ^ k - 1) = (mask k :: u64)"
  by (simp add: mask_eq_exp_minus_1 of_int_power)

lemma unat_and_mask: "k \<le> 60 \<Longrightarrow> unat (w AND mask k :: u64) = unat w mod 2 ^ k"
  by (simp only: flip: take_bit_eq_mask) (simp only: unsigned_take_bit_eq, simp add: take_bit_eq_mod)


subsection \<open>Lookups\<close>

lemma prefixLen_word: "cfg_ok k j cfg \<Longrightarrow> unat (word_of_int (PrefixLen cfg) :: u16) = nat (PrefixLen cfg)"
  by (simp add: cfg_ok_def unsigned_of_int take_bit_int_eq_self)

lemma dispatch_index_less: "cfg_ok k j cfg \<Longrightarrow> dispatch_index sip cfg name < 2 ^ k"
  by (simp add: cfg_ok_def dispatch_index_def nat_power_eq)

lemma take_min_length: "take (min (length xs) n) xs = take n xs"
  by (cases "length xs \<le> n") simp_all

lemma index_word:
  assumes "cfg_ok k j cfg"
  shows "unat (sip (name_value (take (nat (PrefixLen cfg)) name)) AND (mask k :: u64)) = dispatch_index sip cfg name"
  using assms by (simp add: unat_and_mask dispatch_index_def cfg_ok_def nat_power_eq)

lemma C_Ndt_Lookup_rep:
  assumes "cfg_ok k j cfg" "replica_rep k j cfg tab r" "PName_of p name" "length tab = 2 ^ k"
  shows "\<exists>w. C_Ndt_Lookup sip r p = Ok (w, tab ! dispatch_index sip cfg name) \<and> unat w = dispatch_index sip cfg name"
proof -
  let ?n = "min (p_nComps p) (unat (r_prefixLen r))"
  have n: "?n = min (length name) (nat (PrefixLen cfg))"
    using assms(2) by (simp add: PName_of_simps(1) [OF assms(3)] replica_rep_def prefixLen_word [OF assms(1)])
  have "PName_GetPrefix p (int ?n) = name_value (take (nat (PrefixLen cfg)) name)"
    unfolding n by (subst PName_of_simps(2) [OF assms(3)]) (simp_all add: take_min_length)
  then show ?thesis
    using assms(2,4) index_word [OF assms(1), of sip name] dispatch_index_less [OF assms(1), of sip name]
    by (simp add: C_Ndt_Lookup_def Let_def C_Ndt_Read_def replica_rep_def)
qed

lemma NewPName_of: "\<lbrakk>list_all comp_ok name; Name_Length name < 65536\<rbrakk> \<Longrightarrow> \<exists>p. NewPName name = Ok p \<and> PName_of p name"
  using NewPName_ok by blast

lemma Name_Length_take: "Name_Length (take n name) \<le> Name_Length name"
proof -
  have "name_value name = name_value (take n name) @ name_value (drop n name)"
    by (simp flip: name_value_simps(3))
  then show ?thesis by (simp flip: length_name_value)
qed

lemma IndexOfName_ok:
  assumes "cfg_ok k j (ndt_cfg ndt)" "list_all comp_ok name" "Name_Length name < 65536"
  shows "\<exists>w. IndexOfName sip ndt name = Ok w \<and> unat w = dispatch_index sip (ndt_cfg ndt) name"
proof -
  let ?P = "PrefixLen (ndt_cfg ndt)"
  let ?n = "take (nat ?P) name"
  have e: "(if int (length name) > ?P then ?n else name) = ?n" by auto
  have "list_all comp_ok ?n" using assms(2) unfolding list_all_iff by (blast dest: in_set_takeD)
  moreover have "Name_Length ?n < 65536" using Name_Length_take [of "nat ?P" name] assms(3) by linarith
  ultimately obtain p where p: "NewPName ?n = Ok p" "PName_of p ?n" using NewPName_of by blast
  have m: "Config_indexMask (ndt_cfg ndt) = mask k" using assms(1) by (simp add: Config_indexMask_def cfg_ok_def mask_eq_exp_minus_1)
  show ?thesis
    using p index_word [OF assms(1), of sip name]
    by (simp add: IndexOfName_def Ndt_ComputeHash_def Let_def e IndexOfHash_def m PName_of_def)
qed

subsection \<open>Every operation keeps the relation\<close>

lemma count_hits_snoc:
  "count_hits iv (hist @ [y]) x = count_hits iv hist x + (if y = x \<and> even (Suc (length hist) div iv) then 1 else 0)"
proof -
  have "filter (\<lambda>i. (hist @ [y]) ! i = x \<and> even (Suc i div iv)) [0..<length hist] = filter (\<lambda>i. hist ! i = x \<and> even (Suc i div iv)) [0..<length hist]"
    by (rule filter_cong) (auto simp: nth_append)
  then show ?thesis by (simp add: count_hits_def nth_append)
qed

lemma sampled_iff: "j \<le> 30 \<Longrightarrow> (word_of_nat n AND 2 ^ j = (0 :: u64)) \<longleftrightarrow> even (n div 2 ^ j)"
proof -
  assume j: "j \<le> 30"
  have "(word_of_nat n AND 2 ^ j = (0 :: u64)) \<longleftrightarrow> \<not> bit (word_of_nat n :: u64) j"
    by (rule and_exp_eq_0_iff_not_bit)
  also have "\<dots> \<longleftrightarrow> \<not> bit n j" using j by (simp add: bit_simps)
  also have "\<dots> \<longleftrightarrow> even (n div 2 ^ j)" by (simp add: bit_iff_odd)
  finally show ?thesis .
qed

lemma querier_rep_lookup:
  assumes "querier_rep k j hist Q" "j \<le> 30" "x < 2 ^ k" "unat w = x"
  defines "Q' \<equiv> Q\<lparr>nLookups := nLookups Q + 1\<rparr>"
  shows "nLookups Q' AND 2 ^ j = 0 \<Longrightarrow> querier_rep k j (hist @ [x]) (Q'\<lparr>nHits := (nHits Q')[x := nHits Q' ! x + 1]\<rparr>)"
    and "nLookups Q' AND 2 ^ j \<noteq> 0 \<Longrightarrow> querier_rep k j (hist @ [x]) Q'"
proof -
  have n: "nLookups Q' = word_of_nat (Suc (length hist))" using assms(1) by (simp add: Q'_def querier_rep_def)
  have h: "nHits Q' = map (\<lambda>x. word_of_nat (count_hits (2 ^ j) hist x)) [0..<2 ^ k]" using assms(1) by (simp add: Q'_def querier_rep_def)
  note s = sampled_iff [OF assms(2), of "Suc (length hist)"]
  show "querier_rep k j (hist @ [x]) (Q'\<lparr>nHits := (nHits Q')[x := nHits Q' ! x + 1]\<rparr>)" if "nLookups Q' AND 2 ^ j = 0"
    using that assms(3) unfolding n s
    by (auto simp: querier_rep_def n h count_hits_snoc intro!: nth_equalityI simp: nth_list_update)
  show "querier_rep k j (hist @ [x]) Q'" if "nLookups Q' AND 2 ^ j \<noteq> 0"
    using that unfolding n s by (simp add: querier_rep_def n h count_hits_snoc)
qed

lemma Querier_Lookup_rep:
  assumes "ndt_rep k j mem ndt s" "q < length (ndt_queriers ndt)" "list_all comp_ok name" "Name_Length name < 65536"
    and "x = dispatch_index sip (ndt_cfg ndt) name"
  shows "\<exists>mem'. Querier_Lookup sip (ndt_queriers ndt ! q) name mem = Ok (mem', s_tab s ! x)
    \<and> ndt_rep k j mem' ndt (s\<lparr>s_hist := (s_hist s)[q := s_hist s ! q @ [x]]\<rparr>)"
proof -
  let ?a = "ndt_queriers ndt ! q"
  have c: "cfg_ok k j (ndt_cfg ndt)" and l: "length (s_tab s) = 2 ^ k" "length (s_hist s) = length (ndt_queriers ndt)"
    and d: "distinct (ndt_queriers ndt)" using assms(1) by (simp_all add: ndt_rep_def)
  obtain Q where Q: "deref (m_queriers mem) ?a = Ok Q" "q_ndt Q \<in> snd ` set (ndt_replicas ndt)" "querier_rep k j (s_hist s ! q) Q"
    using assms(1,2) unfolding ndt_rep_def by blast
  obtain r where r: "deref (m_replicas mem) (q_ndt Q) = Ok r" "replica_rep k j (ndt_cfg ndt) (s_tab s) r"
    using assms(1) Q(2) unfolding ndt_rep_def by blast
  obtain p where p: "NewPName name = Ok p" "PName_of p name" using NewPName_of [OF assms(3,4)] by blast
  obtain w where w: "C_Ndt_Lookup sip r p = Ok (w, s_tab s ! x)" "unat w = x"
    using C_Ndt_Lookup_rep [OF c r(2) p(2) l(1)] unfolding assms(5) by blast
  have x: "x < 2 ^ k" unfolding assms(5) by (rule dispatch_index_less [OF c])
  have j: "j \<le> 30" using c by (simp add: cfg_ok_def)
  have sm: "sampleMask r = 2 ^ j" using r(2) by (simp add: replica_rep_def)
  have lh: "length (nHits Q) = 2 ^ k" using Q(3) by (simp add: querier_rep_def)
  have al: "?a < length (m_queriers mem)" using Q(1) by (simp add: deref_Ok_iff)
  have rep: "ndt_rep k j (mem\<lparr>m_queriers := (m_queriers mem)[?a := Some Q']\<rparr>) ndt (s\<lparr>s_hist := (s_hist s)[q := s_hist s ! q @ [x]]\<rparr>)"
    if "querier_rep k j (s_hist s ! q @ [x]) Q'" "q_ndt Q' = q_ndt Q" for Q'
    using assms(1,2) that Q(2) l(2) al d unfolding ndt_rep_def
    by (auto simp: deref_update nth_eq_iff_index_eq nth_list_update)
  note qr = querier_rep_lookup [OF Q(3) j x w(2)]
  show ?thesis
  proof (cases "(nLookups Q + 1) AND 2 ^ j = 0")
    case True
    show ?thesis using rep [OF qr(1)] True Q(1) r(1) p(1) w lh x by (simp add: Querier_Lookup_def C_NdtQuerier_Lookup_def Let_def sm)
  next
    case False
    show ?thesis using rep [OF qr(2)] False Q(1) r(1) p(1) w by (simp add: Querier_Lookup_def C_NdtQuerier_Lookup_def Let_def sm)
  qed
qed


lemma Update_all:
  assumes "\<forall>a \<in> snd ` set xs. \<exists>r. deref (m_replicas mem) a = Ok r \<and> unat index < length (ndt_table r)"
  shows "\<exists>mem'. forRange (\<lambda>mem (socket, ndtr). replica_Update ndtr index val mem) mem xs = Ok mem' \<and> m_queriers mem' = m_queriers mem
    \<and> (\<forall>a r. deref (m_replicas mem) a = Ok r \<longrightarrow>
         deref (m_replicas mem') a = Ok (if a \<in> snd ` set xs then r\<lparr>ndt_table := (ndt_table r)[unat index := val]\<rparr> else r))"
  using assms
proof (induction xs arbitrary: mem)
  case (Cons x xs)
  obtain socket b where x: "x = (socket, b)" by (cases x)
  obtain rb where rb: "deref (m_replicas mem) b = Ok rb" "unat index < length (ndt_table rb)" using Cons.prems by (auto simp: x)
  define rb' where "rb' = rb\<lparr>ndt_table := (ndt_table rb)[unat index := val]\<rparr>"
  define mem1 where "mem1 = mem\<lparr>m_replicas := (m_replicas mem)[b := Some rb']\<rparr>"
  have u: "replica_Update b index val mem = Ok mem1" using rb by (simp add: replica_Update_def C_Ndt_Update_def mem1_def rb'_def)
  have bl: "b < length (m_replicas mem)" using rb(1) by (simp add: deref_Ok_iff)
  have d: "deref (m_replicas mem1) a = (if a = b then Ok rb' else deref (m_replicas mem) a)" for a
    by (simp add: mem1_def deref_update [OF bl])
  have "\<forall>a \<in> snd ` set xs. \<exists>r. deref (m_replicas mem1) a = Ok r \<and> unat index < length (ndt_table r)"
    using Cons.prems rb(2) by (auto simp: d rb'_def)
  from Cons.IH [OF this] obtain mem' where m: "forRange (\<lambda>mem (socket, ndtr). replica_Update ndtr index val mem) mem1 xs = Ok mem'"
    "m_queriers mem' = m_queriers mem1"
    "\<And>a r. deref (m_replicas mem1) a = Ok r \<Longrightarrow>
       deref (m_replicas mem') a = Ok (if a \<in> snd ` set xs then r\<lparr>ndt_table := (ndt_table r)[unat index := val]\<rparr> else r)" by blast
  have "deref (m_replicas mem') a = Ok (if a \<in> snd ` set (x # xs) then r\<lparr>ndt_table := (ndt_table r)[unat index := val]\<rparr> else r)"
    if "deref (m_replicas mem) a = Ok r" for a r
  proof (cases "a = b")
    case True
    then have "deref (m_replicas mem1) a = Ok rb'" "r = rb" using d that rb(1) by simp_all
    from m(3) [OF this(1)] this(2) True show ?thesis by (simp add: x rb'_def)
  next
    case False
    then have "deref (m_replicas mem1) a = Ok r" using d that by simp
    from m(3) [OF this] False show ?thesis by (simp add: x)
  qed
  then show ?case using m(1,2) u by (auto simp: x mem1_def)
qed simp

lemma Update_rep:
  assumes "ndt_rep k j mem ndt s" "visits_all visit" "unat index < 2 ^ k"
  shows "\<exists>mem'. Ndt_Update visit ndt index val mem = Ok mem' \<and> ndt_rep k j mem' ndt (s\<lparr>s_tab := (s_tab s)[unat index := val]\<rparr>)"
proof -
  have v: "set (visit (ndt_replicas ndt)) = set (ndt_replicas ndt)" by (rule visits_all_set [OF assms(2)])
  have r: "\<exists>r. deref (m_replicas mem) a = Ok r \<and> replica_rep k j (ndt_cfg ndt) (s_tab s) r" if "a \<in> snd ` set (ndt_replicas ndt)" for a
    using assms(1) that unfolding ndt_rep_def by blast
  have l: "length (s_tab s) = 2 ^ k" using assms(1) by (simp add: ndt_rep_def)
  have "\<forall>a \<in> snd ` set (visit (ndt_replicas ndt)). \<exists>r. deref (m_replicas mem) a = Ok r \<and> unat index < length (ndt_table r)"
    unfolding v using r assms(3) l by (fastforce simp: replica_rep_def)
  from Update_all [OF this] obtain mem' where m: "Ndt_Update visit ndt index val mem = Ok mem'" "m_queriers mem' = m_queriers mem"
    "\<And>a r. deref (m_replicas mem) a = Ok r \<Longrightarrow> deref (m_replicas mem') a
       = Ok (if a \<in> snd ` set (ndt_replicas ndt) then r\<lparr>ndt_table := (ndt_table r)[unat index := val]\<rparr> else r)"
    unfolding Ndt_Update_def v by blast
  have "\<exists>r. deref (m_replicas mem') a = Ok r \<and> replica_rep k j (ndt_cfg ndt) ((s_tab s)[unat index := val]) r"
    if a: "a \<in> snd ` set (ndt_replicas ndt)" for a
  proof -
    from r [OF a] obtain r where "deref (m_replicas mem) a = Ok r" "replica_rep k j (ndt_cfg ndt) (s_tab s) r" by blast
    with m(3) [OF this(1)] a show ?thesis by (simp add: replica_rep_def)
  qed
  then have "ndt_rep k j mem' ndt (s\<lparr>s_tab := (s_tab s)[unat index := val]\<rparr>)"
    using assms(1) unfolding ndt_rep_def by (simp add: m(2))
  with m(1) show ?thesis by blast
qed

lemma Randomize_rep:
  assumes "ndt_rep k j mem ndt s" "visits_all visit" "0 < lim"
  shows "\<exists>mem'. Randomize visit rnd lim ndt mem = Ok mem'
    \<and> ndt_rep k j mem' ndt (s\<lparr>s_tab := map (\<lambda>i. word_of_int (int (rnd i) mod lim)) [0..<nat (NdtCapacity (ndt_cfg ndt))]\<rparr>)"
proof -
  let ?v = "\<lambda>i. word_of_int (int (rnd i) mod lim) :: u8"
  have c: "nat (NdtCapacity (ndt_cfg ndt)) = 2 ^ k" "k \<le> 60" using assms(1) by (simp_all add: ndt_rep_def cfg_ok_def nat_power_eq)
  have l: "length (s_tab s) = 2 ^ k" using assms(1) by (simp add: ndt_rep_def)
  have "\<exists>mem'. forRange (\<lambda>mem i. if lim \<le> 0 then Panic else Ndt_Update visit ndt (word_of_nat i) (?v i) mem) mem [0..<n] = Ok mem'
    \<and> ndt_rep k j mem' ndt (s\<lparr>s_tab := map ?v [0..<n] @ drop n (s_tab s)\<rparr>)" if "n \<le> 2 ^ k" for n
    using that
  proof (induction n)
    case (Suc n)
    then obtain mem1 where m1: "forRange (\<lambda>mem i. if lim \<le> 0 then Panic else Ndt_Update visit ndt (word_of_nat i) (?v i) mem) mem [0..<n] = Ok mem1"
      "ndt_rep k j mem1 ndt (s\<lparr>s_tab := map ?v [0..<n] @ drop n (s_tab s)\<rparr>)" by auto
    have "(2::nat) ^ k \<le> 2 ^ 60" using c(2) by (intro power_increasing) auto
    then have u: "unat (word_of_nat n :: u64) = n" using Suc.prems by (simp add: unsigned_of_nat take_bit_nat_eq_self)
    have "unat (word_of_nat n :: u64) < 2 ^ k" using Suc.prems u by simp
    from Update_rep [OF m1(2) assms(2) this, of "?v n"] obtain mem2 where m2: "Ndt_Update visit ndt (word_of_nat n) (?v n) mem1 = Ok mem2"
      "ndt_rep k j mem2 ndt (s\<lparr>s_tab := (map ?v [0..<n] @ drop n (s_tab s))[n := ?v n]\<rparr>)" by (auto simp: u)
    have "(map ?v [0..<n] @ drop n (s_tab s))[n := ?v n] = map ?v [0..<Suc n] @ drop (Suc n) (s_tab s)"
      using Suc.prems l by (simp add: list_update_append flip: Cons_nth_drop_Suc)
    with m1(1) m2 assms(3) show ?case by simp
  qed (use assms(1) in simp)
  from this [of "2 ^ k"] show ?thesis using l by (simp add: Randomize_def c)
qed

subsection \<open>Construction\<close>

lemma power_word: "k \<le> 60 \<Longrightarrow> rte_is_power_of_2 (word_of_int (2 ^ k))" "k \<le> 60 \<Longrightarrow> unat (word_of_int (2 ^ k) :: u64) = 2 ^ k"
  "k \<le> 60 \<Longrightarrow> word_of_int (2 ^ k) - 1 = (mask k :: u64)"
proof -
  assume k: "k \<le> 60"
  show "unat (word_of_int (2 ^ k) :: u64) = 2 ^ k" using k by (simp add: unsigned_of_int take_bit_int_eq_self nat_power_eq flip: of_int_power)
  show m: "word_of_int (2 ^ k) - 1 = (mask k :: u64)" by (simp add: mask_eq_exp_minus_1)
  have "(2 :: u64) ^ k AND mask k = 0" by (simp flip: take_bit_eq_mask add: take_bit_eq_mod)
  then show "rte_is_power_of_2 (word_of_int (2 ^ k))" using k m by (simp add: rte_is_power_of_2_def)
qed

lemma newReplica_ok:
  assumes "cfg_ok k j cfg" "\<forall>sz n. zmalloc sz n"
  shows "\<exists>r. newReplica zmalloc cfg socket mem = Ok (mem\<lparr>m_replicas := m_replicas mem @ [Some r]\<rparr>, length (m_replicas mem))
    \<and> replica_rep k j cfg (replicate (nat (NdtCapacity cfg)) 0) r"
  using assms power_word [of k]
  by (intro exI [of _ "\<lparr>indexMask = mask k, sampleMask = 2 ^ j, r_prefixLen = word_of_int (PrefixLen cfg), ndt_table = replicate (2 ^ k) 0\<rparr>"])
    (simp add: newReplica_def C_Ndt_New_def cfg_ok_def Let_def deref_append replica_rep_def nat_power_eq)

lemma newQuerier_ok:
  assumes "map_of (ndt_replicas ndt) socket = Some a" "deref (m_replicas mem) a = Ok r" "replica_rep k j cfg tab r" "k \<le> 60" "\<forall>sz n. zmalloc sz n"
  shows "\<exists>Q. newQuerier zmalloc ndt socket mem = Ok (mem\<lparr>m_queriers := m_queriers mem @ [Some Q]\<rparr>, length (m_queriers mem))
    \<and> q_ndt Q = a \<and> querier_rep k j [] Q"
proof -
  have "unat (mask k + 1 :: u64) = 2 ^ k" using power_word(2) [of k] assms(4) by (simp add: mask_eq_exp_minus_1)
  then show ?thesis using assms
    by (intro exI [of _ "\<lparr>q_ndt = a, nLookups = 0, nHits = replicate (2 ^ k) 0\<rparr>"])
      (simp add: newQuerier_def C_NdtQuerier_New_def Let_def replica_rep_def querier_rep_def count_hits_def map_replicate_trivial)
qed

lemma New_step_replica:
  assumes "ndt_rep k j mem ndt s" "s_tab s = replicate (nat (NdtCapacity (ndt_cfg ndt))) 0" "\<forall>sz n. zmalloc sz n"
  shows "\<exists>mem' ndt' a. (case map_of (ndt_replicas ndt) socket of Some _ \<Rightarrow> Ok (mem, ndt)
      | None \<Rightarrow> andthen (newReplica zmalloc (ndt_cfg ndt) socket mem) (\<lambda>(mem, a). Ok (mem, ndt\<lparr>ndt_replicas := ndt_replicas ndt @ [(socket, a)]\<rparr>)))
      = Ok (mem', ndt') \<and> ndt_rep k j mem' ndt' s \<and> ndt_cfg ndt' = ndt_cfg ndt \<and> ndt_queriers ndt' = ndt_queriers ndt
      \<and> map_of (ndt_replicas ndt') socket = Some a"
proof (cases "map_of (ndt_replicas ndt) socket")
  case None
  have c: "cfg_ok k j (ndt_cfg ndt)" using assms(1) by (simp add: ndt_rep_def)
  obtain r where r: "newReplica zmalloc (ndt_cfg ndt) socket mem = Ok (mem\<lparr>m_replicas := m_replicas mem @ [Some r]\<rparr>, length (m_replicas mem))"
    "replica_rep k j (ndt_cfg ndt) (s_tab s) r" using newReplica_ok [OF c assms(3)] unfolding assms(2) by blast
  have "\<forall>a \<in> snd ` set (ndt_replicas ndt). a \<noteq> length (m_replicas mem)"
    using assms(1) unfolding ndt_rep_def by (metis deref_Ok_iff less_irrefl)
  then have "ndt_rep k j (mem\<lparr>m_replicas := m_replicas mem @ [Some r]\<rparr>) (ndt\<lparr>ndt_replicas := ndt_replicas ndt @ [(socket, length (m_replicas mem))]\<rparr>) s"
    using assms(1) r(2) unfolding ndt_rep_def by (auto simp: deref_append) blast
  then show ?thesis using None r(1) by (auto simp: map_add_def)
qed (use assms(1) in auto)

lemma New_step_rep:
  assumes "ndt_rep k j mem ndt (spec_init (ndt_cfg ndt) (length (ndt_queriers ndt)))" "\<forall>sz n. zmalloc sz n" "Sockets \<noteq> []"
  shows "\<exists>mem' ndt'. Ndt_New_step zmalloc Sockets (mem, ndt) socket = Ok (mem', ndt') \<and> ndt_cfg ndt' = ndt_cfg ndt
    \<and> length (ndt_queriers ndt') = Suc (length (ndt_queriers ndt)) \<and> ndt_replicas ndt' \<noteq> []
    \<and> ndt_rep k j mem' ndt' (spec_init (ndt_cfg ndt') (length (ndt_queriers ndt')))"
proof -
  let ?s = "spec_init (ndt_cfg ndt) (length (ndt_queriers ndt))"
  obtain sk where sk: "(if IsAny socket then (case Sockets of [] \<Rightarrow> Panic | s # _ \<Rightarrow> Ok s) else Ok socket) = Ok sk"
    using assms(3) by (cases Sockets; cases "IsAny socket") auto
  obtain mem1 ndt1 a where 1: "(case map_of (ndt_replicas ndt) sk of Some _ \<Rightarrow> Ok (mem, ndt)
      | None \<Rightarrow> andthen (newReplica zmalloc (ndt_cfg ndt) sk mem) (\<lambda>(mem, a). Ok (mem, ndt\<lparr>ndt_replicas := ndt_replicas ndt @ [(sk, a)]\<rparr>)))
      = Ok (mem1, ndt1)" "ndt_rep k j mem1 ndt1 ?s" "ndt_cfg ndt1 = ndt_cfg ndt" "ndt_queriers ndt1 = ndt_queriers ndt"
      "map_of (ndt_replicas ndt1) sk = Some a"
    using New_step_replica [OF assms(1) _ assms(2), of sk] by (auto simp: spec_init_def)
  have a: "a \<in> snd ` set (ndt_replicas ndt1)" using map_of_SomeD [OF 1(5)] by force
  have k: "k \<le> 60" using assms(1) by (simp add: ndt_rep_def cfg_ok_def)
  obtain r where r: "deref (m_replicas mem1) a = Ok r" "replica_rep k j (ndt_cfg ndt1) (s_tab ?s) r"
    using 1(2) a unfolding ndt_rep_def by blast
  obtain Q where Q: "newQuerier zmalloc ndt1 sk mem1 = Ok (mem1\<lparr>m_queriers := m_queriers mem1 @ [Some Q]\<rparr>, length (m_queriers mem1))"
    "q_ndt Q = a" "querier_rep k j [] Q" using newQuerier_ok [OF 1(5) r k assms(2)] by blast
  define q where "q = length (m_queriers mem1)"
  define mem2 where "mem2 = mem1\<lparr>m_queriers := m_queriers mem1 @ [Some Q]\<rparr>"
  define ndt2 where "ndt2 = ndt1\<lparr>ndt_queriers := ndt_queriers ndt1 @ [q]\<rparr>"
  have "ndt_queriers ndt1 ! i \<noteq> q" if "i < length (ndt_queriers ndt1)" for i
    using 1(2) that unfolding ndt_rep_def q_def by (metis deref_Ok_iff less_irrefl)
  note fresh = this
  have qs: "\<exists>Q. deref (m_queriers mem2) (ndt_queriers ndt2 ! i) = Ok Q \<and> q_ndt Q \<in> snd ` set (ndt_replicas ndt1) \<and> querier_rep k j [] Q"
    if "i < length (ndt_queriers ndt2)" for i
  proof (cases "i < length (ndt_queriers ndt1)")
    case True
    then have "\<exists>Q. deref (m_queriers mem1) (ndt_queriers ndt1 ! i) = Ok Q \<and> q_ndt Q \<in> snd ` set (ndt_replicas ndt1) \<and> querier_rep k j (s_hist ?s ! i) Q"
      using 1(2) unfolding ndt_rep_def by blast
    with True fresh [OF True] 1(4) show ?thesis by (simp add: ndt2_def nth_append mem2_def deref_append spec_init_def flip: q_def)
  next
    case False
    with that have "ndt_queriers ndt2 ! i = q" by (simp add: ndt2_def nth_append)
    with Q(2,3) a show ?thesis by (simp add: mem2_def deref_append q_def)
  qed
  have "q \<notin> set (ndt_queriers ndt1)" using fresh by (auto simp: in_set_conv_nth)
  with qs have "ndt_rep k j mem2 ndt2 (spec_init (ndt_cfg ndt2) (length (ndt_queriers ndt2)))"
    using 1(2,3) unfolding ndt_rep_def spec_init_def by (auto simp: ndt2_def mem2_def simp del: replicate.simps)
  moreover have "Ndt_New_step zmalloc Sockets (mem, ndt) socket = Ok (mem2, ndt2)"
    unfolding Ndt_New_step_def case_prod_conv sk andthen.simps 1(1) Q(1) mem2_def ndt2_def q_def ..
  ultimately show ?thesis using 1(3,4,5) by (auto simp: ndt2_def)
qed

lemma New_rep:
  assumes "npow2_laws NextPowerOfTwo" "\<forall>sz n. zmalloc sz n" "Sockets \<noteq> []" "sockets \<noteq> []"
  shows "\<exists>mem' ndt k j. Ndt_New min max NextPowerOfTwo zmalloc Sockets cfg sockets mem = Ok (mem', ndt)
    \<and> ndt_cfg ndt = ndt_applyDefaults min max NextPowerOfTwo cfg \<and> length (ndt_queriers ndt) = length sockets \<and> ndt_replicas ndt \<noteq> []
    \<and> ndt_rep k j mem' ndt (spec_init (ndt_cfg ndt) (length sockets))"
proof -
  let ?cfg = "ndt_applyDefaults min max NextPowerOfTwo cfg"
  let ?ndt = "\<lparr>ndt_cfg = ?cfg, ndt_replicas = [], ndt_queriers = []\<rparr>"
  obtain k j where c: "cfg_ok k j ?cfg" using applyDefaults_ok [OF assms(1)] by blast
  have "\<exists>mem' ndt. forRange (Ndt_New_step zmalloc Sockets) (mem, ?ndt) xs = Ok (mem', ndt) \<and> ndt_cfg ndt = ?cfg
    \<and> length (ndt_queriers ndt) = length xs \<and> (xs \<noteq> [] \<longrightarrow> ndt_replicas ndt \<noteq> [])
    \<and> ndt_rep k j mem' ndt (spec_init (ndt_cfg ndt) (length (ndt_queriers ndt)))" for xs
  proof (induction xs rule: rev_induct)
    case Nil
    show ?case using c by (auto simp: ndt_rep_def spec_init_def cfg_ok_def nat_power_eq)
  next
    case (snoc x xs)
    then obtain mem1 ndt1 where 1: "forRange (Ndt_New_step zmalloc Sockets) (mem, ?ndt) xs = Ok (mem1, ndt1)" "ndt_cfg ndt1 = ?cfg"
      "length (ndt_queriers ndt1) = length xs" "ndt_rep k j mem1 ndt1 (spec_init (ndt_cfg ndt1) (length (ndt_queriers ndt1)))" by blast
    from New_step_rep [OF 1(4) assms(2,3), of x] obtain mem2 ndt2 where "Ndt_New_step zmalloc Sockets (mem1, ndt1) x = Ok (mem2, ndt2)"
      "ndt_cfg ndt2 = ndt_cfg ndt1" "length (ndt_queriers ndt2) = Suc (length (ndt_queriers ndt1))" "ndt_replicas ndt2 \<noteq> []"
      "ndt_rep k j mem2 ndt2 (spec_init (ndt_cfg ndt2) (length (ndt_queriers ndt2)))" by blast
    with 1 show ?case by simp
  qed
  from this [of sockets] assms(4) show ?thesis unfolding Ndt_New_def Let_def by metis
qed

subsection \<open>Reading\<close>

definition spec_hits :: "NdtConfig \<Rightarrow> ndt_spec \<Rightarrow> nat \<Rightarrow> u32" where
  "spec_hits cfg s x = word_of_nat (sum_list (map (\<lambda>hist. count_hits (nat (SampleInterval cfg)) hist x) (s_hist s)))"

definition spec_entry :: "NdtConfig \<Rightarrow> ndt_spec \<Rightarrow> nat \<Rightarrow> NdtEntry" where
  "spec_entry cfg s x = \<lparr>Index = int x, EntryValue = uint (s_tab s ! x), Hits = spec_hits cfg s x\<rparr>"

lemma firstReplica_ok:
  assumes "visits_all visit" "ndt_replicas ndt \<noteq> []"
  shows "\<exists>a \<in> snd ` set (ndt_replicas ndt). firstReplica visit ndt = Ok a"
proof -
  have v: "set (visit (ndt_replicas ndt)) = set (ndt_replicas ndt)" by (rule visits_all_set [OF assms(1)])
  with assms(2) obtain sk a rest where "visit (ndt_replicas ndt) = (sk, a) # rest" by (cases "visit (ndt_replicas ndt)") auto
  with v show ?thesis by (force simp: firstReplica_def)
qed

lemma replica_Read_rep:
  assumes "ndt_rep k j mem ndt s" "a \<in> snd ` set (ndt_replicas ndt)" "x < 2 ^ k"
  shows "replica_Read mem a (int x) = Ok \<lparr>Index = int x, EntryValue = uint (s_tab s ! x), Hits = 0\<rparr>"
proof -
  obtain r where r: "deref (m_replicas mem) a = Ok r" "ndt_table r = s_tab s" "length (s_tab s) = 2 ^ k" "k \<le> 60"
    using assms(1,2) unfolding ndt_rep_def replica_rep_def cfg_ok_def by blast
  have "(2::nat) ^ k \<le> 2 ^ 60" using r(4) by (intro power_increasing) auto
  then have "unat (word_of_int (int x) :: u64) = x" using assms(3) by (simp add: unsigned_of_nat take_bit_nat_eq_self)
  with r assms(3) show ?thesis by (simp add: replica_Read_def C_Ndt_Read_def)
qed

lemma hitCounters_rep:
  assumes "ndt_rep k j mem ndt s" "i < length (ndt_queriers ndt)"
  shows "hitCounters mem (NdtCapacity (ndt_cfg ndt)) (ndt_queriers ndt ! i)
    = Ok (map (\<lambda>x. word_of_nat (count_hits (nat (SampleInterval (ndt_cfg ndt))) (s_hist s ! i) x)) [0..<2 ^ k])"
proof -
  obtain Q where Q: "deref (m_queriers mem) (ndt_queriers ndt ! i) = Ok Q" "querier_rep k j (s_hist s ! i) Q"
    using assms unfolding ndt_rep_def by blast
  have c: "NdtCapacity (ndt_cfg ndt) = 2 ^ k" "SampleInterval (ndt_cfg ndt) = 2 ^ j" using assms(1) by (simp_all add: ndt_rep_def cfg_ok_def)
  show ?thesis using Q by (simp add: hitCounters_def c nat_power_eq querier_rep_def)
qed

lemma queriers_indexed: "ndt_queriers ndt = map (\<lambda>i. ndt_queriers ndt ! i) [0..<length (ndt_queriers ndt)]"
  by (simp add: map_nth)

lemma Get_rep:
  assumes "ndt_rep k j mem ndt s" "visits_all visit" "ndt_replicas ndt \<noteq> []" "unat index < 2 ^ k"
  shows "Ndt_Get visit ndt mem index = Ok (spec_entry (ndt_cfg ndt) s (unat index))"
proof -
  let ?c = "\<lambda>hist. count_hits (nat (SampleInterval (ndt_cfg ndt))) hist (unat index)"
  let ?f = "\<lambda>entry i. andthen (hitCounters mem (NdtCapacity (ndt_cfg ndt)) (ndt_queriers ndt ! i)) (\<lambda>hits.
         if unat index < length hits then Ok (entry\<lparr>Hits := Hits entry + hits ! unat index\<rparr>) else Panic)"
  obtain a where a: "a \<in> snd ` set (ndt_replicas ndt)" "firstReplica visit ndt = Ok a" using firstReplica_ok [OF assms(2,3)] by blast
  have k: "k \<le> 60" and l: "length (s_hist s) = length (ndt_queriers ndt)" using assms(1) by (simp_all add: ndt_rep_def cfg_ok_def)
  have "(2::nat) ^ k \<le> 2 ^ 60" using k by (intro power_increasing) auto
  then have "unat index < 2 ^ 60" using assms(4) by linarith
  then have "nat (uint index) < 2 ^ 60" by (simp only: nat_uint_eq)
  then have "uint index < 2 ^ 60" by (simp add: nat_less_iff del: nat_uint_eq)
  moreover have "- (2 ^ 63) \<le> uint index" by (rule order_trans [of _ 0]) simp_all
  ultimately have s: "sint index = int (unat index)" by (simp add: sint_uint signed_take_bit_int_eq_self)
  have "n \<le> length (ndt_queriers ndt) \<Longrightarrow> forRange ?f e [0..<n] = Ok (e\<lparr>Hits := Hits e + word_of_nat (sum_list (map ?c (take n (s_hist s))))\<rparr>)" for n e
  proof (induction n)
    case (Suc n)
    then show ?case using hitCounters_rep [OF assms(1), of n] assms(4) l by (simp add: take_Suc_conv_app_nth add.assoc)
  qed simp
  from this [of "length (ndt_queriers ndt)" "\<lparr>Index = int (unat index), EntryValue = uint (s_tab s ! unat index), Hits = 0\<rparr>"] show ?thesis
    unfolding Ndt_Get_def a(2) andthen.simps s replica_Read_rep [OF assms(1) a(1) assms(4)]
    by (subst queriers_indexed) (simp add: forRange_map spec_entry_def spec_hits_def l)
qed

lemma List_rep:
  assumes "ndt_rep k j mem ndt s" "visits_all visit" "ndt_replicas ndt \<noteq> []"
  shows "Ndt_List visit ndt mem = Ok (map (spec_entry (ndt_cfg ndt) s) [0..<2 ^ k])"
proof -
  let ?c = "\<lambda>hist x. count_hits (nat (SampleInterval (ndt_cfg ndt))) hist x"
  let ?f = "\<lambda>list i. andthen (hitCounters mem (NdtCapacity (ndt_cfg ndt)) (ndt_queriers ndt ! i)) (\<lambda>hits.
         Ok (map (\<lambda>(e, hit). e\<lparr>Hits := Hits e + hit\<rparr>) (zip list hits)))"
  let ?e = "\<lambda>n x. \<lparr>Index = int x, EntryValue = uint (s_tab s ! x), Hits = word_of_nat (sum_list (map (\<lambda>h. ?c h x) (take n (s_hist s))))\<rparr>"
  obtain a where a: "a \<in> snd ` set (ndt_replicas ndt)" "firstReplica visit ndt = Ok a" using firstReplica_ok [OF assms(2,3)] by blast
  have c: "nat (NdtCapacity (ndt_cfg ndt)) = 2 ^ k" and l: "length (s_hist s) = length (ndt_queriers ndt)"
    using assms(1) by (simp_all add: ndt_rep_def cfg_ok_def nat_power_eq)
  have r: "forRange (\<lambda>list i. andthen (replica_Read mem a (int i)) (\<lambda>e. Ok (list @ [e]))) [] [0..<2 ^ k] = Ok ([] @ map (?e 0) [0..<2 ^ k])"
    by (rule forRange_collect) (simp add: replica_Read_rep [OF assms(1) a(1)])
  have "n \<le> length (ndt_queriers ndt) \<Longrightarrow> forRange ?f (map (?e 0) [0..<2 ^ k]) [0..<n] = Ok (map (?e n) [0..<2 ^ k])" for n
  proof (induction n)
    case (Suc n)
    then show ?case using hitCounters_rep [OF assms(1), of n] l
      by (auto simp: take_Suc_conv_app_nth intro!: nth_equalityI)
  qed simp
  from this [of "length (ndt_queriers ndt)"] show ?thesis
    unfolding Ndt_List_def a(2) andthen.simps c r append_Nil
    by (subst queriers_indexed) (simp add: forRange_map spec_entry_def spec_hits_def l)
qed

subsection \<open>Properties\<close>

lemma step_rep:
  assumes "ndt_rep k j mem ndt s" "visits_all visit" "event_ok (ndt_cfg ndt) (length (ndt_queriers ndt)) ev"
    and "spec_step sip (ndt_cfg ndt) (s, out) ev = (s', out')"
  shows "\<exists>mem'. ndt_step visit sip ndt (mem, out) ev = Ok (mem', out') \<and> ndt_rep k j mem' ndt s'"
proof (cases ev)
  case (EvUpdate index val)
  have "unat index < 2 ^ k" using assms(1,3) by (simp add: EvUpdate ndt_rep_def cfg_ok_def nat_power_eq)
  then show ?thesis using Update_rep [OF assms(1,2), of index val] assms(4) by (auto simp: EvUpdate)
next
  case (EvRandomize rnd lim)
  then show ?thesis using Randomize_rep [OF assms(1,2), of lim rnd] assms(3,4) by auto
next
  case (EvLookup q name)
  then show ?thesis using Querier_Lookup_rep [OF assms(1), of q name _ sip] assms(3,4) by (auto simp: Let_def)
qed

lemma run_rep:
  assumes "ndt_rep k j mem ndt s" "visits_all visit" "list_all (event_ok (ndt_cfg ndt) (length (ndt_queriers ndt))) evs"
    and "foldl (spec_step sip (ndt_cfg ndt)) (s, out) evs = (s', out')"
  shows "\<exists>mem'. forRange (ndt_step visit sip ndt) (mem, out) evs = Ok (mem', out') \<and> ndt_rep k j mem' ndt s'"
  using assms
proof (induction evs arbitrary: mem s out)
  case (Cons ev evs)
  obtain s1 out1 where 1: "spec_step sip (ndt_cfg ndt) (s, out) ev = (s1, out1)" by fastforce
  obtain mem1 where "ndt_step visit sip ndt (mem, out) ev = Ok (mem1, out1)" "ndt_rep k j mem1 ndt s1"
    using step_rep [OF Cons.prems(1,2) _ 1] Cons.prems(3) by auto
  with Cons.IH [OF this(2) Cons.prems(2)] Cons.prems(3,4) 1 show ?case by auto
qed simp

lemma Lookup_rep:
  assumes "ndt_rep k j mem ndt s" "visits_all visit" "ndt_replicas ndt \<noteq> []" "list_all comp_ok name" "Name_Length name < 65536"
  shows "\<exists>w. Ndt_Lookup visit sip ndt mem name = Ok (w, s_tab s ! unat w) \<and> IndexOfName sip ndt name = Ok w
    \<and> unat w = dispatch_index sip (ndt_cfg ndt) name"
proof -
  have c: "cfg_ok k j (ndt_cfg ndt)" "length (s_tab s) = 2 ^ k" using assms(1) by (simp_all add: ndt_rep_def)
  obtain a where a: "a \<in> snd ` set (ndt_replicas ndt)" "firstReplica visit ndt = Ok a" using firstReplica_ok [OF assms(2,3)] by blast
  obtain r where r: "deref (m_replicas mem) a = Ok r" "replica_rep k j (ndt_cfg ndt) (s_tab s) r" using assms(1) a(1) unfolding ndt_rep_def by blast
  obtain p where p: "NewPName name = Ok p" "PName_of p name" using NewPName_of [OF assms(4,5)] by blast
  obtain w where w: "C_Ndt_Lookup sip r p = Ok (w, s_tab s ! dispatch_index sip (ndt_cfg ndt) name)" "unat w = dispatch_index sip (ndt_cfg ndt) name"
    using C_Ndt_Lookup_rep [OF c(1) r(2) p(2) c(2)] by blast
  obtain w' where w': "IndexOfName sip ndt name = Ok w'" "unat w' = dispatch_index sip (ndt_cfg ndt) name"
    using IndexOfName_ok [OF c(1) assms(4,5)] by blast
  have "w = w'" using w(2) w'(2) by (metis unsigned_word_eqI)
  then show ?thesis using a(2) r(1) p(1) w w' by (simp add: Ndt_Lookup_def replica_Lookup_def)
qed

text \<open>The mutation of the GraphQL schema masks any index and stores the value modulo 256.\<close>

lemma updateNdt_rep:
  assumes "ndt_rep k j mem ndt s" "visits_all visit" "ndt_replicas ndt \<noteq> []"
  shows "\<exists>mem' e. Gql_updateNdt visit sip (Some ndt) (Some i) nm v mem = Ok (mem', e) \<and> Index e = i mod 2 ^ k \<and> EntryValue e = v mod 256
    \<and> ndt_rep k j mem' ndt (s\<lparr>s_tab := (s_tab s)[nat (i mod 2 ^ k) := word_of_int v]\<rparr>)"
proof -
  have c: "cfg_ok k j (ndt_cfg ndt)" and l: "length (s_tab s) = 2 ^ k" using assms(1) by (simp_all add: ndt_rep_def)
  let ?w = "IndexOfHash ndt (word_of_int i)"
  have "?w = word_of_int i AND mask k" using c by (simp add: IndexOfHash_def Config_indexMask_def cfg_ok_def mask_eq_exp_minus_1)
  moreover have "uint (word_of_int i AND mask k :: u64) = i mod 2 ^ k"
    using c by (simp only: flip: take_bit_eq_mask, simp only: unsigned_take_bit_eq uint_word_of_int_eq take_bit_take_bit)
      (simp add: cfg_ok_def take_bit_eq_mod min_def)
  ultimately have u: "uint ?w = i mod 2 ^ k" by simp
  then have w: "unat ?w = nat (i mod 2 ^ k)" by (simp flip: nat_uint_eq)
  then have lt: "unat ?w < 2 ^ k" by (simp add: nat_less_iff)
  obtain mem' where m: "Ndt_Update visit ndt ?w (word_of_int v) mem = Ok mem'"
    "ndt_rep k j mem' ndt (s\<lparr>s_tab := (s_tab s)[unat ?w := word_of_int v]\<rparr>)" using Update_rep [OF assms(1,2) lt] by blast
  have "uint (word_of_int v :: u8) = v mod 256" by (simp add: uint_word_of_int)
  then show ?thesis using m Get_rep [OF m(2) assms(2,3) lt] lt l u w
    by (simp add: Gql_updateNdt_def spec_entry_def)
qed

text \<open>C16 (Ndt_dispatch_consistent): a table made by \<open>New\<close> for any configuration and any list of lookup threads, and then
  changed by any sequence of updates, randomizations and lookups, behaves like one array of values, whatever the NUMA
  socket of a thread and the order in which the map of replicas is visited. No operation panics; every lookup of every
  querier returns the value of the array at the hash of the first \<open>PrefixLen\<close> components of the name modulo the
  capacity, which is the index that \<open>IndexOfName\<close> computes in Go; \<open>Get\<close> and \<open>List\<close> return the values and the sums of
  the hit counters of all queriers.\<close>

theorem Ndt_dispatch_consistent:
  assumes "npow2_laws NextPowerOfTwo" "MinInt = min" "MaxInt = max" "visits_all visit"
    and "\<forall>sz n. zmalloc sz n" "Sockets \<noteq> []" "sockets \<noteq> []"
    and "list_all (event_ok (ndt_applyDefaults MinInt MaxInt NextPowerOfTwo cfg) (length sockets)) evs"
  shows "\<exists>mem0 ndt mem s out. Ndt_New MinInt MaxInt NextPowerOfTwo zmalloc Sockets cfg sockets init = Ok (mem0, ndt)
    \<and> ndt_cfg ndt = ndt_applyDefaults MinInt MaxInt NextPowerOfTwo cfg \<and> length (ndt_queriers ndt) = length sockets
    \<and> foldl (spec_step sip (ndt_cfg ndt)) (spec_init (ndt_cfg ndt) (length sockets), []) evs = (s, out)
    \<and> ndt_run visit sip ndt mem0 evs = Ok (mem, out)
    \<and> Ndt_List visit ndt mem = Ok (map (spec_entry (ndt_cfg ndt) s) [0..<nat (NdtCapacity (ndt_cfg ndt))])
    \<and> (\<forall>index. unat index < nat (NdtCapacity (ndt_cfg ndt)) \<longrightarrow>
         Ndt_Get visit ndt mem index = Ok (spec_entry (ndt_cfg ndt) s (unat index)))
    \<and> (\<forall>name. list_all comp_ok name \<and> Name_Length name < 65536 \<longrightarrow>
         (\<exists>w. Ndt_Lookup visit sip ndt mem name = Ok (w, s_tab s ! unat w) \<and> IndexOfName sip ndt name = Ok w
            \<and> unat w = dispatch_index sip (ndt_cfg ndt) name))"
proof -
  obtain mem0 ndt k j where n: "Ndt_New MinInt MaxInt NextPowerOfTwo zmalloc Sockets cfg sockets init = Ok (mem0, ndt)"
    "ndt_cfg ndt = ndt_applyDefaults MinInt MaxInt NextPowerOfTwo cfg" "length (ndt_queriers ndt) = length sockets"
    "ndt_replicas ndt \<noteq> []" "ndt_rep k j mem0 ndt (spec_init (ndt_cfg ndt) (length sockets))"
    using New_rep [OF assms(1,5-7)] unfolding assms(2,3) by blast
  obtain s out where s: "foldl (spec_step sip (ndt_cfg ndt)) (spec_init (ndt_cfg ndt) (length sockets), []) evs = (s, out)" by fastforce
  obtain mem where m: "ndt_run visit sip ndt mem0 evs = Ok (mem, out)" "ndt_rep k j mem ndt s"
    using run_rep [OF n(5) assms(4) _ s] assms(8) unfolding ndt_run_def n(2,3) by blast
  have c: "NdtCapacity (ndt_cfg ndt) = 2 ^ k" using m(2) by (simp add: ndt_rep_def cfg_ok_def)
  have g: "\<forall>index. unat index < nat (NdtCapacity (ndt_cfg ndt)) \<longrightarrow> Ndt_Get visit ndt mem index = Ok (spec_entry (ndt_cfg ndt) s (unat index))"
    using Get_rep [OF m(2) assms(4) n(4)] by (simp add: c nat_power_eq)
  have l: "Ndt_List visit ndt mem = Ok (map (spec_entry (ndt_cfg ndt) s) [0..<nat (NdtCapacity (ndt_cfg ndt))])"
    using List_rep [OF m(2) assms(4) n(4)] by (simp add: c nat_power_eq)
  have lk: "\<forall>name. list_all comp_ok name \<and> Name_Length name < 65536 \<longrightarrow>
      (\<exists>w. Ndt_Lookup visit sip ndt mem name = Ok (w, s_tab s ! unat w) \<and> IndexOfName sip ndt name = Ok w
         \<and> unat w = dispatch_index sip (ndt_cfg ndt) name)"
    using Lookup_rep [OF m(2) assms(4) n(4)] by blast
  show ?thesis
    by (intro exI conjI, rule n(1), rule n(2), rule n(3), rule s, rule m(1), rule l, rule g, rule lk)
qed

text \<open>An instance of the laws: doubling until the power is not below the number.\<close>

definition list_npow2 :: "int \<Rightarrow> int" where
  "list_npow2 n = (case filter (\<lambda>k. n \<le> 2 ^ k) [0..<63] of [] \<Rightarrow> 0 | k # _ \<Rightarrow> 2 ^ k)"

lemma list_npow2_laws: "npow2_laws list_npow2"
  unfolding npow2_laws_def
proof (intro allI impI)
  fix n :: int assume n: "0 < n \<and> n \<le> 2 ^ 62"
  let ?P = "\<lambda>k. n \<le> 2 ^ k"
  have "62 \<in> set (filter ?P [0..<63])" using n by simp
  then obtain k ks where k: "filter ?P [0..<63] = k # ks" by (metis empty_iff list.exhaust list.set(1))
  have in_k: "k \<in> set (filter ?P [0..<63])" using k by simp
  then have nk: "?P k" by (simp only: set_filter mem_Collect_eq)
  have "sorted (filter ?P [0..<63])" by (simp add: sorted_wrt_filter)
  then have "\<forall>x \<in> set (filter ?P [0..<63]). k \<le> x" using k by auto
  then have "\<not> ?P i" if "i < k" for i using that in_k by (auto simp: Ball_def dest!: spec [of _ i])
  then have "(2::int) ^ k < 2 * n" using n by (cases k) force+
  then show "\<exists>k. list_npow2 n = 2 ^ k \<and> n \<le> 2 ^ k \<and> 2 ^ k < 2 * n" using nk by (intro exI [of _ k]) (simp add: list_npow2_def k)
qed

theorem Ndt_dispatch_consistent_witness:
  "\<exists>mem0 ndt mem. Ndt_New min max list_npow2 (\<lambda>_ _. True) [\<lparr>ns_v = 1\<rparr>, \<lparr>ns_v = 2\<rparr>] \<lparr>PrefixLen = 1, NdtCapacity = 16, SampleInterval = 0\<rparr>
      [\<lparr>ns_v = 1\<rparr>, \<lparr>ns_v = 2\<rparr>] \<lparr>m_replicas = [], m_queriers = []\<rparr> = Ok (mem0, ndt)
    \<and> ndt_run id (\<lambda>bs. word_of_nat (length bs)) ndt mem0 [EvUpdate 3 7, EvLookup 1 [\<lparr>Type = 8, Value = [65]\<rparr>, \<lparr>Type = 8, Value = [66]\<rparr>]]
      = Ok (mem, [7])"
proof -
  let ?cfg = "\<lparr>PrefixLen = 1, NdtCapacity = 16, SampleInterval = 0\<rparr>"
  let ?name = "[\<lparr>Type = 8, Value = [65]\<rparr>, \<lparr>Type = 8, Value = [66]\<rparr>]"
  have u: "[0..<63] = [0, 1, 2, 3, 4] @ [5..<63]" by (simp add: upt_rec)
  have c: "NdtCapacity (ndt_applyDefaults min max list_npow2 ?cfg) = 16" "PrefixLen (ndt_applyDefaults min max list_npow2 ?cfg) = 1"
    by (simp_all add: applyDefaults_fields ndt_limits list_npow2_def u)
  have v: "visits_all id" by (simp add: visits_all_def)
  have nm: "list_all comp_ok ?name" "Name_Length ?name < 65536"
    by (simp_all add: comp_ok_def NameComponent_Valid_def isValidNameComponentType_def slice_ok_def Name_Length_def Element_Size_def Element_Length_def VarNum_Size_def)
  have d: "dispatch_index (\<lambda>bs. word_of_nat (length bs)) (ndt_applyDefaults min max list_npow2 ?cfg) ?name = 3"
    by (simp add: dispatch_index_def c tlv_bytes_def VarNum_Encode_def)
  have e: "list_all (event_ok (ndt_applyDefaults min max list_npow2 ?cfg) (length [\<lparr>ns_v = 1\<rparr>, \<lparr>ns_v = 2\<rparr>])) [EvUpdate 3 7, EvLookup 1 ?name]"
    using nm by (simp add: c)
  from Ndt_dispatch_consistent [OF list_npow2_laws refl refl v _ _ _ e, of "\<lambda>_ _. True" "[\<lparr>ns_v = 1\<rparr>, \<lparr>ns_v = 2\<rparr>]" "\<lparr>m_replicas = [], m_queriers = []\<rparr>"
      "\<lambda>bs. word_of_nat (length bs)"]
  show ?thesis by (auto simp: spec_init_def c d Let_def)
qed

text \<open>C35 (NdtConfig_sample_interval_ignored): the prefix length and the capacity are clamped to their limits and the
  capacity becomes a power of two, but a sample interval that is given is not used: the effective one is the power of two
  not below the prefix length, at most 32, where the comment of the field promises the interval itself, clamped and
  rounded up.\<close>

theorem NdtConfig_sample_interval_ignored:
  assumes "npow2_laws NextPowerOfTwo" "MinInt = min" "MaxInt = max" "SampleInterval c \<noteq> 0"
  defines "c' \<equiv> ndt_applyDefaults MinInt MaxInt NextPowerOfTwo c"
  shows "1 \<le> PrefixLen c' \<and> PrefixLen c' \<le> 17 \<and> (1 \<le> PrefixLen c \<and> PrefixLen c \<le> 17 \<longrightarrow> PrefixLen c' = PrefixLen c)
    \<and> (\<exists>k. NdtCapacity c' = 2 ^ k \<and> 4 \<le> k \<and> k \<le> 60)
    \<and> (16 \<le> NdtCapacity c \<and> NdtCapacity c \<le> 2 ^ 60 \<longrightarrow> NdtCapacity c \<le> NdtCapacity c' \<and> NdtCapacity c' < 2 * NdtCapacity c)
    \<and> SampleInterval c' = NextPowerOfTwo (PrefixLen c') \<and> SampleInterval c' \<le> 32"
proof -
  note l = assms(1) [unfolded npow2_laws_def, rule_format]
  let ?n = "if NdtCapacity c = 0 then Ndt_DefaultCapacity else min (max Ndt_MinCapacity (NdtCapacity c)) Ndt_MaxCapacity"
  have p: "1 \<le> PrefixLen c'" "PrefixLen c' \<le> 17" "1 \<le> PrefixLen c \<and> PrefixLen c \<le> 17 \<longrightarrow> PrefixLen c' = PrefixLen c"
    unfolding c'_def assms(2,3) by (auto simp: applyDefaults_fields(1) ndt_limits)
  have cap: "NdtCapacity c' = NextPowerOfTwo ?n" unfolding c'_def assms(2,3) by (rule applyDefaults_fields(2))
  have n: "16 \<le> ?n" "?n \<le> 2 ^ 60" "16 \<le> NdtCapacity c \<and> NdtCapacity c \<le> 2 ^ 60 \<longrightarrow> ?n = NdtCapacity c" by (auto simp: ndt_limits)
  obtain k where k: "NextPowerOfTwo ?n = 2 ^ k" "?n \<le> 2 ^ k" "2 ^ k < 2 * ?n" using l [of ?n] n(1,2) by auto
  have "(2::int) ^ k < 2 ^ 61" using k(3) n(2) by simp
  then have k60: "k \<le> 60" using power_less_imp_less_exp [of "2::int" k 61] by simp
  have "(2::int) ^ 4 \<le> 2 ^ k" using k(2) n(1) by simp
  then have k4: "4 \<le> k" by (rule power_le_imp_le_exp [rotated]) simp
  have si: "SampleInterval c' = NextPowerOfTwo (PrefixLen c')"
    using assms(4) p(1,2) unfolding c'_def assms(2,3) by (simp add: applyDefaults_fields(3) ndt_limits min_def max_def)
  obtain j where j: "NextPowerOfTwo (PrefixLen c') = 2 ^ j" "2 ^ j < 2 * PrefixLen c'" using l [of "PrefixLen c'"] p(1,2) by auto
  have "(2::int) ^ j < 2 ^ 6" using j(2) p(2) by simp
  then have "j \<le> 5" using power_less_imp_less_exp [of "2::int" j 6] by simp
  then have "(2::int) ^ j \<le> 2 ^ 5" by (intro power_increasing) auto
  then show ?thesis using p cap k k4 k60 n(3) si j(1) by auto
qed

theorem NdtConfig_sample_interval_ignored_witness:
  "SampleInterval (ndt_applyDefaults min max list_npow2 \<lparr>PrefixLen = 2, NdtCapacity = 16, SampleInterval = 1024\<rparr>) \<le> 32"
proof -
  have "SampleInterval \<lparr>PrefixLen = 2, NdtCapacity = 16, SampleInterval = 1024\<rparr> \<noteq> 0" by simp
  from NdtConfig_sample_interval_ignored [OF list_npow2_laws refl refl this] show ?thesis by blast
qed

subsection \<open>Sampling of the hit counters\<close>

lemma even_runs:
  assumes "0 < d"
  shows "length (filter (\<lambda>i. even (Suc i div d)) [0..<2 * d * m]) = d * m"
proof (induction m)
  case (Suc m)
  have base: "length (filter (\<lambda>i. even (Suc i div d)) [0..<2 * d]) = d"
  proof -
    have "{i. i < 2 * d \<and> even (Suc i div d)} = {..<d - 1} \<union> {2 * d - 1}" (is "?A = ?B")
    proof (intro set_eqI iffI)
      fix i assume i: "i \<in> ?A"
      show "i \<in> ?B"
      proof (cases "Suc i < d \<or> Suc i = 2 * d")
        case False
        then have "Suc i div d = 1" using i by (intro div_nat_eqI) auto
        then show ?thesis using i by simp
      qed auto
    next
      fix i assume "i \<in> ?B"
      then consider "Suc i < d" | "Suc i = 2 * d" using assms by auto
      then show "i \<in> ?A" using assms by cases simp_all
    qed
    then show ?thesis using assms by (simp add: length_filter_conv_card cong: conj_cong)
  qed
  have "length (filter (\<lambda>i. even (Suc i div d)) [2 * d * m..<2 * d * m + 2 * d]) = d"
  proof -
    have e: "even (Suc (i + 2 * d * m) div d) = even (Suc i div d)" for i
    proof -
      have "Suc (i + 2 * d * m) = Suc i + d * (2 * m)" by simp
      then show ?thesis using assms by (simp only: div_mult_self2) simp
    qed
    have "[2 * d * m..<2 * d * m + 2 * d] = map (\<lambda>i. i + 2 * d * m) [0..<2 * d]" by (simp add: map_add_upt add.commute)
    then show ?thesis using base by (simp add: filter_map comp_def e)
  qed
  moreover have "[0..<2 * d * Suc m] = [0..<2 * d * m] @ [2 * d * m..<2 * d * m + 2 * d]"
    using upt_add_eq_append [of 0 "2 * d * m" "2 * d"] by (simp add: algebra_simps)
  ultimately show ?case using Suc by simp
qed simp

lemma count_hits_replicate: "count_hits d (replicate n x) x = length (filter (\<lambda>i. even (Suc i div d)) [0..<n])"
  by (auto simp: count_hits_def intro!: arg_cong [of _ _ length] filter_cong)

lemma spec_lookups:
  "q < length (s_hist s) \<Longrightarrow> fst (foldl (spec_step sip cfg) (s, out) (replicate n (EvLookup q name)))
     = s\<lparr>s_hist := (s_hist s)[q := s_hist s ! q @ replicate n (dispatch_index sip cfg name)]\<rparr>"
proof (induction n arbitrary: s out)
  case (Suc n)
  then show ?case by (simp add: Let_def)
qed simp

text \<open>C36 (Ndt_hits_every_other_run): the hit counters are not incremented once per sample interval. With the interval that
  the configuration ends with, \<open>2 * interval * m\<close> lookups of a name through one querier add \<open>interval * m\<close> to the counter
  of its entry, which is half of the lookups instead of the \<open>2 * m\<close> that the comment of \<open>SampleInterval\<close> gives, because
  the mask is the interval and not the interval minus one.\<close>

theorem Ndt_hits_every_other_run:
  assumes "npow2_laws NextPowerOfTwo" "MinInt = min" "MaxInt = max" "visits_all visit"
    and "\<forall>sz n. zmalloc sz n" "Sockets \<noteq> []" "q < length sockets" "list_all comp_ok name" "Name_Length name < 65536"
  shows "\<exists>mem0 ndt mem out w e. Ndt_New MinInt MaxInt NextPowerOfTwo zmalloc Sockets cfg sockets init = Ok (mem0, ndt)
    \<and> ndt_run visit sip ndt mem0 (replicate (2 * nat (SampleInterval (ndt_cfg ndt)) * m) (EvLookup q name)) = Ok (mem, out)
    \<and> IndexOfName sip ndt name = Ok w \<and> Ndt_Get visit ndt mem w = Ok e
    \<and> Hits e = word_of_nat (nat (SampleInterval (ndt_cfg ndt)) * m)"
proof -
  have ne: "sockets \<noteq> []" using assms(7) by auto
  obtain mem0 ndt k j where n: "Ndt_New MinInt MaxInt NextPowerOfTwo zmalloc Sockets cfg sockets init = Ok (mem0, ndt)"
    "length (ndt_queriers ndt) = length sockets" "ndt_replicas ndt \<noteq> []" "ndt_rep k j mem0 ndt (spec_init (ndt_cfg ndt) (length sockets))"
    using New_rep [OF assms(1,5,6) ne] unfolding assms(2,3) by blast
  let ?d = "nat (SampleInterval (ndt_cfg ndt))"
  let ?evs = "replicate (2 * ?d * m) (EvLookup q name)"
  let ?x = "dispatch_index sip (ndt_cfg ndt) name"
  obtain s out where s: "foldl (spec_step sip (ndt_cfg ndt)) (spec_init (ndt_cfg ndt) (length sockets), []) ?evs = (s, out)" by fastforce
  have hist: "s_hist s = (replicate (length sockets) [])[q := replicate (2 * ?d * m) ?x]"
    using spec_lookups [of q "spec_init (ndt_cfg ndt) (length sockets)" sip "ndt_cfg ndt" "[]" "2 * ?d * m" name] assms(7)
    by (simp add: s) (simp add: spec_init_def)
  have ev: "list_all (event_ok (ndt_cfg ndt) (length (ndt_queriers ndt))) ?evs" using assms(7-9) n(2) by (simp add: list_all_iff)
  obtain mem where mem: "ndt_run visit sip ndt mem0 ?evs = Ok (mem, out)" "ndt_rep k j mem ndt s"
    using run_rep [OF n(4) assms(4) ev s] unfolding ndt_run_def by blast
  obtain w where w: "IndexOfName sip ndt name = Ok w" "unat w = ?x" using Lookup_rep [OF mem(2) assms(4) n(3) assms(8,9)] by blast
  have c: "cfg_ok k j (ndt_cfg ndt)" using n(4) by (simp add: ndt_rep_def)
  have g: "Ndt_Get visit ndt mem w = Ok (spec_entry (ndt_cfg ndt) s ?x)"
    using Get_rep [OF mem(2) assms(4) n(3), of w] dispatch_index_less [OF c] w(2) by simp
  have "0 < ?d" using c by (simp add: cfg_ok_def)
  then have "count_hits ?d (replicate (2 * ?d * m) ?x) ?x = ?d * m" by (simp add: count_hits_replicate even_runs)
  moreover have "sum_list (map (\<lambda>h. count_hits ?d h ?x) ((replicate p [])[q := h])) = count_hits ?d h ?x" if "q < p" for p h
    using that by (simp add: map_update sum_list_update count_hits_def sum_list_replicate)
  ultimately have "Hits (spec_entry (ndt_cfg ndt) s ?x) = word_of_nat (?d * m)"
    using assms(7) by (simp add: spec_entry_def spec_hits_def hist)
  with n(1) mem(1) w(1) g show ?thesis by blast
qed

theorem Ndt_hits_every_other_run_witness:
  "\<exists>mem0 ndt mem out w e. Ndt_New min max list_npow2 (\<lambda>_ _. True) [\<lparr>ns_v = 1\<rparr>] \<lparr>PrefixLen = 2, NdtCapacity = 16, SampleInterval = 0\<rparr>
      [\<lparr>ns_v = 1\<rparr>] \<lparr>m_replicas = [], m_queriers = []\<rparr> = Ok (mem0, ndt)
    \<and> ndt_run id (\<lambda>_. 5) ndt mem0 (replicate (2 * nat (SampleInterval (ndt_cfg ndt)) * 3) (EvLookup 0 [])) = Ok (mem, out)
    \<and> Ndt_Get id ndt mem w = Ok e \<and> Hits e = word_of_nat (nat (SampleInterval (ndt_cfg ndt)) * 3)"
proof -
  have v: "visits_all id" by (simp add: visits_all_def)
  have n: "list_all comp_ok ([] :: Name)" "Name_Length [] < 65536" by (simp_all add: Name_Length_def)
  have z: "\<forall>sz n. (\<lambda>_ _. True) (sz :: u64) (n :: int)" "[\<lparr>ns_v = 1\<rparr>] \<noteq> []" "0 < length [\<lparr>ns_v = 1\<rparr>]" by simp_all
  from Ndt_hits_every_other_run [OF list_npow2_laws refl refl v z n, where cfg = "\<lparr>PrefixLen = 2, NdtCapacity = 16, SampleInterval = 0\<rparr>"
      and init = "\<lparr>m_replicas = [], m_queriers = []\<rparr>" and sip = "\<lambda>_. 5" and m = 3]
  show ?thesis by blast
qed

end
