(* ===== verification/Eal_Lcore.thy ===== *)
theory Eal_Lcore
  imports Eal_Numa
begin

text \<open>
  Logical cores (\<open>dpdk/eal/lcore.go\<close>, \<open>dpdk/eal/eal.go\<close>): the value \<open>LCore\<close>, the variables of the package as one record,
  how they are filled from the map of lcores to sockets, and the selection of lcores. \<open>maxLCore\<close> and \<open>maxNodes\<close> are the
  limits of DPDK. A value \<open>LCore\<close> is made by \<open>LCoreFromID\<close> alone, so its number is below the limit.
\<close>

record LCore =
  lc_v :: int

definition LCoreFromID :: "int \<Rightarrow> int \<Rightarrow> LCore" where
  "LCoreFromID maxLCore i = (if i < 0 \<or> i \<ge> maxLCore then \<lparr>lc_v = 0\<rparr> else \<lparr>lc_v = i + 1\<rparr>)"

definition LCore_ID :: "LCore \<Rightarrow> int" where
  "LCore_ID lc = lc_v lc - 1"

definition LCore_Valid :: "LCore \<Rightarrow> bool" where
  "LCore_Valid lc \<longleftrightarrow> lc_v lc \<noteq> 0"

record eal =
  MainLCore :: LCore
  Workers :: "LCore list"
  Sockets :: "NumaSocket list"
  lcoreToSocket :: "int list"
  lcoreIsBusy :: "bool list"
  allocated :: "string list"

text \<open>Reading and writing an array of the package at the number of an lcore; an invalid lcore has number -1.\<close>

definition lc_get :: "'a list \<Rightarrow> LCore \<Rightarrow> 'a outcome" where
  "lc_get arr lc = (if 0 \<le> LCore_ID lc \<and> LCore_ID lc < int (length arr) then Ok (arr ! nat (LCore_ID lc)) else Panic)"

definition lc_set :: "'a list \<Rightarrow> LCore \<Rightarrow> 'a \<Rightarrow> 'a list outcome" where
  "lc_set arr lc x = (if 0 \<le> LCore_ID lc \<and> LCore_ID lc < int (length arr) then Ok (arr[nat (LCore_ID lc) := x]) else Panic)"

definition LCore_NumaSocket :: "int \<Rightarrow> eal \<Rightarrow> LCore \<Rightarrow> NumaSocket" where
  "LCore_NumaSocket maxNodes g lc =
     (if \<not> LCore_Valid lc then anySocket else NumaSocketFromID maxNodes (lcoreToSocket g ! nat (LCore_ID lc)))"

definition LCore_IsBusy :: "eal \<Rightarrow> LCore \<Rightarrow> bool outcome" where
  "LCore_IsBusy g lc = (if \<not> LCore_Valid lc then Ok True else lc_get (lcoreIsBusy g) lc)"

text \<open>Launching is posted to the main thread; a failure there is fatal.\<close>

definition RemoteLaunch :: "LCore \<Rightarrow> eal \<Rightarrow> eal outcome" where
  "RemoteLaunch lc g =
     (if \<not> LCore_Valid lc then Panic
      else andthen (lc_set (lcoreIsBusy g) lc True) (\<lambda>b. Ok (g\<lparr>lcoreIsBusy := b\<rparr>)))"

definition LCore_Wait :: "LCore \<Rightarrow> int \<Rightarrow> eal \<Rightarrow> (eal \<times> int) outcome" where
  "LCore_Wait lc exitCode g = andthen (lc_set (lcoreIsBusy g) lc False) (\<lambda>b. Ok (g\<lparr>lcoreIsBusy := b\<rparr>, exitCode))"

text \<open>A predicate may panic, because it reads an array.\<close>

type_synonym LCorePredicate = "LCore \<Rightarrow> bool outcome"

definition LCorePredicate_Negate :: "LCorePredicate \<Rightarrow> LCorePredicate" where
  "LCorePredicate_Negate pred lc = andthen (pred lc) (\<lambda>b. Ok (\<not> b))"

definition LCoreOnNumaSocket :: "int \<Rightarrow> eal \<Rightarrow> NumaSocket \<Rightarrow> LCorePredicate" where
  "LCoreOnNumaSocket maxNodes g socket lc =
     (if IsAny socket then Ok True else Ok (LCore_NumaSocket maxNodes g lc = socket))"

definition ByNumaSocket :: "int \<Rightarrow> eal \<Rightarrow> LCore list \<Rightarrow> (NumaSocket \<times> LCore list) list" where
  "ByNumaSocket maxNodes g lcores =
     ClassifyByNumaSocket (Rewrite maxNodes (Sockets g) 0 KeepAnyNumaSocket) (LCore_NumaSocket maxNodes g) lcores"

text \<open>\<open>ok && f(lc)\<close> does not call the next predicate once one has failed.\<close>

definition LCores_Filter :: "LCorePredicate list \<Rightarrow> LCore list \<Rightarrow> LCore list outcome" where
  "LCores_Filter preds lcores =
     forRange (\<lambda>filtered lc.
       andthen (forRange (\<lambda>ok f. if ok then f lc else Ok False) True preds) (\<lambda>ok.
         Ok (if ok then filtered @ [lc] else filtered))) [] lcores"

text \<open>\<open>UpdateLCoreSockets\<close>: the map from lcore to socket is visited in some order, and so is the set of sockets.\<close>

definition UpdateLCoreSockets_step :: "int \<Rightarrow> int \<Rightarrow> eal \<times> int list \<Rightarrow> int \<times> int \<Rightarrow> (eal \<times> int list) outcome" where
  "UpdateLCoreSockets_step maxLCore mainLCoreID = (\<lambda>(g, socketIDs) (lcID, socketID).
     if lcID < 0 \<or> lcID \<ge> int (length (lcoreToSocket g)) then Panic
     else let g = g\<lparr>lcoreToSocket := (lcoreToSocket g)[nat lcID := socketID]\<rparr>;
              socketIDs = (if socketID \<in> set socketIDs then socketIDs else socketIDs @ [socketID]);
              g = (if lcID \<noteq> mainLCoreID then g\<lparr>Workers := Workers g @ [LCoreFromID maxLCore lcID]\<rparr> else g)
          in Ok (g, socketIDs))"

definition UpdateLCoreSockets :: "int \<Rightarrow> int \<Rightarrow> ((int \<times> int) list \<Rightarrow> (int \<times> int) list) \<Rightarrow> (int list \<Rightarrow> int list) \<Rightarrow> (int \<times> int) list \<Rightarrow> int
    \<Rightarrow> eal \<Rightarrow> eal outcome" where
  "UpdateLCoreSockets maxLCore maxNodes visit visitS lcoreSockets mainLCoreID g =
     andthen (forRange (UpdateLCoreSockets_step maxLCore mainLCoreID)
         (g\<lparr>MainLCore := LCoreFromID maxLCore mainLCoreID, Workers := [], Sockets := []\<rparr>, []) (visit lcoreSockets)) (\<lambda>(g, socketIDs).
       Ok (g\<lparr>Workers := sort_key lc_v (Workers g), Sockets := sort_key ns_v (map (NumaSocketFromID maxNodes) (visitS socketIDs))\<rparr>))"

text \<open>The function that \<open>UpdateLCoreSockets\<close> returns, with the state it was called in.\<close>

definition UpdateLCoreSockets_undo :: "eal \<Rightarrow> eal \<Rightarrow> eal" where
  "UpdateLCoreSockets_undo old g =
     g\<lparr>MainLCore := MainLCore old, Workers := Workers old, Sockets := Sockets old, lcoreToSocket := lcoreToSocket old\<rparr>"

subsection \<open>Invariant\<close>

text \<open>The workers are distinct valid lcores, none is the main one, and their sockets are listed.\<close>

definition eal_ok :: "int \<Rightarrow> int \<Rightarrow> eal \<Rightarrow> bool" where
  "eal_ok maxLCore maxNodes g \<longleftrightarrow>
     length (lcoreToSocket g) = nat maxLCore \<and> length (lcoreIsBusy g) = nat maxLCore \<and> length (allocated g) = nat maxLCore
     \<and> distinct (Workers g)
     \<and> (\<forall>lc \<in> set (Workers g). 0 < lc_v lc \<and> lc_v lc \<le> maxLCore \<and> lc \<noteq> MainLCore g \<and> LCore_NumaSocket maxNodes g lc \<in> set (Sockets g))"

lemma eal_ok_lc:
  assumes "eal_ok maxLCore maxNodes g" "lc \<in> set (Workers g)"
  shows "LCore_Valid lc" "0 \<le> LCore_ID lc" "nat (LCore_ID lc) < length (allocated g)" "nat (LCore_ID lc) < length (lcoreIsBusy g)"
  using assms by (auto simp: eal_ok_def LCore_Valid_def LCore_ID_def)

lemma lc_get_ok [simp]: "\<lbrakk>0 \<le> LCore_ID lc; nat (LCore_ID lc) < length arr\<rbrakk> \<Longrightarrow> lc_get arr lc = Ok (arr ! nat (LCore_ID lc))"
  by (simp add: lc_get_def)

lemma lc_set_ok [simp]: "\<lbrakk>0 \<le> LCore_ID lc; nat (LCore_ID lc) < length arr\<rbrakk> \<Longrightarrow> lc_set arr lc x = Ok (arr[nat (LCore_ID lc) := x])"
  by (simp add: lc_set_def)

lemma LCore_ID_inj: "LCore_ID a = LCore_ID b \<longleftrightarrow> a = b"
  by (cases a; cases b) (simp add: LCore_ID_def)

lemma Filter_ok:
  assumes "\<And>lc f. lc \<in> set lcores \<Longrightarrow> f \<in> set preds \<Longrightarrow> f lc = Ok (h f lc)"
  shows "LCores_Filter preds lcores = Ok (filter (\<lambda>lc. \<forall>f \<in> set preds. h f lc) lcores)"
proof -
  have "forRange (\<lambda>ok f. if ok then f lc else Ok False) b fs = Ok (b \<and> (\<forall>f \<in> set fs. h f lc))"
    if "lc \<in> set lcores" "set fs \<subseteq> set preds" for lc fs b
    using that(2) by (induction fs arbitrary: b) (auto simp: assms that(1))
  then have "forRange (\<lambda>filtered lc. andthen (forRange (\<lambda>ok f. if ok then f lc else Ok False) True preds) (\<lambda>ok.
         Ok (if ok then filtered @ [lc] else filtered))) acc ls = Ok (acc @ filter (\<lambda>lc. \<forall>f \<in> set preds. h f lc) ls)"
    if "set ls \<subseteq> set lcores" for ls acc
    using that by (induction ls arbitrary: acc) auto
  then show ?thesis by (simp add: LCores_Filter_def)
qed

lemma LCoreFromID_inj: "\<lbrakk>0 \<le> i; i < m; 0 \<le> j; j < m\<rbrakk> \<Longrightarrow> LCoreFromID m i = LCoreFromID m j \<longleftrightarrow> i = j"
  by (auto simp: LCoreFromID_def)

text \<open>What the loop of \<open>UpdateLCoreSockets\<close> has done after a list of distinct lcores.\<close>

lemma UpdateLCoreSockets_loop:
  assumes "distinct (map fst xs)" "\<forall>(l, s) \<in> set xs. 0 \<le> l \<and> l < maxLCore" "length (lcoreToSocket g) = nat maxLCore" "Workers g = []"
  shows "\<exists>g' ids. forRange (UpdateLCoreSockets_step maxLCore mainID) (g, []) xs = Ok (g', ids)
    \<and> set ids = snd ` set xs \<and> Workers g' = map (LCoreFromID maxLCore) (filter (\<lambda>l. l \<noteq> mainID) (map fst xs))
    \<and> (\<forall>(l, s) \<in> set xs. lcoreToSocket g' ! nat l = s) \<and> length (lcoreToSocket g') = nat maxLCore
    \<and> MainLCore g' = MainLCore g \<and> lcoreIsBusy g' = lcoreIsBusy g \<and> allocated g' = allocated g"
  using assms(1,2)
proof (induction xs rule: rev_induct)
  case (snoc x xs)
  obtain l s where x: "x = (l, s)" by (cases x)
  from snoc obtain g1 ids where 1: "forRange (UpdateLCoreSockets_step maxLCore mainID) (g, []) xs = Ok (g1, ids)"
    "set ids = snd ` set xs" "Workers g1 = map (LCoreFromID maxLCore) (filter (\<lambda>l. l \<noteq> mainID) (map fst xs))"
    "\<forall>(l, s) \<in> set xs. lcoreToSocket g1 ! nat l = s" "length (lcoreToSocket g1) = nat maxLCore" "MainLCore g1 = MainLCore g"
    "lcoreIsBusy g1 = lcoreIsBusy g" "allocated g1 = allocated g" by auto
  have l: "0 \<le> l" "l < maxLCore" "\<forall>(l', s') \<in> set xs. l' \<noteq> l \<and> 0 \<le> l'" using snoc.prems by (force simp: x)+
  have "(lcoreToSocket g1)[nat l := s] ! nat l' = s'" if "(l', s') \<in> set xs" for l' s'
    using that l(1,3) 1(4) by (force simp: nth_list_update)
  then show ?case using 1 l(1,2) by (auto simp: x UpdateLCoreSockets_step_def Let_def)
qed (use assms(3,4) in simp)

lemma UpdateLCoreSockets_ok:
  assumes "visits_all visit" "visits_all visitS" "distinct (map fst m)" "\<forall>(l, s) \<in> set m. 0 \<le> l \<and> l < maxLCore" "0 \<le> mainID" "mainID < maxLCore"
    and "length (lcoreToSocket g) = nat maxLCore" "length (lcoreIsBusy g) = nat maxLCore" "length (allocated g) = nat maxLCore"
  shows "\<exists>g'. UpdateLCoreSockets maxLCore maxNodes visit visitS m mainID g = Ok g' \<and> eal_ok maxLCore maxNodes g'
    \<and> set (Workers g') = LCoreFromID maxLCore ` (fst ` set m - {mainID}) \<and> set (Sockets g') = NumaSocketFromID maxNodes ` snd ` set m
    \<and> sorted (map lc_v (Workers g')) \<and> MainLCore g' = LCoreFromID maxLCore mainID \<and> allocated g' = allocated g
    \<and> (\<forall>(l, s) \<in> set m. LCore_NumaSocket maxNodes g' (LCoreFromID maxLCore l) = NumaSocketFromID maxNodes s)"
proof -
  let ?g = "g\<lparr>MainLCore := LCoreFromID maxLCore mainID, Workers := [], Sockets := []\<rparr>"
  have vm: "set (visit m) = set m" by (rule visits_all_set [OF assms(1)])
  have d: "distinct (map fst (visit m))" using assms(1,3) unfolding visits_all_def by (metis mset_eq_imp_distinct_iff mset_map)
  have r: "\<forall>(l, s) \<in> set (visit m). 0 \<le> l \<and> l < maxLCore" unfolding vm by (rule assms(4))
  obtain g1 ids where 1: "forRange (UpdateLCoreSockets_step maxLCore mainID) (?g, []) (visit m) = Ok (g1, ids)"
    "set ids = snd ` set m" "Workers g1 = map (LCoreFromID maxLCore) (filter (\<lambda>l. l \<noteq> mainID) (map fst (visit m)))"
    "\<forall>(l, s) \<in> set m. lcoreToSocket g1 ! nat l = s" "length (lcoreToSocket g1) = nat maxLCore" "MainLCore g1 = LCoreFromID maxLCore mainID"
    "lcoreIsBusy g1 = lcoreIsBusy g" "allocated g1 = allocated g"
    using UpdateLCoreSockets_loop [OF d r, of ?g mainID] assms(7) by (auto simp: vm)
  define g' where "g' = g1\<lparr>Workers := sort_key lc_v (Workers g1), Sockets := sort_key ns_v (map (NumaSocketFromID maxNodes) (visitS ids))\<rparr>"
  have w: "set (Workers g') = LCoreFromID maxLCore ` (fst ` set m - {mainID})" by (auto simp: g'_def 1(3) vm)
  have s: "set (Sockets g') = NumaSocketFromID maxNodes ` snd ` set m" by (simp add: g'_def visits_all_set [OF assms(2)] 1(2))
  have so: "LCore_NumaSocket maxNodes g' (LCoreFromID maxLCore l) = NumaSocketFromID maxNodes s" if "(l, s) \<in> set m" for l s
    using that assms(4) 1(4) by (force simp: LCore_NumaSocket_def LCoreFromID_def LCore_Valid_def LCore_ID_def g'_def)
  have "inj_on (LCoreFromID maxLCore) (fst ` set m)" by (rule inj_onI) (use assms(4) LCoreFromID_inj in force)
  then have "distinct (Workers g')"
    using d by (auto simp: g'_def 1(3) distinct_map vm intro: inj_on_subset)
  moreover have "0 < lc_v lc \<and> lc_v lc \<le> maxLCore \<and> lc \<noteq> MainLCore g' \<and> LCore_NumaSocket maxNodes g' lc \<in> set (Sockets g')"
    if "lc \<in> set (Workers g')" for lc
  proof -
    from that [unfolded w] obtain l where "l \<in> fst ` set m" "l \<noteq> mainID" "lc = LCoreFromID maxLCore l" by blast
    then obtain sk where l: "(l, sk) \<in> set m" "l \<noteq> mainID" "lc = LCoreFromID maxLCore l" by auto
    then have "0 \<le> l" "l < maxLCore" using assms(4) by auto
    moreover have "LCore_NumaSocket maxNodes g' lc \<in> set (Sockets g')" using l(1) unfolding l(3) so [OF l(1)] s by force
    moreover have "MainLCore g' = LCoreFromID maxLCore mainID" by (simp add: g'_def 1(6))
    ultimately show ?thesis using l(2,3) assms(5,6) by (simp add: LCoreFromID_def)
  qed
  ultimately have "eal_ok maxLCore maxNodes g'" using 1(5,7,8) assms(8,9) by (simp add: eal_ok_def g'_def)
  moreover have "UpdateLCoreSockets maxLCore maxNodes visit visitS m mainID g = Ok g'" by (simp add: UpdateLCoreSockets_def 1(1) g'_def)
  moreover have "sorted (map lc_v (Workers g'))" by (simp add: g'_def)
  ultimately show ?thesis using w s so 1(6,8) by (auto simp: g'_def)
qed

end
