(* ===== verification/Eal_Thread.thy ===== *)
theory Eal_Thread
  imports Eal_Lcore
begin

text \<open>
  Allocation of lcores to threads (\<open>dpdk/ealthread/allocator.go\<close>, \<open>config.go\<close>, \<open>role.go\<close>, \<open>thread.go\<close>). Maps are association
  lists, visited in an order that is an argument. \<open>sort.Slice\<close> is not stable, so the sorted list of sockets is given by
  an argument with the documented property of the function. Messages of errors are values of a datatype; the combination
  of errors of another package is the list of them, and no error is the empty list.
\<close>

datatype alloc_error =
    LCoreMissing int string
  | SocketShort string int int nat
  | RoleNeeds string int int
  | UnknownRole string

subsection \<open>Configuration\<close>

record RoleConfig =
  rc_LCores :: "int list"
  rc_PerNuma :: "(int \<times> int) list"

type_synonym alloc_config = "(string \<times> RoleConfig) list"

definition RoleConfig_Count :: "RoleConfig \<Rightarrow> int" where
  "RoleConfig_Count c = fold (\<lambda>(socket, n) sum. sum + n) (rc_PerNuma c) (int (length (rc_LCores c)))"

text \<open>A lookup of a missing key gives the zero value.\<close>

definition lookup_or :: "'v \<Rightarrow> ('k \<times> 'v) list \<Rightarrow> 'k \<Rightarrow> 'v" where
  "lookup_or z m k = (case map_of m k of None \<Rightarrow> z | Some v \<Rightarrow> v)"

definition ValidateRoles :: "((string \<times> int) list \<Rightarrow> (string \<times> int) list) \<Rightarrow> (alloc_config \<Rightarrow> alloc_config) \<Rightarrow> alloc_config \<Rightarrow> (string \<times> int) list
    \<Rightarrow> alloc_error list" where
  "ValidateRoles visitR visitC c roles =
     (let errs = fold (\<lambda>(role, min) errs. let n = RoleConfig_Count (lookup_or \<lparr>rc_LCores = [], rc_PerNuma = []\<rparr> c role) in
            if n < min then errs @ [RoleNeeds role min n] else errs) (visitR roles) []
      in fold (\<lambda>(role, rc) errs. if map_of roles role = None then errs @ [UnknownRole role] else errs) (visitC c) errs)"

text \<open>\<open>Extract\<close>: the rest of the receiver, which may be \<open>nil\<close>, the extracted config, and the errors.\<close>

definition Extract :: "((string \<times> int) list \<Rightarrow> (string \<times> int) list) \<Rightarrow> (alloc_config \<Rightarrow> alloc_config) \<Rightarrow> alloc_config option \<Rightarrow> (string \<times> int) list
    \<Rightarrow> alloc_config option \<times> alloc_config \<times> alloc_error list" where
  "Extract visitR visitC c roles =
     (case c of
        None \<Rightarrow> (None, [], [])
      | Some c \<Rightarrow>
          let p = fold (\<lambda>(role, rc) p. if map_of roles role \<noteq> None then AList.update role rc p else p) (visitC c) [];
              errs = ValidateRoles visitR visitC p roles
          in if errs \<noteq> [] then (Some c, [], errs)
             else (Some (fold (\<lambda>(role, min). AList.delete role) (visitR roles) c), p, []))"

definition append_to :: "('k \<times> 'v list) list \<Rightarrow> 'k \<Rightarrow> 'v list \<Rightarrow> ('k \<times> 'v list) list" where
  "append_to m k vs = AList.update k (lookup_or [] m k @ vs) m"

definition assign_core :: "string \<Rightarrow> (string \<times> LCore list) list \<times> (int \<times> LCore) list \<times> alloc_error list \<Rightarrow> int
    \<Rightarrow> (string \<times> LCore list) list \<times> (int \<times> LCore) list \<times> alloc_error list" where
  "assign_core role = (\<lambda>(m, workersByID, errs) core.
     case map_of workersByID core of
       Some worker \<Rightarrow> (append_to m role [worker], AList.delete (LCore_ID worker) workersByID, errs)
     | None \<Rightarrow> (m, workersByID, errs @ [LCoreMissing core role]))"

text \<open>A slice up to a negative bound panics.\<close>

definition assign_numa :: "int \<Rightarrow> string \<Rightarrow> (string \<times> LCore list) list \<times> (NumaSocket \<times> LCore list) list \<times> alloc_error list \<Rightarrow> int \<times> int
    \<Rightarrow> ((string \<times> LCore list) list \<times> (NumaSocket \<times> LCore list) list \<times> alloc_error list) outcome" where
  "assign_numa maxNodes role = (\<lambda>(m, workersBySocket, errs) (socketID, count).
     let socket = NumaSocketFromID maxNodes socketID;
         bucket = lookup_or [] workersBySocket socket;
         avail = length bucket
     in if int avail \<ge> count
        then if count < 0 then Panic
             else Ok (append_to m role (take (nat count) bucket), AList.update socket (drop (nat count) bucket) workersBySocket, errs)
        else Ok (m, workersBySocket, errs @ [SocketShort role count socketID avail]))"

record map_orders =
  ord_config1 :: "alloc_config \<Rightarrow> alloc_config"
  ord_config2 :: "alloc_config \<Rightarrow> alloc_config"
  ord_numa :: "(int \<times> int) list \<Rightarrow> (int \<times> int) list"
  ord_workers :: "(int \<times> LCore) list \<Rightarrow> (int \<times> LCore) list"
  ord_result :: "(string \<times> LCore list) list \<Rightarrow> (string \<times> LCore list) list"

definition assignWorkers :: "map_orders \<Rightarrow> int \<Rightarrow> eal \<Rightarrow> alloc_config \<Rightarrow> LCorePredicate \<Rightarrow> ((string \<times> LCore list) list \<times> alloc_error list) outcome" where
  "assignWorkers ord maxNodes g c pred =
     andthen (forRange (\<lambda>byID worker. andthen (pred worker) (\<lambda>ok.
         Ok (if ok then AList.update (LCore_ID worker) worker byID else byID))) [] (Workers g)) (\<lambda>workersByID.
     case foldl (\<lambda>st (role, rc). foldl (assign_core role) st (rc_LCores rc)) ([], workersByID, []) (ord_config1 ord c) of
       (m, workersByID, errs) \<Rightarrow>
         let unusedWorkers = map snd (ord_workers ord workersByID);
             workersBySocket = ByNumaSocket maxNodes g unusedWorkers
         in andthen (forRange (\<lambda>st (role, rc). forRange (assign_numa maxNodes role) st (ord_numa ord (rc_PerNuma rc)))
              (m, workersBySocket, errs) (ord_config2 ord c)) (\<lambda>(m, workersBySocket, errs). Ok (m, errs)))"

subsection \<open>Allocator\<close>

record AllocReq =
  req_Role :: string
  req_Socket :: NumaSocket

definition lcAllocatedTo :: "eal \<Rightarrow> string \<Rightarrow> LCorePredicate" where
  "lcAllocatedTo g role lc = andthen (lc_get (allocated g) lc) (\<lambda>r. Ok (r = role))"

definition lcUnallocated :: "eal \<Rightarrow> LCorePredicate" where
  "lcUnallocated g = lcAllocatedTo g []"

definition set_role :: "string \<Rightarrow> eal \<Rightarrow> LCore \<Rightarrow> eal outcome" where
  "set_role role g lc = andthen (lc_set (allocated g) lc role) (\<lambda>a. Ok (g\<lparr>allocated := a\<rparr>))"

definition AllocConfig :: "map_orders \<Rightarrow> int \<Rightarrow> alloc_config \<Rightarrow> eal \<Rightarrow> (eal \<times> (string \<times> LCore list) list \<times> alloc_error list) outcome" where
  "AllocConfig ord maxNodes c g =
     andthen (assignWorkers ord maxNodes g c (lcUnallocated g)) (\<lambda>(m, errs).
       andthen (if errs = [] then forRange (\<lambda>g (role, lcores). forRange (set_role role) g lcores) g (ord_result ord m) else Ok g) (\<lambda>g.
       Ok (g, m, errs)))"

text \<open>The first loop of \<open>AllocRequest\<close>: indexes of requests by socket, indexes without a socket, and their number.\<close>

definition classify_req :: "(NumaSocket \<times> nat list) list \<times> nat list \<times> nat \<Rightarrow> nat \<times> AllocReq \<Rightarrow> (NumaSocket \<times> nat list) list \<times> nat list \<times> nat" where
  "classify_req = (\<lambda>(reqBySocket, reqAny, nReq) (i, req).
     if req_Role req = [] then (reqBySocket, reqAny, nReq)
     else if IsAny (req_Socket req) then (reqBySocket, reqAny @ [i], nReq + 1)
     else (append_to reqBySocket (req_Socket req) [i], reqAny, nReq + 1))"

type_synonym pool = "(NumaSocket \<times> LCore list) list"

definition take_lcore :: "NumaSocket \<Rightarrow> pool \<Rightarrow> (LCore \<times> pool) outcome" where
  "take_lcore socket workersBySocket =
     (case lookup_or [] workersBySocket socket of
        [] \<Rightarrow> Panic
      | lc # rest \<Rightarrow> Ok (lc, AList.update socket rest workersBySocket))"

definition give_socket :: "NumaSocket \<Rightarrow> pool \<times> LCore list \<times> nat list \<Rightarrow> nat \<Rightarrow> (pool \<times> LCore list \<times> nat list) outcome" where
  "give_socket socket = (\<lambda>(workersBySocket, list, reqAny) i.
     if length (lookup_or [] workersBySocket socket) > 0
     then andthen (take_lcore socket workersBySocket) (\<lambda>(lc, workersBySocket). Ok (workersBySocket, list[i := lc], reqAny))
     else Ok (workersBySocket, list, reqAny @ [i]))"

definition give_any :: "((NumaSocket \<Rightarrow> nat) \<Rightarrow> NumaSocket list \<Rightarrow> NumaSocket list) \<Rightarrow> pool \<times> LCore list \<times> NumaSocket list \<Rightarrow> nat
    \<Rightarrow> (pool \<times> LCore list \<times> NumaSocket list) outcome" where
  "give_any sortSlice = (\<lambda>(workersBySocket, list, sockets) i.
     let sockets = sortSlice (\<lambda>s. length (lookup_or [] workersBySocket s)) sockets in
     case sockets of
       [] \<Rightarrow> Panic
     | s # _ \<Rightarrow> andthen (take_lcore s workersBySocket) (\<lambda>(lc, workersBySocket). Ok (workersBySocket, list[i := lc], sockets)))"

definition AllocRequest :: "((NumaSocket \<times> nat list) list \<Rightarrow> (NumaSocket \<times> nat list) list)
    \<Rightarrow> ((NumaSocket \<Rightarrow> nat) \<Rightarrow> NumaSocket list \<Rightarrow> NumaSocket list) \<Rightarrow> int \<Rightarrow> AllocReq list \<Rightarrow> eal \<Rightarrow> (eal \<times> LCore list) outcome" where
  "AllocRequest visit sortSlice maxNodes requests g =
     (case foldl classify_req ([], [], 0) (zip [0..<length requests] requests) of (reqBySocket, reqAny, nReq) \<Rightarrow>
        andthen (LCores_Filter [lcUnallocated g] (Workers g)) (\<lambda>workers.
        if nReq > length workers then Fail (ErrOther ''need lcores'')
        else let list = replicate (length requests) \<lparr>lc_v = 0\<rparr>;
                 workersBySocket = ByNumaSocket maxNodes g workers
             in andthen (forRange (\<lambda>st (socket, reqIndexes). forRange (give_socket socket) st reqIndexes)
                  (workersBySocket, list, reqAny) (visit reqBySocket)) (\<lambda>(workersBySocket, list, reqAny).
                andthen (forRange (give_any sortSlice) (workersBySocket, list, Sockets g) reqAny) (\<lambda>(workersBySocket, list, sockets).
                andthen (forRange (\<lambda>g (req, lc). if req_Role req = [] then Ok g else set_role (req_Role req) g lc) g (zip requests list)) (\<lambda>g.
                Ok (g, list))))))"

definition allocFree :: "bool \<Rightarrow> LCore list \<Rightarrow> eal \<Rightarrow> eal outcome" where
  "allocFree maybeFree lcores g =
     forRange (\<lambda>g lc. andthen (lc_get (allocated g) lc) (\<lambda>role.
       if role \<noteq> [] then set_role [] g lc
       else if \<not> maybeFree then Panic else Ok g)) g lcores"

definition AllocFree :: "LCore list \<Rightarrow> eal \<Rightarrow> eal outcome" where
  "AllocFree lcores g = allocFree False lcores g"

definition AllocClear :: "eal \<Rightarrow> eal outcome" where
  "AllocClear g = allocFree True (Workers g) g"

subsection \<open>Threads\<close>

text \<open>A thread: its lcore, its role, and its NUMA socket when the type has one.\<close>

record Thread =
  th_lc :: LCore
  ThreadRole :: string
  th_socket :: "NumaSocket option"

definition Thread_IsRunning :: "eal \<Rightarrow> Thread \<Rightarrow> bool outcome" where
  "Thread_IsRunning g th = (if LCore_Valid (th_lc th) then LCore_IsBusy g (th_lc th) else Ok False)"

definition SetLCore :: "eal \<Rightarrow> LCore \<Rightarrow> Thread \<Rightarrow> Thread outcome" where
  "SetLCore g lc th = andthen (Thread_IsRunning g th) (\<lambda>b. if b then Panic else Ok (th\<lparr>th_lc := lc\<rparr>))"

definition thread_request :: "Thread \<Rightarrow> AllocReq" where
  "thread_request th =
     (if \<not> LCore_Valid (th_lc th)
      then \<lparr>req_Role = ThreadRole th, req_Socket = (case th_socket th of Some s \<Rightarrow> s | None \<Rightarrow> anySocket)\<rparr>
      else \<lparr>req_Role = [], req_Socket = anySocket\<rparr>)"

definition AllocThread :: "((NumaSocket \<times> nat list) list \<Rightarrow> (NumaSocket \<times> nat list) list)
    \<Rightarrow> ((NumaSocket \<Rightarrow> nat) \<Rightarrow> NumaSocket list \<Rightarrow> NumaSocket list) \<Rightarrow> int \<Rightarrow> Thread list \<Rightarrow> eal \<Rightarrow> (eal \<times> Thread list) outcome" where
  "AllocThread visit sortSlice maxNodes threads g =
     andthen (AllocRequest visit sortSlice maxNodes (map thread_request threads) g) (\<lambda>(g, list).
     andthen (forRange (\<lambda>ths i. if LCore_Valid (list ! i) then andthen (SetLCore g (list ! i) (ths ! i)) (\<lambda>th. Ok (ths[i := th])) else Ok ths)
         threads [0..<length list]) (\<lambda>threads.
       Ok (g, threads)))"

definition Launch :: "Thread \<Rightarrow> eal \<Rightarrow> eal outcome" where
  "Launch th g =
     (if \<not> LCore_Valid (th_lc th) then Panic
      else andthen (Thread_IsRunning g th) (\<lambda>b. if b then Panic else RemoteLaunch (th_lc th) g))"

definition AllocLaunch :: "((NumaSocket \<times> nat list) list \<Rightarrow> (NumaSocket \<times> nat list) list)
    \<Rightarrow> ((NumaSocket \<Rightarrow> nat) \<Rightarrow> NumaSocket list \<Rightarrow> NumaSocket list) \<Rightarrow> int \<Rightarrow> Thread \<Rightarrow> eal \<Rightarrow> (eal \<times> Thread) outcome" where
  "AllocLaunch visit sortSlice maxNodes th g =
     andthen (AllocThread visit sortSlice maxNodes [th] g) (\<lambda>(g, ths).
     andthen (Launch (ths ! 0) g) (\<lambda>g. Ok (g, ths ! 0)))"

text \<open>\<open>Stop\<close> with the exit code of the thread.\<close>

definition Thread_Stop :: "int \<Rightarrow> Thread \<Rightarrow> eal \<Rightarrow> (eal \<times> error option) outcome" where
  "Thread_Stop code th g =
     andthen (Thread_IsRunning g th) (\<lambda>b.
       if \<not> b then Ok (g, None)
       else andthen (LCore_Wait (th_lc th) code g) (\<lambda>(g, exitCode).
         Ok (g, if exitCode \<noteq> 0 then Some (ErrOther ''exit code'') else None)))"

subsection \<open>The pool of free lcores\<close>

text \<open>All lcores of the pool, and the relation between the pool, the lcores given to the requests \<open>don\<close> and the
  lcores \<open>ws\<close> that were free at the start.\<close>

definition pool_mset :: "pool \<Rightarrow> LCore multiset" where
  "pool_mset p = sum_list (map (mset \<circ> snd) p)"

definition pool_ok :: "(LCore \<Rightarrow> NumaSocket) \<Rightarrow> pool \<Rightarrow> bool" where
  "pool_ok sock p \<longleftrightarrow> distinct (map fst p) \<and> (\<forall>(s, ls) \<in> set p. \<forall>lc \<in> set ls. sock lc = s)"

lemma lookup_or_update [simp]: "lookup_or z (AList.update k v m) k' = (if k' = k then v else lookup_or z m k')"
  by (simp add: lookup_or_def update_conv')

lemma lookup_or_append_to [simp]: "lookup_or [] (append_to m k vs) k' = (if k' = k then lookup_or [] m k @ vs else lookup_or [] m k')"
  by (simp add: append_to_def)

lemma pool_mset_update:
  "distinct (map fst p) \<Longrightarrow> pool_mset (AList.update s ls p) + mset (lookup_or [] p s) = pool_mset p + mset ls"
proof (induction p)
  case Nil
  then show ?case by (simp add: pool_mset_def lookup_or_def)
next
  case (Cons x p)
  obtain k v where x: "x = (k, v)" by (cases x)
  show ?case
  proof (cases "k = s")
    case True
    then show ?thesis by (simp add: x pool_mset_def lookup_or_def)
  next
    case False
    then have "pool_mset (AList.update s ls p) + mset (lookup_or [] p s) = pool_mset p + mset ls" using Cons by (simp add: x)
    then show ?thesis using False by (simp add: x pool_mset_def lookup_or_def)
  qed
qed

lemma pool_lookup_sock: "pool_ok sock p \<Longrightarrow> lc \<in> set (lookup_or [] p s) \<Longrightarrow> sock lc = s"
  by (auto simp: pool_ok_def lookup_or_def split: option.splits dest!: map_of_SomeD)

lemma pool_ok_update: "pool_ok sock p \<Longrightarrow> set ls \<subseteq> set (lookup_or [] p s) \<Longrightarrow> pool_ok sock (AList.update s ls p)"
proof -
  assume p: "pool_ok sock p" and l: "set ls \<subseteq> set (lookup_or [] p s)"
  have d: "distinct (map fst (AList.update s ls p))" using p by (simp add: pool_ok_def distinct_update)
  have "sock lc = k" if "(k, v) \<in> set (AList.update s ls p)" "lc \<in> set v" for k v lc
  proof -
    have "map_of (AList.update s ls p) k = Some v" using that(1) d by simp
    then have "v = lookup_or [] (AList.update s ls p) k" by (simp add: lookup_or_def)
    then have "lc \<in> set (lookup_or [] p k)" using that(2) l by (auto split: if_splits)
    then show ?thesis by (rule pool_lookup_sock [OF p])
  qed
  then show ?thesis using d by (auto simp: pool_ok_def)
qed

lemma pool_mset_lookup: "distinct (map fst p) \<Longrightarrow> lc \<in># pool_mset p \<Longrightarrow> \<exists>s. lc \<in> set (lookup_or [] p s)"
proof -
  assume d: "distinct (map fst p)" and "lc \<in># pool_mset p"
  then have "\<exists>x \<in> set p. lc \<in> set (snd x)" by (induction p) (auto simp: pool_mset_def)
  then obtain k v where "(k, v) \<in> set p" "lc \<in> set v" by auto
  then show ?thesis using d by (intro exI [of _ k]) (simp add: lookup_or_def)
qed

definition given :: "LCore list \<Rightarrow> nat list \<Rightarrow> LCore list \<Rightarrow> bool" where
  "given list don got \<longleftrightarrow> distinct don \<and> (\<forall>i \<in> set don. i < length list) \<and> got = map (\<lambda>i. list ! i) don
     \<and> (\<forall>i < length list. i \<notin> set don \<longrightarrow> list ! i = \<lparr>lc_v = 0\<rparr>)"

lemma given_snoc:
  "\<lbrakk>given list don got; i < length list; i \<notin> set don\<rbrakk> \<Longrightarrow> given (list[i := lc]) (don @ [i]) (got @ [lc])"
  by (auto simp: given_def nth_list_update)

definition pool_inv :: "(LCore \<Rightarrow> NumaSocket) \<Rightarrow> LCore list \<Rightarrow> pool \<Rightarrow> LCore list \<Rightarrow> nat list \<Rightarrow> bool" where
  "pool_inv sock ws p list don \<longleftrightarrow> pool_ok sock p \<and> (\<exists>got. given list don got \<and> pool_mset p + mset got = mset ws)"

lemma take_lcore_inv:
  assumes "pool_inv sock ws p list don" "lookup_or [] p s \<noteq> []" "i < length list" "i \<notin> set don"
  shows "\<exists>lc p'. take_lcore s p = Ok (lc, p') \<and> pool_inv sock ws p' (list[i := lc]) (don @ [i]) \<and> sock lc = s
    \<and> (\<forall>k. lookup_or [] p' k = (if k = s then tl (lookup_or [] p s) else lookup_or [] p k))"
proof -
  obtain lc rest where b: "lookup_or [] p s = lc # rest" using assms(2) by (cases "lookup_or [] p s") auto
  let ?p = "AList.update s rest p"
  have ok: "pool_ok sock p" using assms(1) by (simp add: pool_inv_def)
  then have d: "distinct (map fst p)" by (simp add: pool_ok_def)
  obtain got where g: "given list don got" "pool_mset p + mset got = mset ws" using assms(1) by (auto simp: pool_inv_def)
  have "pool_mset ?p + add_mset lc (mset rest) = pool_mset p + mset rest" using pool_mset_update [OF d, of s rest] by (simp add: b)
  then have "pool_mset p = add_mset lc (pool_mset ?p)" by simp
  then have "pool_mset ?p + mset (got @ [lc]) = mset ws" using g(2) by simp
  moreover have "pool_ok sock ?p" by (rule pool_ok_update [OF ok]) (auto simp: b)
  ultimately have "pool_inv sock ws ?p (list[i := lc]) (don @ [i])"
    using given_snoc [OF g(1) assms(3,4), of lc] unfolding pool_inv_def by blast
  moreover have "sock lc = s" by (rule pool_lookup_sock [OF ok]) (simp add: b)
  ultimately show ?thesis by (simp add: take_lcore_def b)
qed

lemma give_socket_loop:
  assumes "pool_inv sock ws p list don" "distinct idxs" "set idxs \<inter> set don = {}" "\<forall>i \<in> set idxs. i < length list"
    and "k = min (length idxs) (length (lookup_or [] p s))"
  shows "\<exists>p' list'. forRange (give_socket s) (p, list, rany) idxs = Ok (p', list', rany @ drop k idxs)
    \<and> pool_inv sock ws p' list' (don @ take k idxs) \<and> length list' = length list \<and> (\<forall>i \<in> set (take k idxs). sock (list' ! i) = s)
    \<and> (\<forall>j. j \<notin> set (take k idxs) \<longrightarrow> list' ! j = list ! j) \<and> (\<forall>t. t \<noteq> s \<longrightarrow> lookup_or [] p' t = lookup_or [] p t)"
  using assms(1-4) unfolding assms(5)
proof (induction idxs arbitrary: p list don rany)
  case (Cons i idxs)
  show ?case
  proof (cases "lookup_or [] p s = []")
    case True
    then have g: "give_socket s (p, list, rany) i = Ok (p, list, rany @ [i])" by (simp add: give_socket_def)
    have "\<exists>p' list'. forRange (give_socket s) (p, list, rany @ [i]) idxs = Ok (p', list', (rany @ [i]) @ drop 0 idxs)
      \<and> pool_inv sock ws p' list' (don @ take 0 idxs) \<and> length list' = length list \<and> (\<forall>i \<in> set (take 0 idxs). sock (list' ! i) = s)
      \<and> (\<forall>j. j \<notin> set (take 0 idxs) \<longrightarrow> list' ! j = list ! j) \<and> (\<forall>t. t \<noteq> s \<longrightarrow> lookup_or [] p' t = lookup_or [] p t)"
      using Cons.IH [OF Cons.prems(1), of "rany @ [i]"] Cons.prems(2-4) True by simp
    then show ?thesis using True g by simp
  next
    case False
    have i: "i < length list" "i \<notin> set don" "i \<notin> set idxs" using Cons.prems(2-4) by auto
    obtain lc p1 where t: "take_lcore s p = Ok (lc, p1)" "pool_inv sock ws p1 (list[i := lc]) (don @ [i])" "sock lc = s"
      "\<And>k. lookup_or [] p1 k = (if k = s then tl (lookup_or [] p s) else lookup_or [] p k)"
      using take_lcore_inv [OF Cons.prems(1) False i(1,2)] by blast
    let ?k = "min (length idxs) (length (lookup_or [] p1 s))"
    have k: "min (length (i # idxs)) (length (lookup_or [] p s)) = Suc ?k" using False t(4) by (cases "lookup_or [] p s") auto
    obtain p' list' where r: "forRange (give_socket s) (p1, list[i := lc], rany) idxs = Ok (p', list', rany @ drop ?k idxs)"
      "pool_inv sock ws p' list' ((don @ [i]) @ take ?k idxs)" "length list' = length list" "\<forall>i \<in> set (take ?k idxs). sock (list' ! i) = s"
      "\<forall>j. j \<notin> set (take ?k idxs) \<longrightarrow> list' ! j = list[i := lc] ! j" "\<forall>t. t \<noteq> s \<longrightarrow> lookup_or [] p' t = lookup_or [] p1 t"
      using Cons.IH [OF t(2), of rany] Cons.prems(2-4) by auto
    have "list' ! i = lc" using r(5) i(1,3) by (auto dest: in_set_takeD)
    moreover have "give_socket s (p, list, rany) i = Ok (p1, list[i := lc], rany)" using False t(1) by (simp add: give_socket_def)
    ultimately show ?thesis using r t(3,4) unfolding k by auto
  qed
qed auto

lemma give_socket_outer:
  assumes "pool_inv sock ws p list don" "distinct (map fst xs)" "distinct (concat (map snd xs))" "set (concat (map snd xs)) \<inter> set don = {}"
    and "\<forall>i \<in> set (concat (map snd xs)). i < length list"
  shows "\<exists>p' list' D R. forRange (\<lambda>st (s, idxs). forRange (give_socket s) st idxs) (p, list, rany) xs = Ok (p', list', rany @ R)
    \<and> pool_inv sock ws p' list' (don @ D) \<and> length list' = length list \<and> mset (D @ R) = mset (concat (map snd xs))
    \<and> (\<forall>j. j \<notin> set D \<longrightarrow> list' ! j = list ! j)
    \<and> (\<forall>(s, idxs) \<in> set xs. length idxs \<le> length (lookup_or [] p s) \<longrightarrow> (\<forall>i \<in> set idxs. i \<in> set D \<and> sock (list' ! i) = s))"
  using assms
proof (induction xs arbitrary: p list don rany)
  case (Cons x xs)
  obtain s idxs where x: "x = (s, idxs)" by (cases x)
  let ?k = "min (length idxs) (length (lookup_or [] p s))"
  have pr: "distinct idxs" "set idxs \<inter> set don = {}" "\<forall>i \<in> set idxs. i < length list" using Cons.prems(3-5) by (auto simp: x)
  obtain p1 list1 where 1: "forRange (give_socket s) (p, list, rany) idxs = Ok (p1, list1, rany @ drop ?k idxs)"
    "pool_inv sock ws p1 list1 (don @ take ?k idxs)" "length list1 = length list" "\<forall>i \<in> set (take ?k idxs). sock (list1 ! i) = s"
    "\<forall>j. j \<notin> set (take ?k idxs) \<longrightarrow> list1 ! j = list ! j" "\<forall>t. t \<noteq> s \<longrightarrow> lookup_or [] p1 t = lookup_or [] p t"
    using give_socket_loop [OF Cons.prems(1) pr refl, of s rany] by blast
  have dj: "set idxs \<inter> set (concat (map snd xs)) = {}" using Cons.prems(3) by (simp add: x)
  have c1: "set (concat (map snd xs)) \<inter> set (don @ take ?k idxs) = {}" using Cons.prems(4) dj by (auto simp: x dest: in_set_takeD)
  have c2: "distinct (map fst xs)" "distinct (concat (map snd xs))" and c3: "\<forall>i \<in> set (concat (map snd xs)). i < length list1"
    using Cons.prems(2,3,5) 1(3) by (auto simp: x)
  obtain p' list' D R where
    r: "forRange (\<lambda>st (s, idxs). forRange (give_socket s) st idxs) (p1, list1, rany @ drop ?k idxs) xs = Ok (p', list', (rany @ drop ?k idxs) @ R)"
    "pool_inv sock ws p' list' ((don @ take ?k idxs) @ D)" "length list' = length list1" "mset (D @ R) = mset (concat (map snd xs))"
    "\<forall>j. j \<notin> set D \<longrightarrow> list' ! j = list1 ! j"
    "\<forall>(s, idxs) \<in> set xs. length idxs \<le> length (lookup_or [] p1 s) \<longrightarrow> (\<forall>i \<in> set idxs. i \<in> set D \<and> sock (list' ! i) = s)"
    using Cons.IH [OF 1(2) c2 c1 c3, of "rany @ drop ?k idxs"] by (elim exE conjE) (rule that)
  let ?D = "take ?k idxs @ D" and ?R = "drop ?k idxs @ R"
  have "set D \<subseteq> set (concat (map snd xs))" using r(4) by (metis set_mset_mset set_append Un_upper1)
  then have nD: "i \<notin> set D" if "i \<in> set idxs" for i using that dj by auto
  have "mset (?D @ ?R) = mset (take ?k idxs @ drop ?k idxs) + mset (D @ R)" by (simp only: mset_append ac_simps)
  then have m: "mset (?D @ ?R) = mset (concat (map snd (x # xs)))" by (simp only: append_take_drop_id r(4)) (simp add: x)
  have own: "i \<in> set ?D \<and> sock (list' ! i) = s" if "length idxs \<le> length (lookup_or [] p s)" "i \<in> set idxs" for i
    using that 1(4) r(5) nD [OF that(2)] by (simp add: min_def)
  have rest: "length i' \<le> length (lookup_or [] p s') \<longrightarrow> (\<forall>i \<in> set i'. i \<in> set ?D \<and> sock (list' ! i) = s')" if "(s', i') \<in> set xs" for s' i'
  proof -
    have "s' \<noteq> s" using that Cons.prems(2) by (force simp: x)
    then show ?thesis using r(6) that 1(6) by auto
  qed
  have "forRange (\<lambda>st (s, idxs). forRange (give_socket s) st idxs) (p, list, rany) (x # xs) = Ok (p', list', rany @ ?R)"
    using 1(1) r(1) by (simp add: x)
  moreover have "pool_inv sock ws p' list' (don @ ?D)" using r(2) by simp
  moreover have "\<forall>j. j \<notin> set ?D \<longrightarrow> list' ! j = list ! j" using r(5) 1(5) by simp
  moreover have "\<forall>(s, idxs) \<in> set (x # xs). length idxs \<le> length (lookup_or [] p s) \<longrightarrow> (\<forall>i \<in> set idxs. i \<in> set ?D \<and> sock (list' ! i) = s)"
    using own rest by (simp add: x) blast
  ultimately show ?case using r(3) 1(3) m by (intro exI conjI) (assumption | simp)+
qed (simp add: exI [of _ "[]"])

text \<open>\<open>sort.Slice\<close> permutes its argument so that no element is followed by one with a larger number of lcores.\<close>

definition sort_ok :: "((NumaSocket \<Rightarrow> nat) \<Rightarrow> NumaSocket list \<Rightarrow> NumaSocket list) \<Rightarrow> bool" where
  "sort_ok sortSlice \<longleftrightarrow> (\<forall>f xs. mset (sortSlice f xs) = mset xs \<and> sorted_wrt (\<lambda>a b. f a \<ge> f b) (sortSlice f xs))"

lemma sort_ok_set: "sort_ok sortSlice \<Longrightarrow> set (sortSlice f xs) = set xs"
  unfolding sort_ok_def by (metis set_mset_mset)

lemma give_any_step:
  assumes "sort_ok sortSlice" "pool_inv sock ws p list don" "i < length list" "i \<notin> set don" "length don < length ws" "sock ` set ws \<subseteq> set sks"
  shows "\<exists>lc p' sks'. give_any sortSlice (p, list, sks) i = Ok (p', list[i := lc], sks') \<and> pool_inv sock ws p' (list[i := lc]) (don @ [i])
    \<and> set sks' = set sks"
proof -
  let ?f = "\<lambda>s. length (lookup_or [] p s)"
  obtain got where g: "given list don got" "pool_mset p + mset got = mset ws" and ok: "pool_ok sock p" using assms(2) by (auto simp: pool_inv_def)
  have "length got = length don" using g(1) by (simp add: given_def)
  then have "pool_mset p \<noteq> {#}" using g(2) assms(5) by (metis add.left_neutral less_irrefl size_mset)
  then obtain lc where lc: "lc \<in># pool_mset p" by blast
  then obtain s where s: "lc \<in> set (lookup_or [] p s)" using pool_mset_lookup [of p lc] ok by (auto simp: pool_ok_def)
  have "lc \<in> set ws" using lc g(2) by (metis set_mset_mset union_iff)
  then have "s \<in> set sks" using assms(6) pool_lookup_sock [OF ok s] by auto
  then have ss: "s \<in> set (sortSlice ?f sks)" by (simp add: sort_ok_set [OF assms(1)])
  then obtain t rest where t: "sortSlice ?f sks = t # rest" by (cases "sortSlice ?f sks") auto
  have "sorted_wrt (\<lambda>a b. ?f a \<ge> ?f b) (sortSlice ?f sks)" using assms(1) by (simp add: sort_ok_def)
  then have "?f s \<le> ?f t" using ss by (auto simp: t)
  then have "lookup_or [] p t \<noteq> []" using s by (cases "lookup_or [] p s") auto
  from take_lcore_inv [OF assms(2) this assms(3,4)] obtain lc' p' where "take_lcore t p = Ok (lc', p')"
    "pool_inv sock ws p' (list[i := lc']) (don @ [i])" by blast
  then show ?thesis using sort_ok_set [OF assms(1), of ?f sks]
    by (intro exI [of _ lc'] exI [of _ p'] exI [of _ "t # rest"]) (simp add: give_any_def t)
qed

lemma give_any_loop:
  assumes "sort_ok sortSlice" "pool_inv sock ws p list don" "distinct idxs" "set idxs \<inter> set don = {}" "\<forall>i \<in> set idxs. i < length list"
    and "length don + length idxs \<le> length ws" "sock ` set ws \<subseteq> set sks"
  shows "\<exists>p' list' sks'. forRange (give_any sortSlice) (p, list, sks) idxs = Ok (p', list', sks') \<and> pool_inv sock ws p' list' (don @ idxs)
    \<and> length list' = length list \<and> (\<forall>j. j \<notin> set idxs \<longrightarrow> list' ! j = list ! j)"
  using assms(2-7)
proof (induction idxs arbitrary: p list don sks)
  case (Cons i idxs)
  have "i < length list" "i \<notin> set don" "length don < length ws" using Cons.prems(3-5) by auto
  from give_any_step [OF assms(1) Cons.prems(1) this Cons.prems(6)] obtain lc p1 sks1 where
    1: "give_any sortSlice (p, list, sks) i = Ok (p1, list[i := lc], sks1)" "pool_inv sock ws p1 (list[i := lc]) (don @ [i])" "set sks1 = set sks" by blast
  have "distinct idxs" "set idxs \<inter> set (don @ [i]) = {}" "\<forall>i' \<in> set idxs. i' < length (list[i := lc])"
    "length (don @ [i]) + length idxs \<le> length ws" "sock ` set ws \<subseteq> set sks1" using Cons.prems(2-6) 1(3) by auto
  from Cons.IH [OF 1(2) this] obtain p' list' sks' where "forRange (give_any sortSlice) (p1, list[i := lc], sks1) idxs = Ok (p', list', sks')"
    "pool_inv sock ws p' list' ((don @ [i]) @ idxs)" "length list' = length (list[i := lc])" "\<forall>j. j \<notin> set idxs \<longrightarrow> list' ! j = list[i := lc] ! j" by blast
  then show ?case using 1(1) by simp
qed simp

subsection \<open>Requests by socket\<close>

definition wanted :: "AllocReq list \<Rightarrow> nat list" where
  "wanted requests = filter (\<lambda>i. req_Role (requests ! i) \<noteq> []) [0..<length requests]"

lemma wanted_snoc: "wanted (requests @ [r]) = wanted requests @ (if req_Role r = [] then [] else [length requests])"
proof -
  have "filter (\<lambda>i. req_Role ((requests @ [r]) ! i) \<noteq> []) [0..<length requests] = filter (\<lambda>i. req_Role (requests ! i) \<noteq> []) [0..<length requests]"
    by (rule filter_cong) (auto simp: nth_append)
  then show ?thesis by (simp add: wanted_def)
qed

lemma concat_append_to:
  "distinct (map fst m) \<Longrightarrow> mset (concat (map snd (append_to m k vs))) = mset (concat (map snd m)) + mset vs"
proof (induction m)
  case (Cons x m)
  then show ?case by (cases x) (auto simp: append_to_def lookup_or_def)
qed (simp add: append_to_def lookup_or_def)

lemma distinct_append_to: "distinct (map fst m) \<Longrightarrow> distinct (map fst (append_to m k vs))"
  by (simp add: append_to_def distinct_update)

lemma keys_append_to: "fst ` set (append_to m k vs) = insert k (fst ` set m)"
  by (simp add: append_to_def dom_update)

lemma classify_spec:
  assumes "foldl classify_req ([], [], 0) (zip [0..<length requests] requests) = (bySocket, rany, n)"
  shows "n = length (wanted requests) \<and> distinct (map fst bySocket) \<and> mset (concat (map snd bySocket)) + mset rany = mset (wanted requests)
    \<and> (\<forall>s. \<not> IsAny s \<longrightarrow> lookup_or [] bySocket s = filter (\<lambda>i. req_Socket (requests ! i) = s) (wanted requests))"
  using assms
proof (induction requests arbitrary: bySocket rany n rule: rev_induct)
  case Nil
  then show ?case by (simp add: wanted_def lookup_or_def)
next
  case (snoc r rs)
  obtain b a n' where 1: "foldl classify_req ([], [], 0) (zip [0..<length rs] rs) = (b, a, n')" by (metis prod_cases3)
  note ih = snoc.IH [OF 1]
  have "zip [0..<length (rs @ [r])] (rs @ [r]) = zip [0..<length rs] rs @ [(length rs, r)]" by simp
  then have st: "classify_req (b, a, n') (length rs, r) = (bySocket, rany, n)" using snoc.prems 1 by simp
  have w: "filter (\<lambda>i. req_Socket ((rs @ [r]) ! i) = s) (wanted rs) = filter (\<lambda>i. req_Socket (rs ! i) = s) (wanted rs)" for s
    by (rule filter_cong) (auto simp: wanted_def nth_append)
  show ?case using ih st
    by (auto simp: classify_req_def wanted_snoc w concat_append_to distinct_append_to split: if_splits)
qed

subsection \<open>Writing the roles\<close>

definition free_lcores :: "eal \<Rightarrow> LCore list" where
  "free_lcores g = filter (\<lambda>lc. allocated g ! nat (LCore_ID lc) = []) (Workers g)"

lemma Filter_free:
  assumes "eal_ok maxLCore maxNodes g"
  shows "LCores_Filter [lcUnallocated g] (Workers g) = Ok (free_lcores g)"
proof -
  have "lcUnallocated g lc = Ok (allocated g ! nat (LCore_ID lc) = [])" if "lc \<in> set (Workers g)" for lc
    using eal_ok_lc [OF assms that] by (simp add: lcUnallocated_def lcAllocatedTo_def)
  then show ?thesis
    by (subst Filter_ok [where h = "\<lambda>f lc. allocated g ! nat (LCore_ID lc) = []"]) (auto simp: free_lcores_def)
qed

lemma ByNumaSocket_lookup:
  "lookup_or [] (ByNumaSocket maxNodes g ls) s = filter (\<lambda>lc. LCore_NumaSocket maxNodes g lc = s) ls"
proof -
  have r: "Rewrite maxNodes (Sockets g) 0 KeepAnyNumaSocket = (\<lambda>s. s)" by (auto simp: Rewrite_def)
  show ?thesis by (auto simp: lookup_or_def ByNumaSocket_def Classify_bucket r filter_empty_conv)
qed

lemma pool_start: "pool_ok (LCore_NumaSocket maxNodes g) (ByNumaSocket maxNodes g ls)" "pool_mset (ByNumaSocket maxNodes g ls) = mset ls"
proof -
  let ?p = "ByNumaSocket maxNodes g ls"
  have d: "distinct (map fst ?p)" by (simp add: ByNumaSocket_def Classify_distinct)
  have v: "v = filter (\<lambda>lc. LCore_NumaSocket maxNodes g lc = s) ls" if "(s, v) \<in> set ?p" for s v
    using that d ByNumaSocket_lookup [of maxNodes g ls s] by (simp add: lookup_or_def)
  then show "pool_ok (LCore_NumaSocket maxNodes g) ?p" using d unfolding pool_ok_def by fastforce
  show "pool_mset ?p = mset ls"
  proof (rule multiset_eqI)
    fix lc
    let ?s = "LCore_NumaSocket maxNodes g lc"
    have "count (pool_mset q) lc = count (mset (lookup_or [] q ?s)) lc"
      if "distinct (map fst q)" "\<forall>(s, v) \<in> set q. v = filter (\<lambda>lc. LCore_NumaSocket maxNodes g lc = s) ls" for q
      using that
    proof (induction q)
      case (Cons x q)
      obtain s v where x: "x = (s, v)" by (cases x)
      have ih: "count (pool_mset q) lc = count (mset (lookup_or [] q ?s)) lc" using Cons by (simp add: x)
      show ?case
      proof (cases "s = ?s")
        case True
        then have "map_of q ?s = None" using Cons.prems(1) by (auto simp: x map_of_eq_None_iff)
        then show ?thesis using ih True by (simp add: x pool_mset_def lookup_or_def)
      next
        case False
        then have "count (mset v) lc = 0" using Cons.prems(2) by (simp add: x count_eq_zero_iff)
        then show ?thesis using ih False by (simp add: x pool_mset_def lookup_or_def)
      qed
    qed (simp add: pool_mset_def lookup_or_def)
    from this [OF d] v have "count (pool_mset ?p) lc = count (mset (filter (\<lambda>x. LCore_NumaSocket maxNodes g x = ?s) ls)) lc"
      by (force simp: ByNumaSocket_lookup)
    then show "count (pool_mset ?p) lc = count (mset ls) lc" by simp
  qed
qed

lemma set_roles:
  assumes "distinct (map snd xs)" "\<forall>(r, lc) \<in> set xs. 0 \<le> LCore_ID lc \<and> nat (LCore_ID lc) < length (allocated g)"
  shows "\<exists>a. forRange (\<lambda>g (r, lc). set_role r g lc) g xs = Ok (g\<lparr>allocated := a\<rparr>) \<and> length a = length (allocated g)
    \<and> (\<forall>(r, lc) \<in> set xs. a ! nat (LCore_ID lc) = r) \<and> (\<forall>lc. 0 \<le> LCore_ID lc \<longrightarrow> lc \<notin> snd ` set xs \<longrightarrow> a ! nat (LCore_ID lc) = allocated g ! nat (LCore_ID lc))"
  using assms
proof (induction xs rule: rev_induct)
  case Nil
  show ?case by (intro exI [of _ "allocated g"]) simp
next
  case (snoc x xs)
  obtain r lc where x: "x = (r, lc)" by (cases x)
  obtain a where a: "forRange (\<lambda>g (r, lc). set_role r g lc) g xs = Ok (g\<lparr>allocated := a\<rparr>)" "length a = length (allocated g)"
    "\<forall>(r, lc) \<in> set xs. a ! nat (LCore_ID lc) = r" "\<forall>lc. 0 \<le> LCore_ID lc \<longrightarrow> lc \<notin> snd ` set xs \<longrightarrow> a ! nat (LCore_ID lc) = allocated g ! nat (LCore_ID lc)"
    using snoc by auto
  have l: "0 \<le> LCore_ID lc" "nat (LCore_ID lc) < length a" using snoc.prems(2) a(2) by (auto simp: x)
  have ne: "nat (LCore_ID l') = nat (LCore_ID lc) \<longleftrightarrow> l' = lc" if "0 \<le> LCore_ID l'" for l' using that l(1) by (metis LCore_ID_inj eq_nat_nat_iff)
  have "a[nat (LCore_ID lc) := r] ! nat (LCore_ID l') = r'" if "(r', l') \<in> set xs" for r' l'
  proof -
    have "l' \<noteq> lc" "0 \<le> LCore_ID l'" using that snoc.prems by (force simp: x)+
    then show ?thesis using that a(3) ne [of l'] by (auto simp: nth_list_update)
  qed
  moreover have "a[nat (LCore_ID lc) := r] ! nat (LCore_ID l') = allocated g ! nat (LCore_ID l')" if "0 \<le> LCore_ID l'" "l' \<notin> snd ` set (xs @ [x])" for l'
    using that a(4) ne [OF that(1)] by (auto simp: x nth_list_update)
  ultimately show ?case using a(1,2) l by (intro exI [of _ "a[nat (LCore_ID lc) := r]"]) (auto simp: x set_role_def)
qed

lemma forRange_skip:
  "forRange (\<lambda>g (req, lc). if req_Role req = [] then Ok g else set_role (req_Role req) g lc) g (zip requests list)
   = forRange (\<lambda>g (r, lc). set_role r g lc) g (map (\<lambda>i. (req_Role (requests ! i), list ! i)) (wanted requests))"
  if "length list = length requests"
proof -
  have "zip requests list = map (\<lambda>i. (requests ! i, list ! i)) [0..<length requests]" using that by (intro nth_equalityI) auto
  then have "forRange (\<lambda>g (req, lc). if req_Role req = [] then Ok g else set_role (req_Role req) g lc) g (zip requests list)
    = forRange (\<lambda>g i. if req_Role (requests ! i) = [] then Ok g else set_role (req_Role (requests ! i)) g (list ! i)) g [0..<length requests]"
    by (simp add: forRange_map)
  also have "\<dots> = forRange (\<lambda>g i. set_role (req_Role (requests ! i)) g (list ! i)) g (wanted requests)"
    unfolding wanted_def forRange_filter by (rule forRange_cong) auto
  finally show ?thesis by (simp add: forRange_map)
qed

end
