(* ===== verification/Eal_Alloc.thy ===== *)
theory Eal_Alloc
  imports Eal_Thread
begin

text \<open>
  What the allocator of lcores promises: no lcore is given twice, requests are met on their NUMA socket while it has free
  lcores, and a request that cannot be met changes nothing.
\<close>

subsection \<open>Requests\<close>

lemma NumaSocket_allocated [simp]: "LCore_NumaSocket maxNodes (g\<lparr>allocated := a\<rparr>) = LCore_NumaSocket maxNodes g"
  by (simp add: LCore_NumaSocket_def fun_eq_iff)

lemma mset_concat_map: "mset (concat (map f xs)) = \<Sum>\<^sub># (image_mset (\<lambda>x. mset (f x)) (mset xs))"
  by (induction xs) simp_all

lemma mset_sub_distinct: "mset xs \<subseteq># mset ys \<Longrightarrow> distinct ys \<Longrightarrow> distinct xs"
proof -
  assume "mset xs \<subseteq># mset ys" and d: "distinct ys"
  then obtain zs where "mset ys = mset (xs @ zs)" by (metis ex_mset mset_append mset_subset_eq_exists_conv)
  then have "distinct (xs @ zs)" using d by (metis mset_eq_imp_distinct_iff)
  then show ?thesis by simp
qed

lemma eal_ok_allocated: "eal_ok maxLCore maxNodes g \<Longrightarrow> length a = length (allocated g) \<Longrightarrow> eal_ok maxLCore maxNodes (g\<lparr>allocated := a\<rparr>)"
  by (simp add: eal_ok_def NumaSocket_allocated)

lemma lookup_or_in: "\<lbrakk>distinct (map fst m); (k, v) \<in> set m\<rbrakk> \<Longrightarrow> lookup_or z m k = v"
  by (simp add: lookup_or_def)

lemma AllocRequest_loops:
  assumes "eal_ok maxLCore maxNodes g" "visits_all visit" "sort_ok sortSlice" "length (wanted requests) \<le> length (free_lcores g)"
    and "foldl classify_req ([], [], 0) (zip [0..<length requests] requests) = (bySocket, rany, n)"
  defines "sock \<equiv> LCore_NumaSocket maxNodes g"
  shows "\<exists>p1 list1 rany1 p2 list2 sks. forRange (\<lambda>st (socket, reqIndexes). forRange (give_socket socket) st reqIndexes)
        (ByNumaSocket maxNodes g (free_lcores g), replicate (length requests) \<lparr>lc_v = 0\<rparr>, rany) (visit bySocket) = Ok (p1, list1, rany1)
    \<and> forRange (give_any sortSlice) (p1, list1, Sockets g) rany1 = Ok (p2, list2, sks) \<and> length list2 = length requests
    \<and> (\<exists>don. mset don = mset (wanted requests) \<and> pool_inv sock (free_lcores g) p2 list2 don)
    \<and> (\<forall>s. \<not> IsAny s \<longrightarrow> length (filter (\<lambda>i. req_Socket (requests ! i) = s) (wanted requests)) \<le> length (filter (\<lambda>lc. sock lc = s) (free_lcores g))
         \<longrightarrow> (\<forall>i \<in> set (wanted requests). req_Socket (requests ! i) = s \<longrightarrow> sock (list2 ! i) = s))"
proof -
  let ?ws = "free_lcores g" and ?l = "replicate (length requests) \<lparr>lc_v = 0\<rparr>" and ?xs = "visit bySocket"
  let ?p = "ByNumaSocket maxNodes g ?ws"
  note cs = classify_spec [OF assms(5)]
  have mx: "mset ?xs = mset bySocket" using assms(2) by (simp add: visits_all_def)
  have set_xs: "set ?xs = set bySocket" by (rule visits_all_set [OF assms(2)])
  have dk: "distinct (map fst ?xs)" using cs mx by (metis mset_eq_imp_distinct_iff mset_map)
  have mc: "mset (concat (map snd ?xs)) = mset (concat (map snd bySocket))"
    by (simp only: mset_concat_map mx)
  then have mall: "mset (concat (map snd ?xs) @ rany) = mset (wanted requests)" using cs by simp
  have dw: "distinct (wanted requests)" by (simp add: wanted_def)
  have dall: "distinct (concat (map snd ?xs) @ rany)" using mall dw by (metis mset_eq_imp_distinct_iff)
  have sall: "set (concat (map snd ?xs) @ rany) = set (wanted requests)" using mall by (metis set_mset_mset)
  have rng: "i < length requests" if "i \<in> set (wanted requests)" for i using that by (simp add: wanted_def)
  have pi: "pool_inv sock ?ws ?p ?l []" using pool_start [of maxNodes g ?ws] by (simp add: pool_inv_def given_def sock_def)
  have c: "distinct (concat (map snd ?xs))" "set (concat (map snd ?xs)) \<inter> set [] = {}" "\<forall>i \<in> set (concat (map snd ?xs)). i < length ?l"
    using dall rng sall by auto
  obtain p1 list1 D R where 1: "forRange (\<lambda>st (s, idxs). forRange (give_socket s) st idxs) (?p, ?l, rany) ?xs = Ok (p1, list1, rany @ R)"
    "pool_inv sock ?ws p1 list1 ([] @ D)" "length list1 = length ?l" "mset (D @ R) = mset (concat (map snd ?xs))"
    "\<forall>j. j \<notin> set D \<longrightarrow> list1 ! j = ?l ! j"
    "\<forall>(s, idxs) \<in> set ?xs. length idxs \<le> length (lookup_or [] ?p s) \<longrightarrow> (\<forall>i \<in> set idxs. i \<in> set D \<and> sock (list1 ! i) = s)"
    using give_socket_outer [OF pi dk c, of rany] by (elim exE conjE) (rule that)
  have m2: "mset (D @ rany @ R) = mset (wanted requests)"
    unfolding mall [symmetric] mset_append [of "concat _"] 1(4) [symmetric] by (simp only: mset_append ac_simps)
  then have d2: "distinct (D @ rany @ R)" using dw by (metis mset_eq_imp_distinct_iff)
  have s2: "set (D @ rany @ R) = set (wanted requests)" using m2 by (metis set_mset_mset)
  have len: "length (D @ rany @ R) = length (wanted requests)" using m2 by (metis size_mset)
  have e: "distinct (rany @ R)" "set (rany @ R) \<inter> set ([] @ D) = {}" "\<forall>i \<in> set (rany @ R). i < length list1"
    "length ([] @ D) + length (rany @ R) \<le> length ?ws" using d2 s2 len rng 1(3) assms(4) by auto
  have so: "sock ` set ?ws \<subseteq> set (Sockets g)" using assms(1) by (auto simp: eal_ok_def free_lcores_def sock_def)
  obtain p2 list2 sks where 2: "forRange (give_any sortSlice) (p1, list1, Sockets g) (rany @ R) = Ok (p2, list2, sks)"
    "pool_inv sock ?ws p2 list2 (([] @ D) @ rany @ R)" "length list2 = length list1" "\<forall>j. j \<notin> set (rany @ R) \<longrightarrow> list2 ! j = list1 ! j"
    using give_any_loop [OF assms(3) 1(2) e so] by (elim exE conjE) (rule that)
  have pref: "sock (list2 ! i) = s" if s: "\<not> IsAny s" and le: "length (filter (\<lambda>i. req_Socket (requests ! i) = s) (wanted requests)) \<le> length (filter (\<lambda>lc. sock lc = s) ?ws)"
    and i: "i \<in> set (wanted requests)" "req_Socket (requests ! i) = s" for s i
  proof -
    let ?idxs = "lookup_or [] bySocket s"
    have e: "?idxs = filter (\<lambda>i. req_Socket (requests ! i) = s) (wanted requests)" using cs s by blast
    then have "?idxs \<noteq> []" using i by (auto simp: filter_empty_conv)
    then have "(s, ?idxs) \<in> set ?xs" unfolding set_xs by (auto simp: lookup_or_def split: option.splits dest: map_of_SomeD)
    moreover have "length ?idxs \<le> length (lookup_or [] ?p s)" using le e by (simp add: ByNumaSocket_lookup sock_def)
    ultimately have "i \<in> set D \<and> sock (list1 ! i) = s" using 1(6) i e by fastforce
    moreover have "i \<notin> set (rany @ R)" using calculation d2 by auto
    ultimately show ?thesis using 2(4) by simp
  qed
  have "length list2 = length requests" using 2(3) 1(3) by simp
  moreover have "mset (([] @ D) @ rany @ R) = mset (wanted requests)" using m2 by simp
  ultimately show ?thesis using 1(1) 2(1,2) pref by (intro exI conjI) (assumption | blast)+
qed

text \<open>C17 (AllocRequest_no_double): a request for lcores fails, without a change, exactly when there are fewer free workers
  than requests with a role. Otherwise it does not panic and gives every such request a worker of its own that was free,
  records the role, and leaves every other lcore and the other variables as they were; a request without a role gets the
  invalid lcore. If a NUMA socket has enough free workers for the requests that prefer it, they are all placed there,
  whatever the order of the map and of equal elements in the sort.\<close>

theorem AllocRequest_no_double:
  assumes "eal_ok maxLCore maxNodes g" "visits_all visit" "sort_ok sortSlice"
  shows "if length (wanted requests) > length (free_lcores g) then AllocRequest visit sortSlice maxNodes requests g = Fail (ErrOther ''need lcores'')
    else \<exists>a list. AllocRequest visit sortSlice maxNodes requests g = Ok (g\<lparr>allocated := a\<rparr>, list) \<and> eal_ok maxLCore maxNodes (g\<lparr>allocated := a\<rparr>)
      \<and> length list = length requests \<and> distinct (map (\<lambda>i. list ! i) (wanted requests))
      \<and> (\<forall>i < length requests. if req_Role (requests ! i) = [] then list ! i = \<lparr>lc_v = 0\<rparr>
           else list ! i \<in> set (free_lcores g) \<and> a ! nat (LCore_ID (list ! i)) = req_Role (requests ! i))
      \<and> (\<forall>lc. 0 \<le> LCore_ID lc \<and> lc \<notin> set list \<longrightarrow> a ! nat (LCore_ID lc) = allocated g ! nat (LCore_ID lc))
      \<and> (\<forall>s. \<not> IsAny s \<and> length (filter (\<lambda>i. req_Socket (requests ! i) = s) (wanted requests)) \<le> length (filter (\<lambda>lc. LCore_NumaSocket maxNodes g lc = s) (free_lcores g))
         \<longrightarrow> (\<forall>i \<in> set (wanted requests). req_Socket (requests ! i) = s \<longrightarrow> LCore_NumaSocket maxNodes g (list ! i) = s))"
proof -
  obtain bySocket rany n where c: "foldl classify_req ([], [], 0) (zip [0..<length requests] requests) = (bySocket, rany, n)" by (metis prod_cases3)
  have n: "n = length (wanted requests)" using classify_spec [OF c] by blast
  note f = Filter_free [OF assms(1)]
  show ?thesis
  proof (cases "length (wanted requests) > length (free_lcores g)")
    case True
    then show ?thesis by (simp add: AllocRequest_def c f n)
  next
    case False
    let ?w = "wanted requests"
    obtain p1 list1 rany1 p2 list sks don where 1: "forRange (\<lambda>st (socket, reqIndexes). forRange (give_socket socket) st reqIndexes)
        (ByNumaSocket maxNodes g (free_lcores g), replicate (length requests) \<lparr>lc_v = 0\<rparr>, rany) (visit bySocket) = Ok (p1, list1, rany1)"
      "forRange (give_any sortSlice) (p1, list1, Sockets g) rany1 = Ok (p2, list, sks)" "length list = length requests"
      "mset don = mset ?w" "pool_inv (LCore_NumaSocket maxNodes g) (free_lcores g) p2 list don" and
      pref: "\<forall>s. \<not> IsAny s \<longrightarrow> length (filter (\<lambda>i. req_Socket (requests ! i) = s) ?w) \<le> length (filter (\<lambda>lc. LCore_NumaSocket maxNodes g lc = s) (free_lcores g))
         \<longrightarrow> (\<forall>i \<in> set ?w. req_Socket (requests ! i) = s \<longrightarrow> LCore_NumaSocket maxNodes g (list ! i) = s)"
      using AllocRequest_loops [OF assms leI [OF False] c] by blast
    have sd: "set don = set ?w" using 1(4) by (metis set_mset_mset)
    obtain got where got: "given list don got" "pool_mset p2 + mset got = mset (free_lcores g)" using 1(5) by (auto simp: pool_inv_def)
    have "mset (map (\<lambda>i. list ! i) ?w) = mset got" using got(1) 1(4) by (simp add: given_def)
    then have sub: "mset (map (\<lambda>i. list ! i) ?w) \<subseteq># mset (free_lcores g)" using got(2) by (metis mset_subset_eq_add_right)
    have "distinct (free_lcores g)" using assms(1) by (simp add: eal_ok_def free_lcores_def)
    then have dl: "distinct (map (\<lambda>i. list ! i) ?w)" using sub by (rule mset_sub_distinct [rotated])
    have inl: "list ! i \<in> set (free_lcores g)" if "i \<in> set ?w" for i
      using mset_subset_eqD [OF sub, of "list ! i"] that by auto
    have rng: "0 \<le> LCore_ID (list ! i) \<and> nat (LCore_ID (list ! i)) < length (allocated g)" if "i \<in> set ?w" for i
      using inl [OF that] eal_ok_lc [OF assms(1), of "list ! i"] by (auto simp: free_lcores_def)
    have z: "list ! i = \<lparr>lc_v = 0\<rparr>" if "i < length requests" "i \<notin> set ?w" for i using got(1) that sd 1(3) by (simp add: given_def)
    let ?xs = "map (\<lambda>i. (req_Role (requests ! i), list ! i)) ?w"
    have "distinct (map snd ?xs)" using dl by (simp add: comp_def)
    moreover have "\<forall>(r, lc) \<in> set ?xs. 0 \<le> LCore_ID lc \<and> nat (LCore_ID lc) < length (allocated g)" using rng by auto
    ultimately obtain a where a: "forRange (\<lambda>g (r, lc). set_role r g lc) g ?xs = Ok (g\<lparr>allocated := a\<rparr>)" "length a = length (allocated g)"
      "\<forall>(r, lc) \<in> set ?xs. a ! nat (LCore_ID lc) = r"
      "\<forall>lc. 0 \<le> LCore_ID lc \<longrightarrow> lc \<notin> snd ` set ?xs \<longrightarrow> a ! nat (LCore_ID lc) = allocated g ! nat (LCore_ID lc)"
      using set_roles by blast
    have "AllocRequest visit sortSlice maxNodes requests g = Ok (g\<lparr>allocated := a\<rparr>, list)"
      using False by (simp add: AllocRequest_def c f n 1(1,2) forRange_skip [OF 1(3)] a(1))
    moreover have "\<forall>i < length requests. if req_Role (requests ! i) = [] then list ! i = \<lparr>lc_v = 0\<rparr>
        else list ! i \<in> set (free_lcores g) \<and> a ! nat (LCore_ID (list ! i)) = req_Role (requests ! i)"
      using z inl a(3) by (auto simp: wanted_def)
    moreover have "\<forall>lc. 0 \<le> LCore_ID lc \<and> lc \<notin> set list \<longrightarrow> a ! nat (LCore_ID lc) = allocated g ! nat (LCore_ID lc)"
      using a(4) 1(3) by (auto simp: wanted_def)
    ultimately show ?thesis using False 1(3) dl eal_ok_allocated [OF assms(1) a(2)] pref by (simp only: if_False) blast
  qed
qed

definition list_sort :: "(NumaSocket \<Rightarrow> nat) \<Rightarrow> NumaSocket list \<Rightarrow> NumaSocket list" where
  "list_sort f xs = sort_key (\<lambda>s. - int (f s)) xs"

lemma list_sort_ok: "sort_ok list_sort"
  unfolding sort_ok_def
proof (intro allI conjI)
  fix f :: "NumaSocket \<Rightarrow> nat" and xs
  show "mset (list_sort f xs) = mset xs" by (simp add: list_sort_def)
  have "sorted (map (\<lambda>s. - int (f s)) (list_sort f xs))" by (simp add: list_sort_def)
  then show "sorted_wrt (\<lambda>a b. f b \<le> f a) (list_sort f xs)" by (simp add: sorted_wrt_map)
qed

definition sample_eal :: eal where
  "sample_eal = \<lparr>MainLCore = \<lparr>lc_v = 1\<rparr>, Workers = [\<lparr>lc_v = 2\<rparr>, \<lparr>lc_v = 3\<rparr>, \<lparr>lc_v = 4\<rparr>], Sockets = [\<lparr>ns_v = 1\<rparr>, \<lparr>ns_v = 2\<rparr>],
     lcoreToSocket = [0, 0, 1, 1], lcoreIsBusy = [False, False, False, False], allocated = [[], [], [], ''RX'']\<rparr>"

lemma sample_eal_ok: "eal_ok 4 8 sample_eal"
  by (simp add: eal_ok_def sample_eal_def LCore_NumaSocket_def LCore_Valid_def LCore_ID_def NumaSocketFromID_def)

theorem AllocRequest_no_double_witness:
  "\<exists>a list. AllocRequest id list_sort 8 [\<lparr>req_Role = ''FWD'', req_Socket = \<lparr>ns_v = 2\<rparr>\<rparr>, \<lparr>req_Role = ''TX'', req_Socket = anySocket\<rparr>] sample_eal
      = Ok (sample_eal\<lparr>allocated := a\<rparr>, list)
    \<and> list ! 0 \<noteq> list ! 1 \<and> LCore_NumaSocket 8 sample_eal (list ! 0) = \<lparr>ns_v = 2\<rparr>"
proof -
  let ?r = "[\<lparr>req_Role = ''FWD'', req_Socket = \<lparr>ns_v = 2\<rparr>\<rparr>, \<lparr>req_Role = ''TX'', req_Socket = anySocket\<rparr>]"
  have f: "free_lcores sample_eal = [\<lparr>lc_v = 2\<rparr>, \<lparr>lc_v = 3\<rparr>]" by (simp add: free_lcores_def sample_eal_def LCore_ID_def)
  have w: "wanted ?r = [0, 1]" by (simp add: wanted_def upt_rec)
  have v: "visits_all id" by (simp add: visits_all_def)
  have s: "LCore_NumaSocket 8 sample_eal \<lparr>lc_v = 3\<rparr> = \<lparr>ns_v = 2\<rparr>" "LCore_NumaSocket 8 sample_eal \<lparr>lc_v = 2\<rparr> = \<lparr>ns_v = 1\<rparr>" "anySocket \<noteq> \<lparr>ns_v = 2\<rparr>"
    by (simp_all add: anySocket_def sample_eal_def LCore_NumaSocket_def LCore_Valid_def LCore_ID_def NumaSocketFromID_def)
  have n: "\<not> length (wanted ?r) > length (free_lcores sample_eal)" by (simp add: f w)
  from AllocRequest_no_double [OF sample_eal_ok v list_sort_ok, of ?r, unfolded if_not_P [OF n]] obtain a list where
    1: "AllocRequest id list_sort 8 ?r sample_eal = Ok (sample_eal\<lparr>allocated := a\<rparr>, list)" "distinct (map (\<lambda>i. list ! i) (wanted ?r))"
    "\<forall>s. \<not> IsAny s \<and> length (filter (\<lambda>i. req_Socket (?r ! i) = s) (wanted ?r)) \<le> length (filter (\<lambda>lc. LCore_NumaSocket 8 sample_eal lc = s) (free_lcores sample_eal))
       \<longrightarrow> (\<forall>i \<in> set (wanted ?r). req_Socket (?r ! i) = s \<longrightarrow> LCore_NumaSocket 8 sample_eal (list ! i) = s)"
    by (elim exE conjE) (rule that)
  have "LCore_NumaSocket 8 sample_eal (list ! 0) = \<lparr>ns_v = 2\<rparr>"
    using spec [OF 1(3), of "\<lparr>ns_v = 2\<rparr>"] by (simp add: w f s IsAny_def)
  moreover have "list ! 0 \<noteq> list ! 1" using 1(2) unfolding w by simp
  ultimately show ?thesis using 1(1) by blast
qed

subsection \<open>Configuration\<close>

definition assigned_inv :: "LCore list \<Rightarrow> (string \<times> LCore list) list \<Rightarrow> LCore multiset \<Rightarrow> bool" where
  "assigned_inv ws m rest \<longleftrightarrow> distinct (map fst m) \<and> rest + mset (concat (map snd m)) = mset ws"

definition byID_ok :: "(int \<times> LCore) list \<Rightarrow> bool" where
  "byID_ok b \<longleftrightarrow> distinct (map fst b) \<and> (\<forall>(k, w) \<in> set b. LCore_ID w = k)"

text \<open>How many lcores a list of roles asks for: by number, and by socket.\<close>

definition lcores_of :: "string \<Rightarrow> alloc_config \<Rightarrow> nat" where
  "lcores_of r c = sum_list (map (\<lambda>(role, rc). if role = r then length (rc_LCores rc) else 0) c)"

definition numa_of :: "string \<Rightarrow> alloc_config \<Rightarrow> nat" where
  "numa_of r c = sum_list (map (\<lambda>(role, rc). if role = r then sum_list (map (\<lambda>x. nat (snd x)) (rc_PerNuma rc)) else 0) c)"

lemma assigned_append:
  "assigned_inv ws m (rest + mset vs) \<Longrightarrow> assigned_inv ws (append_to m r vs) rest"
  by (simp add: assigned_inv_def concat_append_to distinct_append_to ac_simps)

lemma delete_mset:
  "\<lbrakk>distinct (map fst b); map_of b k = Some w\<rbrakk> \<Longrightarrow> mset (map snd b) = mset (map snd (AList.delete k b)) + {#w#}"
proof (induction b)
  case (Cons x b)
  show ?case
  proof (cases "fst x = k")
    case True
    then have "k \<notin> fst ` set b" using Cons.prems(1) by auto
    then have "AList.delete k b = b" by (simp add: delete_idem)
    then show ?thesis using True Cons.prems(2) by (cases x) simp
  next
    case False
    then show ?thesis using Cons by (cases x) simp
  qed
qed simp

lemma assign_core_loop:
  assumes "foldl (assign_core role) (m, b, errs) cores = (m', b', errs')" "byID_ok b" "assigned_inv ws m (mset (map snd b))"
  shows "byID_ok b' \<and> assigned_inv ws m' (mset (map snd b')) \<and> (errs' = [] \<longrightarrow> errs = []
    \<and> (\<forall>r. length (lookup_or [] m' r) = length (lookup_or [] m r) + (if r = role then length cores else 0)))"
  using assms
proof (induction cores arbitrary: m b errs)
  case (Cons core cores)
  show ?case
  proof (cases "map_of b core")
    case None
    then have "foldl (assign_core role) (m, b, errs @ [LCoreMissing core role]) cores = (m', b', errs')"
      using Cons.prems(1) by (simp add: assign_core_def)
    from Cons.IH [OF this Cons.prems(2,3)] show ?thesis by simp
  next
    case (Some w)
    have id: "LCore_ID w = core" using Some Cons.prems(2) by (auto simp: byID_ok_def dest: map_of_SomeD)
    let ?b = "AList.delete core b"
    have f: "foldl (assign_core role) (append_to m role [w], ?b, errs) cores = (m', b', errs')"
      using Cons.prems(1) Some id by (simp add: assign_core_def)
    have b: "byID_ok ?b" using Cons.prems(2) by (auto simp: byID_ok_def AList.delete_eq distinct_map_filter)
    have "assigned_inv ws (append_to m role [w]) (mset (map snd ?b))"
      by (rule assigned_append) (use Cons.prems(2,3) delete_mset [OF _ Some] in \<open>simp add: byID_ok_def\<close>)
    from Cons.IH [OF f b this] show ?thesis by simp
  qed
qed simp

lemma assign_cores_loop:
  assumes "foldl (\<lambda>st (role, rc). foldl (assign_core role) st (rc_LCores rc)) (m, b, errs) c = (m', b', errs')"
    and "byID_ok b" "assigned_inv ws m (mset (map snd b))"
  shows "byID_ok b' \<and> assigned_inv ws m' (mset (map snd b')) \<and> (errs' = [] \<longrightarrow> errs = []
    \<and> (\<forall>r. length (lookup_or [] m' r) = length (lookup_or [] m r) + lcores_of r c))"
  using assms
proof (induction c arbitrary: m b errs)
  case (Cons x c)
  obtain role rc where x: "x = (role, rc)" by (cases x)
  obtain m1 b1 errs1 where 1: "foldl (assign_core role) (m, b, errs) (rc_LCores rc) = (m1, b1, errs1)" by (metis prod_cases3)
  note s1 = assign_core_loop [OF 1 Cons.prems(2,3)]
  have "foldl (\<lambda>st (role, rc). foldl (assign_core role) st (rc_LCores rc)) (m1, b1, errs1) c = (m', b', errs')"
    using Cons.prems(1) by (simp add: x 1)
  from Cons.IH [OF this] s1 show ?case by (auto simp: x lcores_of_def)
qed (simp add: lcores_of_def)

lemma assign_numa_step:
  assumes "0 \<le> cnt" "pool_ok sock p" "assigned_inv ws m (pool_mset p)"
  shows "\<exists>m' p' errs'. assign_numa maxNodes role (m, p, errs) (socketID, cnt) = Ok (m', p', errs') \<and> pool_ok sock p' \<and> assigned_inv ws m' (pool_mset p')
    \<and> (errs' = [] \<longrightarrow> errs = [] \<and> (\<forall>r. length (lookup_or [] m' r) = length (lookup_or [] m r) + (if r = role then nat cnt else 0)))"
proof -
  let ?s = "NumaSocketFromID maxNodes socketID"
  let ?b = "lookup_or [] p ?s" and ?n = "nat cnt"
  let ?p = "AList.update ?s (drop ?n ?b) p"
  show ?thesis
  proof (cases "int (length ?b) \<ge> cnt")
    case True
    have d: "distinct (map fst p)" using assms(2) by (simp add: pool_ok_def)
    have "pool_mset ?p + mset ?b = pool_mset p + mset (drop ?n ?b)" by (rule pool_mset_update [OF d])
    moreover have "mset ?b = mset (take ?n ?b) + mset (drop ?n ?b)" by (metis append_take_drop_id mset_append)
    ultimately have "pool_mset ?p + mset (take ?n ?b) + mset (drop ?n ?b) = pool_mset p + mset (drop ?n ?b)" by (simp only: add.assoc)
    then have "pool_mset p = pool_mset ?p + mset (take ?n ?b)" by simp
    then have "assigned_inv ws (append_to m role (take ?n ?b)) (pool_mset ?p)" using assms(3) by (intro assigned_append) simp
    moreover have "pool_ok sock ?p" by (rule pool_ok_update [OF assms(2)]) (simp add: set_drop_subset)
    moreover have "?n \<le> length ?b" using True by linarith
    ultimately show ?thesis using True assms(1) by (simp add: assign_numa_def Let_def min.absorb2)
  next
    case False
    then show ?thesis using assms by (simp add: assign_numa_def Let_def)
  qed
qed

lemma assign_numa_loop:
  assumes "\<forall>(s, n) \<in> set xs. 0 \<le> n" "pool_ok sock p" "assigned_inv ws m (pool_mset p)"
  shows "\<exists>m' p' errs'. forRange (assign_numa maxNodes role) (m, p, errs) xs = Ok (m', p', errs') \<and> pool_ok sock p' \<and> assigned_inv ws m' (pool_mset p')
    \<and> (errs' = [] \<longrightarrow> errs = [] \<and> (\<forall>r. length (lookup_or [] m' r) = length (lookup_or [] m r) + (if r = role then sum_list (map (\<lambda>x. nat (snd x)) xs) else 0)))"
  using assms
proof (induction xs arbitrary: m p errs)
  case (Cons x xs)
  obtain s n where x: "x = (s, n)" by (cases x)
  have n: "0 \<le> n" using Cons.prems(1) by (simp add: x)
  obtain m1 p1 errs1 where 1: "assign_numa maxNodes role (m, p, errs) (s, n) = Ok (m1, p1, errs1)" "pool_ok sock p1" "assigned_inv ws m1 (pool_mset p1)"
    "errs1 = [] \<longrightarrow> errs = [] \<and> (\<forall>r. length (lookup_or [] m1 r) = length (lookup_or [] m r) + (if r = role then nat n else 0))"
    using assign_numa_step [OF n Cons.prems(2,3)] by blast
  from Cons.IH [OF _ 1(2,3), of errs1] Cons.prems(1) 1(1,4) show ?case by (auto simp: x)
qed simp

lemma assign_numas_loop:
  assumes "\<forall>(role, rc) \<in> set c. \<forall>(s, n) \<in> set (rc_PerNuma rc). 0 \<le> n" "visits_all ord" "pool_ok sock p" "assigned_inv ws m (pool_mset p)"
  shows "\<exists>m' p' errs'. forRange (\<lambda>st (role, rc). forRange (assign_numa maxNodes role) st (ord (rc_PerNuma rc))) (m, p, errs) c = Ok (m', p', errs')
    \<and> assigned_inv ws m' (pool_mset p')
    \<and> (errs' = [] \<longrightarrow> errs = [] \<and> (\<forall>r. length (lookup_or [] m' r) = length (lookup_or [] m r) + numa_of r c))"
  using assms(1,3,4)
proof (induction c arbitrary: m p errs)
  case (Cons x c)
  obtain role rc where x: "x = (role, rc)" by (cases x)
  let ?xs = "ord (rc_PerNuma rc)"
  have pos: "\<forall>(s, n) \<in> set ?xs. 0 \<le> n" using Cons.prems(1) by (simp add: x visits_all_set [OF assms(2)])
  have "mset (map (\<lambda>x. nat (snd x)) ?xs) = mset (map (\<lambda>x. nat (snd x)) (rc_PerNuma rc))" using assms(2) by (simp add: visits_all_def)
  then have sm: "sum_list (map (\<lambda>x. nat (snd x)) ?xs) = sum_list (map (\<lambda>x. nat (snd x)) (rc_PerNuma rc))" by (metis sum_mset_sum_list)
  obtain m1 p1 errs1 where 1: "forRange (assign_numa maxNodes role) (m, p, errs) ?xs = Ok (m1, p1, errs1)" "pool_ok sock p1" "assigned_inv ws m1 (pool_mset p1)"
    "errs1 = [] \<longrightarrow> errs = [] \<and> (\<forall>r. length (lookup_or [] m1 r) = length (lookup_or [] m r) + (if r = role then sum_list (map (\<lambda>x. nat (snd x)) ?xs) else 0))"
    using assign_numa_loop [OF pos Cons.prems(2,3)] by blast
  from Cons.IH [OF _ 1(2,3), of errs1] Cons.prems(1) 1(1,4) show ?case by (auto simp: x numa_of_def sm)
qed (simp add: numa_of_def)

lemma update_new: "k \<notin> fst ` set m \<Longrightarrow> AList.update k v m = m @ [(k, v)]"
  by (induction m) auto

lemma byID_start:
  assumes "eal_ok maxLCore maxNodes g"
  shows "\<exists>b. forRange (\<lambda>byID worker. andthen (lcUnallocated g worker) (\<lambda>ok. Ok (if ok then AList.update (LCore_ID worker) worker byID else byID))) [] (Workers g) = Ok b
    \<and> byID_ok b \<and> mset (map snd b) = mset (free_lcores g)"
proof -
  let ?f = "\<lambda>byID worker. andthen (lcUnallocated g worker) (\<lambda>ok. Ok (if ok then AList.update (LCore_ID worker) worker byID else byID))"
  let ?b = "\<lambda>ws. map (\<lambda>w. (LCore_ID w, w)) (filter (\<lambda>lc. allocated g ! nat (LCore_ID lc) = []) ws)"
  have "set ws \<subseteq> set (Workers g) \<Longrightarrow> distinct ws \<Longrightarrow> forRange ?f [] ws = Ok (?b ws)" for ws
  proof (induction ws rule: rev_induct)
    case (snoc w ws)
    have "lcUnallocated g w = Ok (allocated g ! nat (LCore_ID w) = [])"
      using eal_ok_lc [OF assms, of w] snoc.prems(1) by (simp add: lcUnallocated_def lcAllocatedTo_def)
    moreover have "LCore_ID w \<notin> fst ` set (?b ws)" using snoc.prems(2) by (auto simp: LCore_ID_inj)
    then have "AList.update (LCore_ID w) w (?b ws) = ?b ws @ [(LCore_ID w, w)]" by (rule update_new)
    ultimately show ?case using snoc by simp
  qed simp
  moreover have "distinct (Workers g)" using assms by (simp add: eal_ok_def)
  moreover have "byID_ok (?b ws)" if "distinct ws" for ws
    using that by (auto simp: byID_ok_def distinct_map comp_def inj_on_def LCore_ID_inj)
  ultimately show ?thesis by (intro exI [of _ "?b (Workers g)"]) (simp add: free_lcores_def comp_def)
qed

lemma config_total:
  assumes "visits_all o1" "visits_all o2" "distinct (map fst c)" "(role, rc) \<in> set c" "\<forall>(s, n) \<in> set (rc_PerNuma rc). 0 \<le> n"
  shows "int (lcores_of role (o1 c) + numa_of role (o2 c)) = RoleConfig_Count rc"
proof -
  have perm: "sum_list (map f (ord c)) = sum_list (map f c)" if "visits_all ord" for f :: "string \<times> RoleConfig \<Rightarrow> nat" and ord
    using that unfolding visits_all_def by (metis mset_map sum_mset_sum_list)
  have one: "sum_list (map (\<lambda>(r, x). if r = role then h x else (0 :: nat)) c) = h rc" for h
    using assms(3,4)
  proof (induction c)
    case (Cons y c)
    have none: "role \<notin> fst ` set c \<Longrightarrow> sum_list (map (\<lambda>(r, x). if r = role then h x else 0) c) = 0" by (force simp: sum_list_eq_0_iff)
    show ?case using Cons none by (cases y) (auto simp: image_iff)
  qed simp
  have "fold (\<lambda>(socket, n) sum. sum + n) xs z = z + int (sum_list (map (\<lambda>x. nat (snd x)) xs))" if "\<forall>(s, n) \<in> set xs. 0 \<le> n" for xs z
    using that by (induction xs arbitrary: z) auto
  from this [OF assms(5)] show ?thesis
    by (simp add: lcores_of_def numa_of_def perm [OF assms(1)] perm [OF assms(2)] one RoleConfig_Count_def)
qed

definition orders_ok :: "map_orders \<Rightarrow> bool" where
  "orders_ok ord \<longleftrightarrow> visits_all (ord_config1 ord) \<and> visits_all (ord_config2 ord) \<and> visits_all (ord_numa ord) \<and> visits_all (ord_workers ord)
     \<and> visits_all (ord_result ord)"

lemma assignWorkers_spec:
  assumes "eal_ok maxLCore maxNodes g" "orders_ok ord" "distinct (map fst c)"
    and "\<forall>(role, rc) \<in> set c. \<forall>(s, n) \<in> set (rc_PerNuma rc). 0 \<le> n"
  shows "\<exists>m errs rest. assignWorkers ord maxNodes g c (lcUnallocated g) = Ok (m, errs) \<and> assigned_inv (free_lcores g) m rest
    \<and> (errs = [] \<longrightarrow> (\<forall>(role, rc) \<in> set c. int (length (lookup_or [] m role)) = RoleConfig_Count rc))"
proof -
  note o = assms(2) [unfolded orders_ok_def]
  obtain b where b: "forRange (\<lambda>byID worker. andthen (lcUnallocated g worker) (\<lambda>ok. Ok (if ok then AList.update (LCore_ID worker) worker byID else byID))) [] (Workers g) = Ok b"
    "byID_ok b" "mset (map snd b) = mset (free_lcores g)" using byID_start [OF assms(1)] by blast
  have i0: "assigned_inv (free_lcores g) [] (mset (map snd b))" using b(3) by (simp add: assigned_inv_def)
  obtain m1 b1 errs1 where 1: "foldl (\<lambda>st (role, rc). foldl (assign_core role) st (rc_LCores rc)) ([], b, []) (ord_config1 ord c) = (m1, b1, errs1)"
    by (metis prod_cases3)
  note s1 = assign_cores_loop [OF 1 b(2) i0]
  let ?u = "map snd (ord_workers ord b1)"
  have "mset ?u = mset (map snd b1)" using o by (simp add: visits_all_def)
  then have i1: "assigned_inv (free_lcores g) m1 (pool_mset (ByNumaSocket maxNodes g ?u))" using s1 by (simp add: pool_start(2))
  have pos: "\<forall>(role, rc) \<in> set (ord_config2 ord c). \<forall>(s, n) \<in> set (rc_PerNuma rc). 0 \<le> n"
    using assms(4) o visits_all_set [of "ord_config2 ord" c] by simp
  obtain m p errs where 2: "forRange (\<lambda>st (role, rc). forRange (assign_numa maxNodes role) st (ord_numa ord (rc_PerNuma rc)))
      (m1, ByNumaSocket maxNodes g ?u, errs1) (ord_config2 ord c) = Ok (m, p, errs)" "assigned_inv (free_lcores g) m (pool_mset p)"
    "errs = [] \<longrightarrow> errs1 = [] \<and> (\<forall>r. length (lookup_or [] m r) = length (lookup_or [] m1 r) + numa_of r (ord_config2 ord c))"
    using assign_numas_loop [OF pos _ pool_start(1) i1] o by blast
  have "int (length (lookup_or [] m role)) = RoleConfig_Count rc" if "errs = []" "(role, rc) \<in> set c" for role rc
  proof -
    have "length (lookup_or [] m role) = lcores_of role (ord_config1 ord c) + numa_of role (ord_config2 ord c)"
      using 2(3) s1 that(1) by (simp add: lookup_or_def)
    moreover have "\<forall>(s, n) \<in> set (rc_PerNuma rc). 0 \<le> n" using assms(4) that(2) by blast
    ultimately show ?thesis using config_total [OF _ _ assms(3) that(2)] o by simp
  qed
  then show ?thesis using 2(1,2) by (auto simp: assignWorkers_def b(1) 1 Let_def)
qed

text \<open>C19 (AllocConfig_assigns): for a configuration without negative numbers, allocation by configuration does not panic. If
  there is an error, no lcore changes its role. Otherwise every role has as many lcores as \<open>Count\<close> gives, all of them were
  free workers, no lcore is in two places, each has its role recorded, and every other lcore keeps its role.\<close>

theorem AllocConfig_assigns:
  assumes "eal_ok maxLCore maxNodes g" "orders_ok ord" "distinct (map fst c)"
    and "\<forall>(role, rc) \<in> set c. \<forall>(s, n) \<in> set (rc_PerNuma rc). 0 \<le> n"
  shows "\<exists>a m errs. AllocConfig ord maxNodes c g = Ok (g\<lparr>allocated := a\<rparr>, m, errs) \<and> eal_ok maxLCore maxNodes (g\<lparr>allocated := a\<rparr>)
    \<and> (if errs \<noteq> [] then a = allocated g
       else (\<forall>(role, rc) \<in> set c. int (length (lookup_or [] m role)) = RoleConfig_Count rc)
         \<and> distinct (concat (map snd m)) \<and> set (concat (map snd m)) \<subseteq> set (free_lcores g)
         \<and> (\<forall>(role, lcores) \<in> set m. \<forall>lc \<in> set lcores. a ! nat (LCore_ID lc) = role)
         \<and> (\<forall>lc. 0 \<le> LCore_ID lc \<and> lc \<notin> set (concat (map snd m)) \<longrightarrow> a ! nat (LCore_ID lc) = allocated g ! nat (LCore_ID lc)))"
proof -
  obtain m errs rest where s: "assignWorkers ord maxNodes g c (lcUnallocated g) = Ok (m, errs)" "assigned_inv (free_lcores g) m rest"
    "errs = [] \<longrightarrow> (\<forall>(role, rc) \<in> set c. int (length (lookup_or [] m role)) = RoleConfig_Count rc)"
    using assignWorkers_spec [OF assms] by blast
  show ?thesis
  proof (cases "errs = []")
    case False
    then show ?thesis using s(1) assms(1) by (intro exI [of _ "allocated g"]) (simp add: AllocConfig_def)
  next
    case True
    let ?xs = "concat (map (\<lambda>(role, lcores). map (\<lambda>lc. (role, lc)) lcores) (ord_result ord m))"
    have sm: "set (ord_result ord m) = set m" using assms(2) visits_all_set unfolding orders_ok_def by blast
    have sub: "mset (concat (map snd m)) \<subseteq># mset (free_lcores g)" using s(2) by (metis assigned_inv_def mset_subset_eq_add_right)
    have df: "distinct (free_lcores g)" using assms(1) by (simp add: eal_ok_def free_lcores_def)
    have d: "distinct (concat (map snd m))" by (rule mset_sub_distinct [OF sub df])
    have fr: "set (concat (map snd m)) \<subseteq> set (free_lcores g)" using set_mset_mono [OF sub] by simp
    have "map snd ?xs = concat (map snd (ord_result ord m))" by (simp add: map_concat comp_def case_prod_beta)
    moreover have "mset (concat (map snd (ord_result ord m))) = mset (concat (map snd m))"
      using assms(2) by (simp only: mset_concat_map orders_ok_def visits_all_def)
    ultimately have dx: "distinct (map snd ?xs)" using d by (metis mset_eq_imp_distinct_iff)
    have sx: "snd ` set ?xs = set (concat (map snd m))" using sm by force
    have rng: "\<forall>(r, lc) \<in> set ?xs. 0 \<le> LCore_ID lc \<and> nat (LCore_ID lc) < length (allocated g)"
    proof (intro ballI, clarify)
      fix r lc assume "(r, lc) \<in> set ?xs"
      then have "lc \<in> set (free_lcores g)" using sx fr by force
      then show "0 \<le> LCore_ID lc \<and> nat (LCore_ID lc) < length (allocated g)" using eal_ok_lc [OF assms(1)] by (simp add: free_lcores_def)
    qed
    obtain a where a: "forRange (\<lambda>g (r, lc). set_role r g lc) g ?xs = Ok (g\<lparr>allocated := a\<rparr>)" "length a = length (allocated g)"
      "\<forall>(r, lc) \<in> set ?xs. a ! nat (LCore_ID lc) = r"
      "\<forall>lc. 0 \<le> LCore_ID lc \<longrightarrow> lc \<notin> snd ` set ?xs \<longrightarrow> a ! nat (LCore_ID lc) = allocated g ! nat (LCore_ID lc)"
      using set_roles [OF dx rng] by blast
    have "forRange (\<lambda>g (role, lcores). forRange (set_role role) g lcores) h ys
      = forRange (\<lambda>g (r, lc). set_role r g lc) h (concat (map (\<lambda>(role, lcores). map (\<lambda>lc. (role, lc)) lcores) ys))" for h ys
      by (induction ys arbitrary: h) (auto simp: forRange_map)
    then have "AllocConfig ord maxNodes c g = Ok (g\<lparr>allocated := a\<rparr>, m, errs)" by (simp add: AllocConfig_def s(1) True a(1))
    moreover have "\<forall>(role, lcores) \<in> set m. \<forall>lc \<in> set lcores. a ! nat (LCore_ID lc) = role" using a(3) sm by fastforce
    ultimately show ?thesis using True s(3) d fr a(4) eal_ok_allocated [OF assms(1) a(2)] unfolding sx by auto
  qed
qed

definition list_orders :: map_orders where
  "list_orders = \<lparr>ord_config1 = id, ord_config2 = id, ord_numa = id, ord_workers = id, ord_result = id\<rparr>"

lemma list_orders_ok: "orders_ok list_orders"
  by (simp add: orders_ok_def list_orders_def visits_all_def)

theorem AllocConfig_assigns_witness:
  "\<exists>a m errs. AllocConfig list_orders 8 [(''RX'', \<lparr>rc_LCores = [1], rc_PerNuma = []\<rparr>), (''FWD'', \<lparr>rc_LCores = [], rc_PerNuma = [(1, 1)]\<rparr>)] sample_eal
     = Ok (sample_eal\<lparr>allocated := a\<rparr>, m, errs) \<and> eal_ok 4 8 (sample_eal\<lparr>allocated := a\<rparr>)"
proof -
  let ?c = "[(''RX'', \<lparr>rc_LCores = [1], rc_PerNuma = []\<rparr>), (''FWD'', \<lparr>rc_LCores = [], rc_PerNuma = [(1, 1)]\<rparr>)]"
  have "distinct (map fst ?c)" "\<forall>(role, rc) \<in> set ?c. \<forall>(s, n) \<in> set (rc_PerNuma rc). 0 \<le> n" by simp_all
  from AllocConfig_assigns [OF sample_eal_ok list_orders_ok this] show ?thesis by (elim exE conjE) (intro exI conjI)
qed

text \<open>C37 (AllocConfig_negative_panics): a configuration that asks for a negative number of lcores on a socket passes the check
  that enough lcores are available, and the slice of that length panics, although the validation of roles accepts the
  configuration when the sum of its numbers is large enough.\<close>

theorem AllocConfig_negative_panics:
  fixes role :: string and socketA socketB :: int
  assumes "eal_ok maxLCore maxNodes g" "n < 0" "least \<le> k + n"
  defines "c \<equiv> [(role, \<lparr>rc_LCores = [], rc_PerNuma = [(socketA, n), (socketB, k)]\<rparr>)]"
  shows "ValidateRoles id id c [(role, least)] = [] \<and> AllocConfig list_orders maxNodes c g = Panic"
proof -
  obtain b where b: "forRange (\<lambda>byID worker. andthen (lcUnallocated g worker) (\<lambda>ok. Ok (if ok then AList.update (LCore_ID worker) worker byID else byID))) [] (Workers g) = Ok b"
    using byID_start [OF assms(1)] by blast
  have "assign_numa maxNodes role (m, p, errs) (socketA, n) = Panic" for m p errs using assms(2) by (simp add: assign_numa_def Let_def)
  then have "AllocConfig list_orders maxNodes c g = Panic" by (simp add: AllocConfig_def assignWorkers_def b c_def list_orders_def Let_def)
  moreover have "ValidateRoles id id c [(role, least)] = []" using assms(3) by (simp add: ValidateRoles_def c_def lookup_or_def RoleConfig_Count_def Let_def)
  ultimately show ?thesis by blast
qed

theorem AllocConfig_negative_panics_witness:
  "AllocConfig list_orders 8 [(''FWD'', \<lparr>rc_LCores = [], rc_PerNuma = [(0, -1), (1, 2)]\<rparr>)] sample_eal = Panic"
  using AllocConfig_negative_panics [OF sample_eal_ok, of "-1" 1 2 "''FWD''" 0 1] by simp

subsection \<open>Construction of the lists\<close>

text \<open>C38 (Lcores_well_formed): from any map of lcores to sockets with numbers in range, the lists of workers and sockets are
  well formed: the workers are the lcores of the map except the main one, each once and in increasing order, all valid, and
  the socket of each is listed. The list of sockets holds the socket of the main lcore as well, even when no worker is on
  it, where the comment of \<open>Sockets\<close> speaks of the sockets of workers.\<close>

theorem Lcores_well_formed:
  assumes "visits_all visit" "visits_all visitS" "distinct (map fst m)" "\<forall>(l, s) \<in> set m. 0 \<le> l \<and> l < maxLCore" "0 \<le> mainID" "mainID < maxLCore"
    and "length (lcoreToSocket g) = nat maxLCore" "length (lcoreIsBusy g) = nat maxLCore" "length (allocated g) = nat maxLCore"
  shows "\<exists>g'. UpdateLCoreSockets maxLCore maxNodes visit visitS m mainID g = Ok g' \<and> eal_ok maxLCore maxNodes g'
    \<and> set (Workers g') = LCoreFromID maxLCore ` (fst ` set m - {mainID}) \<and> sorted (map lc_v (Workers g'))
    \<and> set (Sockets g') = NumaSocketFromID maxNodes ` snd ` set m
    \<and> (\<forall>(l, s) \<in> set m. LCore_NumaSocket maxNodes g' (LCoreFromID maxLCore l) = NumaSocketFromID maxNodes s)
    \<and> (eal_ok maxLCore maxNodes g \<longrightarrow> eal_ok maxLCore maxNodes (UpdateLCoreSockets_undo g g'))"
proof -
  obtain g' where g': "UpdateLCoreSockets maxLCore maxNodes visit visitS m mainID g = Ok g'" "eal_ok maxLCore maxNodes g'"
    "set (Workers g') = LCoreFromID maxLCore ` (fst ` set m - {mainID})" "set (Sockets g') = NumaSocketFromID maxNodes ` snd ` set m"
    "sorted (map lc_v (Workers g'))"
    "\<forall>(l, s) \<in> set m. LCore_NumaSocket maxNodes g' (LCoreFromID maxLCore l) = NumaSocketFromID maxNodes s"
    using UpdateLCoreSockets_ok [OF assms, of maxNodes] by (elim exE conjE) (rule that)
  have "LCore_NumaSocket maxNodes (UpdateLCoreSockets_undo g g') = LCore_NumaSocket maxNodes g"
    by (simp add: UpdateLCoreSockets_undo_def LCore_NumaSocket_def fun_eq_iff)
  then have "eal_ok maxLCore maxNodes g \<longrightarrow> eal_ok maxLCore maxNodes (UpdateLCoreSockets_undo g g')"
    using g'(2) by (simp add: eal_ok_def) (simp add: UpdateLCoreSockets_undo_def)
  with g' show ?thesis by (intro exI conjI)
qed

theorem Lcores_well_formed_witness:
  "\<exists>g. UpdateLCoreSockets 4 8 id id [(0, 1), (2, 0)] 0 sample_eal = Ok g \<and> eal_ok 4 8 g \<and> \<lparr>ns_v = 2\<rparr> \<in> set (Sockets g)"
proof -
  have "\<exists>g. UpdateLCoreSockets 4 8 id id [(0, 1), (2, 0)] 0 sample_eal = Ok g \<and> eal_ok 4 8 g
    \<and> set (Sockets g) = NumaSocketFromID 8 ` snd ` set [(0, 1), (2, 0)]"
    using Lcores_well_formed [of id id "[(0, 1), (2, 0)]" 4 0 sample_eal 8] by (simp add: visits_all_def sample_eal_def) blast
  then show ?thesis by (auto simp: NumaSocketFromID_def)
qed

end
