(* ===== verification/Seg_Serve.thy ===== *)
theory Seg_Serve
  imports Ndn_Make
begin

text \<open>
  Publishing a segmented object (\<open>ndn/segmented/serve.go\<close>): segment components, and the handler that answers an Interest
  with a chunk of the source. The source is an argument, \<open>ReadAt\<close>, from an offset and a length to the octets read and an
  error; its size is an argument when it can be sought.
\<close>

definition makeSegmentNameComponent :: "u64 \<Rightarrow> NameComponent" where
  "makeSegmentNameComponent seg = NameComponentFrom TtSegmentNameComponent (NNI_Field seg)"

definition extractSegment :: "Name \<Rightarrow> nat \<Rightarrow> u64 option" where
  "extractSegment name prefixLen =
     (if length name \<noteq> prefixLen + 1 then None
      else let comp = Name_Get name (- 1) in
        if Type comp \<noteq> TtSegmentNameComponent then None
        else case NNI_UnmarshalBinary (Value comp) of Ok v \<Rightarrow> Some v | _ \<Rightarrow> None)"

datatype read_error = EOF | ReadError

type_synonym reader = "int \<Rightarrow> nat \<Rightarrow> bytes \<times> read_error option"

text \<open>The options of a producer that the handler uses.\<close>

record ServeOptions =
  srv_Prefix :: Name
  srv_ContentType :: ContentType
  srv_Freshness :: Duration
  srv_ChunkSize :: int

definition Serve_applyDefaults :: "ServeOptions \<Rightarrow> ServeOptions" where
  "Serve_applyDefaults opts = (if srv_ChunkSize opts \<le> 0 then opts\<lparr>srv_ChunkSize := 4096\<rparr> else opts)"

text \<open>The FinalBlock that is known before the first Interest: the division is that of 64-bit words.\<close>

definition Serve_finalBlock :: "ServeOptions \<Rightarrow> int option \<Rightarrow> NameComponent" where
  "Serve_finalBlock opts seekSize =
     (case seekSize of
        None \<Rightarrow> invalidComponent
      | Some sz \<Rightarrow>
          let lastSeg = (word_of_int sz :: u64) div word_of_int (srv_ChunkSize opts) - 1;
              lastSeg = (if sz mod srv_ChunkSize opts \<noteq> 0 then lastSeg + 1 else lastSeg)
          in makeSegmentNameComponent lastSeg)"

datatype serve_error = ErrNoSegment | ErrEOF | ErrRead

definition Serve_Handler :: "ServeOptions \<Rightarrow> int option \<Rightarrow> reader \<Rightarrow> Interest \<Rightarrow> Data \<times> serve_error option" where
  "Serve_Handler opts seekSize ReadAt interest =
     (let prefixLen = length (srv_Prefix opts);
          finalBlock = Serve_finalBlock opts seekSize;
          data = zero_Data
      in case extractSegment (i_Name interest) prefixLen of
           None \<Rightarrow> (data, Some ErrNoSegment)
         | Some seg \<Rightarrow>
             let data = data\<lparr>d_Name := i_Name interest, d_ContentType := srv_ContentType opts,
                   d_Freshness := srv_Freshness opts, d_FinalBlock := finalBlock\<rparr>;
                 offset = sint (seg * word_of_int (srv_ChunkSize opts))
             in case ReadAt offset (nat (srv_ChunkSize opts) + 1) of (payload, e) \<Rightarrow>
                  let n = length payload in
                  if n = 0 then
                    (if seg = 0
                     then (data\<lparr>d_FinalBlock := d_Name data ! prefixLen\<rparr>, if e = Some EOF then None else map_option (\<lambda>_. ErrRead) e)
                     else (data, Some ErrEOF))
                  else if n = nat (srv_ChunkSize opts) + 1 then (data\<lparr>d_Content := take (nat (srv_ChunkSize opts)) payload\<rparr>, None)
                  else (data\<lparr>d_Content := take n payload, d_FinalBlock := d_Name data ! prefixLen\<rparr>, None))"

definition Serve :: "ServeOptions \<Rightarrow> int option \<Rightarrow> reader \<Rightarrow> Interest \<Rightarrow> Data \<times> serve_error option" where
  "Serve opts seekSize ReadAt interest = Serve_Handler (Serve_applyDefaults opts) seekSize ReadAt interest"

text \<open>\<open>ReadAt\<close> of a source that holds its octets in memory, such as \<open>bytes.Reader\<close>.\<close>

definition bytes_ReadAt :: "bytes \<Rightarrow> reader" where
  "bytes_ReadAt content off len =
     (if off < 0 then ([], Some ReadError)
      else if off \<ge> int (length content) then ([], Some EOF)
      else let b = take len (drop (nat off) content) in (b, if length b < len then Some EOF else None))"

subsection \<open>Segment components\<close>

lemma makeSegment_value: "makeSegmentNameComponent seg = \<lparr>Type = TtSegmentNameComponent, Value = NNI_Encode seg []\<rparr>"
  by (simp add: makeSegmentNameComponent_def NameComponentFrom_def MakeNameComponent_def NNI_Field_def)

lemma extract_make: "extractSegment (p @ [makeSegmentNameComponent seg]) (length p) = Some seg"
  by (simp add: extractSegment_def Name_Get_def makeSegment_value Let_def)

lemma makeSegment_inj: "makeSegmentNameComponent a = makeSegmentNameComponent b \<longleftrightarrow> a = b"
  by (metis extract_make option.inject)

lemma extractSegment_name: "extractSegment name n = Some seg \<Longrightarrow> length name = n + 1 \<and> Type (name ! n) = TtSegmentNameComponent
    \<and> NNI_UnmarshalBinary (Value (name ! n)) = Ok seg"
  by (auto simp: extractSegment_def Name_Get_def Let_def nat_add_distrib split: if_splits outcome.splits)

subsection \<open>Chunks\<close>

definition chunk :: "nat \<Rightarrow> bytes \<Rightarrow> nat \<Rightarrow> bytes" where
  "chunk c content k = take c (drop (k * c) content)"

definition nsegs :: "nat \<Rightarrow> bytes \<Rightarrow> nat" where
  "nsegs c content = max 1 ((length content + c - 1) div c)"

lemma nsegs_bounds:
  assumes "0 < c"
  shows "0 < nsegs c content" "length content \<le> nsegs c content * c"
    "\<And>k. k < nsegs c content \<longleftrightarrow> k = 0 \<or> k * c < length content"
proof -
  let ?q = "(length content + c - 1) div c"
  have q: "j < ?q \<longleftrightarrow> j * c < length content" for j
  proof -
    have "j < ?q \<longleftrightarrow> Suc j * c \<le> length content + c - 1" using less_eq_div_iff_mult_less_eq [OF assms, of "Suc j"] by (simp only: Suc_le_eq)
    also have "Suc j * c = j * c + c" by simp
    finally show ?thesis using assms by linarith
  qed
  show "0 < nsegs c content" by (simp add: nsegs_def)
  show k: "k < nsegs c content \<longleftrightarrow> k = 0 \<or> k * c < length content" for k using q [of k] by (auto simp: nsegs_def less_max_iff_disj)
  show "length content \<le> nsegs c content * c" using k [of "nsegs c content"] by (simp add: not_less)
qed

lemma concat_chunks:
  assumes "0 < c"
  shows "concat (map (chunk c content) [0..<nsegs c content]) = content"
proof -
  have "concat (map (chunk c content) [0..<n]) = take (n * c) content" for n
    by (induction n) (simp_all add: chunk_def take_add add.commute [of c])
  then show ?thesis using nsegs_bounds(2) [OF assms] by simp
qed

subsection \<open>The handler on a source in memory\<close>

definition serve_ok :: "ServeOptions \<Rightarrow> bytes \<Rightarrow> bool" where
  "serve_ok opts content \<longleftrightarrow> 0 < srv_ChunkSize opts \<and> srv_ChunkSize opts < 2 ^ 31 \<and> length content < 2 ^ 62"

lemma offset_value:
  assumes "0 < c" "unat seg * nat c < 2 ^ 63"
  shows "sint (seg * word_of_int c :: u64) = int (unat seg * nat c)"
proof -
  define m where "m = unat seg * nat c"
  have "int m = uint seg * c" using assms(1) by (simp add: m_def)
  then have e: "seg * word_of_int c = (word_of_int (int m) :: u64)" by simp
  have m: "int m < 2 ^ 63" using assms(2) unfolding m_def [symmetric] by simp
  then have "uint (word_of_int (int m) :: u64) = int m" by (simp only: uint_word_of_int_eq) (rule take_bit_int_eq_self, simp_all)
  moreover have "- (2 ^ 63) \<le> int m" by (rule order_trans [of _ 0]) simp_all
  ultimately have "sint (word_of_int (int m) :: u64) = int m" using m by (simp only: sint_uint) (rule signed_take_bit_int_eq_self, simp_all)
  then show ?thesis unfolding e m_def .
qed

definition reply_base :: "ServeOptions \<Rightarrow> int option \<Rightarrow> Interest \<Rightarrow> Data" where
  "reply_base opts sz interest = zero_Data\<lparr>d_Name := i_Name interest, d_ContentType := srv_ContentType opts,
     d_Freshness := srv_Freshness opts, d_FinalBlock := Serve_finalBlock opts sz\<rparr>"

lemma Serve_unfold:
  assumes "0 < srv_ChunkSize opts" "extractSegment (i_Name interest) (length (srv_Prefix opts)) = Some seg"
    and "ReadAt (sint (seg * word_of_int (srv_ChunkSize opts))) (nat (srv_ChunkSize opts) + 1) = (payload, e)"
  shows "Serve opts sz ReadAt interest =
    (let data = reply_base opts sz interest; own = i_Name interest ! length (srv_Prefix opts); c = nat (srv_ChunkSize opts) in
     if payload = [] then (if seg = 0 then (data\<lparr>d_FinalBlock := own\<rparr>, if e = Some EOF then None else map_option (\<lambda>_. ErrRead) e) else (data, Some ErrEOF))
     else if length payload = c + 1 then (data\<lparr>d_Content := take c payload\<rparr>, None)
     else (data\<lparr>d_Content := payload, d_FinalBlock := own\<rparr>, None))"
  using assms by (simp add: Serve_def Serve_applyDefaults_def Serve_Handler_def Let_def reply_base_def)

lemma Serve_reply:
  assumes "serve_ok opts content" "extractSegment (i_Name interest) (length (srv_Prefix opts)) = Some seg" "unat seg * nat (srv_ChunkSize opts) < 2 ^ 63"
    and "c = nat (srv_ChunkSize opts)"
  shows "Serve opts sz (bytes_ReadAt content) interest =
    (if unat seg < nsegs c content
     then ((reply_base opts sz interest)\<lparr>d_Content := chunk c content (unat seg),
            d_FinalBlock := if unat seg + 1 = nsegs c content then i_Name interest ! length (srv_Prefix opts) else Serve_finalBlock opts sz\<rparr>, None)
     else (reply_base opts sz interest, Some ErrEOF))"
proof -
  have c: "0 < c" "srv_ChunkSize opts = int c" "0 < srv_ChunkSize opts" using assms(1) by (auto simp: serve_ok_def assms(4))
  let ?k = "unat seg" and ?b = "take (c + 1) (drop (unat seg * c) content)"
  have o: "sint (seg * word_of_int (srv_ChunkSize opts)) = int (?k * c)" using offset_value [OF c(3) assms(3)] by (simp add: assms(4))
  note su = Serve_unfold [where ReadAt = "bytes_ReadAt content", OF c(3) assms(2)]
  note nb = nsegs_bounds [OF c(1), where content = content]
  show ?thesis
  proof (cases "?k * c < length content")
    case True
    have r: "bytes_ReadAt content (sint (seg * word_of_int (srv_ChunkSize opts))) (nat (srv_ChunkSize opts) + 1) = (?b, if length ?b < c + 1 then Some EOF else None)"
      unfolding o using True by (simp add: bytes_ReadAt_def Let_def assms(4) nat_mult_distrib flip: of_nat_mult)
    have k: "?k < nsegs c content" using nb(3) True by blast
    have "?k + 1 < nsegs c content \<longleftrightarrow> (?k + 1) * c < length content" using nb(3) [of "?k + 1"] by simp
    then have last: "?k + 1 = nsegs c content \<longleftrightarrow> length content \<le> (?k + 1) * c" using k by linarith
    have ne: "?b \<noteq> []" using True by simp
    have len: "length ?b = c + 1 \<longleftrightarrow> (?k + 1) * c < length content" by (simp add: min_def algebra_simps) linarith
    have "take c ?b = chunk c content ?k" by (simp add: chunk_def min_def)
    moreover have "?b = chunk c content ?k" if "length ?b \<noteq> c + 1"
      using that len True unfolding chunk_def by (simp add: algebra_simps)
    moreover have "d_FinalBlock (reply_base opts sz interest) = Serve_finalBlock opts sz" by (simp add: reply_base_def)
    ultimately show ?thesis unfolding su [OF r] Let_def if_not_P [OF ne] if_P [OF k] assms(4) [symmetric]
      using len last by (cases "length ?b = c + 1") auto
  next
    case False
    have r: "bytes_ReadAt content (sint (seg * word_of_int (srv_ChunkSize opts))) (nat (srv_ChunkSize opts) + 1) = ([], Some EOF)"
      unfolding o using False by (simp add: bytes_ReadAt_def flip: of_nat_mult)
    show ?thesis
    proof (cases "?k = 0")
      case True
      then have "content = []" "seg = 0" using False by (simp_all add: unat_eq_0)
      moreover have "nsegs c content = 1" using c(1) \<open>content = []\<close> by (simp add: nsegs_def)
      ultimately show ?thesis unfolding su [OF r] by (simp add: chunk_def reply_base_def zero_Data_def)
    next
      case nz: False
      then have "\<not> ?k < nsegs c content" "seg \<noteq> 0" using nb(3) [of ?k] False by auto
      then show ?thesis unfolding su [OF r] by simp
    qed
  qed
qed

end
