(* ===== verification/Seg_Algo.thy ===== *)
theory Seg_Algo
  imports Go_Float Ndn_Prelude
begin

text \<open>
  The round-trip time estimator and the CUBIC congestion window of the segmented fetcher (\<open>ndn/segmented/fetch-algo.go\<close>).
  Times and durations are nanoseconds. \<open>MaxInt\<close> of another package is an argument.
\<close>

definition rtteK :: real where "rtteK = 4"
definition rtteAlpha :: real where "rtteAlpha = 0.125"
definition rtteBeta :: real where "rtteBeta = 0.25"
definition rtteInitRto :: real where "rtteInitRto = 1"
definition rtteMinRto :: real where "rtteMinRto = 0.2"
definition rtteMaxRto :: real where "rtteMaxRto = 10"

lemmas rtte_consts = rtteK_def rtteAlpha_def rtteBeta_def rtteInitRto_def rtteMinRto_def rtteMaxRto_def

record rttEstimator =
  sRtt :: f64
  rttVar :: f64
  rto :: f64

definition Seconds :: "int \<Rightarrow> f64" where
  "Seconds d = Fin (real_of_int d / 10 ^ 9)"

definition rtte_Push :: "int \<Rightarrow> int \<Rightarrow> rttEstimator \<Rightarrow> rttEstimator" where
  "rtte_Push rtt nPending rtte =
     (let rttV = Seconds rtt;
          rtte = (if rto rtte = Fin 0 then rtte\<lparr>sRtt := rttV, rttVar := fdiv rttV (Fin 2)\<rparr>
                  else let alpha = fdiv (Fin rtteAlpha) (Fin (real_of_int nPending));
                           beta = fdiv (Fin rtteBeta) (Fin (real_of_int nPending));
                           rtte = rtte\<lparr>rttVar := fadd (fmul (fsub (Fin 1) beta) (rttVar rtte)) (fmul beta (fabs (fsub (sRtt rtte) rttV)))\<rparr>
                       in rtte\<lparr>sRtt := fadd (fmul (fsub (Fin 1) alpha) (sRtt rtte)) (fmul alpha rttV)\<rparr>)
      in rtte\<lparr>rto := fadd (sRtt rtte) (fmul (Fin rtteK) (rttVar rtte))\<rparr>)"

definition rtte_Backoff :: "rttEstimator \<Rightarrow> rttEstimator" where
  "rtte_Backoff rtte = rtte\<lparr>rto := fmul (rto rtte) (Fin 2)\<rparr>"

definition rtte_Rto :: "rttEstimator \<Rightarrow> int" where
  "rtte_Rto rtte = (let r = fmax (Fin rtteMinRto) (fmin (rto rtte) (Fin rtteMaxRto)) in fint (fmul r (Fin (10 ^ 9))))"

definition newRttEstimator :: rttEstimator where
  "newRttEstimator = \<lparr>sRtt = Fin 0, rttVar = Fin 0, rto = Fin rtteInitRto\<rparr>"

definition cubicIw :: int where "cubicIw = 2"
definition cubicC :: real where "cubicC = 0.4"
definition cubicBeta :: real where "cubicBeta = 0.7"
definition cubicAlpha :: real where "cubicAlpha = 3 * (1 - cubicBeta) / (1 + cubicBeta)"

record cubic =
  t0 :: int
  cwnd :: f64
  wMax :: f64
  wLastMax :: f64
  cubic_k :: f64
  ssthresh :: f64

definition cubic_Cwnd :: "(int \<Rightarrow> int \<Rightarrow> int) \<Rightarrow> cubic \<Rightarrow> int" where
  "cubic_Cwnd MaxInt ca = MaxInt cubicIw (fint (cwnd ca))"

definition cubic_Increase :: "int \<Rightarrow> int \<Rightarrow> cubic \<Rightarrow> cubic" where
  "cubic_Increase now rtt ca =
     (if now \<le> t0 ca then ca
      else if fless (cwnd ca) (ssthresh ca) then ca\<lparr>cwnd := fadd (cwnd ca) (Fin 1)\<rparr>
      else let t = fdiv (Fin (real_of_int (now - t0 ca))) (Fin (10 ^ 9));
               rttV = Seconds rtt;
               wCubic = fadd (fmul (Fin cubicC) (fcube (fsub t (cubic_k ca)))) (wMax ca);
               wEst = fadd (fmul (wMax ca) (Fin cubicBeta)) (fmul (Fin cubicAlpha) (fdiv t rttV))
           in if fless wCubic wEst then ca\<lparr>cwnd := wEst\<rparr>
              else ca\<lparr>cwnd := fadd (cwnd ca) (fdiv (fsub wCubic (cwnd ca)) (cwnd ca))\<rparr>)"

definition cubic_Decrease :: "int \<Rightarrow> cubic \<Rightarrow> cubic" where
  "cubic_Decrease now ca =
     (let ca = ca\<lparr>t0 := now\<rparr>;
          ca = (if fless (cwnd ca) (wLastMax ca)
                then ca\<lparr>wLastMax := cwnd ca, wMax := fdiv (fmul (cwnd ca) (Fin (1 + cubicBeta))) (Fin 2)\<rparr>
                else ca\<lparr>wMax := cwnd ca, wLastMax := cwnd ca\<rparr>);
          ca = ca\<lparr>cubic_k := fcbrt (fdiv (fmul (wMax ca) (Fin (1 - cubicBeta))) (Fin cubicC))\<rparr>;
          ca = ca\<lparr>cwnd := fmul (cwnd ca) (Fin cubicBeta)\<rparr>
      in ca\<lparr>ssthresh := fmax (cwnd ca) (Fin 2)\<rparr>)"

definition newCubic :: cubic where
  "newCubic = \<lparr>t0 = 0, cwnd = Fin (real_of_int cubicIw), wMax = Fin 0, wLastMax = Fin 0, cubic_k = Fin 0, ssthresh = PInf\<rparr>"

text \<open>A pending segment; \<open>fs_InRetxQ\<close> tells whether \<open>RetxElement\<close> is set.\<close>

record fetchSeg =
  TxTime :: int
  RtoExpiry :: int
  NRetx :: int
  fs_InRetxQ :: bool

definition setTimeNow :: "int \<Rightarrow> int \<Rightarrow> fetchSeg \<Rightarrow> fetchSeg" where
  "setTimeNow now d fs = fs\<lparr>TxTime := now, RtoExpiry := now + d\<rparr>"

subsection \<open>Estimator\<close>

text \<open>All three numbers stay finite and nonnegative, so the timeout is a duration within its limits.\<close>

definition rtte_ok :: "rttEstimator \<Rightarrow> bool" where
  "rtte_ok r \<longleftrightarrow> (\<exists>a b c. sRtt r = Fin a \<and> rttVar r = Fin b \<and> rto r = Fin c \<and> 0 \<le> a \<and> 0 \<le> b \<and> 0 \<le> c)"

lemma rtte_new_ok: "rtte_ok newRttEstimator"
  by (simp add: rtte_ok_def newRttEstimator_def rtte_consts)

lemma rtte_Backoff_ok: "rtte_ok r \<Longrightarrow> rtte_ok (rtte_Backoff r)"
  by (auto simp: rtte_ok_def rtte_Backoff_def)

lemma rtte_Push_ok:
  assumes "rtte_ok r" "0 \<le> rtt" "1 \<le> n"
  shows "rtte_ok (rtte_Push rtt n r)"
proof -
  obtain a b c where r: "sRtt r = Fin a" "rttVar r = Fin b" "rto r = Fin c" "0 \<le> a" "0 \<le> b" using assms(1) by (auto simp: rtte_ok_def)
  let ?v = "real_of_int rtt / 10 ^ 9"
  let ?al = "rtteAlpha / real_of_int n" and ?be = "rtteBeta / real_of_int n"
  have "0 \<le> ?v" using assms(2) by simp
  moreover have "0 \<le> ?al" "?al \<le> 1" "0 \<le> ?be" "?be \<le> 1" using assms(3) by (simp_all add: rtte_consts divide_le_eq)
  ultimately have nn: "0 \<le> (1 - ?be) * b + ?be * \<bar>a - ?v\<bar>" "0 \<le> (1 - ?al) * a + ?al * ?v"
    using r(4,5) by (intro add_nonneg_nonneg mult_nonneg_nonneg; simp)+
  show ?thesis
  proof (cases "c = 0")
    case True
    have "sRtt (rtte_Push rtt n r) = Fin ?v" "rttVar (rtte_Push rtt n r) = Fin (?v / 2)" "rto (rtte_Push rtt n r) = Fin (?v + 4 * (?v / 2))"
      using True r(3) by (simp_all add: rtte_Push_def Seconds_def Let_def rtteK_def)
    then show ?thesis using \<open>0 \<le> ?v\<close> unfolding rtte_ok_def by (intro exI conjI) (assumption | simp)+
  next
    case False
    have n: "real_of_int n \<noteq> 0" using assms(3) by simp
    have "rttVar (rtte_Push rtt n r) = Fin ((1 - ?be) * b + ?be * \<bar>a - ?v\<bar>)" "sRtt (rtte_Push rtt n r) = Fin ((1 - ?al) * a + ?al * ?v)"
      "rto (rtte_Push rtt n r) = Fin (((1 - ?al) * a + ?al * ?v) + 4 * ((1 - ?be) * b + ?be * \<bar>a - ?v\<bar>))"
      using False r n by (simp_all add: rtte_Push_def Seconds_def Let_def rtteK_def fops)
    moreover have "0 \<le> ((1 - ?al) * a + ?al * ?v) + 4 * ((1 - ?be) * b + ?be * \<bar>a - ?v\<bar>)"
      by (intro add_nonneg_nonneg [OF nn(2)] mult_nonneg_nonneg [OF _ nn(1)]) simp
    ultimately show ?thesis using nn unfolding rtte_ok_def by (intro exI conjI)
  qed
qed

lemma rtte_Rto_bounds: "rtte_ok r \<Longrightarrow> 2 * 10 ^ 8 \<le> rtte_Rto r \<and> rtte_Rto r \<le> 10 ^ 10"
proof -
  assume "rtte_ok r"
  then obtain c where c: "rto r = Fin c" by (auto simp: rtte_ok_def)
  define x where "x = max 0.2 (min c 10)"
  have m: "fmax (Fin rtteMinRto) (fmin (rto r) (Fin rtteMaxRto)) = Fin x"
    by (auto simp: c fops rtte_consts x_def)
  have x: "0.2 \<le> x" "x \<le> 10" by (auto simp: x_def)
  then have f: "2 * 10 ^ 8 \<le> \<lfloor>x * 10 ^ 9\<rfloor>" "\<lfloor>x * 10 ^ 9\<rfloor> \<le> 10 ^ 10" by (auto simp: le_floor_iff floor_le_iff)
  moreover have "0 \<le> x * 10 ^ 9" using x by simp
  ultimately show ?thesis by (auto simp: rtte_Rto_def m trunc_def Let_def)
qed

end
