(* ===== verification/Seg_Fetch.thy ===== *)
theory Seg_Fetch
  imports Seg_Serve Seg_Algo "HOL-Library.AList"
begin

text \<open>
  Retrieval of a segmented object (\<open>ndn/segmented/fetch.go\<close>). The loop of \<open>Unordered\<close> is a function of one iteration: what
  \<open>select\<close> received, the times at which the clock is read, and the order in which the map of pending segments is visited.
  The channel of results is the list of what was sent on it, and so is the sending side of the face. The queue of
  segments to retransmit holds segment numbers; an element of it belongs to the pending segment of that number. \<open>Min\<close>,
  \<open>MaxInt\<close> and \<open>MinUint64\<close> of another package are arguments.
\<close>

record FetchOptions =
  SegmentBegin :: u64
  SegmentEnd :: u64
  RetxLimit :: int
  MaxCwnd :: int
  fo_Verifier :: "(Data \<Rightarrow> error option) option"

definition NopVerifier_Verify :: "Data \<Rightarrow> error option" where
  "NopVerifier_Verify data = None"

definition Fetch_applyDefaults :: "FetchOptions \<Rightarrow> FetchOptions" where
  "Fetch_applyDefaults opts =
     (let opts = (if SegmentEnd opts = 0 then opts\<lparr>SegmentEnd := 0xFFFFFFFFFFFFFFFF\<rparr> else opts);
          opts = (if MaxCwnd opts = 0 then opts\<lparr>MaxCwnd := 2 ^ 31 - 1\<rparr> else opts)
      in if fo_Verifier opts = None then opts\<lparr>fo_Verifier := Some NopVerifier_Verify\<rparr> else opts)"

record fetcher =
  f_opts :: FetchOptions
  f_prefix :: Name
  f_count :: int
  f_finalBlock :: u64

definition Fetch :: "Name \<Rightarrow> FetchOptions \<Rightarrow> fetcher" where
  "Fetch name opts = \<lparr>f_opts = Fetch_applyDefaults opts, f_prefix = name, f_count = 0, f_finalBlock = 0xFFFFFFFFFFFFFFFF\<rparr>"

text \<open>The packet of a new Interest, which nothing else refers to.\<close>

definition makeInterest :: "fetcher \<Rightarrow> u64 \<Rightarrow> Packet outcome" where
  "makeInterest f seg =
     (let name = Name_Append (f_prefix f) [makeSegmentNameComponent seg] in
      andthen (MakeInterest [IName name] []) (\<lambda>(interest, st).
        case Interest_ToPacket interest st of (a, st) \<Rightarrow> Ok (st ! a)))"

subsection \<open>The loop of Unordered\<close>

record fetch_loop =
  l_rtte :: rttEstimator
  l_ca :: cubic
  pendings :: "(u64 \<times> fetchSeg) list"
  retxQ :: "u64 list"
  segNext :: u64
  segLast :: u64
  l_unordered :: "Data list"
  l_sent :: "Packet list"

datatype fetch_input = Cancel | Tick | Rx Packet

record fetch_times =
  nowRx :: int
  nowScan :: int
  nowTx :: int

definition fetch_start :: "fetcher \<Rightarrow> fetch_loop" where
  "fetch_start f = \<lparr>l_rtte = newRttEstimator, l_ca = newCubic, pendings = [], retxQ = [], segNext = SegmentBegin (f_opts f),
     segLast = SegmentEnd (f_opts f) - 1, l_unordered = [], l_sent = []\<rparr>"

definition verify_data :: "fetcher \<Rightarrow> Data \<Rightarrow> error option" where
  "verify_data f data = (case fo_Verifier (f_opts f) of Some v \<Rightarrow> v data | None \<Rightarrow> None)"

definition final_update :: "Data \<Rightarrow> fetcher \<Rightarrow> fetcher" where
  "final_update data f =
     (if Type (d_FinalBlock data) = TtSegmentNameComponent
      then (case NNI_UnmarshalBinary (Value (d_FinalBlock data)) of Ok finalSeg \<Rightarrow> f\<lparr>f_finalBlock := finalSeg + 1\<rparr> | _ \<Rightarrow> f)
      else f)"

definition accept_data :: "int \<Rightarrow> Packet \<Rightarrow> Data \<Rightarrow> u64 \<Rightarrow> fetchSeg \<Rightarrow> fetcher \<times> fetch_loop \<Rightarrow> fetcher \<times> fetch_loop" where
  "accept_data now pkt data seg fs = (\<lambda>(f, l).
     let f = final_update data f;
         rtt = now - TxTime fs;
         l = (if NRetx fs = 0 then l\<lparr>l_rtte := rtte_Push rtt (int (length (pendings l))) (l_rtte l)\<rparr> else l);
         l = l\<lparr>l_ca := if CongMark (Lp pkt) \<noteq> 0 then cubic_Decrease now (l_ca l) else cubic_Increase now rtt (l_ca l)\<rparr>;
         l = (if IsFinalBlock data then l\<lparr>segLast := seg\<rparr> else l);
         f = f\<lparr>f_count := f_count f + 1\<rparr>;
         l = l\<lparr>l_unordered := l_unordered l @ [data]\<rparr>;
         l = (if fs_InRetxQ fs then l\<lparr>retxQ := remove1 seg (retxQ l)\<rparr> else l)
     in (f, l\<lparr>pendings := AList.delete seg (pendings l)\<rparr>))"

definition fetch_rx :: "int \<Rightarrow> Packet \<Rightarrow> fetcher \<times> fetch_loop \<Rightarrow> fetcher \<times> fetch_loop" where
  "fetch_rx now pkt = (\<lambda>(f, l).
     case p_Data pkt of
       None \<Rightarrow> (f, l)
     | Some data \<Rightarrow>
         if verify_data f data \<noteq> None then (f, l)
         else case extractSegment (d_Name data) (length (f_prefix f)) of
             None \<Rightarrow> (f, l)
           | Some seg \<Rightarrow>
               if \<not> Name_IsPrefixOf (f_prefix f) (d_Name data) then (f, l)
               else case map_of (pendings l) seg of
                   None \<Rightarrow> (f, l)
                 | Some fs \<Rightarrow> accept_data now pkt data seg fs (f, l))"

text \<open>The loop over the pending segments: those behind the last one are dropped, and those that timed out are queued.\<close>

fun fetch_scan :: "int \<Rightarrow> int \<Rightarrow> fetch_loop \<Rightarrow> (u64 \<times> fetchSeg) list \<Rightarrow> fetch_loop \<times> error option" where
  "fetch_scan now limit l [] = (l, None)"
| "fetch_scan now limit l ((seg, fs) # rest) =
     (if seg > segLast l then
        (let l = (if fs_InRetxQ fs then l\<lparr>retxQ := remove1 seg (retxQ l)\<rparr> else l)
         in fetch_scan now limit (l\<lparr>pendings := AList.delete seg (pendings l)\<rparr>) rest)
      else if \<not> fs_InRetxQ fs \<and> RtoExpiry fs < now then
        (if NRetx fs \<ge> limit then (l, Some (ErrOther ''exceed retx limit''))
         else fetch_scan now limit (l\<lparr>l_rtte := rtte_Backoff (l_rtte l), l_ca := cubic_Decrease (RtoExpiry fs) (l_ca l),
                retxQ := retxQ l @ [seg], pendings := AList.update seg (fs\<lparr>fs_InRetxQ := True\<rparr>) (pendings l)\<rparr>) rest)
      else fetch_scan now limit l rest)"

datatype fetch_status = Running | Done "error option" | Crashed

definition fetch_send :: "(int \<Rightarrow> int \<Rightarrow> int) \<Rightarrow> (int \<Rightarrow> int \<Rightarrow> int) \<Rightarrow> int \<Rightarrow> fetcher \<Rightarrow> fetch_loop \<Rightarrow> fetch_loop \<times> fetch_status" where
  "fetch_send MinF MaxInt now f l =
     (if int (length (pendings l)) - int (length (retxQ l)) \<ge> MinF (cubic_Cwnd MaxInt (l_ca l)) (MaxCwnd (f_opts f)) then (l, Running)
      else case retxQ l of
          seg # q \<Rightarrow>
            (case map_of (pendings l) seg of
               None \<Rightarrow> (l, Crashed)
             | Some fs \<Rightarrow>
                 let fs = (setTimeNow now (rtte_Rto (l_rtte l)) (fs\<lparr>fs_InRetxQ := False\<rparr>))\<lparr>NRetx := NRetx fs + 1\<rparr> in
                 (case makeInterest f seg of
                    Ok pkt \<Rightarrow> (l\<lparr>retxQ := q, pendings := AList.update seg fs (pendings l), l_sent := l_sent l @ [pkt]\<rparr>, Running)
                  | _ \<Rightarrow> (l, Crashed)))
        | [] \<Rightarrow>
            if segNext l \<le> segLast l then
              let seg = segNext l;
                  fs = setTimeNow now (rtte_Rto (l_rtte l)) \<lparr>TxTime = 0, RtoExpiry = 0, NRetx = 0, fs_InRetxQ = False\<rparr>
              in (case makeInterest f seg of
                    Ok pkt \<Rightarrow> (l\<lparr>segNext := segNext l + 1, pendings := AList.update seg fs (pendings l), l_sent := l_sent l @ [pkt]\<rparr>, Running)
                  | _ \<Rightarrow> (l, Crashed))
            else if pendings l = [] then (l, Done None)
            else (l, Running))"

type_synonym pending_order = "(u64 \<times> fetchSeg) list \<Rightarrow> (u64 \<times> fetchSeg) list"

definition fetch_iter :: "(int \<Rightarrow> int \<Rightarrow> int) \<Rightarrow> (int \<Rightarrow> int \<Rightarrow> int) \<Rightarrow> pending_order \<Rightarrow> fetch_input \<times> fetch_times \<Rightarrow> fetcher \<times> fetch_loop
    \<Rightarrow> (fetcher \<times> fetch_loop) \<times> fetch_status" where
  "fetch_iter MinF MaxInt visit = (\<lambda>(inp, tm) (f, l).
     case inp of
       Cancel \<Rightarrow> ((f, l), Done (Some (ErrOther ''context canceled'')))
     | _ \<Rightarrow>
         (case (case inp of Rx pkt \<Rightarrow> fetch_rx (nowRx tm) pkt (f, l) | _ \<Rightarrow> (f, l)) of (f, l) \<Rightarrow>
            case fetch_scan (nowScan tm) (RetxLimit (f_opts f)) l (visit (pendings l)) of
              (l, Some e) \<Rightarrow> ((f, l), Done (Some e))
            | (l, None) \<Rightarrow> (case fetch_send MinF MaxInt (nowTx tm) f l of (l, status) \<Rightarrow> ((f, l), status))))"

fun fetch_run :: "(int \<Rightarrow> int \<Rightarrow> int) \<Rightarrow> (int \<Rightarrow> int \<Rightarrow> int) \<Rightarrow> pending_order \<Rightarrow> (fetch_input \<times> fetch_times) list \<Rightarrow> fetcher \<times> fetch_loop
    \<Rightarrow> (fetcher \<times> fetch_loop) \<times> fetch_status" where
  "fetch_run MinF MaxInt visit [] st = (st, Running)"
| "fetch_run MinF MaxInt visit (x # xs) st =
     (case fetch_iter MinF MaxInt visit x st of
        (st, Running) \<Rightarrow> fetch_run MinF MaxInt visit xs st
      | r \<Rightarrow> r)"

text \<open>\<open>Unordered\<close> on a list of inputs; \<open>NewLFace\<close> may fail before the loop.\<close>

definition Unordered :: "(int \<Rightarrow> int \<Rightarrow> int) \<Rightarrow> (int \<Rightarrow> int \<Rightarrow> int) \<Rightarrow> pending_order \<Rightarrow> error option \<Rightarrow> (fetch_input \<times> fetch_times) list \<Rightarrow> fetcher
    \<Rightarrow> (fetcher \<times> fetch_loop) \<times> fetch_status" where
  "Unordered MinF MaxInt visit faceErr inputs f =
     (case faceErr of
        Some e \<Rightarrow> ((f, fetch_start f), Done (Some e))
      | None \<Rightarrow> fetch_run MinF MaxInt visit inputs (f, fetch_start f))"

subsection \<open>Output formats\<close>

text \<open>The inner loop of \<open>Ordered\<close>: segments that are buffered are sent while they are next.\<close>

function flush_buffer :: "u64 \<Rightarrow> (u64 \<times> Data) list \<Rightarrow> Data list \<Rightarrow> u64 \<times> (u64 \<times> Data) list \<times> Data list" where
  "flush_buffer next buffer out =
     (case map_of buffer next of
        None \<Rightarrow> (next, buffer, out)
      | Some data \<Rightarrow> flush_buffer (next + 1) (AList.delete next buffer) (out @ [data]))"
  by pat_completeness auto
termination
  by (relation "measure (\<lambda>(next, buffer, out). length buffer)")
    (auto simp: AList.delete_eq dest!: map_of_SomeD intro!: length_filter_less)

declare flush_buffer.simps [simp del]

definition ordered_step :: "nat \<Rightarrow> u64 \<times> (u64 \<times> Data) list \<times> Data list \<Rightarrow> Data \<Rightarrow> u64 \<times> (u64 \<times> Data) list \<times> Data list" where
  "ordered_step prefixLen = (\<lambda>(next, buffer, out) data.
     case extractSegment (d_Name data) prefixLen of
       None \<Rightarrow> (next, buffer, out)
     | Some seg \<Rightarrow>
         if seg < next then (next, buffer, out)
         else if seg = next then flush_buffer (next + 1) buffer (out @ [data])
         else (next, AList.update seg data buffer, out))"

text \<open>What \<open>Ordered\<close> sends and returns, from what \<open>Unordered\<close> sent and returned.\<close>

definition Ordered :: "fetcher \<Rightarrow> Data list \<Rightarrow> error option \<Rightarrow> Data list \<times> error option" where
  "Ordered f unordered done =
     (case foldl (ordered_step (length (f_prefix f))) (SegmentBegin (f_opts f), [], []) unordered of
        (next, buffer, out) \<Rightarrow>
          (out, case done of Some e \<Rightarrow> Some e
                | None \<Rightarrow> if length buffer > 0 then Some (ErrOther ''segments are not reassembled'') else None))"

definition Chunks :: "fetcher \<Rightarrow> Data list \<Rightarrow> error option \<Rightarrow> bytes list \<times> error option" where
  "Chunks f unordered done = (case Ordered f unordered done of (ordered, e) \<Rightarrow> (map d_Content ordered, e))"

definition Packets :: "fetcher \<Rightarrow> Data list \<Rightarrow> error option \<Rightarrow> Data list \<times> error option" where
  "Packets f unordered done = Ordered f unordered done"

definition Payload :: "fetcher \<Rightarrow> Data list \<Rightarrow> error option \<Rightarrow> bytes outcome" where
  "Payload f unordered done =
     (case Chunks f unordered done of
        (chunks, Some e) \<Rightarrow> Fail e
      | (chunks, None) \<Rightarrow> Ok (concat chunks))"

text \<open>\<open>Pipe\<close> with the errors that the writer returns for the chunks.\<close>

fun pipe_write :: "(bytes \<Rightarrow> error option) \<Rightarrow> bytes list \<Rightarrow> bytes list \<Rightarrow> bytes list \<times> error option" where
  "pipe_write w written [] = (written, None)"
| "pipe_write w written (c # chunks) =
     (case w c of Some e \<Rightarrow> (written, Some e) | None \<Rightarrow> pipe_write w (written @ [c]) chunks)"

definition Pipe :: "(bytes \<Rightarrow> error option) \<Rightarrow> fetcher \<Rightarrow> Data list \<Rightarrow> error option \<Rightarrow> bytes list \<times> error option" where
  "Pipe w f unordered done =
     (case Chunks f unordered done of (chunks, e) \<Rightarrow>
        (case pipe_write w [] chunks of
           (written, Some we) \<Rightarrow> (written, Some we)
         | (written, None) \<Rightarrow> (written, e)))"

definition Fetch_Count :: "fetcher \<Rightarrow> int" where
  "Fetch_Count f = f_count f"

definition EstimatedTotal :: "(u64 \<Rightarrow> u64 \<Rightarrow> u64) \<Rightarrow> fetcher \<Rightarrow> int" where
  "EstimatedTotal MinUint64 f =
     (let segLast = MinUint64 (SegmentEnd (f_opts f)) (f_finalBlock f) in
      if segLast = 0xFFFFFFFFFFFFFFFF then -1 else sint (segLast - SegmentBegin (f_opts f) + 1))"

end
