(* ===== verification/Seg_Inv.thy ===== *)
theory Seg_Inv
  imports Seg_Fetch
begin

text \<open>
  The invariant of the fetching loop: which segments are pending, received and still to be requested, the queue of
  retransmissions, and how often an Interest was sent.
\<close>

abbreviation pmap :: "fetch_loop \<Rightarrow> u64 \<rightharpoonup> fetchSeg" where
  "pmap l \<equiv> map_of (pendings l)"

definition seg_of :: "fetcher \<Rightarrow> Data \<Rightarrow> u64" where
  "seg_of f data = (case extractSegment (d_Name data) (length (f_prefix f)) of Some seg \<Rightarrow> seg | None \<Rightarrow> 0)"

text \<open>A Data that the loop lets through: verified, under the prefix, with a segment number.\<close>

definition seg_data_ok :: "fetcher \<Rightarrow> Data \<Rightarrow> bool" where
  "seg_data_ok f data \<longleftrightarrow> verify_data f data = None \<and> Name_IsPrefixOf (f_prefix f) (d_Name data)
     \<and> extractSegment (d_Name data) (length (f_prefix f)) = Some (seg_of f data)"

definition seg_ok :: "fetcher \<Rightarrow> fetch_loop \<Rightarrow> bool" where
  "seg_ok f l \<longleftrightarrow>
     (\<forall>k \<in> dom (pmap l). SegmentBegin (f_opts f) \<le> k \<and> k < segNext l)
     \<and> (\<forall>d \<in> set (l_unordered l). seg_data_ok f d \<and> SegmentBegin (f_opts f) \<le> seg_of f d \<and> seg_of f d < segNext l \<and> seg_of f d \<notin> dom (pmap l))
     \<and> distinct (map (seg_of f) (l_unordered l))
     \<and> (\<forall>k. SegmentBegin (f_opts f) \<le> k \<and> k < segNext l \<longrightarrow> k \<in> dom (pmap l) \<or> k \<in> seg_of f ` set (l_unordered l) \<or> segLast l < k)
     \<and> SegmentBegin (f_opts f) \<le> segNext l \<and> segLast l < 0xFFFFFFFFFFFFFFFF"

definition queue_ok :: "fetch_loop \<Rightarrow> bool" where
  "queue_ok l \<longleftrightarrow> distinct (map fst (pendings l)) \<and> distinct (retxQ l) \<and> set (retxQ l) = {k. \<exists>fs. pmap l k = Some fs \<and> fs_InRetxQ fs}"

text \<open>The last segment is the one of the options, or that of a received Data that says so.\<close>

definition last_ok :: "fetcher \<Rightarrow> fetch_loop \<Rightarrow> bool" where
  "last_ok f l \<longleftrightarrow> segLast l = SegmentEnd (f_opts f) - 1 \<or> (\<exists>d \<in> set (l_unordered l). IsFinalBlock d \<and> segLast l = seg_of f d)"

definition loop_inv :: "fetcher \<Rightarrow> fetch_loop \<Rightarrow> bool" where
  "loop_inv f l \<longleftrightarrow> seg_ok f l \<and> queue_ok l \<and> last_ok f l \<and> f_count f = int (length (l_unordered l))"

lemma word_le_add_1: "(a :: u64) < b \<Longrightarrow> k < a + 1 \<longleftrightarrow> k < a \<or> k = a"
proof -
  assume "a < b"
  then have "unat a + 1 < 2 ^ 64" using unsigned_less [of b, where ?'a = nat] by (simp add: word_less_nat_alt)
  then have u: "unat (a + 1) = unat a + 1" by (simp add: unat_word_ariths)
  have "unat k = unat a \<longleftrightarrow> k = a" by (metis unsigned_word_eqI)
  then show ?thesis unfolding word_less_nat_alt u by auto
qed

subsection \<open>Segments\<close>

lemma queue_pm: "\<lbrakk>queue_ok l; (k, fs) \<in> set (pendings l)\<rbrakk> \<Longrightarrow> pmap l k = Some fs"
  by (simp add: queue_ok_def)

lemma delete_inv:
  assumes "queue_ok l" "pmap l seg = Some fs" "fs_InRetxQ fs \<longrightarrow> q = remove1 seg (retxQ l)" "\<not> fs_InRetxQ fs \<longrightarrow> q = retxQ l"
  shows "queue_ok (l\<lparr>retxQ := q, pendings := AList.delete seg (pendings l)\<rparr>)"
proof -
  have d: "distinct (retxQ l)" "set (retxQ l) = {k. \<exists>fs. pmap l k = Some fs \<and> fs_InRetxQ fs}" and dk: "distinct (map fst (pendings l))"
    using assms(1) unfolding queue_ok_def by blast+
  have q: "set q = set (retxQ l) - {seg} \<and> distinct q"
  proof (cases "fs_InRetxQ fs")
    case True
    then show ?thesis using assms(3) d(1) by (simp add: set_remove1_eq)
  next
    case False
    then have "seg \<notin> set (retxQ l)" unfolding d(2) using assms(2) by simp
    then show ?thesis using assms(4) False d(1) by simp
  qed
  have "set (retxQ l) - {seg} = {k. \<exists>fs. ((pmap l)(seg := None)) k = Some fs \<and> fs_InRetxQ fs}" unfolding d(2) by auto
  then show ?thesis using q dk by (simp add: queue_ok_def delete_conv' distinct_delete)
qed

lemma queue_add:
  assumes "queue_ok l" "pmap l seg = Some fs" "\<not> fs_InRetxQ fs"
  shows "queue_ok (l\<lparr>retxQ := retxQ l @ [seg], pendings := AList.update seg (fs\<lparr>fs_InRetxQ := True\<rparr>) (pendings l)\<rparr>)"
proof -
  have d: "distinct (retxQ l)" "set (retxQ l) = {k. \<exists>fs. pmap l k = Some fs \<and> fs_InRetxQ fs}" "distinct (map fst (pendings l))"
    using assms(1) unfolding queue_ok_def by blast+
  have "seg \<notin> set (retxQ l)" unfolding d(2) using assms(2,3) by simp
  moreover have "insert seg (set (retxQ l)) = {k. \<exists>fs'. ((pmap l)(seg \<mapsto> fs\<lparr>fs_InRetxQ := True\<rparr>)) k = Some fs' \<and> fs_InRetxQ fs'}"
    unfolding d(2) by auto
  ultimately show ?thesis using d(1,3) by (simp add: queue_ok_def update_conv' distinct_update)
qed

lemma scan_inv:
  assumes "fetch_scan now limit l rest = (l', e)" "seg_ok f l" "queue_ok l"
    and "distinct (map fst rest)" "\<forall>(k, fs) \<in> set rest. pmap l k = Some fs"
  shows "seg_ok f l' \<and> queue_ok l' \<and> l_unordered l' = l_unordered l \<and> segNext l' = segNext l \<and> segLast l' = segLast l
    \<and> dom (pmap l') \<subseteq> dom (pmap l) \<and> (e = None \<longrightarrow> (\<forall>k \<in> dom (pmap l'). k \<in> fst ` set rest \<longrightarrow> k \<le> segLast l))"
  using assms
proof (induction now limit l rest rule: fetch_scan.induct)
  case (2 now limit l seg fs rest)
  have pm: "pmap l seg = Some fs" using "2.prems"(5) by simp
  have others: "\<forall>(k, fs') \<in> set rest. k \<noteq> seg" using "2.prems"(4) by force
  consider (behind) "seg > segLast l" | (timeout) "\<not> seg > segLast l" "\<not> fs_InRetxQ fs" "RtoExpiry fs < now" "\<not> NRetx fs \<ge> limit"
    | (limit) "\<not> seg > segLast l" "\<not> fs_InRetxQ fs" "RtoExpiry fs < now" "NRetx fs \<ge> limit"
    | (keep) "\<not> seg > segLast l" "\<not> (\<not> fs_InRetxQ fs \<and> RtoExpiry fs < now)" by blast
  then show ?case
  proof cases
    case behind
    let ?q = "if fs_InRetxQ fs then remove1 seg (retxQ l) else retxQ l"
    let ?l = "l\<lparr>retxQ := ?q, pendings := AList.delete seg (pendings l)\<rparr>"
    have e: "fetch_scan now limit ?l rest = (l', e)" using "2.prems"(1) behind by (cases "fs_InRetxQ fs") (simp_all add: Let_def)
    have "seg_ok f ?l" using "2.prems"(2) behind by (auto simp: seg_ok_def delete_conv')
    moreover have "queue_ok ?l" by (rule delete_inv [OF "2.prems"(3) pm]) simp_all
    moreover have "\<forall>(k, fs) \<in> set rest. pmap ?l k = Some fs" using "2.prems"(5) others by (auto simp: delete_conv')
    ultimately have "seg_ok f l' \<and> queue_ok l' \<and> l_unordered l' = l_unordered ?l \<and> segNext l' = segNext ?l \<and> segLast l' = segLast ?l
      \<and> dom (pmap l') \<subseteq> dom (pmap ?l) \<and> (e = None \<longrightarrow> (\<forall>k \<in> dom (pmap l'). k \<in> fst ` set rest \<longrightarrow> k \<le> segLast ?l))"
      using "2.IH"(1) [OF behind refl] e "2.prems"(4) by (cases "fs_InRetxQ fs") (simp_all add: Let_def)
    then show ?thesis by (auto simp: delete_conv')
  next
    case timeout
    let ?l = "l\<lparr>l_rtte := rtte_Backoff (l_rtte l), l_ca := cubic_Decrease (RtoExpiry fs) (l_ca l), retxQ := retxQ l @ [seg],
      pendings := AList.update seg (fs\<lparr>fs_InRetxQ := True\<rparr>) (pendings l)\<rparr>"
    have e: "fetch_scan now limit ?l rest = (l', e)" using "2.prems"(1) timeout by simp
    have dom: "dom (pmap ?l) = dom (pmap l)" using pm by (auto simp: update_conv')
    have "seg_ok f ?l" using "2.prems"(2) unfolding seg_ok_def dom by simp
    moreover have "queue_ok ?l" using queue_add [OF "2.prems"(3) pm timeout(2)] by (simp add: queue_ok_def)
    moreover have "\<forall>(k, fs) \<in> set rest. pmap ?l k = Some fs" using "2.prems"(5) others by (auto simp: update_conv')
    ultimately have "seg_ok f l' \<and> queue_ok l' \<and> l_unordered l' = l_unordered ?l \<and> segNext l' = segNext ?l \<and> segLast l' = segLast ?l
      \<and> dom (pmap l') \<subseteq> dom (pmap ?l) \<and> (e = None \<longrightarrow> (\<forall>k \<in> dom (pmap l'). k \<in> fst ` set rest \<longrightarrow> k \<le> segLast ?l))"
      using "2.IH"(2) [OF timeout(1)] timeout(2-4) e "2.prems"(4) by simp
    then show ?thesis using timeout(1) unfolding dom by (auto simp: not_less)
  next
    case limit
    then show ?thesis using "2.prems"(1-3) by auto
  next
    case keep
    have e: "fetch_scan now limit l rest = (l', e)" using "2.prems"(1) keep by (simp only: fetch_scan.simps if_False)
    have "distinct (map fst rest)" "\<forall>(k, fs) \<in> set rest. pmap l k = Some fs" using "2.prems"(4,5) by simp_all
    from "2.IH"(3) [OF keep e "2.prems"(2,3) this] keep(1) show ?thesis by (simp add: not_less)
  qed
qed auto

text \<open>What depends on the fetcher: its options and its prefix.\<close>

definition same_fetcher :: "fetcher \<Rightarrow> fetcher \<Rightarrow> bool" where
  "same_fetcher f f' \<longleftrightarrow> f_opts f' = f_opts f \<and> f_prefix f' = f_prefix f"

lemma same_fetcher_simps:
  assumes "same_fetcher f f'"
  shows "seg_of f' = seg_of f" "seg_data_ok f' = seg_data_ok f" "verify_data f' = verify_data f" "seg_ok f' l = seg_ok f l" "f_opts f' = f_opts f"
    "f_prefix f' = f_prefix f" "makeInterest f' = makeInterest f"
proof -
  have o: "f_opts f' = f_opts f" "f_prefix f' = f_prefix f" using assms by (simp_all add: same_fetcher_def)
  show s: "seg_of f' = seg_of f" and v: "verify_data f' = verify_data f" and "makeInterest f' = makeInterest f"
    by (simp_all add: o seg_of_def verify_data_def makeInterest_def fun_eq_iff)
  show d: "seg_data_ok f' = seg_data_ok f" by (simp add: s v o seg_data_ok_def fun_eq_iff)
  show "seg_ok f' l = seg_ok f l" by (simp only: seg_ok_def s d o)
  show "f_opts f' = f_opts f" "f_prefix f' = f_prefix f" by (rule o)+
qed

lemma final_update_same: "same_fetcher f (final_update data f)" "f_count (final_update data f) = f_count f"
  by (auto simp: final_update_def same_fetcher_def split: outcome.splits)

lemma accept_fields:
  assumes "accept_data now pkt data seg fs (f, l) = (f', l')"
  shows "same_fetcher f f'" "f_count f' = f_count f + 1" "pendings l' = AList.delete seg (pendings l)" "l_unordered l' = l_unordered l @ [data]"
    "segNext l' = segNext l" "segLast l' = (if IsFinalBlock data then seg else segLast l)" "l_sent l' = l_sent l"
    "retxQ l' = (if fs_InRetxQ fs then remove1 seg (retxQ l) else retxQ l)" "f_finalBlock f' = f_finalBlock (final_update data f)"
  using assms final_update_same [where f = f and data = data] by (auto simp: accept_data_def Let_def same_fetcher_def)

lemma accept_inv:
  assumes "accept_data now pkt data seg fs (f, l) = (f', l')" "loop_inv f l" "pmap l seg = Some fs" "seg_data_ok f data" "seg_of f data = seg"
    and "\<forall>k \<in> dom (pmap l). k \<le> segLast l"
  shows "loop_inv f' l'"
proof -
  note a = accept_fields [OF assms(1)]
  have so: "seg_ok f l" and qo: "queue_ok l" and lo: "last_ok f l" and c: "f_count f = int (length (l_unordered l))" using assms(2) by (simp_all add: loop_inv_def)
  have dom: "dom (pmap l') = dom (pmap l) - {seg}" by (auto simp: a(3) delete_conv')
  have sd: "seg \<in> dom (pmap l)" "SegmentBegin (f_opts f) \<le> seg" "seg < segNext l" using assms(3) so unfolding seg_ok_def by blast+
  have mx: "seg < 0xFFFFFFFFFFFFFFFF" using sd(3) unsigned_less [of "segNext l", where ?'a = nat] by (simp add: word_less_nat_alt)
  have le: "segLast l' \<le> segLast l" using assms(6) sd(1) by (simp add: a(6))
  have "\<forall>d \<in> set (l_unordered l). seg_of f d \<noteq> seg" using so sd(1) unfolding seg_ok_def by blast
  then have di: "distinct (map (seg_of f) (l_unordered l'))" using so assms(5) by (auto simp: a(4) seg_ok_def)
  have "k \<in> dom (pmap l') \<or> k \<in> seg_of f ` set (l_unordered l') \<or> segLast l' < k" if "SegmentBegin (f_opts f) \<le> k" "k < segNext l" for k
  proof -
    from so that consider "k \<in> dom (pmap l)" | "k \<in> seg_of f ` set (l_unordered l)" | "segLast l < k" unfolding seg_ok_def by blast
    then show ?thesis using assms(5) le by cases (auto simp: dom a(4))
  qed
  then have "seg_ok f l'" using so di sd mx assms(4,5) unfolding seg_ok_def dom by (auto simp: a)
  moreover have "queue_ok l'" using delete_inv [OF qo assms(3), of "retxQ l'"] by (simp add: queue_ok_def a)
  moreover have "last_ok f' l'" using lo assms(5) by (auto simp: last_ok_def a same_fetcher_simps [OF a(1)])
  ultimately show ?thesis using c a(2,4) same_fetcher_simps(4) [OF a(1)] by (simp add: loop_inv_def)
qed

lemma rx_inv:
  assumes "fetch_rx now pkt (f, l) = (f', l')" "loop_inv f l" "\<forall>k \<in> dom (pmap l). k \<le> segLast l"
  shows "loop_inv f' l' \<and> same_fetcher f f' \<and> segNext l' = segNext l"
proof (cases "(f', l') = (f, l)")
  case True
  then show ?thesis using assms(2) by (simp add: same_fetcher_def)
next
  case False
  then obtain data seg fs where d: "p_Data pkt = Some data" "verify_data f data = None" "extractSegment (d_Name data) (length (f_prefix f)) = Some seg"
    "Name_IsPrefixOf (f_prefix f) (d_Name data)" "pmap l seg = Some fs" "accept_data now pkt data seg fs (f, l) = (f', l')"
    using assms(1) unfolding fetch_rx_def by (auto split: option.splits if_splits)
  have "seg_data_ok f data" "seg_of f data = seg" using d(2-4) by (simp_all add: seg_data_ok_def seg_of_def)
  from accept_inv [OF d(6) assms(2) d(5) this assms(3)] accept_fields(1,5) [OF d(6)] show ?thesis by blast
qed

lemma makeInterest_ok:
  "\<exists>pkt i. makeInterest f seg = Ok pkt \<and> p_Interest pkt = Some i \<and> i_Name i = f_prefix f @ [makeSegmentNameComponent seg]"
  by (simp add: makeInterest_def MakeInterest_def MakeInterest_step_def Interest_ToPacket_def new_packet_def Name_Append_def Let_def)

lemma send_new_inv:
  assumes "loop_inv f l" "segNext l \<le> segLast l" "\<forall>k \<in> dom (pmap l). k \<le> segLast l" "\<not> fs_InRetxQ fs"
  shows "loop_inv f (l\<lparr>segNext := segNext l + 1, pendings := AList.update (segNext l) fs (pendings l), l_sent := sent\<rparr>)" (is "loop_inv f ?l")
proof -
  have so: "seg_ok f l" and qo: "queue_ok l" and lo: "last_ok f l" and c: "f_count f = int (length (l_unordered l))" using assms(1) by (simp_all add: loop_inv_def)
  have mx: "segLast l < 0xFFFFFFFFFFFFFFFF" using so unfolding seg_ok_def by blast
  have lt: "k < segNext l + 1 \<longleftrightarrow> k < segNext l \<or> k = segNext l" for k
    by (rule word_le_add_1 [OF order.strict_trans1 [OF assms(2) mx]])
  have pn: "segNext l \<notin> dom (pmap l)" using so unfolding seg_ok_def by blast
  have dom: "dom (pmap ?l) = insert (segNext l) (dom (pmap l))" by (auto simp: update_conv')
  have "SegmentBegin (f_opts f) \<le> segNext l" using so unfolding seg_ok_def by blast
  moreover have "segNext l \<le> segNext l + 1" using lt [of "segNext l"] by (simp add: order.strict_implies_order)
  ultimately have "SegmentBegin (f_opts f) \<le> segNext l + 1" by (rule order_trans)
  then have "seg_ok f ?l"
    unfolding seg_ok_def dom using so by (auto simp: seg_ok_def lt)
  moreover have "queue_ok ?l"
  proof -
    have q: "distinct (map fst (pendings l))" "distinct (retxQ l)" "set (retxQ l) = {k. \<exists>fs. pmap l k = Some fs \<and> fs_InRetxQ fs}"
      using qo unfolding queue_ok_def by blast+
    have "{k. \<exists>fs. pmap l k = Some fs \<and> fs_InRetxQ fs} = {k. \<exists>fs'. ((pmap l)(segNext l \<mapsto> fs)) k = Some fs' \<and> fs_InRetxQ fs'}"
      using pn assms(4) by (auto simp: dom_def)
    then show ?thesis using q by (simp add: queue_ok_def update_conv' distinct_update)
  qed
  ultimately show ?thesis using c lo by (simp add: loop_inv_def last_ok_def)
qed

lemma send_retx_inv:
  assumes "loop_inv f l" "retxQ l = seg # q" "pmap l seg = Some fs" "\<not> fs_InRetxQ fs'"
  shows "loop_inv f (l\<lparr>retxQ := q, pendings := AList.update seg fs' (pendings l), l_sent := sent\<rparr>)" (is "loop_inv f ?l")
proof -
  have so: "seg_ok f l" and qo: "queue_ok l" and lo: "last_ok f l" and c: "f_count f = int (length (l_unordered l))" using assms(1) by (simp_all add: loop_inv_def)
  have dom: "dom (pmap ?l) = dom (pmap l)" using assms(3) by (auto simp: update_conv')
  have q: "distinct (map fst (pendings l))" "distinct (seg # q)" "set (seg # q) = {k. \<exists>fs. pmap l k = Some fs \<and> fs_InRetxQ fs}"
    using qo unfolding queue_ok_def assms(2) by blast+
  have "set q = {k. \<exists>fs. pmap l k = Some fs \<and> fs_InRetxQ fs} - {seg}" using q(2,3) by auto
  then have "set q = {k. \<exists>fs''. ((pmap l)(seg \<mapsto> fs')) k = Some fs'' \<and> fs_InRetxQ fs''}" using assms(4) by auto
  then have "queue_ok ?l" using q by (simp add: queue_ok_def update_conv' distinct_update)
  moreover have "seg_ok f ?l" using so unfolding seg_ok_def dom by simp
  ultimately show ?thesis using c lo by (simp add: loop_inv_def last_ok_def)
qed

lemma send_inv:
  assumes "fetch_send MinF MaxInt now f l = (l', st)" "loop_inv f l" "\<forall>k \<in> dom (pmap l). k \<le> segLast l"
  shows "loop_inv f l' \<and> (\<forall>k \<in> dom (pmap l'). k \<le> segLast l') \<and> st \<noteq> Crashed \<and> l_unordered l' = l_unordered l \<and> segLast l' = segLast l
    \<and> unat (segNext l') \<le> unat (segNext l) + 1 \<and> (\<forall>e. st = Done e \<longrightarrow> e = None \<and> pendings l' = [] \<and> segLast l' < segNext l')"
proof (cases "int (length (pendings l)) - int (length (retxQ l)) \<ge> MinF (cubic_Cwnd MaxInt (l_ca l)) (MaxCwnd (f_opts f))")
  case True
  then show ?thesis using assms by (auto simp: fetch_send_def)
next
  case wnd: False
  show ?thesis
  proof (cases "retxQ l")
    case (Cons seg q)
    have "seg \<in> {k. \<exists>fs. pmap l k = Some fs \<and> fs_InRetxQ fs}" using assms(2) Cons unfolding loop_inv_def queue_ok_def by (metis list.set_intros(1))
    then obtain fs where fs: "pmap l seg = Some fs" by blast
    obtain pkt where pkt: "makeInterest f seg = Ok pkt" using makeInterest_ok by blast
    let ?fs = "(setTimeNow now (rtte_Rto (l_rtte l)) (fs\<lparr>fs_InRetxQ := False\<rparr>))\<lparr>NRetx := NRetx fs + 1\<rparr>"
    have l': "l' = l\<lparr>retxQ := q, pendings := AList.update seg ?fs (pendings l), l_sent := l_sent l @ [pkt]\<rparr>" "st = Running"
      using assms(1) wnd Cons fs pkt by (simp_all add: fetch_send_def Let_def)
    have "loop_inv f l'" unfolding l' by (rule send_retx_inv [OF assms(2) Cons fs]) (simp add: setTimeNow_def)
    moreover have "dom (pmap l') = dom (pmap l)" using fs by (auto simp: l' update_conv')
    ultimately show ?thesis using assms(3) l' by auto
  next
    case Nil
    show ?thesis
    proof (cases "segNext l \<le> segLast l")
      case True
      obtain pkt where pkt: "makeInterest f (segNext l) = Ok pkt" using makeInterest_ok by blast
      let ?fs = "setTimeNow now (rtte_Rto (l_rtte l)) \<lparr>TxTime = 0, RtoExpiry = 0, NRetx = 0, fs_InRetxQ = False\<rparr>"
      have l': "l' = l\<lparr>segNext := segNext l + 1, pendings := AList.update (segNext l) ?fs (pendings l), l_sent := l_sent l @ [pkt]\<rparr>" "st = Running"
        using assms(1) wnd Nil True pkt by (simp_all add: fetch_send_def Let_def)
      have "loop_inv f l'" unfolding l' by (rule send_new_inv [OF assms(2) True assms(3)]) (simp add: setTimeNow_def)
      moreover have "dom (pmap l') = insert (segNext l) (dom (pmap l))" by (auto simp: l' update_conv')
      moreover have "unat (segNext l + 1) \<le> unat (segNext l) + 1" by (simp add: unat_word_ariths)
      ultimately show ?thesis using assms(3) True l' by auto
    next
      case False
      then show ?thesis using assms wnd Nil by (cases "pendings l = []") (auto simp: fetch_send_def)
    qed
  qed
qed

definition boundary_inv :: "fetcher \<Rightarrow> fetch_loop \<Rightarrow> bool" where
  "boundary_inv f l \<longleftrightarrow> loop_inv f l \<and> (\<forall>k \<in> dom (pmap l). k \<le> segLast l)"

text \<open>The parts of an iteration that is not cancelled: what is received, the loop over the pending segments, what is sent.\<close>

lemma iter_parts:
  assumes "fetch_iter MinF MaxInt visit (inp, tm) (f, l) = ((f', l'), st)" "boundary_inv f l" "visits_all visit" "inp \<noteq> Cancel"
  obtains l1 l2 e where "(case inp of Rx pkt \<Rightarrow> fetch_rx (nowRx tm) pkt (f, l) | _ \<Rightarrow> (f, l)) = (f', l1)"
    "fetch_scan (nowScan tm) (RetxLimit (f_opts f')) l1 (visit (pendings l1)) = (l2, e)"
    "loop_inv f' l1" "same_fetcher f f'" "segNext l1 = segNext l"
    "set (visit (pendings l1)) = set (pendings l1)" "distinct (map fst (visit (pendings l1)))" "\<forall>(k, fs) \<in> set (visit (pendings l1)). pmap l1 k = Some fs"
    "case e of Some err \<Rightarrow> l' = l2 \<and> st = Done (Some err) | None \<Rightarrow> fetch_send MinF MaxInt (nowTx tm) f' l2 = (l', st)"
proof -
  obtain f1 l1 where 1: "(case inp of Rx pkt \<Rightarrow> fetch_rx (nowRx tm) pkt (f, l) | _ \<Rightarrow> (f, l)) = (f1, l1)" by fastforce
  have i1: "loop_inv f1 l1 \<and> same_fetcher f f1 \<and> segNext l1 = segNext l"
    using rx_inv [of "nowRx tm" _ f l f1 l1] assms(2) 1 by (cases inp) (auto simp: boundary_inv_def same_fetcher_def)
  obtain l2 e where 2: "fetch_scan (nowScan tm) (RetxLimit (f_opts f1)) l1 (visit (pendings l1)) = (l2, e)" by fastforce
  have qo: "queue_ok l1" using i1 by (simp add: loop_inv_def)
  have vs: "set (visit (pendings l1)) = set (pendings l1)" by (rule visits_all_set [OF assms(3)])
  have vd: "distinct (map fst (visit (pendings l1)))"
    using assms(3) qo unfolding queue_ok_def visits_all_def by (metis mset_eq_imp_distinct_iff mset_map)
  have vp: "\<forall>(k, fs) \<in> set (visit (pendings l1)). pmap l1 k = Some fs" unfolding vs using queue_pm [OF qo] by blast
  obtain l3 st3 where 3: "fetch_send MinF MaxInt (nowTx tm) f1 l2 = (l3, st3)" by fastforce
  have f1: "f1 = f'" using assms(1,4) 1 2 3 by (cases inp; cases e; simp add: fetch_iter_def)
  have "case e of Some err \<Rightarrow> l' = l2 \<and> st = Done (Some err) | None \<Rightarrow> fetch_send MinF MaxInt (nowTx tm) f' l2 = (l', st)"
    using assms(1,4) 1 2 3 unfolding f1 by (cases inp; cases e; simp add: fetch_iter_def)
  from that [OF 1 [unfolded f1] 2 [unfolded f1] _ _ _ vs vd vp this] i1 show thesis unfolding f1 by blast
qed

lemma iter_inv:
  assumes "fetch_iter MinF MaxInt visit (inp, tm) (f, l) = ((f', l'), st)" "boundary_inv f l" "visits_all visit"
  shows "loop_inv f' l' \<and> same_fetcher f f' \<and> st \<noteq> Crashed \<and> unat (segNext l') \<le> unat (segNext l) + 1
    \<and> (st = Running \<longrightarrow> boundary_inv f' l') \<and> (st = Done None \<longrightarrow> pendings l' = [] \<and> segLast l' < segNext l')"
proof (cases "inp = Cancel")
  case True
  then show ?thesis using assms(1,2) by (auto simp: fetch_iter_def same_fetcher_def boundary_inv_def)
next
  case False
  obtain l1 l2 e where 2: "fetch_scan (nowScan tm) (RetxLimit (f_opts f')) l1 (visit (pendings l1)) = (l2, e)"
    and i1: "loop_inv f' l1" "same_fetcher f f'" "segNext l1 = segNext l" and vs: "set (visit (pendings l1)) = set (pendings l1)"
    and vd: "distinct (map fst (visit (pendings l1)))" and vp: "\<forall>(k, fs) \<in> set (visit (pendings l1)). pmap l1 k = Some fs"
    and 3: "case e of Some err \<Rightarrow> l' = l2 \<and> st = Done (Some err) | None \<Rightarrow> fetch_send MinF MaxInt (nowTx tm) f' l2 = (l', st)"
    by (rule iter_parts [OF assms False])
  have "seg_ok f' l1" "queue_ok l1" using i1(1) by (simp_all add: loop_inv_def)
  note sc = scan_inv [OF 2 this vd vp]
  have i2: "loop_inv f' l2" using i1 sc by (simp add: loop_inv_def last_ok_def)
  show ?thesis
  proof (cases e)
    case (Some err)
    then have "l' = l2" "st = Done (Some err)" using 3 by simp_all
    then show ?thesis using i1 i2 sc by simp
  next
    case None
    have "\<forall>k \<in> dom (pmap l2). k \<in> fst ` set (visit (pendings l1))" unfolding vs using sc by (auto simp: dom_map_of_conv_image_fst)
    then have le: "\<forall>k \<in> dom (pmap l2). k \<le> segLast l2" using sc None by metis
    have "fetch_send MinF MaxInt (nowTx tm) f' l2 = (l', st)" using 3 None by simp
    from send_inv [OF this i2 le] i1 sc show ?thesis unfolding boundary_inv_def by auto
  qed
qed

lemma run_inv:
  assumes "fetch_run MinF MaxInt visit inputs (f, l) = ((f', l'), st)" "boundary_inv f l" "visits_all visit"
  shows "loop_inv f' l' \<and> same_fetcher f f' \<and> st \<noteq> Crashed \<and> unat (segNext l') \<le> unat (segNext l) + length inputs
    \<and> (st = Done None \<longrightarrow> pendings l' = [] \<and> segLast l' < segNext l')"
  using assms(1,2)
proof (induction inputs arbitrary: f l)
  case Nil
  then show ?case by (auto simp: boundary_inv_def same_fetcher_def)
next
  case (Cons x xs)
  obtain inp tm where x: "x = (inp, tm)" by (cases x)
  obtain f1 l1 st1 where 1: "fetch_iter MinF MaxInt visit (inp, tm) (f, l) = ((f1, l1), st1)" by (metis prod_cases3 surj_pair)
  note i = iter_inv [OF 1 Cons.prems(2) assms(3)]
  show ?case
  proof (cases "st1 = Running")
    case True
    have "fetch_run MinF MaxInt visit xs (f1, l1) = ((f', l'), st)" using Cons.prems(1) 1 True by (simp add: x)
    from Cons.IH [OF this] i True show ?thesis by (auto simp: same_fetcher_def)
  next
    case False
    then have "f' = f1" "l' = l1" "st = st1" using Cons.prems(1) 1 by (cases st1; simp add: x)+
    then show ?thesis using i by auto
  qed
qed

lemma start_inv: "boundary_inv (Fetch name opts) (fetch_start (Fetch name opts))"
proof -
  have e: "SegmentEnd (Fetch_applyDefaults opts) \<noteq> 0" by (simp add: Fetch_applyDefaults_def Let_def)
  then have "0 < uint (SegmentEnd (Fetch_applyDefaults opts))" by (metis unsigned_0 word_less_def word_neq_0_conv)
  then have "SegmentEnd (Fetch_applyDefaults opts) - 1 < 0xFFFFFFFFFFFFFFFF"
    by (simp add: word_less_alt uint_sub_if') (use uint_lt2p [of "SegmentEnd (Fetch_applyDefaults opts)"] in simp)
  then show ?thesis by (auto simp: boundary_inv_def loop_inv_def last_ok_def seg_ok_def queue_ok_def fetch_start_def Fetch_def)
qed

end
