(* ===== verification/Seg_Spec.thy ===== *)
theory Seg_Spec
  imports Seg_Inv
begin

text \<open>
  What a retrieval delivers: the output formats put the segments in order, and the content of a producer arrives as the
  producer holds it.
\<close>

subsection \<open>Ordered output\<close>

lemma update_append: "k \<notin> fst ` set al \<Longrightarrow> AList.update k v al = al @ [(k, v)]"
  by (induction al) auto

text \<open>
  \<open>out\<close> are the segments from the first up to \<open>next\<close>, in order; the buffer has the others of \<open>A\<close>, none before \<open>next\<close>.
\<close>

definition out_ok :: "fetcher \<Rightarrow> Data set \<Rightarrow> u64 \<Rightarrow> (u64 \<times> Data) list \<Rightarrow> Data list \<Rightarrow> bool" where
  "out_ok f A next buffer out \<longleftrightarrow>
     unat next = unat (SegmentBegin (f_opts f)) + length out
     \<and> (\<forall>i < length out. unat (seg_of f (out ! i)) = unat (SegmentBegin (f_opts f)) + i)
     \<and> (\<forall>(k, d) \<in> set buffer. seg_of f d = k \<and> next \<le> k \<and> k < 0xFFFFFFFFFFFFFFFF)
     \<and> distinct (map fst buffer) \<and> set out \<union> snd ` set buffer = A"

lemma unat_Suc: "(k :: u64) < 0xFFFFFFFFFFFFFFFF \<Longrightarrow> unat (k + 1) = unat k + 1"
  by (simp add: unat_word_ariths word_less_nat_alt)

lemma out_ok_next:
  assumes "out_ok f A next buffer out" "seg_of f d = next" "next < 0xFFFFFFFFFFFFFFFF" "\<forall>(k, d) \<in> set buffer'. (k, d) \<in> set buffer \<and> k \<noteq> next"
    and "distinct (map fst buffer')" "insert d (set out \<union> snd ` set buffer') = B"
  shows "out_ok f B (next + 1) buffer' (out @ [d])"
proof -
  have "next + 1 \<le> k" if "next \<le> k" "k \<noteq> next" for k
    using that unfolding word_le_nat_alt word_unat_eq_iff unat_Suc [OF assms(3)] by linarith
  moreover have "unat (seg_of f ((out @ [d]) ! i)) = unat (SegmentBegin (f_opts f)) + i" if "i < length (out @ [d])" for i
  proof (cases "i < length out")
    case True
    then show ?thesis using assms(1) unfolding out_ok_def by (simp add: nth_append)
  next
    case False
    then have "i = length out" using that by simp
    then show ?thesis using assms(1,2) unfolding out_ok_def by simp
  qed
  moreover have "\<forall>(k, d) \<in> set buffer'. seg_of f d = k \<and> next \<le> k \<and> k < 0xFFFFFFFFFFFFFFFF \<and> k \<noteq> next"
    using assms(1,4) unfolding out_ok_def by blast
  moreover have "unat next = unat (SegmentBegin (f_opts f)) + length out" using assms(1) unfolding out_ok_def by blast
  ultimately show ?thesis using assms(5,6) unfolding out_ok_def unat_Suc [OF assms(3)] by auto
qed

lemma flush_ok:
  assumes "flush_buffer next buffer out = (next', buffer', out')" "out_ok f A next buffer out"
  shows "out_ok f A next' buffer' out' \<and> next' \<notin> fst ` set buffer'"
  using assms
proof (induction "next" buffer out rule: flush_buffer.induct)
  case (1 "next" buffer out)
  show ?case
  proof (cases "map_of buffer next")
    case None
    then have "next \<notin> fst ` set buffer" by (simp add: map_of_eq_None_iff)
    moreover have "flush_buffer next buffer out = (next, buffer, out)" using None by (simp add: flush_buffer.simps [of "next"])
    ultimately show ?thesis using "1.prems" by simp
  next
    case (Some d)
    have e: "flush_buffer (next + 1) (AList.delete next buffer) (out @ [d]) = (next', buffer', out')"
      using "1.prems"(1) Some by (simp add: flush_buffer.simps [of "next" buffer])
    have m: "(next, d) \<in> set buffer" using Some by (rule map_of_SomeD)
    have dk: "distinct (map fst buffer)" "set out \<union> snd ` set buffer = A" "seg_of f d = next" "next < 0xFFFFFFFFFFFFFFFF"
      using "1.prems"(2) m unfolding out_ok_def by blast+
    have del: "set (AList.delete next buffer) = {x \<in> set buffer. fst x \<noteq> next}" by (auto simp: AList.delete_eq)
    have "set buffer = insert (next, d) {x \<in> set buffer. fst x \<noteq> next}" using m dk(1) by (auto dest: eq_key_imp_eq_value)
    from arg_cong [OF this, of "image snd"] have "snd ` set buffer = insert d (snd ` {x \<in> set buffer. fst x \<noteq> next})" by simp
    then have "insert d (set out \<union> snd ` {x \<in> set buffer. fst x \<noteq> next}) = A" using dk(2) by simp
    then have "out_ok f A (next + 1) (AList.delete next buffer) (out @ [d])"
      by (intro out_ok_next [OF "1.prems"(2) dk(3,4)]) (auto simp: del distinct_delete dk(1))
    then show ?thesis by (rule "1.IH" [OF Some e])
  qed
qed

lemma ordered_step_ok:
  assumes "ordered_step (length (f_prefix f)) (next, buffer, out) d = (next', buffer', out')"
    and "out_ok f A next buffer out" "next \<notin> fst ` set buffer" "extractSegment (d_Name d) (length (f_prefix f)) = Some (seg_of f d)"
    and "SegmentBegin (f_opts f) \<le> seg_of f d" "seg_of f d < 0xFFFFFFFFFFFFFFFF" "seg_of f d \<notin> seg_of f ` A"
  shows "out_ok f (insert d A) next' buffer' out' \<and> next' \<notin> fst ` set buffer'"
proof -
  have o: "unat next = unat (SegmentBegin (f_opts f)) + length out" "\<forall>i < length out. unat (seg_of f (out ! i)) = unat (SegmentBegin (f_opts f)) + i"
    "\<forall>(k, d) \<in> set buffer. seg_of f d = k" "distinct (map fst buffer)" "set out \<union> snd ` set buffer = A"
    using assms(2) unfolding out_ok_def by blast+
  have ge: "\<not> seg_of f d < next"
  proof
    assume lt: "seg_of f d < next"
    define i where "i = unat (seg_of f d) - unat (SegmentBegin (f_opts f))"
    have i: "i < length out" "unat (seg_of f d) = unat (SegmentBegin (f_opts f)) + i"
      using lt o(1) assms(5) by (auto simp: i_def word_less_nat_alt word_le_nat_alt)
    then have "seg_of f (out ! i) = seg_of f d" using o(2) by (metis unsigned_word_eqI)
    moreover have "out ! i \<in> A" using o(5) i(1) by auto
    ultimately show False using assms(7) by (metis imageI)
  qed
  show ?thesis
  proof (cases "seg_of f d = next")
    case True
    have "out_ok f (insert d A) (next + 1) buffer (out @ [d])"
      using assms(3,6) o(4,5) True by (intro out_ok_next [OF assms(2) True]) (auto intro: rev_image_eqI)
    moreover have "flush_buffer (next + 1) buffer (out @ [d]) = (next', buffer', out')"
      using assms(1,4) True ge by (simp add: ordered_step_def)
    ultimately show ?thesis by (intro flush_ok)
  next
    case False
    then have r: "next' = next" "buffer' = AList.update (seg_of f d) d buffer" "out' = out"
      using assms(1,4) ge by (simp_all add: ordered_step_def)
    have n: "seg_of f d \<notin> fst ` set buffer" using assms(7) o(3,5) by force
    then have u: "AList.update (seg_of f d) d buffer = buffer @ [(seg_of f d, d)]" by (rule update_append)
    show ?thesis using assms(2,3,6) n ge False o(4,5) unfolding r u out_ok_def by auto
  qed
qed

lemma ordered_fold_ok:
  assumes "foldl (ordered_step (length (f_prefix f))) (next, buffer, out) ds = (next', buffer', out')"
    and "out_ok f A next buffer out" "next \<notin> fst ` set buffer"
    and "\<forall>d \<in> set ds. extractSegment (d_Name d) (length (f_prefix f)) = Some (seg_of f d) \<and> SegmentBegin (f_opts f) \<le> seg_of f d \<and> seg_of f d < 0xFFFFFFFFFFFFFFFF"
    and "distinct (map (seg_of f) ds)" "seg_of f ` A \<inter> seg_of f ` set ds = {}"
  shows "out_ok f (A \<union> set ds) next' buffer' out' \<and> next' \<notin> fst ` set buffer'"
  using assms
proof (induction ds arbitrary: "next" buffer out A)
  case (Cons d ds)
  obtain n1 b1 o1 where 1: "ordered_step (length (f_prefix f)) (next, buffer, out) d = (n1, b1, o1)" by (metis prod_cases3)
  have s: "out_ok f (insert d A) n1 b1 o1 \<and> n1 \<notin> fst ` set b1"
    using Cons.prems(4,6) by (intro ordered_step_ok [OF 1 Cons.prems(2,3)]) auto
  have "foldl (ordered_step (length (f_prefix f))) (n1, b1, o1) ds = (next', buffer', out')" using Cons.prems(1) 1 by simp
  from Cons.IH [OF this conjunct1 [OF s] conjunct2 [OF s]] Cons.prems(4-6) show ?case by auto
qed simp

lemma Ordered_complete:
  assumes "\<forall>d \<in> set ds. extractSegment (d_Name d) (length (f_prefix f)) = Some (seg_of f d) \<and> seg_of f d < 0xFFFFFFFFFFFFFFFF"
    and "distinct (map (seg_of f) ds)" "unat ` seg_of f ` set ds = {unat (SegmentBegin (f_opts f))..<m}"
  shows "\<exists>out. Ordered f ds done = (out, done) \<and> mset out = mset ds \<and> map (unat \<circ> seg_of f) out = [unat (SegmentBegin (f_opts f))..<m]"
proof -
  let ?B = "SegmentBegin (f_opts f)"
  obtain n b out where r: "foldl (ordered_step (length (f_prefix f))) (?B, [], []) ds = (n, b, out)" by (metis prod_cases3)
  have sb: "?B \<le> seg_of f d" if "d \<in> set ds" for d
  proof -
    have "unat (seg_of f d) \<in> {unat ?B..<m}" unfolding assms(3) [symmetric] using that by blast
    then show ?thesis by (simp add: word_le_nat_alt)
  qed
  have "out_ok f ({} \<union> set ds) n b out \<and> n \<notin> fst ` set b"
    using assms(1,2) sb by (intro ordered_fold_ok [OF r]) (auto simp: out_ok_def)
  then have o: "unat n = unat ?B + length out" "\<forall>i < length out. unat (seg_of f (out ! i)) = unat ?B + i"
    "\<forall>(k, d) \<in> set b. seg_of f d = k \<and> n \<le> k" "set out \<union> snd ` set b = set ds" and nb: "n \<notin> fst ` set b"
    unfolding out_ok_def by auto
  have b: "b = []"
  proof (rule ccontr)
    assume "b \<noteq> []"
    then obtain k d where kd: "(k, d) \<in> set b" by (metis list.set_sel(1) surj_pair)
    then have "unat k \<in> {unat ?B..<m}" "n \<le> k" unfolding assms(3) [symmetric] using o(3,4) by force+
    then have "unat n \<in> unat ` seg_of f ` set ds" unfolding assms(3) using o(1) by (auto simp: word_le_nat_alt)
    then obtain d' where d': "d' \<in> set ds" "seg_of f d' = n" by (auto dest: unsigned_word_eqI)
    then consider "d' \<in> set out" | "d' \<in> snd ` set b" using o(4) by blast
    then show False using o(1-3) nb d'(2) by cases (force simp: in_set_conv_nth)+
  qed
  have sg: "map (unat \<circ> seg_of f) out = [unat ?B..<unat n]" using o(1,2) by (intro nth_equalityI) auto
  have "set out = set ds" using o(4) b by simp
  then have "set [unat ?B..<unat n] = {unat ?B..<m}" unfolding assms(3) [symmetric] sg [symmetric] by auto
  then have "[unat ?B..<unat n] = [unat ?B..<m]" by (metis atLeastLessThan_upt sorted_list_of_set_range)
  moreover have "mset out = mset ds"
    using \<open>set out = set ds\<close> sg assms(2) by (metis distinct_map distinct_upt set_eq_iff_mset_eq_distinct)
  ultimately show ?thesis using sg r b by (cases "done") (auto simp: Ordered_def)
qed

subsection \<open>Data of a producer\<close>

text \<open>A Data with the content and the FinalBlock that the producer of \<open>content\<close> gives to its name.\<close>

definition authentic :: "ServeOptions \<Rightarrow> int option \<Rightarrow> bytes \<Rightarrow> Data \<Rightarrow> bool" where
  "authentic sopts sz content d \<longleftrightarrow>
     (case Serve sopts sz (bytes_ReadAt content) (zero_Interest\<lparr>i_Name := d_Name d\<rparr>) of
        (r, None) \<Rightarrow> d_Content d = d_Content r \<and> d_FinalBlock d = d_FinalBlock r
      | (r, Some e) \<Rightarrow> False)"

lemma final_count:
  assumes "0 < c" "0 < L" "L < 2 ^ 62" "c < 2 ^ 31"
  shows "unat ((if int L mod int c \<noteq> 0 then (\<lambda>x. x + 1) else (\<lambda>x. x)) ((word_of_int (int L) :: u64) div word_of_int (int c) - 1))
    = (L + c - 1) div c - 1"
proof -
  have "unat (word_of_nat L :: u64) = L" "unat (word_of_nat c :: u64) = c"
    using assms(3,4) by (simp_all add: unat_of_nat)
  then have d: "unat ((word_of_int (int L) :: u64) div word_of_int (int c)) = L div c" by (simp add: unat_div_distrib)
  have m: "int L mod int c = 0 \<longleftrightarrow> L mod c = 0" by (simp flip: of_nat_mod)
  show ?thesis
  proof (cases "L mod c = 0")
    case True
    then obtain q where q: "L = c * q" by (auto elim: dvdE simp: mod_eq_0_iff_dvd)
    then have "0 < q" using assms(2) by simp
    have "c * q + c - 1 = c * q + (c - 1)" using assms(1) by simp
    then have "(c * q + c - 1) div c = q" using assms(1) by (simp only: div_mult_self4) simp
    moreover have "unat ((word_of_int (int L) :: u64) div word_of_int (int c) - 1) = q - 1"
      using d \<open>0 < q\<close> assms(1) by (subst unat_minus_one) (auto simp: q)
    ultimately show ?thesis using True m by (simp add: q)
  next
    case False
    have e: "L + c - 1 = (L - 1) + c" using assms(2) by simp
    have "(L + c - 1) div c = (L - 1) div c + 1" unfolding e using assms(1) by simp
    moreover have "(L - 1) div c = L div c" using False assms(2) by (cases L) (simp_all add: div_Suc)
    ultimately show ?thesis using False m d by simp
  qed
qed

lemma Serve_finalBlock_last:
  assumes "serve_ok sopts content" "content \<noteq> []" "c = nat (srv_ChunkSize sopts)"
  shows "\<exists>w. Serve_finalBlock sopts (Some (int (length content))) = makeSegmentNameComponent w \<and> unat w = nsegs c content - 1"
proof -
  have c: "0 < c" "c < 2 ^ 31" "srv_ChunkSize sopts = int c" "length content < 2 ^ 62" using assms(1) by (auto simp: serve_ok_def assms(3))
  have "1 * c \<le> length content + c - 1" using assms(2) by (cases content) simp_all
  then have "1 \<le> (length content + c - 1) div c" using less_eq_div_iff_mult_less_eq [OF c(1)] by blast
  then have "nsegs c content = (length content + c - 1) div c" by (simp add: nsegs_def)
  then show ?thesis using final_count [OF c(1) _ c(4,2)] assms(2)
    by (auto simp: Serve_finalBlock_def c(3) Let_def split: if_splits)
qed

lemma authentic_segment:
  assumes "authentic sopts sz content d" "serve_ok sopts content" "sz = None \<or> sz = Some (int (length content))"
    and "extractSegment (d_Name d) (length (srv_Prefix sopts)) = Some seg" "unat seg * c < 2 ^ 63" "c = nat (srv_ChunkSize sopts)"
  shows "unat seg < nsegs c content \<and> d_Content d = chunk c content (unat seg) \<and> (IsFinalBlock d \<longleftrightarrow> unat seg = nsegs c content - 1)"
proof -
  let ?i = "zero_Interest\<lparr>i_Name := d_Name d\<rparr>" and ?n = "nsegs c content"
  have ex: "extractSegment (i_Name ?i) (length (srv_Prefix sopts)) = Some seg" using assms(4) by simp
  note r = Serve_reply [OF assms(2) ex assms(5) [unfolded assms(6)] assms(6), of sz]
  have lt: "unat seg < ?n" using assms(1) r by (cases "unat seg < ?n") (auto simp: authentic_def)
  have a: "d_Content d = chunk c content (unat seg)"
    "d_FinalBlock d = (if unat seg + 1 = ?n then d_Name d ! length (srv_Prefix sopts) else Serve_finalBlock sopts sz)"
    using assms(1) r lt by (auto simp: authentic_def)
  have "length (d_Name d) = length (srv_Prefix sopts) + 1" using extractSegment_name [OF assms(4)] by simp
  then have ng: "Name_Get (d_Name d) (- 1) = d_Name d ! length (srv_Prefix sopts)" by (simp add: Name_Get_def nat_add_distrib)
  have "IsFinalBlock d" if "unat seg = ?n - 1"
    using that lt a(2) ng extractSegment_name [OF assms(4)] by (simp add: IsFinalBlock_def NameComponent_Valid_def isValidNameComponentType_def)
  moreover have "unat seg = ?n - 1" if fb: "IsFinalBlock d"
  proof (rule ccontr)
    assume n: "unat seg \<noteq> ?n - 1"
    then have f: "d_FinalBlock d = Serve_finalBlock sopts sz" and "1 < ?n" using a(2) lt by auto
    then have "content \<noteq> []" using assms(2) by (auto simp: nsegs_def serve_ok_def assms(6))
    from Serve_finalBlock_last [OF assms(2) this assms(6)]
    obtain w where w: "Serve_finalBlock sopts (Some (int (length content))) = makeSegmentNameComponent w" "unat w = ?n - 1" by blast
    have "NameComponent_Valid (Serve_finalBlock sopts sz)" using fb unfolding IsFinalBlock_def f by blast
    then have "sz \<noteq> None" by (rule contrapos_pn) (simp add: Serve_finalBlock_def invalidComponent_def NameComponent_Valid_def isValidNameComponentType_def)
    then have fw: "d_FinalBlock d = makeSegmentNameComponent w" using assms(3) f w(1) by auto
    have "Value (d_Name d ! length (srv_Prefix sopts)) = NNI_Encode w []"
      using fb ng unfolding IsFinalBlock_def fw makeSegment_value by (auto dest: sym)
    then have "seg = w" using extractSegment_name [OF assms(4)] by simp
    then show False using n w(2) by simp
  qed
  ultimately show ?thesis using lt a(1) by blast
qed

text \<open>The segments of an object that can be served have numbers far below the limits.\<close>

lemma nsegs_small:
  assumes "serve_ok sopts content" "c = nat (srv_ChunkSize sopts)"
  shows "nsegs c content * c < 2 ^ 63" "nsegs c content < 2 ^ 63"
proof -
  have c: "0 < c" "c < 2 ^ 31" "length content < 2 ^ 62" using assms by (auto simp: serve_ok_def)
  have "(length content + c - 1) div c * c \<le> length content + c - 1" by (rule div_times_less_eq_dividend)
  then have "(length content + c - 1) div c * c < 2 ^ 63" by (rule order.strict_trans1) (use c in simp)
  then show m: "nsegs c content * c < 2 ^ 63" using c(2) by (simp add: nsegs_def max_def)
  have "nsegs c content \<le> nsegs c content * c" using c(1) by simp
  then show "nsegs c content < 2 ^ 63" using m by (rule order.strict_trans1)
qed

subsection \<open>What arrives\<close>

lemma delivered:
  assumes "loop_inv f l" "pendings l = []" "segLast l < segNext l" "\<forall>d \<in> set (l_unordered l). authentic sopts sz content d"
    and "serve_ok sopts content" "sz = None \<or> sz = Some (int (length content))" "f_prefix f = srv_Prefix sopts"
    and "SegmentBegin (f_opts f) = 0" "SegmentEnd (f_opts f) = 0xFFFFFFFFFFFFFFFF" "unat (segNext l) * c < 2 ^ 63" "c = nat (srv_ChunkSize sopts)"
  shows "Payload f (l_unordered l) None = Ok content \<and> Fetch_Count f = int (nsegs c content)"
proof -
  let ?ds = "l_unordered l" and ?n = "nsegs c content"
  have c: "0 < c" using assms(5,11) by (simp add: serve_ok_def)
  have so: "seg_ok f l" and lo: "last_ok f l" and cnt: "f_count f = int (length ?ds)" using assms(1) by (simp_all add: loop_inv_def)
  have dist: "distinct (map (seg_of f) ?ds)" using so unfolding seg_ok_def by blast
  have ex: "extractSegment (d_Name d) (length (f_prefix f)) = Some (seg_of f d)" "seg_of f d < segNext l" if "d \<in> set ?ds" for d
    using so that unfolding seg_ok_def seg_data_ok_def by blast+
  have small: "unat k * c < 2 ^ 63" if "k < segNext l" for k
    using that assms(10) by (metis le_less_trans less_imp_le_nat mult_le_mono1 word_less_nat_alt)
  have a: "unat (seg_of f d) < ?n \<and> d_Content d = chunk c content (unat (seg_of f d)) \<and> (IsFinalBlock d \<longleftrightarrow> unat (seg_of f d) = ?n - 1)"
    if "d \<in> set ?ds" for d
    using authentic_segment [OF _ assms(5,6) _ _ assms(11)] assms(4) ex [OF that] small that unfolding assms(7) by blast
  have mx: "seg_of f d < 0xFFFFFFFFFFFFFFFF" if "d \<in> set ?ds" for d
    using ex(2) [OF that] unsigned_less [of "segNext l", where ?'a = nat] by (simp add: word_less_nat_alt)
  have n63: "unat (segNext l) < 2 ^ 63" using assms(10) c by (metis le_less_trans less_eq_Suc_le One_nat_def mult_le_mono2 mult.right_neutral)
  have "segLast l \<noteq> SegmentEnd (f_opts f) - 1" using assms(3) n63 unfolding assms(9) by (auto simp: word_less_nat_alt)
  then obtain d where d: "d \<in> set ?ds" "IsFinalBlock d" "segLast l = seg_of f d" using lo unfolding last_ok_def by blast
  have last: "unat (segLast l) = ?n - 1" using a [OF d(1)] d(2,3) by simp
  have "unat ` seg_of f ` set ?ds = {unat (SegmentBegin (f_opts f))..<?n}"
  proof (intro equalityI subsetI)
    fix x assume "x \<in> {unat (SegmentBegin (f_opts f))..<?n}"
    then have x: "x \<le> unat (segLast l)" using last by auto
    then have u: "unat (word_of_nat x :: u64) = x" by (metis le_unat_uoi)
    have w: "(word_of_nat x :: u64) \<le> segLast l" using x u by (simp only: word_le_nat_alt)
    then have "word_of_nat x < segNext l" using assms(3) by (rule order.strict_trans1)
    then have "word_of_nat x \<in> seg_of f ` set ?ds" using so w assms(2,8) unfolding seg_ok_def by auto
    then show "x \<in> unat ` seg_of f ` set ?ds" using u by (metis imageI)
  qed (use a assms(8) in auto)
  from Ordered_complete [OF _ dist this, of None] ex mx
  obtain out where o: "Ordered f ?ds None = (out, None)" "mset out = mset ?ds" "map (unat \<circ> seg_of f) out = [0..<?n]" using assms(8) by auto
  have "map d_Content out = map (chunk c content) (map (unat \<circ> seg_of f) out)"
    using a mset_eq_setD [OF o(2)] by simp
  then have "concat (map d_Content out) = content" using concat_chunks [OF c, of content] by (simp only: o(3))
  moreover have "length ?ds = ?n" using arg_cong [OF o(3), of length] mset_eq_length [OF o(2)] by simp
  ultimately show ?thesis using cnt by (simp add: Payload_def Chunks_def o(1) Fetch_Count_def)
qed

lemma Fetch_options:
  "f_prefix (Fetch name opts) = name" "SegmentBegin (f_opts (Fetch name opts)) = SegmentBegin opts"
  "SegmentEnd opts = 0 \<Longrightarrow> SegmentEnd (f_opts (Fetch name opts)) = 0xFFFFFFFFFFFFFFFF"
  "fo_Verifier opts = Some ver \<Longrightarrow> verify_data (Fetch name opts) = ver"
  by (auto simp: Fetch_def Fetch_applyDefaults_def Let_def verify_data_def fun_eq_iff)

lemma Unordered_inv:
  assumes "Unordered MinF MaxInt visit None inputs (Fetch name opts) = ((f, l), st)" "visits_all visit"
  shows "loop_inv f l \<and> same_fetcher (Fetch name opts) f \<and> st \<noteq> Crashed \<and> unat (segNext l) \<le> unat (SegmentBegin opts) + length inputs
    \<and> (st = Done None \<longrightarrow> pendings l = [] \<and> segLast l < segNext l)"
  using run_inv [OF _ start_inv assms(2)] assms(1) by (fastforce simp: Unordered_def fetch_start_def Fetch_options)

end
