(* ===== verification/Seg_Live.thy ===== *)
theory Seg_Live
  imports Seg_Spec
begin

text \<open>
  A retrieval over a face that loses nothing returns: every Data answers the Interest of the iteration before.
\<close>

definition interest_name :: "Packet \<Rightarrow> Name option" where
  "interest_name pkt = map_option i_Name (p_Interest pkt)"

text \<open>The loop has received the segments before \<open>k\<close> and waits for segment \<open>k\<close>.\<close>

definition lock_at :: "fetcher \<Rightarrow> (nat \<Rightarrow> Data) \<Rightarrow> nat \<Rightarrow> fetcher \<Rightarrow> fetch_loop \<Rightarrow> bool" where
  "lock_at f0 dat k f l \<longleftrightarrow> same_fetcher f0 f \<and> (\<exists>fs. pendings l = [(word_of_nat k, fs)] \<and> \<not> fs_InRetxQ fs) \<and> retxQ l = []
     \<and> segNext l = word_of_nat (k + 1) \<and> segLast l = 0xFFFFFFFFFFFFFFFE \<and> l_unordered l = map dat [0..<k]
     \<and> map interest_name (l_sent l) = map (\<lambda>i. Some (f_prefix f0 @ [makeSegmentNameComponent (word_of_nat i)])) [0..<Suc k]"

text \<open>The loop is between two segments: nothing is pending, and segment \<open>k\<close> is the next to ask for.\<close>

definition free_at :: "fetcher \<Rightarrow> (nat \<Rightarrow> Data) \<Rightarrow> nat \<Rightarrow> fetcher \<Rightarrow> fetch_loop \<Rightarrow> bool" where
  "free_at f0 dat k f l \<longleftrightarrow> same_fetcher f0 f \<and> pendings l = [] \<and> retxQ l = [] \<and> segNext l = word_of_nat k \<and> l_unordered l = map dat [0..<k]
     \<and> map interest_name (l_sent l) = map (\<lambda>i. Some (f_prefix f0 @ [makeSegmentNameComponent (word_of_nat i)])) [0..<k]"

lemma window_open:
  assumes "\<forall>a b. MinF a b = min a b" "\<forall>a b. MaxInt a b = max a b" "1 \<le> MaxCwnd (f_opts f)" "pendings l = []" "retxQ l = []"
  shows "\<not> int (length (pendings l)) - int (length (retxQ l)) \<ge> MinF (cubic_Cwnd MaxInt (l_ca l)) (MaxCwnd (f_opts f))"
  using assms by (simp add: cubic_Cwnd_def cubicIw_def)

lemma send_free:
  assumes "\<forall>a b. MinF a b = min a b" "\<forall>a b. MaxInt a b = max a b" "1 \<le> MaxCwnd (f_opts f0)" "free_at f0 dat k f l"
    and "segLast l = 0xFFFFFFFFFFFFFFFE" "k < 2 ^ 63"
  shows "\<exists>l'. fetch_send MinF MaxInt now f l = (l', Running) \<and> lock_at f0 dat k f l'"
proof -
  have fa: "same_fetcher f0 f" "pendings l = []" "retxQ l = []" "segNext l = word_of_nat k" using assms(4) unfolding free_at_def by blast+
  note sf = same_fetcher_simps [OF fa(1)]
  obtain pkt i where pkt: "makeInterest f (word_of_nat k) = Ok pkt" "p_Interest pkt = Some i" "i_Name i = f_prefix f @ [makeSegmentNameComponent (word_of_nat k)]"
    using makeInterest_ok by blast
  have u: "unat (word_of_nat k :: u64) = k" using assms(6) by (simp add: unat_of_nat)
  have le: "segNext l \<le> segLast l" unfolding fa(4) assms(5) word_le_nat_alt u using assms(6) by simp
  let ?fs = "setTimeNow now (rtte_Rto (l_rtte l)) \<lparr>TxTime = 0, RtoExpiry = 0, NRetx = 0, fs_InRetxQ = False\<rparr>"
  let ?l = "l\<lparr>segNext := segNext l + 1, pendings := [(word_of_nat k, ?fs)], l_sent := l_sent l @ [pkt]\<rparr>"
  have "fetch_send MinF MaxInt now f l = (?l, Running)"
    using window_open [OF assms(1,2) _ fa(2,3), of f] assms(3) sf(5) le fa pkt(1) by (simp add: fetch_send_def Let_def)
  moreover have "lock_at f0 dat k f ?l"
    using assms(4,5) pkt sf(6) by (simp add: lock_at_def free_at_def interest_name_def setTimeNow_def add.commute)
  ultimately show ?thesis by blast
qed

lemma rx_lock:
  assumes "lock_at f0 dat k f l" "p_Data pkt = Some (dat k)" "verify_data f0 (dat k) = None" "d_Name (dat k) = f_prefix f0 @ [makeSegmentNameComponent (word_of_nat k)]"
    and "fetch_rx now pkt (f, l) = (f', l')"
  shows "free_at f0 dat (Suc k) f' l' \<and> segLast l' = (if IsFinalBlock (dat k) then word_of_nat k else 0xFFFFFFFFFFFFFFFE)"
proof -
  obtain fs where la: "same_fetcher f0 f" "pendings l = [(word_of_nat k, fs)]" "\<not> fs_InRetxQ fs" using assms(1) unfolding lock_at_def by blast
  note sf = same_fetcher_simps [OF la(1)]
  have "extractSegment (d_Name (dat k)) (length (f_prefix f)) = Some (word_of_nat k)" unfolding assms(4) sf(6) by (rule extract_make)
  moreover have "Name_IsPrefixOf (f_prefix f) (d_Name (dat k))" unfolding assms(4) sf(6) by simp
  ultimately have "accept_data now pkt (dat k) (word_of_nat k) fs (f, l) = (f', l')"
    using assms(2,3,5) la(2) sf(3) by (simp add: fetch_rx_def)
  note a = accept_fields [OF this]
  have "same_fetcher f0 f'" using la(1) a(1) by (simp add: same_fetcher_def)
  then show ?thesis using assms(1) la(2,3) by (simp add: free_at_def lock_at_def a add.commute)
qed

text \<open>One iteration of the loop when the Data that it waits for arrives, and the first one.\<close>

lemma iter_lock:
  assumes "\<forall>a b. MinF a b = min a b" "\<forall>a b. MaxInt a b = max a b" "1 \<le> MaxCwnd (f_opts f0)" "visits_all visit"
    and "lock_at f0 dat k f l" "p_Data pkt = Some (dat k)" "verify_data f0 (dat k) = None" "d_Name (dat k) = f_prefix f0 @ [makeSegmentNameComponent (word_of_nat k)]"
    and "Suc k < 2 ^ 63"
  shows "\<exists>f' l'. if IsFinalBlock (dat k) then fetch_iter MinF MaxInt visit (Rx pkt, tm) (f, l) = ((f', l'), Done None) \<and> free_at f0 dat (Suc k) f' l'
    else fetch_iter MinF MaxInt visit (Rx pkt, tm) (f, l) = ((f', l'), Running) \<and> lock_at f0 dat (Suc k) f' l'"
proof -
  obtain f1 l1 where 1: "fetch_rx (nowRx tm) pkt (f, l) = (f1, l1)" by fastforce
  have r: "free_at f0 dat (Suc k) f1 l1" "segLast l1 = (if IsFinalBlock (dat k) then word_of_nat k else 0xFFFFFFFFFFFFFFFE)"
    using rx_lock [OF assms(5-8) 1] by blast+
  have fa: "same_fetcher f0 f1" "pendings l1 = []" "retxQ l1 = []" "segNext l1 = word_of_nat (Suc k)" using r(1) unfolding free_at_def by blast+
  have "visit [] = []" using assms(4) visits_all_set [of visit "[]"] by simp
  then have sc: "fetch_scan (nowScan tm) (RetxLimit (f_opts f1)) l1 (visit (pendings l1)) = (l1, None)" using fa(2) by simp
  have it: "fetch_iter MinF MaxInt visit (Rx pkt, tm) (f, l) = (case fetch_send MinF MaxInt (nowTx tm) f1 l1 of (l, status) \<Rightarrow> ((f1, l), status))"
    using 1 sc by (simp add: fetch_iter_def)
  show ?thesis
  proof (cases "IsFinalBlock (dat k)")
    case True
    have "unat (word_of_nat k :: u64) = k" "unat (word_of_nat (Suc k) :: u64) = Suc k" using assms(9) by (simp_all add: unat_of_nat del: of_nat_Suc)
    then have "\<not> segNext l1 \<le> segLast l1" using True r(2) fa(4) by (simp add: word_le_nat_alt del: of_nat_Suc)
    then have "fetch_send MinF MaxInt (nowTx tm) f1 l1 = (l1, Done None)"
      using window_open [OF assms(1,2) _ fa(2,3), of f1] assms(3) same_fetcher_simps(5) [OF fa(1)] fa(2,3) by (simp add: fetch_send_def)
    then show ?thesis using True r(1) it by auto
  next
    case False
    obtain l2 where "fetch_send MinF MaxInt (nowTx tm) f1 l1 = (l2, Running)" "lock_at f0 dat (Suc k) f1 l2"
      using send_free [OF assms(1-3) r(1) _ assms(9)] r(2) False by auto
    then show ?thesis using False it by auto
  qed
qed

lemma run_lock:
  assumes "\<forall>a b. MinF a b = min a b" "\<forall>a b. MaxInt a b = max a b" "1 \<le> MaxCwnd (f_opts f0)" "visits_all visit"
    and "\<forall>k < n. p_Data (pkt k) = Some (dat k) \<and> verify_data f0 (dat k) = None \<and> d_Name (dat k) = f_prefix f0 @ [makeSegmentNameComponent (word_of_nat k)]
      \<and> IsFinalBlock (dat k) = (Suc k = n)"
    and "n < 2 ^ 63" "lock_at f0 dat k f l" "k < n"
  shows "\<exists>f' l'. fetch_run MinF MaxInt visit (map (\<lambda>i. (Rx (pkt i), tm i)) [k..<n]) (f, l) = ((f', l'), Done None) \<and> free_at f0 dat n f' l'"
  using assms(7,8)
proof (induction "n - k" arbitrary: k f l)
  case (Suc m)
  have k: "p_Data (pkt k) = Some (dat k)" "verify_data f0 (dat k) = None" "d_Name (dat k) = f_prefix f0 @ [makeSegmentNameComponent (word_of_nat k)]"
    "IsFinalBlock (dat k) = (Suc k = n)" "Suc k < 2 ^ 63" using assms(5,6) Suc.prems(2) by auto
  note it = iter_lock [OF assms(1-4) Suc.prems(1) k(1-3,5), where tm = "tm k"]
  have up: "[k..<n] = k # [Suc k..<n]" using Suc.prems(2) by (simp add: upt_conv_Cons)
  show ?case
  proof (cases "Suc k = n")
    case True
    then show ?thesis using it k(4) unfolding up by auto
  next
    case False
    then obtain f' l' where fl: "fetch_iter MinF MaxInt visit (Rx (pkt k), tm k) (f, l) = ((f', l'), Running)" "lock_at f0 dat (Suc k) f' l'"
      using it k(4) by auto
    have "m = n - Suc k" "Suc k < n" using Suc.hyps(2) Suc.prems(2) False by auto
    from Suc.hyps(1) [OF this(1) fl(2) this(2)] show ?thesis using fl(1) unfolding up by simp
  qed
qed simp

lemma final_iff:
  assumes "serve_ok sopts content" "sz = None \<or> sz = Some (int (length content))" "n = nsegs (nat (srv_ChunkSize sopts)) content"
    and "k < n" "d_Name d = srv_Prefix sopts @ [makeSegmentNameComponent (word_of_nat k)]" "authentic sopts sz content d"
  shows "IsFinalBlock d = (Suc k = n)"
proof -
  let ?c = "nat (srv_ChunkSize sopts)"
  have n: "n * ?c < 2 ^ 63" "n < 2 ^ 63" unfolding assms(3) by (rule nsegs_small [OF assms(1) refl])+
  have u: "unat (word_of_nat k :: u64) = k" using assms(4) n(2) by (simp add: unat_of_nat)
  have "k * ?c \<le> n * ?c" using assms(4) by (intro mult_le_mono1) simp
  then have s: "unat (word_of_nat k :: u64) * ?c < 2 ^ 63" unfolding u using n(1) by (rule order.strict_trans1)
  have "extractSegment (d_Name d) (length (srv_Prefix sopts)) = Some (word_of_nat k)" unfolding assms(5) by (rule extract_make)
  from authentic_segment [OF assms(6,1,2) this s refl] have "IsFinalBlock d \<longleftrightarrow> k = n - 1" unfolding u assms(3) by blast
  then show ?thesis using assms(4) by auto
qed

lemma lossless_run:
  assumes "serve_ok sopts content" "sz = None \<or> sz = Some (int (length content))" "n = nsegs (nat (srv_ChunkSize sopts)) content"
    and "\<forall>a b. MinF a b = min a b" "\<forall>a b. MaxInt a b = max a b" "visits_all visit"
    and "SegmentBegin opts = 0" "SegmentEnd opts = 0" "0 \<le> MaxCwnd opts" "fo_Verifier opts = Some ver"
    and "\<forall>k < n. p_Data (pkt k) = Some (dat k) \<and> ver (dat k) = None \<and> d_Name (dat k) = srv_Prefix sopts @ [makeSegmentNameComponent (word_of_nat k)]
      \<and> authentic sopts sz content (dat k)"
  shows "\<exists>f l. Unordered MinF MaxInt visit None ((Tick, tstart) # map (\<lambda>k. (Rx (pkt k), tm k)) [0..<n]) (Fetch (srv_Prefix sopts) opts) = ((f, l), Done None)
    \<and> free_at (Fetch (srv_Prefix sopts) opts) dat n f l"
proof -
  let ?f = "Fetch (srv_Prefix sopts) opts"
  have n: "n < 2 ^ 63" "0 < n" unfolding assms(3) by (rule nsegs_small [OF assms(1) refl]) (simp add: nsegs_def less_max_iff_disj)
  have w: "1 \<le> MaxCwnd (f_opts ?f)" using assms(9) by (simp add: Fetch_def Fetch_applyDefaults_def Let_def)
  have d: "\<forall>k < n. p_Data (pkt k) = Some (dat k) \<and> verify_data ?f (dat k) = None \<and> d_Name (dat k) = f_prefix ?f @ [makeSegmentNameComponent (word_of_nat k)]
    \<and> IsFinalBlock (dat k) = (Suc k = n)" using assms(11) final_iff [OF assms(1-3)] by (simp add: Fetch_options assms(10))
  have "visit [] = []" using visits_all_set [OF assms(6), of "[]"] by simp
  then have it: "fetch_iter MinF MaxInt visit (Tick, tstart) (?f, fetch_start ?f) = (case fetch_send MinF MaxInt (nowTx tstart) ?f (fetch_start ?f) of (l, st) \<Rightarrow> ((?f, l), st))"
    by (simp add: fetch_iter_def fetch_start_def)
  have "free_at ?f dat 0 ?f (fetch_start ?f)" "segLast (fetch_start ?f) = 0xFFFFFFFFFFFFFFFE"
    by (simp_all add: free_at_def fetch_start_def same_fetcher_def Fetch_options assms(7,8))
  from send_free [OF assms(4,5) w this] obtain l0 where
    l0: "fetch_send MinF MaxInt (nowTx tstart) ?f (fetch_start ?f) = (l0, Running)" "lock_at ?f dat 0 ?f l0" by auto
  from run_lock [OF assms(4,5) w assms(6) d n(1) l0(2) n(2)] obtain f l where
    r: "fetch_run MinF MaxInt visit (map (\<lambda>i. (Rx (pkt i), tm i)) [0..<n]) (?f, l0) = ((f, l), Done None)" "free_at ?f dat n f l" by blast
  then show ?thesis using it l0(1) by (auto simp: Unordered_def)
qed

subsection \<open>Replies of the producer\<close>

definition serve_reply :: "ServeOptions \<Rightarrow> int option \<Rightarrow> bytes \<Rightarrow> nat \<Rightarrow> Data" where
  "serve_reply sopts sz content k =
     fst (Serve sopts sz (bytes_ReadAt content) (zero_Interest\<lparr>i_Name := srv_Prefix sopts @ [makeSegmentNameComponent (word_of_nat k)]\<rparr>))"

lemma serve_reply_ok:
  assumes "serve_ok sopts content" "c = nat (srv_ChunkSize sopts)" "k < nsegs c content"
  shows "d_Name (serve_reply sopts sz content k) = srv_Prefix sopts @ [makeSegmentNameComponent (word_of_nat k)]
    \<and> authentic sopts sz content (serve_reply sopts sz content k)"
proof -
  let ?i = "zero_Interest\<lparr>i_Name := srv_Prefix sopts @ [makeSegmentNameComponent (word_of_nat k)]\<rparr>"
  have n: "nsegs c content * c < 2 ^ 63" "nsegs c content < 2 ^ 63" by (rule nsegs_small [OF assms(1,2)])+
  have u: "unat (word_of_nat k :: u64) = k" using assms(3) n(2) by (simp add: unat_of_nat)
  have "k * c \<le> nsegs c content * c" using assms(3) by (intro mult_le_mono1) simp
  then have s: "unat (word_of_nat k :: u64) * nat (srv_ChunkSize sopts) < 2 ^ 63" unfolding u assms(2) [symmetric] using n(1) by (rule order.strict_trans1)
  have "extractSegment (i_Name ?i) (length (srv_Prefix sopts)) = Some (word_of_nat k)" by (simp add: extract_make)
  note r = Serve_reply [OF assms(1) this s assms(2), of sz, unfolded u]
  have nm: "d_Name (serve_reply sopts sz content k) = i_Name ?i" using r assms(3) by (simp add: serve_reply_def reply_base_def)
  then have "zero_Interest\<lparr>i_Name := d_Name (serve_reply sopts sz content k)\<rparr> = ?i" by simp
  then show ?thesis unfolding authentic_def using r assms(3) nm by (simp add: serve_reply_def)
qed

definition sample_serve :: ServeOptions where
  "sample_serve = \<lparr>srv_Prefix = [\<lparr>Type = 8, Value = [0x41]\<rparr>], srv_ContentType = 0, srv_Freshness = 0, srv_ChunkSize = 2\<rparr>"

definition sample_verify :: "Data \<Rightarrow> error option" where
  "sample_verify d = (if authentic sample_serve None [1, 2, 3] d then None else Some (ErrOther ''verify''))"

definition sample_fetch :: FetchOptions where
  "sample_fetch = \<lparr>SegmentBegin = 0, SegmentEnd = 0, RetxLimit = 0, MaxCwnd = 0, fo_Verifier = Some sample_verify\<rparr>"

definition sample_inputs :: "(fetch_input \<times> fetch_times) list" where
  "sample_inputs = (Tick, \<lparr>nowRx = 0, nowScan = 0, nowTx = 0\<rparr>)
     # map (\<lambda>k. (Rx (zero_Packet\<lparr>p_Data := Some (serve_reply sample_serve None [1, 2, 3] k)\<rparr>), \<lparr>nowRx = 5, nowScan = 6, nowTx = 7\<rparr>)) [0..<2]"

lemma sample_ok:
  "serve_ok sample_serve [1, 2, 3]" "nsegs (nat (srv_ChunkSize sample_serve)) [1, 2, 3] = 2" "visits_all (\<lambda>xs. xs)"
  "SegmentBegin sample_fetch = 0" "SegmentEnd sample_fetch = 0" "0 \<le> MaxCwnd sample_fetch" "fo_Verifier sample_fetch = Some sample_verify"
  "length sample_inputs * nat (srv_ChunkSize sample_serve) < 2 ^ 63"
  by (simp_all add: serve_ok_def sample_serve_def sample_fetch_def nsegs_def visits_all_def sample_inputs_def)

lemma sample_replies:
  "\<forall>k < 2. p_Data (zero_Packet\<lparr>p_Data := Some (serve_reply sample_serve None [1, 2, 3] k)\<rparr>) = Some (serve_reply sample_serve None [1, 2, 3] k)
     \<and> sample_verify (serve_reply sample_serve None [1, 2, 3] k) = None
     \<and> d_Name (serve_reply sample_serve None [1, 2, 3] k) = srv_Prefix sample_serve @ [makeSegmentNameComponent (word_of_nat k)]
     \<and> authentic sample_serve None [1, 2, 3] (serve_reply sample_serve None [1, 2, 3] k)"
  using serve_reply_ok [OF sample_ok(1) refl] unfolding sample_ok(2) sample_verify_def by simp

subsection \<open>The properties\<close>

text \<open>
  C8 (Fetch_returns_content). Composition of \<open>Serve\<close> and \<open>Fetch\<close>: when the verifier accepts only Data of the producer, then whatever
  arrives, in whatever order, with losses, duplicates, timeouts and retransmissions, a retrieval that returns without error has the
  producer's content as its payload, and it has counted every segment once.
\<close>

theorem Fetch_returns_content:
  assumes "serve_ok sopts content" "sz = None \<or> sz = Some (int (length content))"
    and "\<forall>d. ver d = None \<longrightarrow> authentic sopts sz content d"
    and "SegmentBegin opts = 0" "SegmentEnd opts = 0" "fo_Verifier opts = Some ver" "visits_all visit"
    and "length inputs * nat (srv_ChunkSize sopts) < 2 ^ 63"
    and "Unordered MinF MaxInt visit None inputs (Fetch (srv_Prefix sopts) opts) = ((f, l), Done None)"
  shows "Payload f (l_unordered l) None = Ok content \<and> Fetch_Count f = int (nsegs (nat (srv_ChunkSize sopts)) content)"
proof -
  have i: "loop_inv f l" "same_fetcher (Fetch (srv_Prefix sopts) opts) f" "unat (segNext l) \<le> length inputs" "pendings l = []" "segLast l < segNext l"
    using Unordered_inv [OF assms(9,7)] assms(4) by auto
  note sf = same_fetcher_simps [OF i(2)]
  have "\<forall>d \<in> set (l_unordered l). verify_data f d = None" using i(1) unfolding loop_inv_def seg_ok_def seg_data_ok_def by blast
  then have "\<forall>d \<in> set (l_unordered l). authentic sopts sz content d" using assms(3) unfolding sf(3) Fetch_options(4) [OF assms(6)] by blast
  moreover have "unat (segNext l) * nat (srv_ChunkSize sopts) < 2 ^ 63" using mult_le_mono1 [OF i(3)] assms(8) by (rule order.strict_trans1)
  ultimately show ?thesis
    by (intro delivered [OF i(1,4,5) _ assms(1,2)]) (simp_all add: sf(5,6) Fetch_options assms(4,5))
qed

lemma sample_fetch_run:
  "\<exists>f l. Unordered min max (\<lambda>xs. xs) None sample_inputs (Fetch (srv_Prefix sample_serve) sample_fetch) = ((f, l), Done None)"
  using lossless_run [where MinF = min and MaxInt = max and tstart = "\<lparr>nowRx = 0, nowScan = 0, nowTx = 0\<rparr>" and tm = "\<lambda>_. \<lparr>nowRx = 5, nowScan = 6, nowTx = 7\<rparr>",
      OF sample_ok(1) _ sample_ok(2) [symmetric] _ _ sample_ok(3-7) sample_replies]
  unfolding sample_inputs_def by auto

theorem Fetch_returns_content_witness:
  "\<exists>f l. Unordered min max (\<lambda>xs. xs) None sample_inputs (Fetch (srv_Prefix sample_serve) sample_fetch) = ((f, l), Done None)
    \<and> Payload f (l_unordered l) None = Ok [1, 2, 3] \<and> Fetch_Count f = 2"
proof -
  obtain f l where r: "Unordered min max (\<lambda>xs. xs) None sample_inputs (Fetch (srv_Prefix sample_serve) sample_fetch) = ((f, l), Done None)"
    using sample_fetch_run by blast
  have "\<forall>d. sample_verify d = None \<longrightarrow> authentic sample_serve None [1, 2, 3] d" by (simp add: sample_verify_def)
  from Fetch_returns_content [OF sample_ok(1) _ this sample_ok(4,5,7,3,8) r] r show ?thesis unfolding sample_ok(2) by auto
qed



end
