(* ===== verification/Seg_Retx.thy ===== *)
theory Seg_Retx
  imports Seg_Live
begin

text \<open>
  How often the fetcher asks for a segment, and the errors of the segmented object code that concrete inputs show.
\<close>

definition sends :: "fetcher \<Rightarrow> fetch_loop \<Rightarrow> u64 \<Rightarrow> nat" where
  "sends f l k = length (filter (\<lambda>pkt. interest_name pkt = Some (f_prefix f @ [makeSegmentNameComponent k])) (l_sent l))"

definition retx_ok :: "fetcher \<Rightarrow> fetch_loop \<Rightarrow> bool" where
  "retx_ok f l \<longleftrightarrow> (\<forall>k. sends f l k \<le> 1 + nat (RetxLimit (f_opts f)))
     \<and> (\<forall>k fs. pmap l k = Some fs \<longrightarrow> int (sends f l k) = NRetx fs + 1 \<and> (fs_InRetxQ fs \<longrightarrow> NRetx fs < RetxLimit (f_opts f)))
     \<and> (\<forall>k. segNext l \<le> k \<longrightarrow> sends f l k = 0)"

lemma sends_snoc:
  assumes "makeInterest f s = Ok pkt" "l_sent l' = l_sent l @ [pkt]"
  shows "sends f l' k = sends f l k + (if k = s then 1 else 0)"
proof -
  have "interest_name pkt = Some (f_prefix f @ [makeSegmentNameComponent s])"
    using makeInterest_ok [of f s] assms(1) by (auto simp: interest_name_def)
  then show ?thesis by (auto simp: sends_def assms(2) makeSegment_inj)
qed

lemma retx_sub:
  assumes "retx_ok f l" "pmap l' \<subseteq>\<^sub>m pmap l" "l_sent l' = l_sent l" "segNext l' = segNext l" "same_fetcher f f'"
  shows "retx_ok f' l'"
proof -
  have s: "sends f' l' = sends f l" using assms(3,5) by (simp add: sends_def same_fetcher_def fun_eq_iff)
  have "pmap l k = Some fs" if "pmap l' k = Some fs" for k fs using assms(2) that by (metis domI map_le_def)
  then show ?thesis using assms(1,5) unfolding retx_ok_def s assms(4) same_fetcher_def by metis
qed

lemma rx_retx:
  assumes "fetch_rx now pkt (f, l) = (f', l')" "retx_ok f l"
  shows "retx_ok f' l'"
proof (cases "(f', l') = (f, l)")
  case False
  then obtain data seg fs where "accept_data now pkt data seg fs (f, l) = (f', l')"
    using assms(1) unfolding fetch_rx_def by (auto split: option.splits if_splits)
  note a = accept_fields [OF this]
  show ?thesis by (rule retx_sub [OF assms(2) _ a(7,5,1)]) (simp add: a(3) delete_conv' map_le_def)
qed (use assms(2) in simp)

lemma scan_retx:
  assumes "fetch_scan now (RetxLimit (f_opts f)) l rest = (l', e)" "retx_ok f l"
    and "distinct (map fst rest)" "\<forall>(k, fs) \<in> set rest. pmap l k = Some fs"
  shows "retx_ok f l'"
  using assms
proof (induction now "RetxLimit (f_opts f)" l rest rule: fetch_scan.induct)
  case (2 now l seg fs rest)
  have pm: "pmap l seg = Some fs" using "2.prems"(4) by simp
  have others: "\<forall>(k, fs') \<in> set rest. k \<noteq> seg" using "2.prems"(3) by force
  have dr: "distinct (map fst rest)" "\<forall>(k, fs) \<in> set rest. pmap l k = Some fs" using "2.prems"(3,4) by simp_all
  show ?case
  proof (cases "seg > segLast l")
    case True
    let ?l = "l\<lparr>retxQ := if fs_InRetxQ fs then remove1 seg (retxQ l) else retxQ l, pendings := AList.delete seg (pendings l)\<rparr>"
    have e: "fetch_scan now (RetxLimit (f_opts f)) ?l rest = (l', e)" using "2.prems"(1) True by (cases "fs_InRetxQ fs") (simp_all add: Let_def)
    have "retx_ok f ?l" by (rule retx_sub [OF "2.prems"(2)]) (simp_all add: delete_conv' map_le_def same_fetcher_def)
    moreover have "\<forall>(k, fs) \<in> set rest. pmap ?l k = Some fs" using dr(2) others by (auto simp: delete_conv')
    ultimately show ?thesis using "2.hyps"(1) [OF True refl] e dr(1) by (cases "fs_InRetxQ fs") (simp_all add: Let_def)
  next
    case False
    show ?thesis
    proof (cases "\<not> fs_InRetxQ fs \<and> RtoExpiry fs < now")
      case timeout: True
      show ?thesis
      proof (cases "NRetx fs \<ge> RetxLimit (f_opts f)")
        case True
        then show ?thesis using "2.prems"(1,2) False timeout by simp
      next
        case limit: False
        let ?l = "l\<lparr>l_rtte := rtte_Backoff (l_rtte l), l_ca := cubic_Decrease (RtoExpiry fs) (l_ca l), retxQ := retxQ l @ [seg],
          pendings := AList.update seg (fs\<lparr>fs_InRetxQ := True\<rparr>) (pendings l)\<rparr>"
        have e: "fetch_scan now (RetxLimit (f_opts f)) ?l rest = (l', e)" using "2.prems"(1) False timeout limit by simp
        have s: "sends f ?l = sends f l" by (simp add: sends_def fun_eq_iff)
        have "retx_ok f ?l" using "2.prems"(2) pm limit unfolding retx_ok_def s by (simp add: update_conv')
        moreover have "\<forall>(k, fs) \<in> set rest. pmap ?l k = Some fs" using dr(2) others by (auto simp: update_conv')
        ultimately show ?thesis using "2.hyps"(2) [OF False timeout limit e] dr(1) by simp
      qed
    next
      case keep: False
      have "fetch_scan now (RetxLimit (f_opts f)) l rest = (l', e)" using "2.prems"(1) False keep by (simp only: fetch_scan.simps if_False)
      then show ?thesis using "2.hyps"(3) [OF False keep] "2.prems"(2) dr by simp
    qed
  qed
qed simp

lemma send_retx:
  assumes "fetch_send MinF MaxInt now f l = (l', st)" "loop_inv f l" "retx_ok f l"
  shows "retx_ok f l'"
proof (cases "l' = l")
  case changed: False
  have rk: "\<forall>k. sends f l k \<le> 1 + nat (RetxLimit (f_opts f))" "\<forall>k. segNext l \<le> k \<longrightarrow> sends f l k = 0"
    "\<forall>k fs. pmap l k = Some fs \<longrightarrow> int (sends f l k) = NRetx fs + 1 \<and> (fs_InRetxQ fs \<longrightarrow> NRetx fs < RetxLimit (f_opts f))"
    using assms(3) unfolding retx_ok_def by blast+
  show ?thesis
  proof (cases "retxQ l")
    case (Cons seg q)
    have "seg \<in> {k. \<exists>fs. pmap l k = Some fs \<and> fs_InRetxQ fs}" using assms(2) Cons unfolding loop_inv_def queue_ok_def by (metis list.set_intros(1))
    then obtain fs where fs: "pmap l seg = Some fs" "fs_InRetxQ fs" by blast
    obtain pkt where pkt: "makeInterest f seg = Ok pkt" using makeInterest_ok by blast
    let ?fs = "(setTimeNow now (rtte_Rto (l_rtte l)) (fs\<lparr>fs_InRetxQ := False\<rparr>))\<lparr>NRetx := NRetx fs + 1\<rparr>"
    have l': "l' = l\<lparr>retxQ := q, pendings := AList.update seg ?fs (pendings l), l_sent := l_sent l @ [pkt]\<rparr>"
      using assms(1) changed Cons fs pkt by (auto simp: fetch_send_def Let_def split: if_splits)
    have s: "sends f l' k = sends f l k + (if k = seg then 1 else 0)" for k using sends_snoc [OF pkt, of l' l] by (simp add: l')
    have sn: "segNext l' = segNext l" by (simp add: l')
    have c: "int (sends f l seg) = NRetx fs + 1" "NRetx fs < RetxLimit (f_opts f)" using rk(3) fs by blast+
    have "\<not> segNext l \<le> seg" using c(1) rk(2) assms(2) fs(1) unfolding loop_inv_def seg_ok_def by (meson domI leD)
    moreover have "sends f l seg + 1 \<le> 1 + nat (RetxLimit (f_opts f))" using c by linarith
    ultimately show ?thesis using rk c unfolding retx_ok_def s sn by (auto simp: l' update_conv' setTimeNow_def)
  next
    case Nil
    have nx: "segNext l \<le> segLast l" using assms(1) changed Nil by (auto simp: fetch_send_def split: if_splits)
    obtain pkt where pkt: "makeInterest f (segNext l) = Ok pkt" using makeInterest_ok by blast
    let ?fs = "setTimeNow now (rtte_Rto (l_rtte l)) \<lparr>TxTime = 0, RtoExpiry = 0, NRetx = 0, fs_InRetxQ = False\<rparr>"
    have l': "l' = l\<lparr>segNext := segNext l + 1, pendings := AList.update (segNext l) ?fs (pendings l), l_sent := l_sent l @ [pkt]\<rparr>"
      using assms(1) changed Nil nx pkt by (auto simp: fetch_send_def Let_def split: if_splits)
    have s: "sends f l' k = sends f l k + (if k = segNext l then 1 else 0)" for k using sends_snoc [OF pkt, of l' l] by (simp add: l')
    have sn: "segNext l' = segNext l + 1" by (simp add: l')
    have "segLast l < 0xFFFFFFFFFFFFFFFF" using assms(2) unfolding loop_inv_def seg_ok_def by blast
    then have lt: "k < segNext l + 1 \<longleftrightarrow> k < segNext l \<or> k = segNext l" for k by (rule word_le_add_1 [OF order.strict_trans1 [OF nx]])
    have "segNext l \<le> k \<and> k \<noteq> segNext l" if "segNext l + 1 \<le> k" for k using that lt [of k] by (metis leD leI)
    moreover have "sends f l (segNext l) = 0" using rk(2) by blast
    ultimately show ?thesis using rk unfolding retx_ok_def s sn by (auto simp: l' update_conv' setTimeNow_def)
  qed
qed (use assms(3) in simp)

lemma iter_retx:
  assumes "fetch_iter MinF MaxInt visit (inp, tm) (f, l) = ((f', l'), st)" "boundary_inv f l" "visits_all visit" "retx_ok f l"
  shows "retx_ok f' l'"
proof (cases "inp = Cancel")
  case True
  then show ?thesis using assms(1,4) by (auto simp: fetch_iter_def)
next
  case False
  obtain l1 l2 e where 1: "(case inp of Rx pkt \<Rightarrow> fetch_rx (nowRx tm) pkt (f, l) | _ \<Rightarrow> (f, l)) = (f', l1)"
    and 2: "fetch_scan (nowScan tm) (RetxLimit (f_opts f')) l1 (visit (pendings l1)) = (l2, e)" and i1: "loop_inv f' l1"
    and vd: "distinct (map fst (visit (pendings l1)))" and vp: "\<forall>(k, fs) \<in> set (visit (pendings l1)). pmap l1 k = Some fs"
    and 3: "case e of Some err \<Rightarrow> l' = l2 \<and> st = Done (Some err) | None \<Rightarrow> fetch_send MinF MaxInt (nowTx tm) f' l2 = (l', st)"
    by (rule iter_parts [OF assms(1-3) False])
  have "retx_ok f' l1" using 1 assms(4) rx_retx by (cases inp) auto
  then have r2: "retx_ok f' l2" by (rule scan_retx [OF 2 _ vd vp])
  have "seg_ok f' l1" "queue_ok l1" using i1 by (simp_all add: loop_inv_def)
  from scan_inv [OF 2 this vd vp] i1 have "loop_inv f' l2" by (simp add: loop_inv_def last_ok_def)
  then show ?thesis using 3 r2 send_retx by (cases e) auto
qed

lemma run_retx:
  assumes "fetch_run MinF MaxInt visit inputs (f, l) = ((f', l'), st)" "boundary_inv f l" "visits_all visit" "retx_ok f l"
  shows "retx_ok f' l'"
  using assms(1,2,4)
proof (induction inputs arbitrary: f l)
  case (Cons x xs)
  obtain inp tm where x: "x = (inp, tm)" by (cases x)
  obtain f1 l1 st1 where 1: "fetch_iter MinF MaxInt visit (inp, tm) (f, l) = ((f1, l1), st1)" by (metis prod_cases3 surj_pair)
  note r = iter_retx [OF 1 Cons.prems(2) assms(3) Cons.prems(3)]
  show ?case
  proof (cases "st1 = Running")
    case True
    have "boundary_inv f1 l1" using iter_inv [OF 1 Cons.prems(2) assms(3)] True by blast
    moreover have "fetch_run MinF MaxInt visit xs (f1, l1) = ((f', l'), st)" using Cons.prems(1) 1 True by (simp add: x)
    ultimately show ?thesis using Cons.IH r by blast
  next
    case False
    then show ?thesis using Cons.prems(1) 1 r by (cases st1) (auto simp: x)
  qed
qed simp

text \<open>
  C20 (Fetch_retx_bounded). Whatever arrives and whatever the clock shows, the fetcher never dereferences a nil pointer, it sends the
  Interest of a segment at most once more than \<open>RetxLimit\<close> allows retransmissions, and every Data it passes on was verified, is
  of the object, and is passed on once.
\<close>

theorem Fetch_retx_bounded:
  assumes "visits_all visit" "Unordered MinF MaxInt visit None inputs (Fetch name opts) = ((f, l), st)"
  shows "st \<noteq> Crashed
    \<and> length (filter (\<lambda>pkt. interest_name pkt = Some (name @ [makeSegmentNameComponent k])) (l_sent l)) \<le> 1 + nat (RetxLimit opts)
    \<and> distinct (map (seg_of f) (l_unordered l))
    \<and> (\<forall>d \<in> set (l_unordered l). verify_data (Fetch name opts) d = None \<and> (\<exists>c. d_Name d = name @ [c]))"
proof -
  have i: "loop_inv f l" "same_fetcher (Fetch name opts) f" "st \<noteq> Crashed" using Unordered_inv [OF assms(2,1)] by blast+
  note sf = same_fetcher_simps [OF i(2)]
  have "retx_ok (Fetch name opts) (fetch_start (Fetch name opts))" by (simp add: retx_ok_def sends_def fetch_start_def)
  from run_retx [OF _ start_inv assms(1) this] have "retx_ok f l" using assms(2) unfolding Unordered_def by fastforce
  then have "sends f l k \<le> 1 + nat (RetxLimit (f_opts f))" unfolding retx_ok_def by blast
  moreover have "RetxLimit (f_opts f) = RetxLimit opts" unfolding sf(5) by (simp add: Fetch_def Fetch_applyDefaults_def Let_def)
  ultimately have "length (filter (\<lambda>pkt. interest_name pkt = Some (name @ [makeSegmentNameComponent k])) (l_sent l)) \<le> 1 + nat (RetxLimit opts)"
    unfolding sends_def sf(6) Fetch_options by simp
  moreover have "distinct (map (seg_of f) (l_unordered l))" using i(1) unfolding loop_inv_def seg_ok_def by blast
  moreover have "verify_data (Fetch name opts) d = None \<and> (\<exists>c. d_Name d = name @ [c])" if "d \<in> set (l_unordered l)" for d
  proof -
    have "seg_data_ok f d" using i(1) that unfolding loop_inv_def seg_ok_def by blast
    then have d: "verify_data (Fetch name opts) d = None" "prefix name (d_Name d)" "extractSegment (d_Name d) (length name) = Some (seg_of f d)"
      by (simp_all add: seg_data_ok_def sf(3,6) Fetch_options)
    then obtain zs where "d_Name d = name @ zs" "length zs = 1" using extractSegment_name [OF d(3)] by (auto simp: prefix_def)
    then show ?thesis using d(1) by (auto simp: length_Suc_conv)
  qed
  ultimately show ?thesis using i(3) by blast
qed

theorem Fetch_retx_bounded_witness:
  "\<exists>f l. Unordered min max (\<lambda>xs. xs) None sample_inputs (Fetch (srv_Prefix sample_serve) sample_fetch) = ((f, l), Done None)
    \<and> length (filter (\<lambda>pkt. interest_name pkt = Some (srv_Prefix sample_serve @ [makeSegmentNameComponent 1])) (l_sent l)) \<le> 1"
proof -
  obtain f l where r: "Unordered min max (\<lambda>xs. xs) None sample_inputs (Fetch (srv_Prefix sample_serve) sample_fetch) = ((f, l), Done None)"
    using sample_fetch_run by blast
  from Fetch_retx_bounded [OF sample_ok(3) r, of 1] r show ?thesis by (auto simp: sample_fetch_def)
qed

subsection \<open>Where the code does not do what it means to\<close>

text \<open>
  C39 (Serve_read_error_truncates). When the source returns part of a chunk together with an error that is not the end of the source, the
  handler reports no error: it answers with that part, and marks the segment as the last one of the object.
\<close>

theorem Serve_read_error_truncates:
  assumes "0 < srv_ChunkSize opts" "extractSegment (i_Name interest) (length (srv_Prefix opts)) = Some seg"
    and "ReadAt (sint (seg * word_of_int (srv_ChunkSize opts))) (nat (srv_ChunkSize opts) + 1) = (payload, Some ReadError)"
    and "0 < length payload" "length payload \<le> nat (srv_ChunkSize opts)"
  shows "\<exists>d. Serve opts sz ReadAt interest = (d, None) \<and> d_Content d = payload \<and> IsFinalBlock d"
proof -
  have e: "extractSegment (i_Name interest) (length (srv_Prefix opts)) = Some seg" by (rule assms(2))
  have "Name_Get (i_Name interest) (- 1) = i_Name interest ! length (srv_Prefix opts)"
    using extractSegment_name [OF e] by (simp add: Name_Get_def nat_add_distrib)
  moreover have "NameComponent_Valid (i_Name interest ! length (srv_Prefix opts))"
    using extractSegment_name [OF e] by (simp add: NameComponent_Valid_def isValidNameComponentType_def)
  ultimately show ?thesis
    using Serve_unfold [where ReadAt = ReadAt, OF assms(1,2,3), of sz] assms(4,5) by (simp add: Let_def IsFinalBlock_def reply_base_def)
qed

theorem Serve_read_error_truncates_witness:
  "\<exists>d. Serve sample_serve None (\<lambda>off len. ([9], Some ReadError)) (zero_Interest\<lparr>i_Name := srv_Prefix sample_serve @ [makeSegmentNameComponent 0]\<rparr>) = (d, None)
    \<and> d_Content d = [9] \<and> IsFinalBlock d"
  by (rule Serve_read_error_truncates [of _ _ 0]) (simp_all add: extract_make, simp_all add: sample_serve_def)

text \<open>The offset of a segment is computed with 64 bits, so numbers that are far apart read the same chunk.\<close>

lemma Serve_offset_wraps:
  assumes "srv_ChunkSize opts = 4096" "content \<noteq> []"
  shows "snd (Serve opts sz (bytes_ReadAt content) (zero_Interest\<lparr>i_Name := srv_Prefix opts @ [makeSegmentNameComponent (2 ^ 52)]\<rparr>)) = None"
proof -
  have o: "sint ((2 ^ 52 :: u64) * word_of_int (srv_ChunkSize opts)) = 0" by (simp add: assms(1))
  obtain b e where r: "bytes_ReadAt content 0 (nat (srv_ChunkSize opts) + 1) = (b, e)" "b \<noteq> []"
    using assms by (cases content) (simp_all add: bytes_ReadAt_def Let_def)
  have "0 < srv_ChunkSize opts" by (simp add: assms(1))
  from Serve_unfold [where ReadAt = "bytes_ReadAt content", OF this _ r(1) [folded o], of "zero_Interest\<lparr>i_Name := srv_Prefix opts @ [makeSegmentNameComponent (2 ^ 52)]\<rparr>" sz]
  show ?thesis using r(2) by (simp add: extract_make Let_def)
qed

text \<open>
  C40 (EstimatedTotal_one_too_many). \<open>EstimatedTotal\<close> takes the number behind the last segment for the last segment: once a Data has named the
  last segment, the estimate is one more than the number of segments.
\<close>

theorem EstimatedTotal_one_too_many:
  assumes "\<forall>a b. MinUint64 a b = min a b" "SegmentEnd opts = 0" "d_FinalBlock data = makeSegmentNameComponent finalSeg"
    and "SegmentBegin opts \<le> finalSeg" "finalSeg < 2 ^ 62"
  shows "EstimatedTotal MinUint64 (final_update data (Fetch name opts)) = int (card {SegmentBegin opts..finalSeg}) + 1"
proof -
  let ?B = "SegmentBegin opts"
  have b: "unat ?B \<le> unat finalSeg" "unat finalSeg < 2 ^ 62" using assms(4,5) by (simp_all add: word_le_nat_alt word_less_nat_alt)
  have "unat ` {?B..finalSeg} = {unat ?B..unat finalSeg}"
  proof (intro equalityI subsetI)
    fix x assume x: "x \<in> {unat ?B..unat finalSeg}"
    then have "unat (word_of_nat x :: u64) = x" by (metis atLeastAtMost_iff le_unat_uoi)
    then show "x \<in> unat ` {?B..finalSeg}" using x by (intro rev_image_eqI [of "word_of_nat x"]) (simp_all only: atLeastAtMost_iff word_le_nat_alt)
  qed (auto simp: word_le_nat_alt)
  then have "card {?B..finalSeg} = card {unat ?B..unat finalSeg}" by (metis card_image inj_on_def unsigned_word_eqI)
  then have c: "int (card {?B..finalSeg}) = int (unat finalSeg) - int (unat ?B) + 1" using b(1) by simp
  have fb: "f_finalBlock (final_update data (Fetch name opts)) = finalSeg + 1" "f_opts (final_update data (Fetch name opts)) = Fetch_applyDefaults opts"
    by (simp_all add: final_update_def assms(3) makeSegment_value Fetch_def)
  have o: "SegmentEnd (Fetch_applyDefaults opts) = 0xFFFFFFFFFFFFFFFF" "SegmentBegin (Fetch_applyDefaults opts) = ?B"
    using assms(2) by (simp_all add: Fetch_applyDefaults_def Let_def)
  have u: "unat (finalSeg + 1) = unat finalSeg + 1" using b(2) by (simp add: unat_word_ariths)
  then have n: "finalSeg + 1 < 0xFFFFFFFFFFFFFFFF" using b(2) by (simp add: word_less_nat_alt)
  define i where "i = int (unat finalSeg) - int (unat ?B) + 2"
  have "unat finalSeg < 4611686018427387904" using b(2) by simp
  then have i: "0 \<le> i" "i < 9223372036854775808" unfolding i_def using b(1) by linarith+
  have "finalSeg + 1 - ?B + 1 = (word_of_int i :: u64)" by (simp add: i_def)
  moreover have "sint (word_of_int i :: u64) = i"
    by (simp only: sint_sbintrunc') (rule signed_take_bit_int_eq_self, use i in simp_all)
  ultimately have v: "sint (finalSeg + 1 - ?B + 1) = i" by simp
  have m: "MinUint64 0xFFFFFFFFFFFFFFFF (finalSeg + 1) = finalSeg + 1" using assms(1) min.absorb2 [OF order.strict_implies_order [OF n]] by simp
  have "finalSeg + 1 \<noteq> 0xFFFFFFFFFFFFFFFF" using n by (rule order.strict_implies_not_eq)
  then show ?thesis unfolding EstimatedTotal_def fb o m Let_def v c by (simp only: if_False i_def)
qed

theorem EstimatedTotal_one_too_many_witness:
  "EstimatedTotal min (final_update (zero_Data\<lparr>d_FinalBlock := makeSegmentNameComponent 9\<rparr>) (Fetch [] sample_fetch)) = int (card {0 :: u64..9}) + 1"
  using EstimatedTotal_one_too_many [of min sample_fetch "zero_Data\<lparr>d_FinalBlock := makeSegmentNameComponent 9\<rparr>" 9 "[]"]
  by (simp add: sample_fetch_def)

text \<open>
  The first measurement is not the estimate: the branch for it is taken when the timeout is zero, but the timeout starts at one second.
  After a first round trip of 200 ms the estimate is 25 ms.
\<close>

lemma rtte_first_sample: "sRtt (rtte_Push 200000000 1 newRttEstimator) = Fin (25 / 1000)"
  by (simp add: rtte_Push_def newRttEstimator_def Seconds_def Let_def rtte_consts fops)

end
