(* ===== verification/Spec2Isabelle.thy ===== *)
theory Spec2Isabelle
  imports L3_Forwarder Fib_Stale Ndt_Spec Eal_Alloc Seg_Retx
begin

text \<open>
  Verification of NDN-DPDK, a forwarder and a protocol library for Named Data Networking, in Go with a data plane in C.
  The development follows the packages of the repository from the wire format up to the forwarder and the forwarding
  table. A Go struct is a record, a pointer that is shared is an address into a store, a Go map is an association list
  and the order in which a loop ranges over a map is an argument. A call that can fail returns an \<open>outcome\<close>: a value,
  an error value, or a run-time panic, so that every early return and every index out of range is a branch of the model.
  A machine integer is a word of its width. Random draws, times and the results of the operating system are arguments.

  \<^bold>\<open>Shared notions.\<close> \<open>Ndn_Prelude\<close> has outcomes with their sequencing, loops with early return and big-endian numbers;
  \<open>Ndn_An\<close> has the assigned numbers of \<open>ndn/an\<close>.

  \<^bold>\<open>Wire format\<close> (\<open>ndn/tlv\<close>). \<open>Tlv_Num\<close> models \<open>VarNum\<close> and \<open>NNI\<close>, \<open>Tlv_Element\<close> models \<open>Element\<close> and
  \<open>DecodingBuffer\<close>, \<open>Tlv_Encode\<close> models \<open>Field\<close> and \<open>EncodingBuffer\<close>. The lemmas give a reference wire form
  \<open>tlv_bytes\<close>, that encoding produces it, that decoding inverts it, and when decoding panics. The locale \<open>tlv_codec\<close>
  states the contract of a value with an encoder and a decoder, and \<open>evolvable\<close> the skipping of unrecognised elements.

  \<^bold>\<open>Names\<close> (\<open>ndn/name.go\<close>, \<open>ndn/name-component.go\<close>). \<open>Ndn_Name\<close> shows that comparison is a total order and that the
  TLV form is a bijection on valid names; \<open>Ndn_Uri\<close> does the same for the URI form. \<open>Ndni_Name\<close> models the parser of
  the data plane (\<open>csrc/ndni/name.c\<close>) and its agreement with the Go side.

  \<^bold>\<open>Packets\<close> (\<open>ndn/sig-info.go\<close>, \<open>signing.go\<close>, \<open>interest.go\<close>, \<open>data.go\<close>, \<open>nack.go\<close>, \<open>packet.go\<close>). \<open>Ndn_SigInfo\<close>,
  \<open>Ndn_Signing\<close>, \<open>Ndn_Interest\<close>, \<open>Ndn_Data\<close>, \<open>Ndn_Packet\<close> and \<open>Ndn_Make\<close> model the records, their encoders and
  decoders, signing and verification, digests and the constructors. The properties are round trips, what a decoder
  checks, and what a signature covers. \<open>Sha256\<close> defines the digest.

  \<^bold>\<open>Links\<close> (\<open>ndn/lp.go\<close>, \<open>ndn/l3\<close>). \<open>Lp_Fragment\<close> and \<open>Lp_Reassembly\<close> show that the fragments of a packet fit the MTU
  and reassemble in any order and in any interleaving. \<open>L3_Face\<close> has the loops of a face and composes sending with
  receiving. \<open>L3_Forwarder\<close> has the logical forwarder: faces, routes, announcements and forwarding as a machine of
  events, with its invariant and the way of an Interest and of its Data through it.

  \<^bold>\<open>Forwarding table\<close> (\<open>container/fib\<close>, \<open>csrc/fib\<close>, \<open>container/strategycode\<close>). \<open>Fib_Tree\<close> and \<open>Fib_Tree_Spec\<close> have the
  name tree, which refines a map from names to entries and emits a command for every change. \<open>Strategy_Code\<close> counts the
  references of strategies, \<open>Eal_Numa\<close> has NUMA sockets, \<open>Fib_Config\<close> the configuration. \<open>Fib_Replica\<close> has a replica: the
  entries of a mempool as a map from addresses, the hash table of the lookup threads, the two-stage longest prefix match
  and the commands in their phases. \<open>Fib_Replica_Spec\<close> shows what a command does to the table and to the ownership of the
  entries; \<open>Fib_Update\<close> shows that a replica follows the tree and that the match finds the longest prefix; \<open>Fib\<close> and
  \<open>Fib_Spec\<close> compose the tree with all its replicas. \<open>Fib_Sample\<close> instantiates the containers by lists;
  \<open>Fib_Failures\<close> and \<open>Fib_Stale\<close> show three behaviours that the comments of the code exclude.

  \<^bold>\<open>Bounds.\<close> Loops are structural recursion or have a measure; no definition uses fuel. Slices are at most \<open>2 ^ 63\<close> bytes
  long (\<open>slice_ok\<close>) where the code converts a length to a signed integer. A name in the data plane is below \<open>2 ^ 16\<close>
  bytes, and a name in the forwarding table at most 494, so that it has at most 247 components and heights fit a byte.

  \<^bold>\<open>Parameters.\<close> Code of other packages is an argument with its documented laws: the LRU cache (\<open>lru_laws\<close>), the multimap
  of announcements (\<open>mm_laws\<close>), the hash table of liburcu (\<open>lfht_laws\<close>), the mempool of DPDK (\<open>mempool_laws\<close>,
  \<open>new_laws\<close>), \<open>MinInt\<close> and \<open>MaxInt\<close>. Each law has an instance on lists, on which the witnesses evaluate.

  \<^bold>\<open>Not modelled.\<close> The bindings of DPDK, SPDK and liburcu (\<open>dpdk\<close>, \<open>core/urcu\<close>, most of \<open>iface\<close>) allocate memory and
  devices of the host and have no logic of their own. The GraphQL schemas (\<open>gql.go\<close>), the command line tools (\<open>cmd\<close>),
  the build tools (\<open>mk\<close>), the JavaScript and TypeScript parts (\<open>js\<close>), the eBPF strategies (\<open>bpf\<close>), and the PIT, the
  content store and the forwarding threads of the data plane (\<open>csrc/pcct\<close>, \<open>csrc/fwdp\<close>) are left out, as are the
  traffic generators and the file server (\<open>app\<close>), whose work is in C. The \<open>String\<close> methods that format values for logs
  are left out. Concurrency is modelled as the interleaving of whole operations: a call that runs on the main thread
  (\<open>eal.CallMain\<close>) and an iteration of an event loop are atomic, and a lookup thread reads the hash table between
  operations on it.
\<close>

end
